(* ===== verification/Prelude.thy ===== *)
theory Prelude
  imports Main "HOL-Library.Word" "HOL-Library.Monad_Syntax" "HOL-Library.List_Lexorder"
begin

text \<open>
  Shared vocabulary of the development: the machine types of the Go code (bytes, 64-bit words,
  keys), Go's slice operations with their bounds, and generic facts on lists that several
  components use.  Everything the code does that can panic is a value of type \<open>option\<close>:
  \<open>None\<close> is a run-time panic (an index out of range, a nil dereference, a double close) or a
  loop that does not return, and \<open>Some\<close> is a normal result.
\<close>

unbundle bit_operations_syntax

type_synonym byte = "8 word"
type_synonym u64 = "64 word"
type_synonym bytes = "byte list"

text \<open>Go's \<open>any\<close>: \<open>None\<close> is the nil interface value.\<close>

type_synonym 'v any = "'v option"

named_theorems node_simps \<open>unfoldings of the node accessors\<close>
named_theorems bits_simps \<open>facts on masks and single bits\<close>

section \<open>Lists\<close>

subsection \<open>Insertion and removal at a position\<close>

definition insert_at :: "nat \<Rightarrow> 'a \<Rightarrow> 'a list \<Rightarrow> 'a list" where
  "insert_at i x xs = take i xs @ x # drop i xs"

definition remove_at :: "nat \<Rightarrow> 'a list \<Rightarrow> 'a list" where
  "remove_at i xs = take i xs @ drop (Suc i) xs"

lemma length_insert_at [simp]: "length (insert_at i x xs) = Suc (length xs)"
  by (simp add: insert_at_def)

lemma length_remove_at [simp]: "i < length xs \<Longrightarrow> length (remove_at i xs) = length xs - 1"
  by (simp add: remove_at_def)

lemma set_insert_at [simp]: "set (insert_at i x xs) = insert x (set xs)"
proof -
  have "set xs = set (take i xs) \<union> set (drop i xs)"
    by (metis append_take_drop_id set_append)
  then show ?thesis by (auto simp: insert_at_def)
qed

lemma map_insert_at: "map f (insert_at i x xs) = insert_at i (f x) (map f xs)"
  by (simp add: insert_at_def take_map drop_map)

lemma map_remove_at: "map f (remove_at i xs) = remove_at i (map f xs)"
  by (simp add: remove_at_def take_map drop_map)

lemma set_remove_at_subset: "set (remove_at i xs) \<subseteq> set xs"
  by (auto simp: remove_at_def dest: in_set_takeD in_set_dropD)

lemma split_at: "i < length xs \<Longrightarrow> xs = take i xs @ xs ! i # drop (Suc i) xs"
  by (simp add: id_take_nth_drop)

lemma set_remove_at_distinct:
  assumes "distinct xs" and "i < length xs"
  shows "set (remove_at i xs) = set xs - {xs ! i}"
proof -
  have eq: "xs = take i xs @ xs ! i # drop (Suc i) xs" using assms(2) by (rule split_at)
  then have d: "distinct (take i xs @ xs ! i # drop (Suc i) xs)" using assms(1) by simp
  have "set xs = set (take i xs) \<union> {xs ! i} \<union> set (drop (Suc i) xs)"
    using eq by (metis Un_insert_right list.simps(15) set_append sup_bot_right insert_is_Un Un_assoc)
  with d show ?thesis by (auto simp: remove_at_def)
qed

lemma list_update_split:
  "i < length xs \<Longrightarrow> xs[i := y] = take i xs @ y # drop (Suc i) xs"
  by (simp add: upd_conv_take_nth_drop)

lemma concat_map_split:
  "i < length xs \<Longrightarrow>
     concat (map f xs) = concat (map f (take i xs)) @ f (xs ! i) @ concat (map f (drop (Suc i) xs))"
  by (subst split_at [of i xs]) (simp, simp only: map_append concat_append, simp)

lemma sorted_wrt_insert_at:
  assumes "sorted_wrt (<) (xs :: 'a :: linorder list)"
    and "\<forall>y \<in> set (take i xs). y < x" and "\<forall>y \<in> set (drop i xs). x < y"
  shows "sorted_wrt (<) (insert_at i x xs)"
proof -
  have "sorted_wrt (<) (take i xs @ drop i xs)" using assms(1) by simp
  then show ?thesis
    using assms(2,3) unfolding insert_at_def sorted_wrt_append by auto
qed

lemma sorted_wrt_remove_at:
  "sorted_wrt P xs \<Longrightarrow> sorted_wrt P (remove_at i xs)"
proof -
  assume s: "sorted_wrt P xs"
  show ?thesis
  proof (cases "i < length xs")
    case True
    from s split_at [OF True] have "sorted_wrt P (take i xs @ xs ! i # drop (Suc i) xs)" by simp
    then show ?thesis by (auto simp: remove_at_def sorted_wrt_append)
  next
    case False
    with s show ?thesis by (simp add: remove_at_def)
  qed
qed

lemma find_append:
  "find P (xs @ ys) = (case find P xs of None \<Rightarrow> find P ys | Some x \<Rightarrow> Some x)"
  by (induction xs) auto

lemma lex_hd_less: "xs \<noteq> [] \<Longrightarrow> ys \<noteq> [] \<Longrightarrow> hd xs < hd ys \<Longrightarrow> (xs :: bytes) < ys"
  by (cases xs; cases ys) auto

lemma lex_Nil_less: "xs \<noteq> [] \<Longrightarrow> ([] :: bytes) < xs"
  by (cases xs) auto

subsection \<open>Position of a label in a sorted list\<close>

definition rank_of :: "'a :: linorder list \<Rightarrow> 'a \<Rightarrow> nat" where
  "rank_of ls l = length (filter (\<lambda>x. x < l) ls)"

lemma rank_of_le: "rank_of ls l \<le> length ls"
  by (simp add: rank_of_def)

lemma filter_less_sorted:
  "sorted_wrt (<) ls \<Longrightarrow> filter (\<lambda>x. x < l) ls = take (rank_of ls l) ls"
proof (induction ls)
  case Nil
  then show ?case by simp
next
  case (Cons x xs)
  show ?case
  proof (cases "x < l")
    case True
    with Cons show ?thesis by (simp add: rank_of_def)
  next
    case False
    with Cons.prems have "filter (\<lambda>x. x < l) xs = []"
      by (auto simp: filter_empty_conv)
    with False show ?thesis by (simp add: rank_of_def)
  qed
qed

lemma rank_of_nth:
  assumes "sorted_wrt (<) ls" and "l \<in> set ls"
  shows "rank_of ls l < length ls" and "ls ! rank_of ls l = l"
proof -
  obtain us vs where ls: "ls = us @ l # vs" using assms(2) by (auto simp: in_set_conv_decomp)
  with assms(1) have a: "\<forall>x\<in>set us. x < l" and b: "\<forall>x\<in>set vs. l < x"
    by (auto simp: sorted_wrt_append)
  have "rank_of ls l = length us"
    using a b ls by (auto simp: rank_of_def filter_id_conv filter_empty_conv dest: less_asym)
  with ls show "rank_of ls l < length ls" and "ls ! rank_of ls l = l" by auto
qed

lemma rank_of_index:
  assumes "sorted_wrt (<) ls" and "i < length ls"
  shows "rank_of ls (ls ! i) = i"
proof -
  have m: "ls ! i \<in> set ls" using assms(2) by simp
  have "distinct ls" using assms(1) by (auto simp: strict_sorted_iff)
  with rank_of_nth [OF assms(1) m] assms(2) show ?thesis by (simp add: nth_eq_iff_index_eq)
qed

lemma rank_of_take_less:
  assumes "sorted_wrt (<) ls" shows "\<forall>x \<in> set (take (rank_of ls l) ls). x < l"
  by (simp flip: filter_less_sorted [OF assms])

lemma rank_of_drop_ge:
  assumes "sorted_wrt (<) ls" shows "\<forall>x \<in> set (drop (rank_of ls l) ls). l \<le> x"
proof
  fix x assume x: "x \<in> set (drop (rank_of ls l) ls)"
  have "ls = take (rank_of ls l) ls @ drop (rank_of ls l) ls" by simp
  then have d: "set (take (rank_of ls l) ls) \<inter> set (drop (rank_of ls l) ls) = {}"
    using assms by (metis strict_sorted_iff distinct_append)
  show "l \<le> x"
  proof (rule ccontr)
    assume "\<not> l \<le> x"
    then have "x \<in> set (filter (\<lambda>y. y < l) ls)" using x by (auto dest: in_set_dropD)
    then have "x \<in> set (take (rank_of ls l) ls)" by (simp add: filter_less_sorted [OF assms])
    with x d show False by blast
  qed
qed

lemma rank_of_drop_gr:
  assumes "sorted_wrt (<) ls" and "l \<notin> set ls"
  shows "\<forall>x \<in> set (drop (rank_of ls l) ls). l < x"
  using rank_of_drop_ge [OF assms(1), of l] assms(2) by (metis in_set_dropD le_neq_trans)

lemma card_less_rank_of:
  assumes "sorted_wrt (<) ls" and "S = set ls"
  shows "card {x \<in> S. x < l} = rank_of ls l"
proof -
  have "distinct (filter (\<lambda>x. x < l) ls)" using assms(1) by (simp add: strict_sorted_iff)
  then have "card (set (filter (\<lambda>x. x < l) ls)) = rank_of ls l"
    by (simp only: rank_of_def distinct_card)
  with assms(2) show ?thesis by simp
qed

subsection \<open>Lexicographic order and prefixes\<close>

lemma lex_append_same [simp]: "(p @ a :: bytes) < p @ b \<longleftrightarrow> a < b"
  by (induction p) auto

lemma lex_append_le [simp]: "(p @ a :: bytes) \<le> p @ b \<longleftrightarrow> a \<le> b"
  by (induction p) auto

lemma lex_prefix_le: "(p :: bytes) \<le> p @ q"
  by (induction p) auto

definition starts :: "bytes \<Rightarrow> bytes \<Rightarrow> bool" where
  "starts s p \<longleftrightarrow> take (length p) s = p"

lemma starts_append [simp]: "starts (p @ k) p"
  by (simp add: starts_def)

lemma starts_self [simp]: "starts p p"
  by (simp add: starts_def)

lemma starts_Nil [simp]: "starts s []" "starts [] p \<longleftrightarrow> p = []"
  by (auto simp: starts_def)

lemma starts_iff: "starts s p \<longleftrightarrow> s = p @ drop (length p) s"
  unfolding starts_def by (metis append_take_drop_id append_eq_conv_conj)

lemma startsE: assumes "starts s p" obtains k where "s = p @ k"
  using assms by (metis starts_iff)

lemma starts_hd: "starts s p \<Longrightarrow> p \<noteq> [] \<Longrightarrow> s \<noteq> [] \<and> hd s = hd p"
  by (auto elim: startsE)

lemma starts_length: "starts s p \<Longrightarrow> length p \<le> length s"
  by (auto elim: startsE)

lemma starts_drop_eq_iff: "starts s p \<Longrightarrow> starts t p \<Longrightarrow> drop (length p) s = drop (length p) t \<longleftrightarrow> s = t"
  by (auto elim!: startsE)

lemma starts_append_iff: "starts s (p @ q) \<longleftrightarrow> starts s p \<and> starts (drop (length p) s) q"
proof
  assume "starts s (p @ q)"
  then obtain k where "s = p @ q @ k" by (auto elim: startsE)
  then show "starts s p \<and> starts (drop (length p) s) q" by simp
next
  assume a: "starts s p \<and> starts (drop (length p) s) q"
  then obtain k where s: "s = p @ k" by (auto elim: startsE)
  with a have "starts k q" by simp
  then show "starts s (p @ q)" using s by (auto elim!: startsE simp flip: append_assoc)
qed

lemma starts_linear: "starts s p \<Longrightarrow> starts s q \<Longrightarrow> length p \<le> length q \<Longrightarrow> starts q p"
  unfolding starts_def by (metis min.absorb1 take_take)

lemma starts_trans: "starts s q \<Longrightarrow> starts q p \<Longrightarrow> starts s p"
  by (auto elim!: startsE)

text \<open>The length of the longest common prefix.\<close>

fun lcp :: "bytes \<Rightarrow> bytes \<Rightarrow> nat" where
  "lcp (a # as) (b # bs) = (if a = b then Suc (lcp as bs) else 0)"
| "lcp _ _ = 0"

lemma lcp_le: "lcp a b \<le> length a" "lcp a b \<le> length b"
  by (induction a b rule: lcp.induct) auto

lemma lcp_take: "take (lcp a b) a = take (lcp a b) b"
  by (induction a b rule: lcp.induct) auto

lemma lcp_nth: "lcp a b < length a \<Longrightarrow> lcp a b < length b \<Longrightarrow> a ! lcp a b \<noteq> b ! lcp a b"
  by (induction a b rule: lcp.induct) auto

lemma lcp_starts: "lcp a b = length b \<longleftrightarrow> starts a b"
proof (induction a b rule: lcp.induct)
  case (1 a as b bs)
  then show ?case by (auto simp: starts_def)
qed (auto simp: starts_def)

lemma lcp_pos: "a \<noteq> [] \<Longrightarrow> b \<noteq> [] \<Longrightarrow> hd a = hd b \<Longrightarrow> 0 < lcp a b"
  by (cases a; cases b) auto

lemma lcp_split:
  obtains "lcp a b = length b" | "lcp a b = length a" "lcp a b < length b"
  | x xs y ys where "a = take (lcp a b) a @ x # xs" "b = take (lcp a b) a @ y # ys" "x \<noteq> y"
      "lcp a b < length a" "lcp a b < length b"
proof -
  consider "lcp a b = length b" | "lcp a b = length a" "lcp a b < length b"
    | "lcp a b < length a" "lcp a b < length b"
    using lcp_le [of a b] by linarith
  then show thesis
  proof cases
    case 3
    have "a = take (lcp a b) a @ a ! lcp a b # drop (Suc (lcp a b)) a"
      using 3 by (simp add: id_take_nth_drop)
    moreover have "b = take (lcp a b) b @ b ! lcp a b # drop (Suc (lcp a b)) b"
      using 3 by (simp add: id_take_nth_drop)
    ultimately show ?thesis using that(3) 3 lcp_nth [OF 3] by (metis lcp_take)
  qed (use that in auto)
qed

lemma sorted_assoc_unique:
  assumes "sorted_wrt (<) (map fst (xs :: (bytes \<times> 'a) list))" and "sorted_wrt (<) (map fst ys)"
    and "\<And>k. map_of xs k = map_of ys k"
  shows "xs = ys"
proof -
  have d: "distinct (map fst xs)" "distinct (map fst ys)"
    using assms(1,2) by (simp_all add: strict_sorted_iff)
  have s: "set xs = set ys"
    using map_of_eq_Some_iff [OF d(1)] map_of_eq_Some_iff [OF d(2)] assms(3) by auto
  then have "inj_on fst (set xs \<union> set ys)" using d(1) by (simp add: distinct_map)
  then show ?thesis
    using map_sorted_distinct_set_unique [of fst xs ys] assms(1,2) d s
    by (simp add: strict_sorted_iff)
qed

section \<open>Go slices\<close>

text \<open>
  \<open>copy(dst[off:], src)\<close> writes as many elements as fit.  \<open>go_copy\<close> is that effect on the whole
  of \<open>dst\<close>.
\<close>

definition go_copy :: "'a list \<Rightarrow> nat \<Rightarrow> 'a list \<Rightarrow> 'a list" where
  "go_copy dst off src =
     (let k = min (length dst - off) (length src)
      in take off dst @ take k src @ drop (off + k) dst)"

text \<open>\<open>s[k:]\<close>, which panics when \<open>k\<close> is past the end\<close>

definition slice_from :: "'a list \<Rightarrow> nat \<Rightarrow> 'a list option" where
  "slice_from xs k = (if k \<le> length xs then Some (drop k xs) else None)"

lemma slice_from_ok [simp]: "k \<le> length xs \<Longrightarrow> slice_from xs k = Some (drop k xs)"
  by (simp add: slice_from_def)

lemma length_go_copy [simp]: "off \<le> length dst \<Longrightarrow> length (go_copy dst off src) = length dst"
  by (simp add: go_copy_def Let_def min_def)

section \<open>Loops over a slice\<close>

text \<open>\<open>for _, x := range xs\<close> with an accumulator, in the option monad.\<close>

fun ofold :: "('a \<Rightarrow> 's \<Rightarrow> 's option) \<Rightarrow> 'a list \<Rightarrow> 's \<Rightarrow> 's option" where
  "ofold f [] s = Some s"
| "ofold f (x # xs) s = do { s' \<leftarrow> f x s; ofold f xs s' }"

lemma ofold_mono [partial_function_mono]:
  assumes "\<And>x s. mono_option (\<lambda>f. B f x s)"
  shows "mono_option (\<lambda>f. ofold (\<lambda>x s. B f x s) xs s)"
proof (induction xs arbitrary: s)
  case Nil
  show ?case by (simp add: monotone_def flat_ord_def)
next
  case (Cons x xs)
  show ?case unfolding ofold.simps by (intro bind_mono assms Cons.IH)
qed

lemma ofold_cong [fundef_cong]:
  "xs = ys \<Longrightarrow> s = t \<Longrightarrow> (\<And>x s. x \<in> set ys \<Longrightarrow> f x s = g x s) \<Longrightarrow> ofold f xs s = ofold g ys t"
proof (induction xs arbitrary: s t ys)
  case (Cons x xs)
  then show ?case by (cases "f x s") auto
qed auto

lemma ofold_append: "ofold f (xs @ ys) s = do { s' \<leftarrow> ofold f xs s; ofold f ys s' }"
proof (induction xs arbitrary: s)
  case (Cons x xs)
  then show ?case by (cases "f x s") simp_all
qed simp

end
