(* ===== verification/Bitmap.thy ===== *)
theory Bitmap
  imports Prelude
begin

text \<open>
  The 256-bit label bitmap of a node and the branch-free \<open>rank\<close> over it
  (\<^verbatim>\<open>internal/radix/node.go\<close>, \<open>rank\<close>, and the bitmap updates of \<open>addKid\<close>, \<open>delKid\<close> and
  \<open>Insert\<close>).  A bitmap denotes the set of labels whose bit is set; \<open>rank\<close> is shown to return the
  number of smaller labels and the membership bit, for every bitmap and label, with Go's byte
  arithmetic (\<open>w - 1\<close> wraps) and its shifts (a shift by 64 gives zero).
\<close>

section \<open>The bitmap and its operations\<close>

text \<open>\<open>[4]uint64\<close>\<close>

datatype bitmap = Bitmap u64 u64 u64 u64

fun bm_words :: "bitmap \<Rightarrow> u64 list" where
  "bm_words (Bitmap a b c d) = [a, b, c, d]"

definition bm_get :: "bitmap \<Rightarrow> byte \<Rightarrow> u64" where
  "bm_get bm w = bm_words bm ! unat w"

fun bm_set :: "bitmap \<Rightarrow> byte \<Rightarrow> u64 \<Rightarrow> bitmap" where
  "bm_set (Bitmap a b c d) w x =
     (if w = 0 then Bitmap x b c d else if w = 1 then Bitmap a x c d
      else if w = 2 then Bitmap a b x d else Bitmap a b c x)"

definition bm_zero :: bitmap where
  "bm_zero = Bitmap 0 0 0 0"

text \<open>Go's shifts take an unsigned count of any size; \<open>math/bits.OnesCount64\<close> counts set bits.\<close>

definition shl64 :: "u64 \<Rightarrow> byte \<Rightarrow> u64" where
  "shl64 x k = push_bit (unat k) x"

definition OnesCount64 :: "u64 \<Rightarrow> nat" where
  "OnesCount64 x = length (filter (bit x) [0..<64])"

function rank_loop :: "bitmap \<Rightarrow> byte \<Rightarrow> nat \<Rightarrow> nat" where
  "rank_loop bm w idx =
     (if w > 1 then rank_loop bm (w - 1) (idx + OnesCount64 (bm_get bm (w - 1))) else idx)"
  by pat_completeness auto
termination
  by (relation "measure (\<lambda>(bm, w, idx). unat w)")
    (auto simp: word_less_nat_alt unat_sub_if' word_le_nat_alt)

declare rank_loop.simps [simp del]

definition bm_rank :: "bitmap \<Rightarrow> byte \<Rightarrow> nat \<times> bool" where
  "bm_rank bm label =
     (let w = drop_bit 6 label;
          x = shl64 (bm_get bm w) (NOT label AND 63);
          idx = OnesCount64 (shl64 x 1)
                + OnesCount64 (shl64 (bm_get bm 0) ((w - 1) AND 64));
          idx = rank_loop bm w idx
      in (idx, drop_bit 63 x \<noteq> 0))"

text \<open>\<open>bitmap[label>>6] |= uint64(1) << (label & 63)\<close> and its \<open>&^=\<close> counterpart\<close>

definition bm_add :: "bitmap \<Rightarrow> byte \<Rightarrow> bitmap" where
  "bm_add bm label =
     bm_set bm (drop_bit 6 label) (bm_get bm (drop_bit 6 label) OR shl64 1 (label AND 63))"

definition bm_del :: "bitmap \<Rightarrow> byte \<Rightarrow> bitmap" where
  "bm_del bm label =
     bm_set bm (drop_bit 6 label)
       (bm_get bm (drop_bit 6 label) AND NOT (shl64 1 (label AND 63)))"

section \<open>The set of labels\<close>

definition bm_test :: "bitmap \<Rightarrow> nat \<Rightarrow> bool" where
  "bm_test bm p = bit (bm_words bm ! (p div 64)) (p mod 64)"

definition bm_labels :: "bitmap \<Rightarrow> byte set" where
  "bm_labels bm = {l. bm_test bm (unat l)}"

lemma bm_words_eq: "bm_words bm = [bm_get bm 0, bm_get bm 1, bm_get bm 2, bm_get bm 3]"
  by (cases bm) (simp add: bm_get_def)

lemma bm_labels_zero [simp]: "bm_labels bm_zero = {}"
proof -
  have "\<not> bm_test bm_zero (unat l)" for l :: byte
  proof -
    have "unat l div 64 < 4" using unsigned_less [of l, where ?'a = nat] by simp
    then have "unat l div 64 \<in> {0, 1, 2, 3}" by auto
    then show ?thesis by (auto simp: bm_test_def bm_zero_def)
  qed
  then show ?thesis by (simp add: bm_labels_def)
qed

lemma byte_word_index [bits_simps]: "unat (drop_bit 6 (l :: byte)) = unat l div 64"
  by (simp only: unat_drop_bit_eq) (simp add: drop_bit_eq_div)

lemma byte_bit_index [bits_simps]: "unat ((l :: byte) AND 63) = unat l mod 64"
proof -
  have "l AND 63 = take_bit 6 l" by (simp add: take_bit_eq_mask mask_eq_exp_minus_1)
  then show ?thesis by (simp add: take_bit_eq_mod unat_mod_distrib)
qed

lemma byte_not_index [bits_simps]: "unat (NOT (l :: byte) AND 63) = 63 - unat l mod 64"
proof -
  have "NOT l AND 63 = take_bit 6 (NOT l)" by (simp add: take_bit_eq_mask mask_eq_exp_minus_1)
  also have "\<dots> = mask 6 - take_bit 6 l" by (rule take_bit_not_eq_mask_diff)
  finally have eq: "NOT l AND 63 = 63 - take_bit 6 l" by (simp add: mask_eq_exp_minus_1)
  have t: "unat (take_bit 6 l) = unat l mod 64" by (simp add: take_bit_eq_mod unat_mod_distrib)
  then have "take_bit 6 l \<le> 63" by (simp add: word_le_nat_alt)
  then show ?thesis using t by (simp add: eq unat_sub)
qed

section \<open>Counting bits\<close>

definition bm_count :: "bitmap \<Rightarrow> nat \<Rightarrow> nat" where
  "bm_count bm n = card {p. p < n \<and> bm_test bm p}"

lemma OnesCount64_card: "OnesCount64 x = card {i. i < 64 \<and> bit x i}"
proof -
  have "distinct (filter (bit x) [0..<64])" by simp
  moreover have "set (filter (bit x) [0..<64]) = {i. i < 64 \<and> bit x i}" by auto
  ultimately show ?thesis unfolding OnesCount64_def by (metis distinct_card)
qed

lemma OnesCount64_push:
  assumes "k \<le> 64"
  shows "OnesCount64 (push_bit k x) = card {i. i < 64 - k \<and> bit x i}"
proof -
  have "{i. i < 64 \<and> bit (push_bit k x) i} = (\<lambda>i. i + k) ` {i. i < 64 - k \<and> bit x i}"
  proof (rule set_eqI, rule iffI)
    fix i assume "i \<in> {i. i < 64 \<and> bit (push_bit k x) i}"
    then have "i = (i - k) + k \<and> i - k < 64 - k \<and> bit x (i - k)"
      by (auto simp: bit_push_bit_iff)
    then show "i \<in> (\<lambda>i. i + k) ` {i. i < 64 - k \<and> bit x i}" by blast
  next
    fix i assume "i \<in> (\<lambda>i. i + k) ` {i. i < 64 - k \<and> bit x i}"
    then show "i \<in> {i. i < 64 \<and> bit (push_bit k x) i}"
      by (auto simp: bit_push_bit_iff)
  qed
  then show ?thesis by (simp add: OnesCount64_card card_image)
qed

lemma bm_count_word:
  assumes "r \<le> 64"
  shows "bm_count bm (64 * w + r)
         = bm_count bm (64 * w) + card {i. i < r \<and> bit (bm_words bm ! w) i}"
proof -
  have t: "bm_test bm (64 * w + i) = bit (bm_words bm ! w) i" if "i < 64" for i
    using that by (simp add: bm_test_def)
  have "{p. p < 64 * w + r \<and> bm_test bm p}
        = {p. p < 64 * w \<and> bm_test bm p}
          \<union> (\<lambda>i. 64 * w + i) ` {i. i < r \<and> bit (bm_words bm ! w) i}" (is "?L = ?A \<union> ?B")
  proof (rule set_eqI, rule iffI)
    fix p assume p: "p \<in> ?L"
    show "p \<in> ?A \<union> ?B"
    proof (cases "p < 64 * w")
      case True
      with p show ?thesis by simp
    next
      case False
      then have "p = 64 * w + (p - 64 * w)" by simp
      moreover have "p - 64 * w < r" using p False by auto
      ultimately show ?thesis using p t [of "p - 64 * w"] assms by (auto intro!: image_eqI)
    qed
  next
    fix p assume "p \<in> ?A \<union> ?B"
    then show "p \<in> ?L" using t assms by auto
  qed
  moreover have "?A \<inter> ?B = {}" by auto
  moreover have "card ?B = card {i. i < r \<and> bit (bm_words bm ! w) i}"
    by (rule card_image) (simp add: inj_on_def)
  ultimately show ?thesis by (simp add: bm_count_def card_Un_disjoint)
qed

lemma bm_count_full:
  "bm_count bm (64 * Suc w) = bm_count bm (64 * w) + OnesCount64 (bm_words bm ! w)"
  using bm_count_word [of 64 bm w] by (simp add: OnesCount64_card add.commute)

lemma bm_count_0 [simp]: "bm_count bm 0 = 0"
  by (simp add: bm_count_def)

lemma byte_less_nat_iff: "(l :: byte) < m \<longleftrightarrow> unat l < unat m"
  by (simp add: word_less_nat_alt)

lemma bm_count_labels: "card {x \<in> bm_labels bm. x < l} = bm_count bm (unat l)"
proof -
  have "{p. p < unat l \<and> bm_test bm p} = unat ` {x \<in> bm_labels bm. x < l}"
  proof (rule set_eqI, rule iffI)
    fix p assume p: "p \<in> {p. p < unat l \<and> bm_test bm p}"
    then have "p < 256" using unsigned_less [of l, where ?'a = nat] by simp
    then have "unat (of_nat p :: byte) = p" by (simp add: unat_of_nat)
    then show "p \<in> unat ` {x \<in> bm_labels bm. x < l}"
      using p by (intro image_eqI [of _ _ "of_nat p"]) (auto simp: bm_labels_def byte_less_nat_iff)
  next
    fix p assume "p \<in> unat ` {x \<in> bm_labels bm. x < l}"
    then show "p \<in> {p. p < unat l \<and> bm_test bm p}"
      by (auto simp: bm_labels_def byte_less_nat_iff)
  qed
  moreover have "card (unat ` {x \<in> bm_labels bm. x < l}) = card {x \<in> bm_labels bm. x < l}"
    by (rule card_image) (simp add: inj_on_def word_unat_eq_iff)
  ultimately show ?thesis by (simp add: bm_count_def)
qed

section \<open>Rank is exact\<close>

lemma byte_word_cases:
  obtains "drop_bit 6 (l :: byte) = 0" | "drop_bit 6 l = 1" | "drop_bit 6 l = 2" | "drop_bit 6 l = 3"
proof -
  have "unat l < 256" using unsigned_less [of l, where ?'a = nat] by simp
  then have "unat (drop_bit 6 l) \<in> {0, 1, 2, 3}" by (simp only: byte_word_index) auto
  then have "drop_bit 6 l = 0 \<or> drop_bit 6 l = 1 \<or> drop_bit 6 l = 2 \<or> drop_bit 6 l = 3"
    by (auto simp: word_unat_eq_iff)
  then show thesis using that by blast
qed

lemma bm_count_split:
  "bm_count bm (unat (l :: byte))
     = bm_count bm (64 * (unat l div 64))
       + OnesCount64 (push_bit (64 - unat l mod 64) (bm_get bm (drop_bit 6 l)))"
proof -
  have "bm_count bm (unat l) = bm_count bm (64 * (unat l div 64) + unat l mod 64)"
    by (simp only: mult_div_mod_eq)
  also have "\<dots> = bm_count bm (64 * (unat l div 64))
      + card {i. i < unat l mod 64 \<and> bit (bm_words bm ! (unat l div 64)) i}"
    by (rule bm_count_word) (simp add: less_imp_le)
  also have "{i. i < unat l mod 64 \<and> bit (bm_words bm ! (unat l div 64)) i}
      = {i. i < 64 - (64 - unat l mod 64) \<and> bit (bm_get bm (drop_bit 6 l)) i}"
    by (simp add: bm_get_def byte_word_index less_imp_le)
  finally show ?thesis by (simp add: OnesCount64_push)
qed

lemma rank_low_bits:
  "shl64 (shl64 x (NOT (l :: byte) AND 63)) 1 = push_bit (64 - unat l mod 64) x"
proof -
  have "unat l mod 64 < 64" by simp
  then have "Suc (63 - unat l mod 64) = 64 - unat l mod 64" by linarith
  then show ?thesis by (simp add: shl64_def byte_not_index)
qed

lemma rank_top_bit:
  "drop_bit 63 (shl64 x (NOT (l :: byte) AND 63)) \<noteq> (0 :: u64) \<longleftrightarrow> bit x (unat l mod 64)"
proof -
  have r: "unat l mod 64 \<le> 63" using mod_less_divisor [of 64 "unat l"] by linarith
  have "drop_bit 63 y \<noteq> (0 :: u64) \<longleftrightarrow> bit y 63" for y :: u64
  proof -
    have "drop_bit 63 y \<noteq> 0 \<longleftrightarrow> (\<exists>i<64. bit y (63 + i))"
      by (simp add: bit_eq_iff bit_drop_bit_eq)
    also have "\<dots> \<longleftrightarrow> bit y 63"
    proof
      assume "\<exists>i<64. bit y (63 + i)"
      then obtain i where b: "bit y (63 + i)" by blast
      then have "63 + i < 64" using bit_imp_le_length [OF b] by simp
      with b show "bit y 63" by simp
    next
      assume "bit y 63"
      then show "\<exists>i<64. bit y (63 + i)" by (intro exI [of _ 0]) simp
    qed
    finally show ?thesis .
  qed
  then show ?thesis using r by (simp add: shl64_def byte_not_index bit_push_bit_iff)
qed

lemma rank_words:
  fixes l :: byte
  defines "w \<equiv> drop_bit 6 l"
  shows "rank_loop bm w (k + OnesCount64 (shl64 (bm_get bm 0) ((w - 1) AND 64)))
         = k + bm_count bm (64 * (unat l div 64))"
proof -
  have full: "bm_count bm (64 * 1) = OnesCount64 (bm_get bm 0)"
      "bm_count bm (64 * 2) = OnesCount64 (bm_get bm 0) + OnesCount64 (bm_get bm 1)"
      "bm_count bm (64 * 3) = OnesCount64 (bm_get bm 0) + OnesCount64 (bm_get bm 1)
         + OnesCount64 (bm_get bm 2)"
    using bm_count_full [of bm 0] bm_count_full [of bm 1] bm_count_full [of bm 2]
    by (simp_all add: bm_words_eq)
  have z: "OnesCount64 0 = 0" by (simp add: OnesCount64_def)
  have w: "unat l div 64 = unat w" by (simp add: w_def byte_word_index)
  consider "w = 0" | "w = 1" | "w = 2" | "w = 3" unfolding w_def by (rule byte_word_cases)
  then show ?thesis
    unfolding w using full z by cases (simp_all add: rank_loop.simps shl64_def)
qed

lemma bm_rank_exact:
  "bm_rank bm l = (card {x \<in> bm_labels bm. x < l}, l \<in> bm_labels bm)"
proof -
  have "bit (bm_get bm (drop_bit 6 l)) (unat l mod 64) \<longleftrightarrow> l \<in> bm_labels bm"
    by (simp add: bm_get_def bm_labels_def bm_test_def byte_word_index)
  moreover have "fst (bm_rank bm l) = bm_count bm (unat l)"
    unfolding bm_rank_def Let_def rank_low_bits rank_words fst_conv
    by (simp only: bm_count_split [of bm l] add.commute)
  ultimately show ?thesis
    by (simp add: prod_eq_iff bm_count_labels) (simp add: bm_rank_def Let_def rank_top_bit)
qed

section \<open>Setting and clearing a label\<close>

lemma bm_get_set:
  assumes "unat w < 4" and "unat v < 4"
  shows "bm_get (bm_set bm w x) v = (if v = w then x else bm_get bm v)"
proof -
  have "w = 0 \<or> w = 1 \<or> w = 2 \<or> w = 3" using assms(1) by (auto simp: word_unat_eq_iff)
  moreover have "v = 0 \<or> v = 1 \<or> v = 2 \<or> v = 3" using assms(2) by (auto simp: word_unat_eq_iff)
  ultimately show ?thesis by (cases bm) (auto simp: bm_get_def)
qed

lemma bm_labels_get: "l \<in> bm_labels bm \<longleftrightarrow> bit (bm_get bm (drop_bit 6 l)) (unat l mod 64)"
  by (simp add: bm_labels_def bm_test_def bm_get_def byte_word_index)

lemma byte_eq_split:
  "(m :: byte) = l \<longleftrightarrow> drop_bit 6 m = drop_bit 6 l \<and> unat m mod 64 = unat l mod 64"
proof
  assume "drop_bit 6 m = drop_bit 6 l \<and> unat m mod 64 = unat l mod 64"
  then have "unat m div 64 = unat l div 64" and "unat m mod 64 = unat l mod 64"
    by (simp_all flip: byte_word_index)
  then have "unat m = unat l" by (metis mult_div_mod_eq)
  then show "m = l" by (simp add: word_unat_eq_iff)
qed simp

lemma word_index_lt: "unat (drop_bit 6 (l :: byte)) < 4"
  using unsigned_less [of l, where ?'a = nat] by (simp add: byte_word_index)

lemma bit_shl_one: "bit (shl64 1 (l AND 63)) (unat (m :: byte) mod 64)
    \<longleftrightarrow> unat m mod 64 = unat l mod 64"
proof -
  have "unat l mod 64 < 64" by simp
  then show ?thesis
    by (simp add: shl64_def byte_bit_index bit_push_bit_iff bit_1_iff flip: push_bit_eq_mult
        del: push_bit_of_1) (auto simp: bit_1_iff)
qed

lemma bm_labels_add [simp]: "bm_labels (bm_add bm l) = insert l (bm_labels bm)"
proof (rule set_eqI)
  fix m
  show "m \<in> bm_labels (bm_add bm l) \<longleftrightarrow> m \<in> insert l (bm_labels bm)"
    using byte_eq_split [of m l]
    by (auto simp: bm_labels_get bm_add_def bm_get_set word_index_lt bit_or_iff bit_shl_one)
qed

lemma bm_labels_del [simp]: "bm_labels (bm_del bm l) = bm_labels bm - {l}"
proof (rule set_eqI)
  fix m
  show "m \<in> bm_labels (bm_del bm l) \<longleftrightarrow> m \<in> bm_labels bm - {l}"
    using byte_eq_split [of m l]
    by (auto simp: bm_labels_get bm_del_def bm_get_set word_index_lt bit_and_iff bit_not_iff
        bit_shl_one)
qed

section \<open>The interface: a dense array ordered by label\<close>

text \<open>
  What the child array relies on: \<open>rank\<close> is the position of a label in any strictly ascending
  enumeration of the recorded labels, and adding or deleting a label keeps the enumeration
  ascending with one element inserted or removed at that position.
\<close>

locale label_index =
  fixes rank :: "'b \<Rightarrow> 'l :: linorder \<Rightarrow> nat \<times> bool"
    and add :: "'b \<Rightarrow> 'l \<Rightarrow> 'b"
    and del :: "'b \<Rightarrow> 'l \<Rightarrow> 'b"
    and empty :: 'b
    and labels :: "'b \<Rightarrow> 'l set"
  assumes labels_empty: "labels empty = {}"
    and labels_add: "labels (add b l) = insert l (labels b)"
    and labels_del: "labels (del b l) = labels b - {l}"
    and rank_exact: "rank b l = (card {x \<in> labels b. x < l}, l \<in> labels b)"
begin

definition enum :: "'b \<Rightarrow> 'l list \<Rightarrow> bool" where
  "enum b ls \<longleftrightarrow> sorted_wrt (<) ls \<and> labels b = set ls"

lemma enum_empty: "enum empty []"
  by (simp add: enum_def labels_empty)

lemma enum_rank: "enum b ls \<Longrightarrow> rank b l = (rank_of ls l, l \<in> set ls)"
  by (simp add: enum_def rank_exact card_less_rank_of)

lemma enum_hit:
  assumes "enum b ls" and "rank b l = (i, True)"
  shows "i < length ls" and "ls ! i = l"
  using assms rank_of_nth [of ls l] by (auto simp: enum_rank) (auto simp: enum_def)

lemma enum_nth:
  assumes "enum b ls" and "i < length ls"
  shows "rank b (ls ! i) = (i, True)"
  using assms rank_of_index [of ls i] by (simp add: enum_rank) (simp add: enum_def)

lemma enum_add:
  assumes "enum b ls" and "rank b l = (i, False)"
  shows "i \<le> length ls" and "enum (add b l) (insert_at i l ls)"
proof -
  have s: "sorted_wrt (<) ls" and i: "i = rank_of ls l" and n: "l \<notin> set ls"
    using assms by (auto simp: enum_rank) (auto simp: enum_def)
  show "i \<le> length ls" by (simp add: i rank_of_le)
  have "sorted_wrt (<) (insert_at i l ls)"
    using sorted_wrt_insert_at [OF s] rank_of_take_less [OF s] rank_of_drop_gr [OF s n] i by blast
  then show "enum (add b l) (insert_at i l ls)"
    using assms(1) by (simp add: enum_def labels_add)
qed

lemma enum_del:
  assumes "enum b ls" and "i < length ls"
  shows "enum (del b (ls ! i)) (remove_at i ls)"
proof -
  have s: "sorted_wrt (<) ls" using assms(1) by (simp add: enum_def)
  then have "distinct ls" by (simp add: strict_sorted_iff)
  with s assms show ?thesis
    by (simp add: enum_def labels_del set_remove_at_distinct sorted_wrt_remove_at)
qed

end

interpretation bm: label_index bm_rank bm_add bm_del bm_zero bm_labels
  by unfold_locales (auto simp: bm_rank_exact)

end
