(* ===== verification/Watch.thy ===== *)
theory Watch
  imports Prelude
begin

text \<open>
  The lazily materialised watch channel of \<^verbatim>\<open>internal/watch/watch.go\<close>.  Channels and cells live
  in a world of allocated objects; a slot is an atomic pointer to a cell.  The operations here are
  run without interference; the interleaved protocol is in the theory of the slot race.
\<close>

section \<open>Channels and cells\<close>

text \<open>
  A Go channel value is nil or a channel; only closing matters to the protocol.  \<open>Cell.ch\<close> of a
  cell that has been allocated but not yet filled (see \<open>slot_Live\<close>) is nil.
\<close>

type_synonym chan = "nat option"
type_synonym caddr = nat
type_synonym slot = "caddr option"

record world =
  cell_ch :: "caddr \<Rightarrow> chan"
  next_cell :: nat
  closed :: "nat \<Rightarrow> bool"
  next_chan :: nat

definition make_chan :: "'z world_scheme \<Rightarrow> chan \<times> 'z world_scheme" where
  "make_chan w = (Some (next_chan w), w\<lparr>next_chan := Suc (next_chan w)\<rparr>)"

text \<open>Closing a nil or an already closed channel panics.\<close>

definition close_chan :: "chan \<Rightarrow> 'z world_scheme \<Rightarrow> 'z world_scheme option" where
  "close_chan ch w =
     (case ch of None \<Rightarrow> None
      | Some n \<Rightarrow> if closed w n then None else Some (w\<lparr>closed := (closed w)(n := True)\<rparr>))"

definition new_cell :: "chan \<Rightarrow> 'z world_scheme \<Rightarrow> caddr \<times> 'z world_scheme" where
  "new_cell ch w =
     (next_cell w, w\<lparr>cell_ch := (cell_ch w)(next_cell w := ch), next_cell := Suc (next_cell w)\<rparr>)"

text \<open>The package variable \<open>sealedCell\<close>: a cell whose channel is closed from the start.\<close>

definition sealedCell :: caddr where
  "sealedCell = 0"

definition init_world :: world where
  "init_world = \<lparr>cell_ch = (\<lambda>_. None)(sealedCell := Some 0), next_cell = 1,
                 closed = (\<lambda>_. False)(0 := True), next_chan = 1\<rparr>"

definition is_closed :: "'z world_scheme \<Rightarrow> chan \<Rightarrow> bool" where
  "is_closed w ch = (case ch of None \<Rightarrow> False | Some n \<Rightarrow> closed w n)"

section \<open>Slot operations\<close>

definition cas :: "'a \<Rightarrow> 'a \<Rightarrow> 'a \<Rightarrow> 'a \<times> bool" where
  "cas p old new = (if p = old then (new, True) else (p, False))"

definition cell_of :: "'z world_scheme \<Rightarrow> slot \<Rightarrow> chan option" where
  "cell_of w p = (case p of None \<Rightarrow> None | Some c \<Rightarrow> Some (cell_ch w c))"

definition slot_Chan :: "slot \<Rightarrow> 'z world_scheme \<Rightarrow> (chan \<times> slot \<times> 'z world_scheme) option" where
  "slot_Chan p w =
     (case p of Some c \<Rightarrow> Some (cell_ch w c, p, w)
      | None \<Rightarrow>
          (let (ch, w1) = make_chan w; (c, w2) = new_cell ch w1; (p', ok) = cas p None (Some c)
           in if ok then Some (cell_ch w2 c, p', w2)
              else do { r \<leftarrow> cell_of w2 p'; Some (r, p', w2) }))"

definition slot_Live :: "caddr \<Rightarrow> 'z world_scheme \<Rightarrow> chan \<times> slot \<times> 'z world_scheme" where
  "slot_Live c w =
     (let (ch, w1) = make_chan w; w2 = w1\<lparr>cell_ch := (cell_ch w1)(c := ch)\<rparr>
      in (cell_ch w2 c, Some c, w2))"

definition slot_Seal :: "slot \<Rightarrow> 'z world_scheme \<Rightarrow> (slot \<times> 'z world_scheme) option" where
  "slot_Seal p w =
     (case p of None \<Rightarrow> Some (Some sealedCell, w)
      | Some old \<Rightarrow>
          if old \<noteq> sealedCell
          then do { w' \<leftarrow> close_chan (cell_ch w old) w; Some (Some sealedCell, w') }
          else Some (Some sealedCell, w))"

definition slot_Sealed :: "slot \<Rightarrow> bool" where
  "slot_Sealed p \<longleftrightarrow> p = Some sealedCell"

section \<open>The world's invariant\<close>

text \<open>
  Channels are allocated in order, no unallocated channel is closed, the sealed cell carries the
  closed channel, and no two cells share a channel.
\<close>

definition world_ok :: "'z world_scheme \<Rightarrow> bool" where
  "world_ok w \<longleftrightarrow>
     sealedCell < next_cell w \<and> cell_ch w sealedCell = Some 0 \<and> closed w 0 \<and>
     (\<forall>c n. cell_ch w c = Some n \<longrightarrow> c < next_cell w \<and> n < next_chan w) \<and>
     (\<forall>n. closed w n \<longrightarrow> n < next_chan w) \<and>
     (\<forall>c d n. cell_ch w c = Some n \<longrightarrow> cell_ch w d = Some n \<longrightarrow> c = d)"

text \<open>A slot that holds a live cell holds one that was filled and whose channel is open.\<close>

definition slot_ok :: "'z world_scheme \<Rightarrow> slot \<Rightarrow> bool" where
  "slot_ok w p \<longleftrightarrow>
     (\<forall>c. p = Some c \<longrightarrow> c \<noteq> sealedCell \<longrightarrow>
        c < next_cell w \<and> (\<exists>n. cell_ch w c = Some n \<and> \<not> closed w n))"

lemma init_world_ok: "world_ok init_world"
  by (auto simp: world_ok_def init_world_def sealedCell_def)

lemma slot_ok_None [simp]: "slot_ok w None"
  by (simp add: slot_ok_def)

lemma slot_ok_sealed [simp]: "slot_ok w (Some sealedCell)"
  by (simp add: slot_ok_def)

lemma slot_Chan_sealed:
  assumes "world_ok w" and "slot_Sealed p"
  shows "slot_Chan p w = Some (Some 0, p, w) \<and> is_closed w (Some 0)"
  using assms by (auto simp: slot_Sealed_def slot_Chan_def world_ok_def is_closed_def)

lemma slot_Chan_fresh:
  assumes "world_ok w" and "p = None"
  shows "slot_Chan p w =
           Some (Some (next_chan w), Some (next_cell w),
                 w\<lparr>cell_ch := (cell_ch w)(next_cell w := Some (next_chan w)),
                   next_cell := Suc (next_cell w), next_chan := Suc (next_chan w)\<rparr>)"
  using assms by (simp add: slot_Chan_def make_chan_def new_cell_def cas_def)

lemma slot_Chan_live:
  "p = Some c \<Longrightarrow> slot_Chan p w = Some (cell_ch w c, p, w)"
  by (simp add: slot_Chan_def)

lemma world_okD:
  assumes "world_ok w"
  shows "sealedCell < next_cell w" and "cell_ch w sealedCell = Some 0" and "closed w 0"
    and "cell_ch w c = Some n \<Longrightarrow> c < next_cell w" and "cell_ch w c = Some n \<Longrightarrow> n < next_chan w"
    and "closed w n \<Longrightarrow> n < next_chan w"
    and "cell_ch w c = Some n \<Longrightarrow> cell_ch w d = Some n \<Longrightarrow> c = d"
  using assms unfolding world_ok_def by blast+

lemma world_okI:
  assumes "sealedCell < next_cell w" and "cell_ch w sealedCell = Some 0" and "closed w 0"
    and "\<And>c n. cell_ch w c = Some n \<Longrightarrow> c < next_cell w \<and> n < next_chan w"
    and "\<And>n. closed w n \<Longrightarrow> n < next_chan w"
    and "\<And>c d n. cell_ch w c = Some n \<Longrightarrow> cell_ch w d = Some n \<Longrightarrow> c = d"
  shows "world_ok w"
  using assms unfolding world_ok_def by blast

text \<open>Filling a fresh or an empty cell with a fresh channel keeps the invariant.\<close>

lemma world_ok_fill:
  assumes ok: "world_ok w" and c: "cell_ch w c = None" "c < k" and k: "next_cell w \<le> k"
  shows "world_ok (w\<lparr>cell_ch := (cell_ch w)(c := Some (next_chan w)), next_cell := k,
                     next_chan := Suc (next_chan w)\<rparr>)" (is "world_ok ?w")
proof -
  note d = world_okD [OF ok]
  have s: "c \<noteq> sealedCell" using c d(2) by auto
  have lt: "n < next_chan w" and lc: "e < k" if "cell_ch w e = Some n" for e n
    using d(4,5) [OF that] k by auto
  show ?thesis
  proof (rule world_okI)
    show "sealedCell < next_cell ?w" using d(1) k by simp
    show "cell_ch ?w sealedCell = Some 0" using d(2) s by simp
    show "closed ?w 0" using d(3) by simp
    show "n < next_chan ?w" if "closed ?w n" for n using d(6) [of n] that by simp
    show "e < next_cell ?w \<and> n < next_chan ?w" if "cell_ch ?w e = Some n" for e n
    proof (cases "e = c")
      case True
      with that c(2) show ?thesis by simp
    next
      case False
      with that have "cell_ch w e = Some n" by simp
      from lt [OF this] lc [OF this] show ?thesis by simp
    qed
    show "e = f" if "cell_ch ?w e = Some n" and "cell_ch ?w f = Some n" for e f n
    proof (rule ccontr)
      assume ne: "e \<noteq> f"
      then show False using that lt [of e n] lt [of f n] d(7) [of e n f]
        by (cases "e = c"; cases "f = c") simp_all
    qed
  qed
qed

lemma slot_Chan_ok:
  assumes "world_ok w" and "slot_ok w p"
  obtains ch p' w' where "slot_Chan p w = Some (ch, p', w')" and "world_ok w'" and "slot_ok w' p'"
    and "ch \<noteq> None" and "p' \<noteq> None" and "closed w' = closed w"
    and "cell_of w' p' = Some ch" and "slot_Sealed p' \<longleftrightarrow> slot_Sealed p"
    and "\<And>c. c < next_cell w \<Longrightarrow> cell_ch w' c = cell_ch w c" and "next_cell w \<le> next_cell w'"
proof (cases p)
  case None
  let ?w = "w\<lparr>cell_ch := (cell_ch w)(next_cell w := Some (next_chan w)),
               next_cell := Suc (next_cell w), next_chan := Suc (next_chan w)\<rparr>"
  have "cell_ch w (next_cell w) = None"
    using world_okD(4) [OF assms(1), of "next_cell w"] by (cases "cell_ch w (next_cell w)") auto
  then have "world_ok ?w"
    using world_ok_fill [OF assms(1), of "next_cell w" "Suc (next_cell w)"] by simp
  moreover have "\<not> closed w (next_chan w)" using world_okD(6) [OF assms(1), of "next_chan w"] by blast
  then have "slot_ok ?w (Some (next_cell w))" by (simp add: slot_ok_def)
  moreover have "next_cell w \<noteq> sealedCell" using world_okD(1) [OF assms(1)] by simp
  ultimately show ?thesis
    using that [OF slot_Chan_fresh [OF assms(1) None]] None
    by (simp add: cell_of_def slot_Sealed_def)
next
  case (Some c)
  have "cell_ch w c \<noteq> None"
    using assms(2) Some world_okD(2) [OF assms(1)] by (cases "c = sealedCell") (auto simp: slot_ok_def)
  then show ?thesis
    using that [OF slot_Chan_live [OF Some]] assms Some by (simp add: cell_of_def)
qed

text \<open>Sealing a slot that satisfies the invariant never panics, and closes exactly its channel.\<close>

lemma slot_Seal_ok:
  assumes "world_ok w" and "slot_ok w p"
  obtains w' where "slot_Seal p w = Some (Some sealedCell, w')" and "world_ok w'"
    and "\<And>n. closed w' n \<longleftrightarrow> closed w n \<or> cell_of w p = Some (Some n)"
    and "cell_ch w' = cell_ch w" and "next_cell w' = next_cell w" and "next_chan w' = next_chan w"
proof (cases "p = None \<or> p = Some sealedCell")
  case True
  moreover have "closed w n \<longleftrightarrow> closed w n \<or> cell_of w p = Some (Some n)" for n
    using True assms(1) by (auto simp: cell_of_def world_ok_def)
  moreover have "slot_Seal p w = Some (Some sealedCell, w)"
    using True by (auto simp: slot_Seal_def)
  ultimately show ?thesis using that [of w] assms(1) by blast
next
  case False
  then obtain c where p: "p = Some c" and c: "c \<noteq> sealedCell" by (cases p) auto
  with assms obtain n where n: "cell_ch w c = Some n" "\<not> closed w n" by (auto simp: slot_ok_def)
  let ?w = "w\<lparr>closed := (closed w)(n := True)\<rparr>"
  have "slot_Seal p w = Some (Some sealedCell, ?w)"
    using p c n by (simp add: slot_Seal_def close_chan_def)
  moreover have "world_ok ?w"
    using world_okD [OF assms(1)] n by (intro world_okI) (auto split: if_splits)
  ultimately show ?thesis using that [of ?w] p n by (auto simp: cell_of_def)
qed

text \<open>Any other slot over another cell keeps its invariant when one slot is sealed.\<close>

lemma slot_ok_after_seal:
  assumes "world_ok w" and "slot_ok w p" and "slot_ok w q" and "p \<noteq> q \<or> p = Some sealedCell \<or> p = None"
    and "slot_Seal p w = Some (p', w')"
  shows "slot_ok w' q"
proof (cases "p = None \<or> p = Some sealedCell")
  case True
  with assms show ?thesis by (auto simp: slot_Seal_def)
next
  case False
  then obtain c where p: "p = Some c" and c: "c \<noteq> sealedCell" by (cases p) auto
  with assms(2) obtain n where n: "cell_ch w c = Some n" "\<not> closed w n"
    by (auto simp: slot_ok_def)
  have w': "w' = w\<lparr>closed := (closed w)(n := True)\<rparr>"
    using assms(5) p c n by (simp add: slot_Seal_def close_chan_def)
  show ?thesis
  proof (cases q)
    case (Some d)
    show ?thesis
    proof (cases "d = sealedCell")
      case False
      with assms(3) Some obtain m where m: "d < next_cell w" "cell_ch w d = Some m" "\<not> closed w m"
        by (auto simp: slot_ok_def)
      have "c \<noteq> d" using assms(4) p c Some by auto
      then have "m \<noteq> n" using assms(1) m n unfolding world_ok_def by auto
      with m Some w' show ?thesis by (auto simp: slot_ok_def)
    qed (simp add: Some)
  qed simp
qed

end
