(* ===== verification/Node.thy ===== *)
theory Node
  imports Bitmap Watch
begin

text \<open>
  Nodes, leaves and the heap they live in (\<^verbatim>\<open>internal/radix/node.go\<close>, the node declaration and
  accessors of \<^verbatim>\<open>node_safe.go\<close>, the size classes of both builds, \<^verbatim>\<open>segment_safe.go\<close>).  Pointers are
  numbers into the store; Go's pointers never dangle, so a non-nil pointer is a plain address and a
  nil-able one an \<open>option\<close>.  The child array is a list of nil-able pointers whose length is the
  slice's capacity, with a separate count, so that in-place insertion and removal are the
  slice operations of the code.
\<close>

section \<open>Data\<close>

type_synonym addr = nat
type_synonym laddr = nat

record 'v node =
  prefix :: bytes
  arr :: "addr option list"
  nkids :: nat
  bitmap :: bitmap
  val :: "'v any"
  leafp :: "laddr option"
  nwatch :: slot
  epoch :: u64

definition zero_node :: "'v node" where
  "zero_node = \<lparr>prefix = [], arr = [], nkids = 0, bitmap = bm_zero, val = None, leafp = None,
                nwatch = None, epoch = 0\<rparr>"

text \<open>The lists of objects a \<open>Notifier\<close> has recorded; a recorded leaf pointer may be nil.\<close>

record notifier =
  nf_nodes :: "addr list"
  nf_leaves :: "laddr option list"
  nf_values :: "addr list"
  nf_subtrees :: "addr list"

definition zero_notifier :: notifier where
  "zero_notifier = \<lparr>nf_nodes = [], nf_leaves = [], nf_values = [], nf_subtrees = []\<rparr>"

text \<open>The build tag: it decides the size classes of child arrays.\<close>

datatype build = DefaultBuild | SafeBuild

record 'v store = world +
  nodes :: "addr \<Rightarrow> 'v node"
  next_node :: nat
  leaves :: "laddr \<Rightarrow> slot"
  next_leaf :: nat
  epochCounter :: u64
  notifiers :: "nat \<Rightarrow> notifier"
  build :: build

text \<open>The package variable \<open>sealedLeaf\<close>.\<close>

definition sealedLeaf :: laddr where
  "sealedLeaf = 0"

definition init_store :: "build \<Rightarrow> 'v store" where
  "init_store b = world.extend init_world
     \<lparr>nodes = (\<lambda>_. zero_node), next_node = 0, leaves = (\<lambda>_. None)(sealedLeaf := Some sealedCell),
      next_leaf = 1, epochCounter = 0, notifiers = (\<lambda>_. zero_notifier), build = b\<rparr>"

definition alloc_node :: "'v node \<Rightarrow> 'v store \<Rightarrow> addr \<times> 'v store" where
  "alloc_node n s = (next_node s, s\<lparr>nodes := (nodes s)(next_node s := n), next_node := Suc (next_node s)\<rparr>)"

definition upd_node :: "addr \<Rightarrow> ('v node \<Rightarrow> 'v node) \<Rightarrow> 'v store \<Rightarrow> 'v store" where
  "upd_node a f s = s\<lparr>nodes := (nodes s)(a := f (nodes s a))\<rparr>"

definition put_node :: "addr \<Rightarrow> 'v node \<Rightarrow> 'v store \<Rightarrow> 'v store" where
  "put_node a n s = upd_node a (\<lambda>_. n) s"

section \<open>The epoch word\<close>

definition leafOwnedBit :: u64 where "leafOwnedBit = push_bit 63 1"
definition valueBit :: u64 where "valueBit = push_bit 62 1"
definition epochMask :: u64 where "epochMask = valueBit - 1"

definition hasValue :: "'v node \<Rightarrow> bool" where
  "hasValue n \<longleftrightarrow> epoch n AND valueBit \<noteq> 0"

definition leafOwned :: "'v node \<Rightarrow> bool" where
  "leafOwned n \<longleftrightarrow> epoch n AND leafOwnedBit \<noteq> 0"

section \<open>Accessors of the child array (safe build)\<close>

definition compact :: "'v node \<Rightarrow> bool" where
  "compact n = False"

definition kidCount :: "'v node \<Rightarrow> nat" where
  "kidCount n = nkids n"

definition frameKids :: "'v node \<Rightarrow> nat" where
  "frameKids n = nkids n"

definition kidCap :: "'v node \<Rightarrow> nat" where
  "kidCap n = length (arr n)"

definition childless :: "'v node \<Rightarrow> bool" where
  "childless n \<longleftrightarrow> nkids n = 0"

definition kidList :: "'v node \<Rightarrow> addr option list" where
  "kidList n = take (nkids n) (arr n)"

text \<open>
  \<open>n.kids[i]\<close> panics out of range; every caller dereferences the pointer at once, so a nil entry is
  a panic too.
\<close>

definition kid :: "'v node \<Rightarrow> nat \<Rightarrow> addr option" where
  "kid n i = (if i < nkids n then arr n ! i else None)"

definition setKid :: "'v node \<Rightarrow> nat \<Rightarrow> addr option \<Rightarrow> 'v node option" where
  "setKid n i c = (if i < nkids n then Some (n\<lparr>arr := (arr n)[i := c]\<rparr>) else None)"

definition setKidCount :: "'v node \<Rightarrow> nat \<Rightarrow> 'v node option" where
  "setKidCount n count = (if count \<le> length (arr n) then Some (n\<lparr>nkids := count\<rparr>) else None)"

text \<open>Write back the elements of the slice \<open>n.kidList()\<close>.\<close>

definition set_kidList :: "'v node \<Rightarrow> addr option list \<Rightarrow> 'v node" where
  "set_kidList n ks = n\<lparr>arr := ks @ drop (length ks) (arr n)\<rparr>"

definition trimPrefix :: "'v node \<Rightarrow> nat \<Rightarrow> 'v node" where
  "trimPrefix n k = n\<lparr>prefix := drop k (prefix n)\<rparr>"

text \<open>
  Size classes: the array of the type that \<open>newNode\<close> allocates.  The pure-safe build has a class for
  two children, the default build starts at four.
\<close>

definition safe_class :: "nat \<Rightarrow> nat" where
  "safe_class capacity =
     (if capacity \<le> 0 then 0
      else if capacity \<le> 2 then 2
      else if capacity \<le> 4 then 4
      else if capacity \<le> 8 then 8
      else if capacity \<le> 16 then 16
      else if capacity \<le> 32 then 32
      else if capacity \<le> 64 then 64
      else if capacity \<le> 128 then 128
      else 256)"

definition default_class :: "nat \<Rightarrow> nat" where
  "default_class capacity =
     (if capacity \<le> 0 then 0
      else if capacity \<le> 4 then 4
      else if capacity \<le> 8 then 8
      else if capacity \<le> 16 then 16
      else if capacity \<le> 32 then 32
      else if capacity \<le> 64 then 64
      else if capacity \<le> 128 then 128
      else 256)"

text \<open>The build tag selects the file.\<close>

definition size_class :: "build \<Rightarrow> nat \<Rightarrow> nat" where
  "size_class b = (case b of SafeBuild \<Rightarrow> safe_class | DefaultBuild \<Rightarrow> default_class)"

lemma size_classes:
  "size_class b capacity =
     (if capacity \<le> 0 then 0
      else if capacity \<le> 2 \<and> b = SafeBuild then 2
      else if capacity \<le> 4 then 4
      else if capacity \<le> 8 then 8
      else if capacity \<le> 16 then 16
      else if capacity \<le> 32 then 32
      else if capacity \<le> 64 then 64
      else if capacity \<le> 128 then 128
      else 256)"
  by (cases b) (simp_all add: size_class_def safe_class_def default_class_def)

definition newNode :: "build \<Rightarrow> nat \<Rightarrow> 'v node" where
  "newNode b capacity = zero_node\<lparr>arr := replicate (size_class b capacity) None\<rparr>"

text \<open>\<open>newLeafNode\<close>: a childless node with the path segment \<open>a + b\<close>.\<close>

definition newLeafNode :: "bytes \<Rightarrow> bytes \<Rightarrow> 'v node" where
  "newLeafNode a b =
     (if length a + length b = 1
      then (if length a = 1 then zero_node\<lparr>prefix := [a ! 0]\<rparr> else zero_node\<lparr>prefix := [b ! 0]\<rparr>)
      else if b = [] then zero_node\<lparr>prefix := a\<rparr>
      else if a = [] then zero_node\<lparr>prefix := b\<rparr>
      else zero_node\<lparr>prefix := a @ b\<rparr>)"

definition cloneSegment :: "bytes \<Rightarrow> bytes" where
  "cloneSegment s = (if length s = 1 then [s ! 0] else s)"

section \<open>Segments and labels\<close>

definition node_rank :: "'v node \<Rightarrow> byte \<Rightarrow> nat \<times> bool" where
  "node_rank n label = (if compact n then (0, False) else bm_rank (bitmap n) label)"

text \<open>\<open>s[0]\<close>, which panics on an empty string or slice\<close>

definition byte0 :: "bytes \<Rightarrow> byte option" where
  "byte0 s = (case s of [] \<Rightarrow> None | b # _ \<Rightarrow> Some b)"

text \<open>
  \<open>hasPrefix\<close> with its fast paths.  On an empty segment the slice expression \<open>search[1:0]\<close> panics.
\<close>

definition hasPrefix :: "'v node \<Rightarrow> bytes \<Rightarrow> bool option" where
  "hasPrefix n search =
     (let l = length (prefix n) in
      if l = 1 then Some True
      else if l = 2 then Some (2 \<le> length search \<and> search ! 1 = prefix n ! 1)
      else if l \<le> length search
        then (if l = 0 then None else Some (take (l - 1) (drop 1 search) = drop 1 (prefix n)))
      else Some False)"

function cpl_loop :: "bytes \<Rightarrow> bytes \<Rightarrow> nat \<Rightarrow> nat" where
  "cpl_loop a b i =
     (if i < min (length a) (length b) \<and> a ! i = b ! i then cpl_loop a b (Suc i) else i)"
  by pat_completeness auto
termination
  by (relation "measure (\<lambda>(a, b, i). min (length a) (length b) - i)") auto

declare cpl_loop.simps [simp del]

definition commonPrefixLen :: "bytes \<Rightarrow> bytes \<Rightarrow> nat" where
  "commonPrefixLen a b = cpl_loop a b 0"

section \<open>Inserting and removing a child in place\<close>

definition addKid :: "addr \<Rightarrow> nat \<Rightarrow> addr \<Rightarrow> 'v store \<Rightarrow> 'v store option" where
  "addKid a idx c s =
     do { label \<leftarrow> byte0 (prefix (nodes s c));
          let n = nodes s a;
          let count = kidCount n;
          n1 \<leftarrow> setKidCount n (count + 1);
          let kids = kidList n1;
          if idx \<le> count
          then do {
            let kids = go_copy kids (idx + 1) (drop idx (take count kids));
            let kids = kids[idx := Some c];
            let n2 = set_kidList n1 kids;
            Some (put_node a (n2\<lparr>bitmap := bm_add (bitmap n2) label\<rparr>) s) }
          else None }"

definition delKid :: "addr \<Rightarrow> nat \<Rightarrow> 'v store \<Rightarrow> 'v store option" where
  "delKid a idx s =
     do { let n = nodes s a;
          let kids = kidList n;
          c \<leftarrow> kid n idx;
          label \<leftarrow> byte0 (prefix (nodes s c));
          let last = length kids - 1;
          let kids = go_copy kids idx (drop (idx + 1) kids);
          let kids = kids[last := None];
          n1 \<leftarrow> setKidCount (set_kidList n kids) last;
          Some (put_node a (n1\<lparr>bitmap := bm_del (bitmap n1) label\<rparr>) s) }"

section \<open>Leaves and watch slots\<close>

definition new_leaf :: "slot \<Rightarrow> 'v store \<Rightarrow> laddr \<times> 'v store" where
  "new_leaf p s =
     (next_leaf s, s\<lparr>leaves := (leaves s)(next_leaf s := p), next_leaf := Suc (next_leaf s)\<rparr>)"

definition leafOf :: "addr \<Rightarrow> 'v store \<Rightarrow> laddr option \<times> 'v store" where
  "leafOf a s =
     (case leafp (nodes s a) of Some l \<Rightarrow> (Some l, s)
      | None \<Rightarrow>
          (let (l, s1) = new_leaf None s;
               (p, ok) = cas (leafp (nodes s1 a)) None (Some l);
               s2 = upd_node a (leafp_update (\<lambda>_. p)) s1
           in (if ok then Some l else p, s2)))"

definition leaf_Chan :: "laddr \<Rightarrow> 'v store \<Rightarrow> (chan \<times> 'v store) option" where
  "leaf_Chan l s =
     do { (ch, p, s') \<leftarrow> slot_Chan (leaves s l) s;
          Some (ch, s'\<lparr>leaves := (leaves s')(l := p)\<rparr>) }"

definition leaf_Seal :: "laddr \<Rightarrow> 'v store \<Rightarrow> 'v store option" where
  "leaf_Seal l s =
     do { (p, s') \<leftarrow> slot_Seal (leaves s l) s;
          Some (s'\<lparr>leaves := (leaves s')(l := p)\<rparr>) }"

text \<open>A \<open>watchedLeaf\<close> is a leaf allocated together with the (still empty) cell of its first watcher.\<close>

definition valueChan :: "addr \<Rightarrow> 'v store \<Rightarrow> (chan \<times> 'v store) option" where
  "valueChan a s =
     (case leafp (nodes s a) of Some l \<Rightarrow> leaf_Chan l s
      | None \<Rightarrow>
          (let (c, s1) = new_cell None s;
               (l, s2) = new_leaf None s1;
               (ch, p, s3) = slot_Live c s2;
               s4 = s3\<lparr>leaves := (leaves s3)(l := p)\<rparr>;
               (q, ok) = cas (leafp (nodes s4 a)) None (Some l);
               s5 = upd_node a (leafp_update (\<lambda>_. q)) s4
           in if ok then Some (ch, s5) else (case q of None \<Rightarrow> None | Some l' \<Rightarrow> leaf_Chan l' s5)))"

definition sealValue :: "addr \<Rightarrow> 'v store \<Rightarrow> 'v store option" where
  "sealValue a s =
     (case leafp (nodes s a) of Some l \<Rightarrow> leaf_Seal l s
      | None \<Rightarrow>
          (let (q, ok) = cas (leafp (nodes s a)) None (Some sealedLeaf);
               s1 = upd_node a (leafp_update (\<lambda>_. q)) s
           in if ok then Some s1 else (case q of None \<Rightarrow> None | Some l \<Rightarrow> leaf_Seal l s1)))"

definition node_Chan :: "addr \<Rightarrow> 'v store \<Rightarrow> (chan \<times> 'v store) option" where
  "node_Chan a s =
     do { (ch, p, s') \<leftarrow> slot_Chan (nwatch (nodes s a)) s;
          Some (ch, upd_node a (nwatch_update (\<lambda>_. p)) s') }"

definition node_Seal :: "addr \<Rightarrow> 'v store \<Rightarrow> 'v store option" where
  "node_Seal a s =
     do { (p, s') \<leftarrow> slot_Seal (nwatch (nodes s a)) s;
          Some (upd_node a (nwatch_update (\<lambda>_. p)) s') }"

section \<open>Extreme nodes of a subtree\<close>

text \<open>The result \<open>Some None\<close> is the nil pointer; \<open>None\<close> is a panic or a loop that does not return.\<close>

partial_function (option) minNode :: "'v store \<Rightarrow> addr \<Rightarrow> addr option option" where
  "minNode s n =
     (if hasValue (nodes s n) then Some (Some n)
      else if kidCount (nodes s n) = 0 then Some None
      else do { c \<leftarrow> kid (nodes s n) 0; minNode s c })"

partial_function (option) maxNode :: "'v store \<Rightarrow> addr \<Rightarrow> addr option option" where
  "maxNode s n =
     (if kidCount (nodes s n) > 0
      then do { c \<leftarrow> kid (nodes s n) (kidCount (nodes s n) - 1); maxNode s c }
      else if \<not> hasValue (nodes s n) then Some None
      else Some (Some n))"

end
