(* ===== verification/Radix.thy ===== *)
theory Radix
  imports Prelude
begin

text \<open>
  The abstract radix tree: what a node and everything below it stands for, without addresses,
  bitmaps, capacities, epochs, leaves and watch slots.  It is the specification the heap of the
  program refines.  Its entries are the stored pairs in the order of an in-order walk; lookup,
  insertion, deletion and prefix deletion are specified by the map and the order they denote.
\<close>

section \<open>Trees, entries and shape\<close>

datatype 'v rtree = RT (seg: bytes) (rval: "'v any option") (subs: "'v rtree list")

definition lab :: "'v rtree \<Rightarrow> byte" where
  "lab t = hd (seg t)"

lemma lab_RT [simp]: "lab (RT p ov ks) = hd p"
  by (simp add: lab_def)

definition own_ents :: "'v any option \<Rightarrow> (bytes \<times> 'v any) list" where
  "own_ents ov = (case ov of None \<Rightarrow> [] | Some v \<Rightarrow> [([], v)])"

fun ents :: "'v rtree \<Rightarrow> (bytes \<times> 'v any) list" where
  "ents (RT p ov ks) = map (\<lambda>(k, v). (p @ k, v)) (own_ents ov @ concat (map ents ks))"

text \<open>The entries at and below a node, without its own path segment.\<close>

definition below :: "'v rtree \<Rightarrow> (bytes \<times> 'v any) list" where
  "below t = own_ents (rval t) @ concat (map ents (subs t))"

fun wf_sub :: "'v rtree \<Rightarrow> bool" where
  "wf_sub (RT p ov ks) \<longleftrightarrow>
     p \<noteq> [] \<and> (ov \<noteq> None \<or> 2 \<le> length ks) \<and> sorted_wrt (<) (map lab ks) \<and> (\<forall>t \<in> set ks. wf_sub t)"

definition wf_kids :: "'v rtree list \<Rightarrow> bool" where
  "wf_kids ks \<longleftrightarrow> sorted_wrt (<) (map lab ks) \<and> (\<forall>t \<in> set ks. wf_sub t)"

definition wf_root :: "'v rtree \<Rightarrow> bool" where
  "wf_root t \<longleftrightarrow> seg t = [] \<and> wf_kids (subs t)"

lemma wf_sub_iff:
  "wf_sub t \<longleftrightarrow> seg t \<noteq> [] \<and> (rval t \<noteq> None \<or> 2 \<le> length (subs t)) \<and> wf_kids (subs t)"
  by (cases t) (auto simp: wf_kids_def)

lemma wf_subD:
  assumes "wf_sub t" shows "seg t \<noteq> []" and "wf_kids (subs t)"
    and "rval t \<noteq> None \<or> 2 \<le> length (subs t)"
  using assms by (auto simp: wf_sub_iff)

lemma wf_kids_sub: "wf_kids ks \<Longrightarrow> t \<in> set ks \<Longrightarrow> wf_sub t"
  by (simp add: wf_kids_def)

lemma wf_kids_sorted: "wf_kids ks \<Longrightarrow> sorted_wrt (<) (map lab ks)"
  by (simp add: wf_kids_def)

lemma wf_kids_distinct: "wf_kids ks \<Longrightarrow> distinct (map lab ks)"
  by (simp add: wf_kids_def strict_sorted_iff)

declare wf_sub.simps [simp del]

lemma ents_below: "ents t = map (\<lambda>(k, v). (seg t @ k, v)) (below t)"
  by (cases t) (simp add: below_def)

declare ents.simps [simp del]

lemma below_RT: "below (RT p ov ks) = own_ents ov @ concat (map ents ks)"
  by (simp add: below_def)

lemma wf_root_below: "wf_root t \<Longrightarrow> ents t = below t"
  by (simp add: ents_below wf_root_def case_prod_unfold)

lemma ents_prefix: "e \<in> set (ents t) \<Longrightarrow> \<exists>k. fst e = seg t @ k"
  by (auto simp: ents_below)

lemma ents_hd:
  assumes "e \<in> set (ents t)" and "seg t \<noteq> []"
  shows "fst e \<noteq> []" and "hd (fst e) = lab t"
  using ents_prefix [OF assms(1)] assms(2) by (auto simp: lab_def)

lemma rtree_induct [case_names RT]:
  assumes "\<And>p ov ks. (\<And>t. t \<in> set ks \<Longrightarrow> P t) \<Longrightarrow> P (RT p ov ks)"
  shows "P t"
  using assms by (rule rtree.induct)

text \<open>An in-order walk visits the keys in strictly ascending order.\<close>

lemma sorted_concat_kids:
  assumes "wf_kids ks" and "\<And>t. t \<in> set ks \<Longrightarrow> sorted_wrt (<) (map fst (ents t))"
  shows "sorted_wrt (<) (map fst (concat (map ents ks)))"
  using assms
proof (induction ks)
  case Nil
  then show ?case by simp
next
  case (Cons t ts)
  have wf: "wf_kids ts" and st: "seg t \<noteq> []" using Cons.prems(1)
    by (auto simp: wf_kids_def dest: wf_subD)
  have lt: "x < y" if x: "x \<in> set (map fst (ents t))" and y: "y \<in> set (map fst (concat (map ents ts)))"
    for x y
  proof -
    from y obtain u e where u: "u \<in> set ts" "e \<in> set (ents u)" "y = fst e" by auto
    from x obtain d where d: "d \<in> set (ents t)" "x = fst d" by auto
    have "lab t < lab u" and "seg u \<noteq> []"
      using Cons.prems(1) u(1) by (auto simp: wf_kids_def dest: wf_subD)
    then show ?thesis using ents_hd [OF d(1) st] ents_hd [OF u(2)] d(2) u(3)
      by (auto intro: lex_hd_less)
  qed
  have "sorted_wrt (<) (map fst (concat (map ents ts)))" using Cons.IH wf Cons.prems(2) by simp
  moreover have "sorted_wrt (<) (map fst (ents t))" using Cons.prems(2) by simp
  ultimately show ?case using lt by (simp add: sorted_wrt_append)
qed

lemma sorted_below:
  assumes "wf_kids (subs t)" and "\<And>u. u \<in> set (subs t) \<Longrightarrow> sorted_wrt (<) (map fst (ents u))"
  shows "sorted_wrt (<) (map fst (below t))"
proof -
  have "[] < k" if "k \<in> set (map fst (concat (map ents (subs t))))" for k
  proof -
    from that obtain u e where u: "u \<in> set (subs t)" "e \<in> set (ents u)" "k = fst e" by auto
    then have "seg u \<noteq> []" using assms(1) by (auto dest: wf_kids_sub wf_subD)
    with ents_hd(1) [OF u(2)] u(3) show ?thesis by (simp add: lex_Nil_less)
  qed
  with sorted_concat_kids [OF assms] show ?thesis
    by (auto simp: below_def own_ents_def sorted_wrt_append split: option.splits)
qed

lemma sorted_ents_sub: "wf_sub t \<Longrightarrow> sorted_wrt (<) (map fst (ents t))"
proof (induction t rule: rtree_induct)
  case (RT p ov ks)
  then have "wf_kids ks" by (simp add: wf_sub_iff)
  with RT.IH have "sorted_wrt (<) (map fst (below (RT p ov ks)))"
    by (intro sorted_below) (auto dest: wf_kids_sub)
  then have "sorted_wrt (\<lambda>a b. p @ fst a < p @ fst b) (below (RT p ov ks))"
    by (simp add: sorted_wrt_map)
  then show ?case by (simp add: ents_below sorted_wrt_map case_prod_unfold)
qed

lemma sorted_ents_kids: "wf_kids (subs t) \<Longrightarrow> sorted_wrt (<) (map fst (below t))"
  by (rule sorted_below) (auto dest: wf_kids_sub sorted_ents_sub)

section \<open>The child under a label\<close>

definition child :: "'v rtree list \<Rightarrow> byte \<Rightarrow> 'v rtree option" where
  "child ks b = find (\<lambda>c. lab c = b) ks"

lemma child_SomeD: "child ks b = Some c \<Longrightarrow> c \<in> set ks \<and> lab c = b"
  by (auto simp: child_def find_Some_iff)

lemma child_None_iff: "child ks b = None \<longleftrightarrow> b \<notin> lab ` set ks"
  by (auto simp: child_def find_None_iff)

lemma lab_inj: "distinct (map lab ks) \<Longrightarrow> c \<in> set ks \<Longrightarrow> d \<in> set ks \<Longrightarrow> lab c = lab d \<Longrightarrow> c = d"
  by (metis distinct_map inj_onD)

lemma child_Some_iff:
  assumes "distinct (map lab ks)"
  shows "child ks b = Some c \<longleftrightarrow> c \<in> set ks \<and> lab c = b"
proof
  assume c: "c \<in> set ks \<and> lab c = b"
  then obtain d where d: "child ks b = Some d"
    using child_None_iff [of ks b] by (cases "child ks b") auto
  then have "d = c" using child_SomeD [OF d] c lab_inj [OF assms, of d c] by simp
  with d show "child ks b = Some c" by simp
qed (rule child_SomeD)

lemma child_eqI:
  assumes "distinct (map lab ks)" and "c \<in> set ks" and "lab c = b"
  shows "child ks b = Some c"
  using assms by (simp add: child_Some_iff)

lemma child_nth:
  assumes "sorted_wrt (<) (map lab ks)" and "i = rank_of (map lab ks) b"
  shows "child ks b = (if i < length ks \<and> lab (ks ! i) = b then Some (ks ! i) else None)"
proof (cases "b \<in> lab ` set ks")
  case True
  then have "i < length ks" and "lab (ks ! i) = b"
    using rank_of_nth [OF assms(1), of b] assms(2) by auto
  with assms(1) show ?thesis by (simp add: child_eqI strict_sorted_iff)
next
  case False
  then have "\<not> (i < length ks \<and> lab (ks ! i) = b)" by (metis imageI nth_mem)
  moreover have "child ks b = None" using False by (simp add: child_None_iff)
  ultimately show ?thesis by simp
qed

lemma child_update:
  assumes "distinct (map lab ks)" and "i < length ks" and "lab c = lab (ks ! i)"
  shows "child (ks[i := c]) b = (if b = lab c then Some c else child ks b)"
proof -
  have d: "distinct (map lab (ks[i := c]))"
    using assms by (simp add: map_update) (metis list_update_id length_map nth_map)
  show ?thesis
  proof (cases "b = lab c")
    case True
    with d assms(2) show ?thesis by (simp add: child_Some_iff set_update_memI)
  next
    case False
    have "find (\<lambda>x. lab x = b) (take i ks @ c # drop (Suc i) ks)
        = find (\<lambda>x. lab x = b) (take i ks @ ks ! i # drop (Suc i) ks)"
      using False assms(3) by (simp add: find_append split: option.split)
    with False assms(2) show ?thesis
      by (simp add: child_def list_update_split flip: split_at)
  qed
qed

lemma child_insert:
  assumes "lab c \<notin> lab ` set ks" and "distinct (map lab ks)"
  shows "child (insert_at i c ks) b = (if b = lab c then Some c else child ks b)"
proof -
  have split: "find P ks = find P (take i ks @ drop i ks)" for P by simp
  show ?thesis
  proof (cases "b = lab c")
    case True
    have "lab x \<noteq> b" if "x \<in> set (take i ks)" for x
      using assms(1) True in_set_takeD [OF that] by (metis image_eqI)
    then have "find (\<lambda>x. lab x = b) (take i ks) = None" by (auto simp: find_None_iff)
    with True show ?thesis by (simp add: child_def insert_at_def find_append)
  next
    case False
    then show ?thesis
      by (simp add: child_def insert_at_def split [of "\<lambda>x. lab x = b"] find_append
          del: append_take_drop_id split: option.split)
  qed
qed

lemma child_remove:
  assumes "distinct (map lab ks)" and "i < length ks"
  shows "child (remove_at i ks) b = (if b = lab (ks ! i) then None else child ks b)"
proof -
  have eq: "find P ks = find P (take i ks @ ks ! i # drop (Suc i) ks)" for P
    using split_at [OF assms(2)] by simp
  have "distinct (map lab (take i ks @ ks ! i # drop (Suc i) ks))"
    using assms split_at [OF assms(2)] by simp
  then have "lab (ks ! i) \<notin> lab ` set (remove_at i ks)" by (auto simp: remove_at_def)
  then have "b = lab (ks ! i) \<Longrightarrow> child (remove_at i ks) b = None" by (simp add: child_None_iff)
  moreover have "b \<noteq> lab (ks ! i) \<Longrightarrow> child (remove_at i ks) b = child ks b"
    by (simp add: child_def eq [of "\<lambda>c. lab c = b"] remove_at_def find_append split: option.split)
  ultimately show ?thesis by simp
qed

end
