(* ===== verification/Radix_Ops.thy ===== *)
theory Radix_Ops
  imports Radix
begin

text \<open>
  Lookup, insertion, deletion and prefix deletion on abstract radix trees, with the shape invariant
  kept by each and their effect on the map of entries.
\<close>

section \<open>Lookup\<close>

lemma size_child: "child ks b = Some c \<Longrightarrow> size c < Suc (size_list size ks)"
  by (auto dest!: child_SomeD intro: size_list_estimation less_imp_le simp: less_Suc_eq_le
      size_list_estimation')

lemma size_kid: "i < length ks \<Longrightarrow> size (ks ! i) \<le> size_list size ks"
  by (rule size_list_estimation' [of "ks ! i"]) auto

function look :: "'v rtree \<Rightarrow> bytes \<Rightarrow> 'v any option" where
  "look (RT p ov ks) s =
     (case s of [] \<Rightarrow> ov
      | b # r \<Rightarrow>
          (case child ks b of None \<Rightarrow> None
           | Some c \<Rightarrow> if starts s (seg c) then look c (drop (length (seg c)) s) else None))"
  by pat_completeness auto
termination
  by (relation "measure (\<lambda>(t, s). size t)") (auto dest: size_child)

declare look.simps [simp del]

lemma look_Nil [simp]: "look t [] = rval t"
  by (cases t) (simp add: look.simps)

lemma look_step:
  "s \<noteq> [] \<Longrightarrow> look t s =
     (case child (subs t) (hd s) of None \<Rightarrow> None
      | Some c \<Rightarrow> if starts s (seg c) then look c (drop (length (seg c)) s) else None)"
  by (cases t; cases s) (simp_all add: look.simps split: option.split)

lemma map_of_own [simp]: "map_of (own_ents ov) s = (if s = [] then ov else None)"
  by (auto simp: own_ents_def split: option.split)

lemma map_of_prefix:
  "map_of (map (\<lambda>(k, v). (p @ k, v)) xs) s =
     (if starts s p then map_of xs (drop (length p) s) else None)"
  by (induction xs) (auto simp: starts_iff)

lemma map_of_ents:
  "map_of (ents t) s = (if starts s (seg t) then map_of (below t) (drop (length (seg t)) s) else None)"
  by (simp add: ents_below map_of_prefix)

lemma map_of_kids:
  assumes "distinct (map lab ks)" and "\<forall>c \<in> set ks. seg c \<noteq> []" and "s \<noteq> []"
  shows "map_of (concat (map ents ks)) s =
           (case child ks (hd s) of None \<Rightarrow> None | Some c \<Rightarrow> map_of (ents c) s)"
  using assms
proof (induction ks)
  case Nil
  then show ?case by (simp add: child_def)
next
  case (Cons c ks)
  have nc: "map_of (ents c) s = None" if "lab c \<noteq> hd s"
    using that Cons.prems(2) by (auto simp: map_of_ents lab_def dest: starts_hd)
  show ?case
  proof (cases "lab c = hd s")
    case True
    then have "child ks (hd s) = None" using Cons.prems(1) by (auto simp: child_None_iff)
    then have "map_of (concat (map ents ks)) s = None" using Cons by simp
    with True show ?thesis by (auto simp: child_def map_add_def split: option.split)
  next
    case False
    with Cons nc show ?thesis by (auto simp: child_def map_add_def split: option.split)
  qed
qed

lemma map_of_kids_Nil:
  assumes "\<forall>c \<in> set ks. seg c \<noteq> []"
  shows "map_of (concat (map ents ks)) [] = None"
  using assms by (induction ks) (auto simp: map_of_ents map_add_def)

lemma look_below: "wf_kids (subs t) \<Longrightarrow> map_of (below t) s = look t s"
proof (induction t s rule: look.induct)
  case (1 p ov ks s)
  have wf: "wf_kids ks" using "1.prems" by simp
  have ne: "\<forall>c \<in> set ks. seg c \<noteq> []" using wf by (auto dest: wf_kids_sub wf_subD(1))
  show ?case
  proof (cases s)
    case Nil
    with map_of_kids_Nil [OF ne] show ?thesis
      by (simp add: below_def map_add_def split: option.split)
  next
    case (Cons b r)
    have "map_of (below (RT p ov ks)) s
        = (case child ks b of None \<Rightarrow> None | Some c \<Rightarrow> map_of (ents c) s)"
      using map_of_kids [OF wf_kids_distinct [OF wf] ne, of s] Cons
      by (simp add: below_def map_add_def split: option.split)
    moreover have "map_of (below c) (drop (length (seg c)) s) = look c (drop (length (seg c)) s)"
      if "child ks b = Some c" "starts s (seg c)" for c
      using "1.IH" [OF Cons that] that(1) wf
      by (metis child_SomeD wf_kids_sub wf_subD(2))
    ultimately show ?thesis
      using Cons by (auto simp: look.simps map_of_ents split: option.split)
  qed
qed

section \<open>Insertion\<close>

text \<open>
  The key diverges inside the segment of \<open>c\<close> after \<open>m\<close> bytes: a new node takes the common part, and
  \<open>c\<close> keeps the rest of its segment below it.
\<close>

definition split_node :: "nat \<Rightarrow> bytes \<Rightarrow> 'v any \<Rightarrow> 'v rtree \<Rightarrow> 'v rtree" where
  "split_node m s v c =
     (let trimmed = RT (drop m (seg c)) (rval c) (subs c); rest = drop m s in
      if rest = [] then RT (take m (seg c)) (Some v) [trimmed]
      else let added = RT rest (Some v) [] in
        RT (take m (seg c)) None
          (if lab added < lab trimmed then [added, trimmed] else [trimmed, added]))"

function ins :: "bytes \<Rightarrow> 'v any \<Rightarrow> 'v rtree \<Rightarrow> 'v rtree" where
  "ins s v (RT p ov ks) =
     (if s = [] then RT p (Some v) ks
      else let i = rank_of (map lab ks) (hd s) in
        if i < length ks \<and> lab (ks ! i) = hd s
        then let c = ks ! i; m = lcp s (seg c) in
          RT p ov (ks[i := (if m = length (seg c) then ins (drop m s) v c else split_node m s v c)])
        else RT p ov (insert_at i (RT s (Some v) []) ks))"
  by pat_completeness auto
termination
  by (relation "measure (\<lambda>(s, v, t). size t)")
    (auto simp: less_Suc_eq_le intro: trans_le_add2 size_kid)

declare ins.simps [simp del]

lemma ins_Nil: "ins [] v t = RT (seg t) (Some v) (subs t)"
  by (cases t) (simp add: ins.simps)

lemma seg_ins [simp]: "seg (ins s v t) = seg t"
  by (cases t) (simp add: ins.simps Let_def)

lemma seg_split_node [simp]: "seg (split_node m s v c) = take m (seg c)"
  by (simp add: split_node_def Let_def)

lemma ins_step:
  assumes "wf_kids (subs t)" and "s \<noteq> []"
  shows "ins s v t =
    (case child (subs t) (hd s) of
       None \<Rightarrow> RT (seg t) (rval t)
                 (insert_at (rank_of (map lab (subs t)) (hd s)) (RT s (Some v) []) (subs t))
     | Some c \<Rightarrow> RT (seg t) (rval t)
          ((subs t)[rank_of (map lab (subs t)) (hd s) :=
              (if starts s (seg c) then ins (drop (length (seg c)) s) v c
               else split_node (lcp s (seg c)) s v c)]))"
proof -
  have "child (subs t) (hd s) = (if rank_of (map lab (subs t)) (hd s) < length (subs t) \<and>
           lab (subs t ! rank_of (map lab (subs t)) (hd s)) = hd s
         then Some (subs t ! rank_of (map lab (subs t)) (hd s)) else None)"
    using assms(1) by (intro child_nth) (simp_all add: wf_kids_def)
  then show ?thesis
    using assms(2) by (cases t) (auto simp: ins.simps Let_def lcp_starts lcp_starts [THEN iffD2] split: option.split if_splits)
qed

lemma child_rank:
  assumes "wf_kids ks" and "child ks b = Some c" and "i = rank_of (map lab ks) b"
  shows "i < length ks" and "ks ! i = c" and "lab c = b" and "c \<in> set ks" and "wf_sub c"
proof -
  have "child ks b = (if i < length ks \<and> lab (ks ! i) = b then Some (ks ! i) else None)"
    using assms by (intro child_nth) (simp_all add: wf_kids_def)
  with assms(2) show "i < length ks" "ks ! i = c" "lab c = b" by (auto split: if_splits)
  then show "c \<in> set ks" by auto
  then show "wf_sub c" using assms(1) by (rule wf_kids_sub [rotated])
qed

lemma wf_kids_update:
  assumes "wf_kids ks" and "i < length ks" and "wf_sub c" and "lab c = lab (ks ! i)"
  shows "wf_kids (ks[i := c])"
proof -
  have "map lab (ks[i := c]) = map lab ks"
    using assms(2,4) by (simp add: map_update) (metis list_update_id length_map nth_map)
  with assms show ?thesis by (auto simp: wf_kids_def dest!: set_update_subset_insert [THEN subsetD])
qed

lemma wf_kids_insert:
  assumes "wf_kids ks" and "wf_sub c" and "lab c \<notin> lab ` set ks"
  shows "wf_kids (insert_at (rank_of (map lab ks) (lab c)) c ks)"
proof -
  have s: "sorted_wrt (<) (map lab ks)" using assms(1) by (simp add: wf_kids_def)
  have "sorted_wrt (<) (insert_at (rank_of (map lab ks) (lab c)) (lab c) (map lab ks))"
    using s assms(3) by (intro sorted_wrt_insert_at rank_of_take_less rank_of_drop_gr) auto
  with assms(1,2) show ?thesis by (auto simp: wf_kids_def map_insert_at)
qed

lemma wf_kids_remove: "wf_kids ks \<Longrightarrow> wf_kids (remove_at i ks)"
  using set_remove_at_subset [of i ks]
  by (auto simp: wf_kids_def map_remove_at sorted_wrt_remove_at)

lemma wf_leaf: "s \<noteq> [] \<Longrightarrow> wf_sub (RT s (Some v) [])"
  by (simp add: wf_sub.simps)

lemma wf_split_node:
  assumes "wf_sub c" and "s \<noteq> []" and "lab c = hd s" and "\<not> starts s (seg c)"
  shows "wf_sub (split_node (lcp s (seg c)) s v c)" and "lab (split_node (lcp s (seg c)) s v c) = lab c"
proof -
  let ?m = "lcp s (seg c)"
  have ne: "seg c \<noteq> []" and wk: "wf_kids (subs c)" and sh: "rval c \<noteq> None \<or> 2 \<le> length (subs c)"
    using assms(1) by (auto simp: wf_sub_iff)
  have m0: "0 < ?m" using lcp_pos [of s "seg c"] assms(2,3) ne by (simp add: lab_def)
  have mlt: "?m < length (seg c)"
    using assms(4) lcp_le(2) [of s "seg c"] lcp_starts [of s "seg c"] by linarith
  have tr: "wf_sub (RT (drop ?m (seg c)) (rval c) (subs c))"
    using mlt wk sh by (simp add: wf_sub_iff)
  show "lab (split_node ?m s v c) = lab c" using m0 by (simp add: lab_def)
  have t: "take ?m (seg c) \<noteq> []" using m0 ne by simp
  show "wf_sub (split_node ?m s v c)"
  proof (cases "drop ?m s = []")
    case True
    with tr t show ?thesis by (simp add: split_node_def Let_def wf_sub.simps [of "take _ _"])
  next
    case False
    then have "?m < length s" by simp
    then have "hd (drop ?m s) \<noteq> hd (drop ?m (seg c))"
      using lcp_nth [of s "seg c"] mlt by (simp add: hd_drop_conv_nth)
    with False tr t show ?thesis
      by (auto simp: split_node_def Let_def wf_sub.simps [of "take _ _"] wf_leaf)
  qed
qed

lemma ins_rval: "rval (ins s v t) = (if s = [] then Some v else rval t)"
  by (cases t) (simp add: ins.simps Let_def)

lemma ins_subs_mono: "length (subs t) \<le> length (subs (ins s v t))"
  by (cases t) (simp add: ins.simps Let_def)

lemma map_of_below:
  assumes "wf_kids (subs t)"
  shows "map_of (below t) s =
    (if s = [] then rval t
     else (case child (subs t) (hd s) of None \<Rightarrow> None | Some c \<Rightarrow> map_of (ents c) s))"
proof -
  have ne: "\<forall>c \<in> set (subs t). seg c \<noteq> []" using assms by (auto dest: wf_kids_sub wf_subD(1))
  show ?thesis
    using map_of_kids [OF wf_kids_distinct [OF assms] ne, of s] map_of_kids_Nil [OF ne]
    by (auto simp: below_def map_add_def split: option.split)
qed

lemma wf_kids_ins: "wf_kids (subs t) \<Longrightarrow> wf_kids (subs (ins s v t))"
proof (induction s v t rule: ins.induct)
  case (1 s v p ov ks)
  let ?t = "RT p ov ks" and ?i = "rank_of (map lab ks) (hd s)"
  have wf: "wf_kids ks" using "1.prems" by simp
  show ?case
  proof (cases "s = []")
    case True
    with wf show ?thesis by (simp add: ins_Nil)
  next
    case False
    note step = ins_step [OF "1.prems" False, of v]
    show ?thesis
    proof (cases "child ks (hd s)")
      case None
      then have "hd s \<notin> lab ` set ks" by (simp add: child_None_iff)
      with wf_kids_insert [OF wf wf_leaf [OF False, of v]] None show ?thesis by (simp add: step)
    next
      case (Some c)
      note c = child_rank [OF wf Some refl]
      show ?thesis
      proof (cases "starts s (seg c)")
        case True
        have "wf_kids (subs (ins (drop (length (seg c)) s) v c))"
          using "1.IH" [OF False refl _ refl refl] c True wf_subD(2) [OF c(5)]
          by (simp add: lcp_starts [THEN iffD2])
        then have "wf_sub (ins (drop (length (seg c)) s) v c)"
          using wf_subD [OF c(5)] ins_rval [of "drop (length (seg c)) s" v c]
            ins_subs_mono [of c "drop (length (seg c)) s" v] by (auto simp: wf_sub_iff)
        with wf c True Some show ?thesis
          by (simp add: step) (intro wf_kids_update, simp_all add: lab_def)
      next
        case nosplit: False
        note w = wf_split_node [OF c(5) False c(3) nosplit, of v]
        with wf c Some nosplit show ?thesis by (simp add: step) (intro wf_kids_update, simp_all)
      qed
    qed
  qed
qed

lemma wf_root_ins: "wf_root t \<Longrightarrow> wf_root (ins s v t)"
  by (simp add: wf_root_def wf_kids_ins)

lemma map_of_ents_RT:
  assumes "wf_kids ks"
  shows "map_of (ents (RT p ov ks)) s =
    (if starts s p then
       (if s = p then ov
        else (case child ks (hd (drop (length p) s)) of None \<Rightarrow> None
              | Some c \<Rightarrow> map_of (ents c) (drop (length p) s)))
     else None)"
proof -
  have "starts s p \<Longrightarrow> drop (length p) s = [] \<longleftrightarrow> s = p" by (auto elim: startsE)
  then show ?thesis
    using map_of_below [of "RT p ov ks" "drop (length p) s"] assms by (simp add: map_of_ents)
qed

lemma child_single [simp]: "child [c] b = (if lab c = b then Some c else None)"
  by (simp add: child_def)

lemma child_pair [simp]:
  "child [c, d] b = (if lab c = b then Some c else if lab d = b then Some d else None)"
  by (simp add: child_def)

lemma map_of_trimmed:
  "starts s (take m (seg c)) \<Longrightarrow> m \<le> length (seg c) \<Longrightarrow>
     map_of (ents (RT (drop m (seg c)) (rval c) (subs c))) (drop m s) = map_of (ents c) s"
  using starts_append_iff [of s "take m (seg c)" "drop m (seg c)"]
  by (simp add: map_of_ents below_def min_absorb2)

lemma map_of_split_node:
  assumes "wf_sub c" and "s \<noteq> []" and "lab c = hd s" and "\<not> starts s (seg c)"
  shows "map_of (ents (split_node (lcp s (seg c)) s v c)) s'
         = (if s' = s then Some v else map_of (ents c) s')"
proof -
  define m where "m = lcp s (seg c)"
  define q where "q = take m (seg c)"
  define rest where "rest = drop m s"
  let ?tr = "RT (drop m (seg c)) (rval c) (subs c)"
  have mlt: "m < length (seg c)"
    using assms(4) lcp_le(2) [of s "seg c"] lcp_starts [of s "seg c"] unfolding m_def by linarith
  then have len: "length q = m" by (simp add: q_def)
  have s: "s = q @ rest"
    unfolding q_def rest_def using lcp_take [of s "seg c", folded m_def] by (metis append_take_drop_id)
  have cq: "seg c = q @ drop m (seg c)" by (simp add: q_def)
  have sc: "starts x (seg c) \<Longrightarrow> starts x q" for x
    by (metis cq starts_append_iff)
  then have nq: "\<not> starts x q \<Longrightarrow> map_of (ents c) x = None \<and> x \<noteq> s" for x
    unfolding s by (auto simp: map_of_ents)
  have "wf_sub ?tr" using assms(1) mlt by (simp add: wf_sub_iff)
  then have tr: "wf_kids [?tr]" by (simp add: wf_kids_def)
  have atq: "map_of (ents c) q = None" using mlt len
    by (auto simp: map_of_ents dest: starts_length)
  have tre: "starts x q \<Longrightarrow> map_of (ents ?tr) (drop m x) = map_of (ents c) x" for x
    using map_of_trimmed [of x m c] mlt by (simp add: q_def)
  have trn: "x \<noteq> [] \<Longrightarrow> hd x \<noteq> lab ?tr \<Longrightarrow> map_of (ents ?tr) x = None" for x
    using mlt by (auto simp: map_of_ents dest: starts_hd)
  have eq: "starts x q \<Longrightarrow> drop m x = [] \<longleftrightarrow> x = q" for x
    using len by (auto elim!: startsE)
  show ?thesis
  proof (cases "rest = []")
    case True
    then have "map_of (ents (split_node m s v c)) s' = map_of (ents (RT q (Some v) [?tr])) s'"
      by (simp add: split_node_def rest_def q_def)
    also have "\<dots> = (if s' = s then Some v else map_of (ents c) s')"
      using nq [of s'] tre [of s'] trn [of "drop m s'"] eq [of s'] s True
      by (auto simp: map_of_ents_RT [OF tr] len)
    finally show ?thesis by (simp add: m_def)
  next
    case False
    let ?ad = "RT rest (Some v) ([] :: 'a rtree list)"
    let ?ks = "if lab ?ad < lab ?tr then [?ad, ?tr] else [?tr, ?ad]"
    have ne: "lab ?ad \<noteq> lab ?tr"
      using lcp_nth [of s "seg c", folded m_def] mlt False by (simp add: hd_drop_conv_nth rest_def)
    have wk: "wf_kids ?ks" using ne tr False by (auto simp: wf_kids_def wf_leaf)
    have ad: "map_of (ents ?ad) x = (if x = rest then Some v else None)" for x
      using map_of_ents_RT [of "[]" rest "Some v" x] by (simp add: wf_kids_def child_def)
    have "map_of (ents (split_node m s v c)) s' = map_of (ents (RT q None ?ks)) s'"
      using False by (simp add: split_node_def Let_def rest_def q_def)
    also have "\<dots> = (if s' = s then Some v else map_of (ents c) s')"
    proof (cases "starts s' q")
      case True
      have sr: "drop m s' = rest \<longleftrightarrow> s' = s"
        using starts_drop_eq_iff [of s' q s] True s len by simp
      have ch: "child ?ks b = (if b = lab ?ad then Some ?ad else if b = lab ?tr then Some ?tr else None)"
        for b using ne by auto
      show ?thesis
        unfolding map_of_ents_RT [OF wk] ch len
        using True atq ne False sr eq [OF True] ad [of "drop m s'"] tre [OF True] trn [of "drop m s'"]
          nq [of s'] by auto
    next
      case F: False
      with nq [OF F] show ?thesis unfolding map_of_ents_RT [OF wk] by simp
    qed
    finally show ?thesis by (simp add: m_def)
  qed
qed

lemma map_of_ins:
  "wf_kids (subs t) \<Longrightarrow> map_of (below (ins s v t)) s' = (if s' = s then Some v else map_of (below t) s')"
proof (induction s v t arbitrary: s' rule: ins.induct)
  case (1 s v p ov ks)
  let ?i = "rank_of (map lab ks) (hd s)"
  have wf: "wf_kids ks" using "1.prems" by simp
  have wf': "wf_kids (subs (ins s v (RT p ov ks)))" using wf_kids_ins [OF "1.prems"] .
  note mb = map_of_below [OF wf', of s'] and mb0 = map_of_below [OF "1.prems", of s']
  show ?case
  proof (cases "s = []")
    case True
    then show ?thesis using mb mb0 by (simp add: ins_Nil)
  next
    case False
    note step = ins_step [OF "1.prems" False, of v]
    show ?thesis
    proof (cases "child ks (hd s)")
      case None
      have n: "lab (RT s (Some v) []) \<notin> lab ` set ks" using None by (simp add: child_None_iff)
      have "map_of (ents (RT s (Some v) [])) x = (if x = s then Some v else None)" for x
        using map_of_ents_RT [of "[]" s "Some v" x] by (simp add: wf_kids_def child_def)
      then show ?thesis
        using mb mb0 None False child_insert [OF n wf_kids_distinct [OF wf], of ?i "hd s'"]
        by (auto simp: step)
    next
      case (Some c)
      note c = child_rank [OF wf Some refl]
      define d where "d = (if starts s (seg c) then ins (drop (length (seg c)) s) v c
                           else split_node (lcp s (seg c)) s v c)"
      have lab: "lab d = lab c"
        using wf_split_node(2) [OF c(5) False c(3)] by (simp add: d_def) (simp add: lab_def)
      have me: "map_of (ents d) x = (if x = s then Some v else map_of (ents c) x)" for x
      proof (cases "starts s (seg c)")
        case True
        have "map_of (below d) y = (if y = drop (length (seg c)) s then Some v else map_of (below c) y)"
          for y using "1.IH" [OF False refl _ refl refl] c True wf_subD(2) [OF c(5)]
          by (simp add: lcp_starts [THEN iffD2] d_def)
        with True show ?thesis
          using starts_drop_eq_iff [OF _ True, of x] by (auto simp: map_of_ents d_def)
      next
        case nosplit: False
        then show ?thesis using map_of_split_node [OF c(5) False c(3) nosplit] by (simp add: d_def)
      qed
      have "ins s v (RT p ov ks) = RT p ov (ks[?i := d])" using Some by (simp add: step d_def)
      then show ?thesis
        using mb mb0 Some False me c lab child_update [OF wf_kids_distinct [OF wf] c(1), of d "hd s'"]
        by auto
    qed
  qed
qed

section \<open>Deletion\<close>

text \<open>
  A node other than the root that is left without a value disappears when it has no child, and is
  merged with its child when it has one.
\<close>

fun norm :: "'v rtree \<Rightarrow> 'v rtree option" where
  "norm (RT p None []) = None"
| "norm (RT p None [c]) = Some (RT (p @ seg c) (rval c) (subs c))"
| "norm t = Some t"

fun put_kid :: "nat \<Rightarrow> 'v rtree option \<Rightarrow> 'v rtree list \<Rightarrow> 'v rtree list" where
  "put_kid i None ks = remove_at i ks"
| "put_kid i (Some d) ks = ks[i := d]"

function del :: "bytes \<Rightarrow> 'v rtree \<Rightarrow> 'v rtree" where
  "del s (RT p ov ks) =
     (if s = [] then RT p None ks
      else let i = rank_of (map lab ks) (hd s) in
        if i < length ks \<and> lab (ks ! i) = hd s \<and> starts s (seg (ks ! i))
        then RT p ov (put_kid i (norm (del (drop (length (seg (ks ! i))) s) (ks ! i))) ks)
        else RT p ov ks)"
  by pat_completeness auto
termination
  by (relation "measure (\<lambda>(s, t). size t)")
    (auto simp: less_Suc_eq_le intro: trans_le_add2 size_kid)

declare del.simps [simp del]

text \<open>
  Prefix deletion cuts the subtree whose keys start with \<open>s\<close>; the prefix may end inside the segment
  of the subtree's root.
\<close>

function delp_kids :: "bytes \<Rightarrow> 'v rtree \<Rightarrow> 'v rtree" where
  "delp_kids s (RT p ov ks) =
     (let i = rank_of (map lab ks) (hd s) in
        if s \<noteq> [] \<and> i < length ks \<and> lab (ks ! i) = hd s
        then if starts (seg (ks ! i)) s then RT p ov (remove_at i ks)
             else if starts s (seg (ks ! i))
             then RT p ov (put_kid i (norm (delp_kids (drop (length (seg (ks ! i))) s) (ks ! i))) ks)
             else RT p ov ks
        else RT p ov ks)"
  by pat_completeness auto
termination
  by (relation "measure (\<lambda>(s, t). size t)")
    (auto simp: less_Suc_eq_le intro: trans_le_add2 size_kid)

declare delp_kids.simps [simp del]

definition delp :: "bytes \<Rightarrow> 'v rtree \<Rightarrow> 'v rtree" where
  "delp s t = (if s = [] then RT [] None [] else delp_kids s t)"

lemma seg_del [simp]: "seg (del s t) = seg t"
  by (cases t) (simp add: del.simps Let_def)

lemma seg_delp_kids [simp]: "seg (delp_kids s t) = seg t"
  by (cases t) (simp add: delp_kids.simps Let_def)

lemma norm_wf_sub: "wf_sub t \<Longrightarrow> norm t = Some t"
  by (cases t rule: norm.cases) (auto simp: wf_sub.simps)

lemma norm_ents: "(case norm t of None \<Rightarrow> [] | Some d \<Rightarrow> ents d) = ents t"
  by (cases t rule: norm.cases) (simp_all add: ents_below below_def own_ents_def case_prod_unfold comp_def)

lemma norm_wf:
  assumes "norm t = Some d" and "seg t \<noteq> []" and "wf_kids (subs t)"
  shows "wf_sub d" and "lab d = lab t"
proof -
  show "lab d = lab t" using assms(1,2) by (cases t rule: norm.cases) (auto simp: lab_def)
  show "wf_sub d"
  proof (cases t rule: norm.cases)
    case (2 p c)
    with assms(3) have "wf_sub c" by (simp add: wf_kids_def)
    with assms(1) 2 show ?thesis by (auto simp: wf_sub_iff)
  qed (use assms in \<open>auto simp: wf_sub_iff\<close>)
qed

lemma ents_put_kid:
  assumes "i < length ks"
  shows "concat (map ents (put_kid i (norm t) ks))
         = concat (map ents (take i ks)) @ ents t @ concat (map ents (drop (Suc i) ks))"
  using norm_ents [of t] assms
  by (cases "norm t") (simp_all add: remove_at_def list_update_split)

lemma wf_put_kid:
  assumes "wf_kids ks" and "i < length ks" and "wf_kids (subs t)" and "seg t = seg (ks ! i)"
  shows "wf_kids (put_kid i (norm t) ks)"
proof (cases "norm t")
  case None
  with assms(1) show ?thesis by (simp add: wf_kids_remove)
next
  case (Some d)
  have "seg t \<noteq> []" using assms by (metis nth_mem wf_kids_sub wf_subD(1))
  with norm_wf [OF Some _ assms(3)] Some assms show ?thesis
    by (simp add: wf_kids_update lab_def)
qed

text \<open>Removing every entry whose key satisfies \<open>Q\<close>, when \<open>Q\<close> pins the first byte.\<close>

lemma filter_other_kids:
  assumes "\<And>k. Q k \<Longrightarrow> k \<noteq> [] \<and> hd k = b" and "\<forall>c \<in> set ks. seg c \<noteq> [] \<and> lab c \<noteq> b"
  shows "filter (\<lambda>e. \<not> Q (fst e)) (concat (map ents ks)) = concat (map ents ks)"
proof (rule filter_True, rule ballI, rule notI)
  fix e assume "e \<in> set (concat (map ents ks))" and q: "Q (fst e)"
  then obtain c where c: "c \<in> set ks" "e \<in> set (ents c)" by auto
  with ents_hd(2) [OF c(2)] assms(1) [OF q] assms(2) show False by auto
qed

lemma filter_own: "(\<And>k. Q k \<Longrightarrow> k \<noteq> []) \<Longrightarrow> filter (\<lambda>e. \<not> Q (fst e)) (own_ents ov) = own_ents ov"
  by (auto simp: own_ents_def split: option.split)

lemma filter_below_miss:
  assumes "wf_kids ks" and "\<And>k. Q k \<Longrightarrow> k \<noteq> [] \<and> hd k = b" and "child ks b = None"
  shows "filter (\<lambda>e. \<not> Q (fst e)) (below (RT p ov ks)) = below (RT p ov ks)"
proof -
  have "\<forall>c \<in> set ks. seg c \<noteq> [] \<and> lab c \<noteq> b"
    using assms(1,3) by (auto simp: child_None_iff dest: wf_kids_sub wf_subD(1))
  then have "filter (\<lambda>e. \<not> Q (fst e)) (concat (map ents ks)) = concat (map ents ks)"
    using filter_other_kids [of Q b ks] assms(2) by blast
  moreover have "filter (\<lambda>e. \<not> Q (fst e)) (own_ents ov) = own_ents ov"
    using filter_own [of Q ov] assms(2) by blast
  ultimately show ?thesis by (simp add: below_def)
qed

lemma filter_below_hit:
  assumes wf: "wf_kids ks" and Q: "\<And>k. Q k \<Longrightarrow> k \<noteq> [] \<and> hd k = b"
    and i: "i < length ks" "lab (ks ! i) = b"
  shows "filter (\<lambda>e. \<not> Q (fst e)) (below (RT p ov ks)) =
    own_ents ov @ concat (map ents (take i ks)) @ filter (\<lambda>e. \<not> Q (fst e)) (ents (ks ! i))
      @ concat (map ents (drop (Suc i) ks))"
proof -
  have "distinct (map lab (take i ks @ ks ! i # drop (Suc i) ks))"
    using wf_kids_distinct [OF wf] split_at [OF i(1)] by simp
  then have "b \<notin> lab ` set (take i ks)" "b \<notin> lab ` set (drop (Suc i) ks)" using i(2) by auto
  then have "\<forall>c \<in> set (take i ks). lab c \<noteq> b" "\<forall>c \<in> set (drop (Suc i) ks). lab c \<noteq> b"
    by (metis image_eqI)+
  moreover have "\<forall>c \<in> set (take i ks). seg c \<noteq> []" "\<forall>c \<in> set (drop (Suc i) ks). seg c \<noteq> []"
    using wf by (auto dest!: in_set_takeD in_set_dropD dest: wf_kids_sub wf_subD(1))
  ultimately have "filter (\<lambda>e. \<not> Q (fst e)) (concat (map ents (take i ks))) = concat (map ents (take i ks))"
      "filter (\<lambda>e. \<not> Q (fst e)) (concat (map ents (drop (Suc i) ks))) = concat (map ents (drop (Suc i) ks))"
    using filter_other_kids [of Q b "take i ks"] filter_other_kids [of Q b "drop (Suc i) ks"] Q
    by blast+
  moreover have "filter (\<lambda>e. \<not> Q (fst e)) (own_ents ov) = own_ents ov"
    using filter_own [of Q ov] Q by blast
  ultimately show ?thesis by (simp add: below_def concat_map_split [OF i(1)])
qed

lemma filter_ents:
  "filter (\<lambda>e. \<not> Q (fst e)) (ents t)
     = map (\<lambda>(k, v). (seg t @ k, v)) (filter (\<lambda>e. \<not> Q (seg t @ fst e)) (below t))"
  by (simp add: ents_below filter_map comp_def case_prod_unfold)

lemma rank_cases:
  assumes "wf_kids ks"
  obtains (miss) "child ks b = None"
      "\<not> (rank_of (map lab ks) b < length ks \<and> lab (ks ! rank_of (map lab ks) b) = b)"
    | (hit) c where "child ks b = Some c" "rank_of (map lab ks) b < length ks"
      "ks ! rank_of (map lab ks) b = c" "lab c = b" "wf_sub c"
proof -
  have "child ks b = (if rank_of (map lab ks) b < length ks \<and> lab (ks ! rank_of (map lab ks) b) = b
      then Some (ks ! rank_of (map lab ks) b) else None)"
    using assms by (intro child_nth) (simp_all add: wf_kids_def)
  moreover have "i < length ks \<Longrightarrow> wf_sub (ks ! i)" for i using assms by (simp add: wf_kids_def)
  ultimately show thesis using that by (auto split: if_splits)
qed

lemma del_miss:
  assumes "\<not> (rank_of (map lab ks) (hd s) < length ks \<and> lab (ks ! rank_of (map lab ks) (hd s)) = hd s)"
  shows "s \<noteq> [] \<Longrightarrow> del s (RT p ov ks) = RT p ov ks" and "delp_kids s (RT p ov ks) = RT p ov ks"
  using assms by (auto simp: del.simps delp_kids.simps Let_def)

lemma del_hit:
  assumes "rank_of (map lab ks) (hd s) = i" and "i < length ks" and "lab (ks ! i) = hd s" and "s \<noteq> []"
  shows "del s (RT p ov ks) = RT p ov
      (if starts s (seg (ks ! i)) then put_kid i (norm (del (drop (length (seg (ks ! i))) s) (ks ! i))) ks
       else ks)"
    and "delp_kids s (RT p ov ks) = RT p ov
      (if starts (seg (ks ! i)) s then remove_at i ks
       else if starts s (seg (ks ! i))
       then put_kid i (norm (delp_kids (drop (length (seg (ks ! i))) s) (ks ! i))) ks
       else ks)"
  using assms by (simp_all add: del.simps delp_kids.simps Let_def)

lemma del_spec:
  "wf_kids (subs t) \<Longrightarrow> wf_kids (subs (del s t)) \<and> below (del s t) = filter (\<lambda>e. fst e \<noteq> s) (below t)"
proof (induction s t rule: del.induct)
  case (1 s p ov ks)
  let ?i = "rank_of (map lab ks) (hd s)"
  have wf: "wf_kids ks" using "1.prems" by simp
  show ?case
  proof (cases "s = []")
    case True
    have "filter (\<lambda>e. fst e \<noteq> []) (concat (map ents ks)) = concat (map ents ks)"
      using wf by (auto simp: filter_id_conv dest!: ents_hd(1) dest: wf_kids_sub wf_subD(1))
    moreover have "filter (\<lambda>e. fst e \<noteq> []) (own_ents ov) = []"
      by (simp add: own_ents_def split: option.split)
    ultimately show ?thesis using True wf by (simp add: del.simps Let_def below_def own_ents_def)
  next
    case False
    have Q: "k = s \<Longrightarrow> k \<noteq> [] \<and> hd k = hd s" for k using False by simp
    from wf show ?thesis
    proof (cases rule: rank_cases [where b = "hd s"])
      case miss
      with filter_below_miss [of ks "\<lambda>k. k = s" "hd s" p ov, OF wf Q miss(1)] del_miss(1) [OF miss(2) False] wf show ?thesis by simp
    next
      case (hit c)
      note step = del_hit(1) [OF refl hit(2) _ False, of p ov, unfolded hit(3), OF hit(4)]
      note fb = filter_below_hit [of ks "\<lambda>k. k = s" "hd s" ?i p ov, OF wf Q]
      show ?thesis
      proof (cases "starts s (seg c)")
        case True
        let ?d = "del (drop (length (seg c)) s) c"
        have ih: "wf_kids (subs ?d)" "below ?d = filter (\<lambda>e. fst e \<noteq> drop (length (seg c)) s) (below c)"
          using "1.IH" [OF False refl] hit True wf_subD(2) [OF hit(5)] by simp_all
        have "seg c @ k = s \<longleftrightarrow> k = drop (length (seg c)) s" for k
          using True by (auto elim: startsE)
        then have "filter (\<lambda>e. fst e \<noteq> s) (ents c) = ents ?d"
          using filter_ents [of "\<lambda>k. k = s" c] by (simp add: ih(2) ents_below [of ?d])
        then show ?thesis
          using fb hit True wf_put_kid [OF wf hit(2), of ?d] ih(1)
          by (simp add: step below_def ents_put_kid)
      next
        case miss: False
        then have "filter (\<lambda>e. fst e \<noteq> s) (ents c) = ents c"
          by (auto simp: filter_id_conv dest!: ents_prefix)
        then show ?thesis
          using fb hit miss wf by (simp add: step below_def concat_map_split [of ?i])
      qed
    qed
  qed
qed

lemma delp_kids_spec:
  "wf_kids (subs t) \<Longrightarrow> s \<noteq> [] \<Longrightarrow>
     wf_kids (subs (delp_kids s t)) \<and> below (delp_kids s t) = filter (\<lambda>e. \<not> starts (fst e) s) (below t)"
proof (induction s t rule: delp_kids.induct)
  case (1 s p ov ks)
  let ?i = "rank_of (map lab ks) (hd s)"
  have wf: "wf_kids ks" using "1.prems" by simp
  have Q: "starts k s \<Longrightarrow> k \<noteq> [] \<and> hd k = hd s" for k using "1.prems"(2) starts_hd by blast
  from wf show ?case
  proof (cases rule: rank_cases [where b = "hd s"])
    case miss
    with filter_below_miss [of ks "\<lambda>k. starts k s" "hd s" p ov, OF wf Q miss(1)] del_miss(2) [OF miss(2)] wf show ?thesis by simp
  next
    case (hit c)
    note step = del_hit(2) [OF refl hit(2) _ "1.prems"(2), of p ov, unfolded hit(3), OF hit(4)]
    note fb = filter_below_hit [of ks "\<lambda>k. starts k s" "hd s" ?i p ov, OF wf Q]
    consider (cut) "starts (seg c) s" | (down) "\<not> starts (seg c) s" "starts s (seg c)"
      | (apart) "\<not> starts (seg c) s" "\<not> starts s (seg c)" by blast
    then show ?thesis
    proof cases
      case cut
      then have "filter (\<lambda>e. \<not> starts (fst e) s) (ents c) = []"
        by (auto simp: filter_empty_conv dest!: ents_prefix) (metis starts_append starts_trans)
      with cut hit fb wf_kids_remove [OF wf, of ?i] show ?thesis
        by (simp add: step below_def) (simp add: remove_at_def)
    next
      case down
      let ?r = "drop (length (seg c)) s" and ?d = "delp_kids (drop (length (seg c)) s) c"
      have s: "s = seg c @ ?r" using down(2) by (simp flip: starts_iff)
      have "?r \<noteq> []" using s down(1) by (metis append_Nil2 starts_self)
      then have ih: "wf_kids (subs ?d)" "below ?d = filter (\<lambda>e. \<not> starts (fst e) ?r) (below c)"
        using "1.IH" [OF refl] hit down wf_subD(2) [OF hit(5)] "1.prems"(2) by simp_all
      have "starts (seg c @ k) s \<longleftrightarrow> starts k ?r" for k
        using starts_append_iff [of "seg c @ k" "seg c" ?r] s by simp
      then have "filter (\<lambda>e. \<not> starts (fst e) s) (ents c) = ents ?d"
        using filter_ents [of "\<lambda>k. starts k s" c] by (simp add: ih(2) ents_below [of ?d])
      then show ?thesis
        using fb hit down wf_put_kid [OF wf hit(2), of ?d] ih(1)
        by (simp add: step below_def ents_put_kid)
    next
      case apart
      have "\<not> starts (seg c @ k) s" for k
      proof
        assume k: "starts (seg c @ k) s"
        from apart show False
          using starts_linear [OF k starts_append] starts_linear [OF starts_append k] by linarith
      qed
      then have "filter (\<lambda>e. \<not> starts (fst e) s) (ents c) = ents c"
        by (auto simp: filter_id_conv dest!: ents_prefix)
      then show ?thesis
        using fb hit apart wf by (simp add: step below_def concat_map_split [of ?i])
    qed
  qed
qed

lemma wf_root_del: "wf_root t \<Longrightarrow> wf_root (del s t)"
  by (simp add: wf_root_def del_spec)

lemma wf_root_delp: "wf_root t \<Longrightarrow> wf_root (delp s t)"
  by (simp add: wf_root_def delp_def delp_kids_spec wf_kids_def [of "[]"])

lemma below_delp: "wf_root t \<Longrightarrow> below (delp s t) = filter (\<lambda>e. \<not> starts (fst e) s) (below t)"
  by (simp add: wf_root_def delp_def delp_kids_spec below_def [of "RT _ _ _"] own_ents_def)

end
