(* ===== verification/Heap_Tree.thy ===== *)
theory Heap_Tree
  imports Node Radix_Ops
begin

text \<open>
  The relation between the heap of nodes and abstract radix trees.  A ghost tree lists the addresses
  of a tree's nodes; \<open>rep\<close> says that the store holds that tree (child arrays, bitmaps and value
  bits agree), and \<open>absn\<close> reads the abstract tree off it.  A tree is unchanged by every store that
  agrees on its nodes up to what readers may install (the leaf and the watch slot).
\<close>

section \<open>Accessor facts\<close>

lemma node_rank_simp [simp]: "node_rank n b = bm_rank (bitmap n) b"
  by (simp add: node_rank_def compact_def)

lemma hasPrefix_starts:
  assumes "prefix n \<noteq> []" and "search \<noteq> []" and "hd search = hd (prefix n)"
  shows "hasPrefix n search = Some (starts search (prefix n))"
proof -
  obtain b p where p: "prefix n = b # p" using assms(1) by (cases "prefix n") auto
  obtain r where s: "search = b # r" using assms(2,3) p by (cases search) auto
  have st: "starts search (prefix n) \<longleftrightarrow> take (length p) r = p" by (simp add: p s starts_def)
  show ?thesis
  proof (cases p)
    case Nil
    then show ?thesis using st by (simp add: hasPrefix_def p)
  next
    case (Cons x q)
    show ?thesis
    proof (cases q)
      case Nil
      with Cons show ?thesis by (cases r) (simp_all add: hasPrefix_def starts_def p s)
    next
      case (Cons y u)
      have "length r < length p \<Longrightarrow> take (length p) r \<noteq> p" by (metis length_take less_irrefl min_less_iff_conj)
      then show ?thesis using Cons \<open>p = x # q\<close> by (auto simp: hasPrefix_def starts_def p s)
    qed
  qed
qed

lemma cpl_loop_lcp:
  "i \<le> lcp a b \<Longrightarrow> cpl_loop a b i = lcp a b"
proof (induction a b i rule: cpl_loop.induct)
  case (1 a b i)
  have nth: "a ! i = b ! i" if "i < lcp a b" for i
    using lcp_take [of a b] that by (metis nth_take)
  show ?case
  proof (cases "i < lcp a b")
    case True
    then have "i < min (length a) (length b) \<and> a ! i = b ! i"
      using lcp_le [of a b] nth by auto
    with "1.IH" True show ?thesis by (subst cpl_loop.simps) simp
  next
    case False
    with "1.prems" have i: "i = lcp a b" by simp
    have "\<not> (i < min (length a) (length b) \<and> a ! i = b ! i)" using lcp_nth [of a b] i by auto
    then have "cpl_loop a b i = i" by (subst cpl_loop.simps) auto
    with i show ?thesis by simp
  qed
qed

lemma commonPrefixLen_lcp: "commonPrefixLen a b = lcp a b"
  by (simp add: commonPrefixLen_def cpl_loop_lcp)

section \<open>Ghost trees\<close>

text \<open>
  Each ghost node also carries a tag: whatever a proof wants to remember of the write that stored
  the node's value.  The program has no such field; tags follow values when nodes are copied.
\<close>

datatype 'x gtree = G (ad: addr) (tg: 'x) (gk: "'x gtree list")

fun addrs :: "'x gtree \<Rightarrow> addr list" where
  "addrs (G a xt gs) = a # concat (map addrs gs)"

lemma ad_in_addrs [simp]: "ad g \<in> set (addrs g)"
  by (cases g) simp

lemma addrs_kid: "c \<in> set (gk g) \<Longrightarrow> set (addrs c) \<subseteq> set (addrs g)"
  by (cases g) auto

text \<open>
  The consistency of one node: its count is within its capacity, its bitmap records exactly the
  labels of its children in ascending order, and a node without a value has no trace of one.
\<close>

definition node_ok :: "'v node \<Rightarrow> byte list \<Rightarrow> bool" where
  "node_ok n ls \<longleftrightarrow>
     nkids n \<le> length (arr n) \<and> bm.enum (bitmap n) ls \<and>
     (\<not> hasValue n \<longrightarrow> val n = None \<and> leafp n = None \<and> \<not> leafOwned n)"

definition lab_at :: "'v store \<Rightarrow> 'x gtree \<Rightarrow> byte" where
  "lab_at s g = hd (prefix (nodes s (ad g)))"

fun rep :: "'v store \<Rightarrow> 'x gtree \<Rightarrow> bool" where
  "rep s (G a xt gs) \<longleftrightarrow>
     a < next_node s \<and> kidList (nodes s a) = map (\<lambda>g. Some (ad g)) gs \<and>
     node_ok (nodes s a) (map (lab_at s) gs) \<and> (\<forall>g \<in> set gs. rep s g)"

definition value_at :: "'v node \<Rightarrow> 'v any option" where
  "value_at n = (if hasValue n then Some (val n) else None)"

fun absn :: "'v store \<Rightarrow> 'x gtree \<Rightarrow> 'v rtree" where
  "absn s (G a xt gs) = RT (prefix (nodes s a)) (value_at (nodes s a)) (map (absn s) gs)"

text \<open>The same reading with the value and the tag of each node seen through \<open>h\<close>.\<close>

fun absh :: "('v any \<Rightarrow> 'x \<Rightarrow> 'y any) \<Rightarrow> 'v store \<Rightarrow> 'x gtree \<Rightarrow> 'y rtree" where
  "absh h s (G a xt gs) =
     RT (prefix (nodes s a)) (map_option (\<lambda>v. h v xt) (value_at (nodes s a))) (map (absh h s) gs)"

lemma absn_absh: "absn s g = absh (\<lambda>v x. v) s g"
  by (induction g) (auto simp: option.map_ident)

lemma absn_sel [simp]:
  "seg (absn s g) = prefix (nodes s (ad g))" "rval (absn s g) = value_at (nodes s (ad g))"
  "subs (absn s g) = map (absn s) (gk g)"
  by (cases g, simp)+

lemma lab_absn [simp]: "lab (absn s g) = lab_at s g"
  by (simp add: lab_def lab_at_def)

lemma lab_comp_absn [simp]: "lab \<circ> absn s = lab_at s"
  by (simp add: fun_eq_iff)

lemma lab_image_absn [simp]: "lab ` absn s ` A = lab_at s ` A"
  by (simp add: image_image)

lemma repD:
  assumes "rep s g"
  shows "ad g < next_node s" and "kidList (nodes s (ad g)) = map (\<lambda>g. Some (ad g)) (gk g)"
    and "node_ok (nodes s (ad g)) (map (lab_at s) (gk g))" and "c \<in> set (gk g) \<Longrightarrow> rep s c"
  using assms by (cases g; simp)+

lemma rep_bound: "rep s g \<Longrightarrow> a \<in> set (addrs g) \<Longrightarrow> a < next_node s"
proof (induction g)
  case (G b xt gs)
  then show ?case by auto
qed

lemma rep_nkids: assumes "rep s g" shows "nkids (nodes s (ad g)) = length (gk g)"
proof -
  have "length (kidList (nodes s (ad g))) = length (gk g)" using repD(2) [OF assms] by simp
  moreover have "nkids (nodes s (ad g)) \<le> length (arr (nodes s (ad g)))"
    using repD(3) [OF assms] by (simp add: node_ok_def)
  ultimately show ?thesis by (simp add: kidList_def min_absorb2)
qed

lemma rep_kid:
  assumes "rep s g" and "i < length (gk g)"
  shows "kid (nodes s (ad g)) i = Some (ad (gk g ! i))"
proof -
  have "kidList (nodes s (ad g)) ! i = Some (ad (gk g ! i))"
    using repD(2) [OF assms(1)] assms(2) by simp
  then show ?thesis using rep_nkids [OF assms(1)] assms(2) by (simp add: kid_def kidList_def)
qed

lemma rep_rank:
  assumes "rep s g"
  shows "bm_rank (bitmap (nodes s (ad g))) b
         = (rank_of (map (lab_at s) (gk g)) b, b \<in> lab_at s ` set (gk g))"
proof -
  have "bm.enum (bitmap (nodes s (ad g))) (map (lab_at s) (gk g))"
    using repD(3) [OF assms] by (simp add: node_ok_def)
  from bm.enum_rank [OF this, of b] show ?thesis by simp
qed

lemma rep_childless: "rep s g \<Longrightarrow> childless (nodes s (ad g)) \<longleftrightarrow> gk g = []"
  by (simp add: childless_def rep_nkids)

lemma rep_kidCount: "rep s g \<Longrightarrow> kidCount (nodes s (ad g)) = length (gk g)"
  by (simp add: kidCount_def rep_nkids)

text \<open>
  One step of every descent: \<open>rank\<close> finds the child the abstract tree has under the byte, \<open>kid\<close>
  reads its address.
\<close>

lemma rep_step [consumes 2, case_names miss hit]:
  assumes "rep s g" and "wf_kids (map (absn s) (gk g))"
  obtains (miss) "node_rank (nodes s (ad g)) b = (rank_of (map (lab_at s) (gk g)) b, False)"
      "child (map (absn s) (gk g)) b = None"
    | (hit) i c where "node_rank (nodes s (ad g)) b = (i, True)"
      "i = rank_of (map (lab_at s) (gk g)) b" "i < length (gk g)" "gk g ! i = c"
      "kid (nodes s (ad g)) i = Some (ad c)" "child (map (absn s) (gk g)) b = Some (absn s c)"
      "rep s c" "wf_sub (absn s c)" "prefix (nodes s (ad c)) \<noteq> []"
      "hd (prefix (nodes s (ad c))) = b" "wf_kids (map (absn s) (gk c))"
proof -
  let ?i = "rank_of (map (lab_at s) (gk g)) b"
  note r = rep_rank [OF assms(1), of b]
  from assms(2) show thesis
  proof (cases rule: rank_cases [where b = b])
    case miss
    then have "b \<notin> lab_at s ` set (gk g)" by (auto simp: child_None_iff)
    with r miss(1) show ?thesis by (intro that(1)) simp_all
  next
    case (hit t)
    then have i: "?i < length (gk g)" and t: "t = absn s (gk g ! ?i)" and b: "lab_at s (gk g ! ?i) = b"
      by auto
    then have "b \<in> lab_at s ` set (gk g)" by (metis image_eqI nth_mem)
    moreover have "rep s (gk g ! ?i)" using repD(4) [OF assms(1)] i by simp
    ultimately show ?thesis
      using r i t b hit(1,5) rep_kid [OF assms(1) i] wf_subD [OF hit(5)]
      by (intro that(2) [of ?i "gk g ! ?i"]) (simp_all add: lab_at_def)
  qed
qed

section \<open>Frame: stores that agree on a tree's nodes\<close>

text \<open>Two versions of a node that differ at most in what a reader may install.\<close>

definition same_node :: "'v node \<Rightarrow> 'v node \<Rightarrow> bool" where
  "same_node n m \<longleftrightarrow>
     prefix m = prefix n \<and> arr m = arr n \<and> nkids m = nkids n \<and> bitmap m = bitmap n \<and>
     val m = val n \<and> epoch m = epoch n \<and>
     (leafp n \<noteq> None \<longrightarrow> leafp m = leafp n) \<and> (\<not> hasValue n \<longrightarrow> leafp m = leafp n)"

lemma same_node_refl [simp]: "same_node n n"
  by (simp add: same_node_def)

lemma same_node_hasValue: "same_node n m \<Longrightarrow> hasValue m \<longleftrightarrow> hasValue n"
  by (simp add: same_node_def hasValue_def)

lemma same_node_trans: "same_node n m \<Longrightarrow> same_node m k \<Longrightarrow> same_node n k"
  by (auto simp: same_node_def hasValue_def)

lemma same_node_value: "same_node n m \<Longrightarrow> value_at m = value_at n"
  by (simp add: same_node_def value_at_def hasValue_def)

lemma same_node_ok: "same_node n m \<Longrightarrow> node_ok n ls \<Longrightarrow> node_ok m ls"
  by (auto simp: same_node_def node_ok_def hasValue_def leafOwned_def)

lemma same_node_kidList: "same_node n m \<Longrightarrow> kidList m = kidList n"
  by (simp add: same_node_def kidList_def)

definition agree :: "addr set \<Rightarrow> 'v store \<Rightarrow> 'v store \<Rightarrow> bool" where
  "agree A s s' \<longleftrightarrow> (\<forall>a \<in> A. same_node (nodes s a) (nodes s' a)) \<and> next_node s \<le> next_node s'"

lemma agree_mono: "agree A s s' \<Longrightarrow> B \<subseteq> A \<Longrightarrow> agree B s s'"
  by (auto simp: agree_def)

lemma agree_refl [simp]: "agree A s s"
  by (simp add: agree_def)

lemma agree_trans: "agree A s s' \<Longrightarrow> agree A s' s'' \<Longrightarrow> agree A s s''"
  unfolding agree_def by (meson order_trans same_node_trans)

lemma lab_at_agree: "agree (set (addrs g)) s s' \<Longrightarrow> lab_at s' g = lab_at s g"
proof -
  assume "agree (set (addrs g)) s s'"
  then have "same_node (nodes s (ad g)) (nodes s' (ad g))" by (simp add: agree_def)
  then show ?thesis by (simp add: lab_at_def same_node_def)
qed

lemma frame_rep:
  "agree (set (addrs g)) s s' \<Longrightarrow> rep s g \<Longrightarrow> rep s' g \<and> absn s' g = absn s g"
proof (induction g)
  case (G a xt gs)
  have sn: "same_node (nodes s a) (nodes s' a)" and nx: "next_node s \<le> next_node s'"
    using G.prems(1) by (simp_all add: agree_def)
  have k: "agree (set (addrs g)) s s'" if "g \<in> set gs" for g
    using G.prems(1) that by (auto intro: agree_mono)
  have l: "map (lab_at s') gs = map (lab_at s) gs" using k lab_at_agree by auto
  moreover have "\<forall>g \<in> set gs. rep s' g \<and> absn s' g = absn s g" using G.IH k G.prems(2) by simp
  moreover have "node_ok (nodes s' a) (map (lab_at s') gs)"
    using same_node_ok [OF sn] G.prems(2) unfolding l by simp
  moreover have "prefix (nodes s' a) = prefix (nodes s a)" using sn by (simp add: same_node_def)
  ultimately show ?case
    using nx G.prems(2) by (auto simp: same_node_kidList [OF sn] same_node_value [OF sn])
qed

lemma frame_absn: "agree (set (addrs g)) s s' \<Longrightarrow> rep s g \<Longrightarrow> absn s' g = absn s g"
  using frame_rep by blast

lemma frame_absh: "agree (set (addrs g)) s s' \<Longrightarrow> absh h s' g = absh h s g"
proof (induction g)
  case (G a xt gs)
  have sn: "same_node (nodes s a) (nodes s' a)" using G.prems by (simp add: agree_def)
  have "\<forall>g \<in> set gs. absh h s' g = absh h s g"
    using G.IH agree_mono [OF G.prems] by fastforce
  then show ?case using sn by (simp add: same_node_value [OF sn]) (simp add: same_node_def)
qed

section \<open>Trees of the program\<close>

text \<open>A tree is well formed when the store holds it, its shape is right and no node occurs twice.\<close>

definition tree_ok :: "'v store \<Rightarrow> 'x gtree \<Rightarrow> bool" where
  "tree_ok s g \<longleftrightarrow> rep s g \<and> wf_root (absn s g) \<and> distinct (addrs g)"

definition contents :: "'v store \<Rightarrow> 'x gtree \<Rightarrow> (bytes \<times> 'v any) list" where
  "contents s g = below (absn s g)"

lemma tree_okD:
  assumes "tree_ok s g"
  shows "rep s g" and "wf_kids (map (absn s) (gk g))" and "prefix (nodes s (ad g)) = []"
    and "distinct (addrs g)"
  using assms by (auto simp: tree_ok_def wf_root_def)

lemma tree_ok_agree:
  "tree_ok s g \<Longrightarrow> agree (set (addrs g)) s s' \<Longrightarrow> tree_ok s' g \<and> contents s' g = contents s g"
  using frame_rep [of g s s'] by (simp add: tree_ok_def contents_def)

lemma contents_sorted: "tree_ok s g \<Longrightarrow> sorted_wrt (<) (map fst (contents s g))"
  by (simp add: contents_def sorted_ents_kids tree_okD(2))

end
