(* ===== verification/Lookup.thy ===== *)
theory Lookup
  imports Heap_Tree
begin

text \<open>
  The read-only operations of \<^verbatim>\<open>internal/radix/tree.go\<close> on the heap, and what they return on a
  well-formed tree, stated over its entries in key order.
\<close>

section \<open>Trees and watches\<close>

text \<open>\<open>Tree\<close> is one pointer; the zero \<open>Tree\<close> has a nil root, on which every read panics.\<close>

type_synonym tree = "addr option"

text \<open>A \<open>Watch\<close> is the watch slot of a node or the value of a node.\<close>

record watch =
  slot_of :: "addr option"
  value_of :: "addr option"

definition NewTree :: "'v store \<Rightarrow> tree \<times> 'v store" where
  "NewTree s = (let (a, s') = alloc_node zero_node s in (Some a, s'))"

definition watch_Chan :: "watch \<Rightarrow> 'v store \<Rightarrow> (chan \<times> 'v store) option" where
  "watch_Chan w s =
     (case value_of w of Some n \<Rightarrow> valueChan n s
      | None \<Rightarrow> (case slot_of w of Some n \<Rightarrow> node_Chan n s | None \<Rightarrow> Some (None, s)))"

abbreviation no_value :: "'v any \<times> bool" where
  "no_value \<equiv> (None, False)"

section \<open>Point lookups\<close>

partial_function (option) Get_loop :: "'v store \<Rightarrow> addr \<Rightarrow> bytes \<Rightarrow> ('v any \<times> bool) option" where
  "Get_loop s n search =
     (if search \<noteq> [] then
        (case node_rank (nodes s n) (hd search) of (idx, ok) \<Rightarrow>
           if \<not> ok then Some no_value
           else do {
             n \<leftarrow> kid (nodes s n) idx;
             hp \<leftarrow> hasPrefix (nodes s n) search;
             if \<not> hp then Some no_value
             else do {
               search \<leftarrow> slice_from search (length (prefix (nodes s n)));
               Get_loop s n search } })
      else if \<not> hasValue (nodes s n) then Some no_value
      else Some (val (nodes s n), True))"

definition Get :: "'v store \<Rightarrow> tree \<Rightarrow> bytes \<Rightarrow> ('v any \<times> bool) option" where
  "Get s t k = do { n \<leftarrow> t; Get_loop s n k }"

partial_function (option) GetWatch_loop ::
  "'v store \<Rightarrow> addr \<Rightarrow> addr \<Rightarrow> bytes \<Rightarrow> (watch \<times> 'v any \<times> bool) option" where
  "GetWatch_loop s n w search =
     (if search \<noteq> [] then
        (case node_rank (nodes s n) (hd search) of (idx, ok) \<Rightarrow>
           if \<not> ok then Some (\<lparr>slot_of = Some w, value_of = None\<rparr>, no_value)
           else do {
             n \<leftarrow> kid (nodes s n) idx;
             let w = n;
             hp \<leftarrow> hasPrefix (nodes s n) search;
             if \<not> hp then Some (\<lparr>slot_of = Some w, value_of = None\<rparr>, no_value)
             else do {
               search \<leftarrow> slice_from search (length (prefix (nodes s n)));
               GetWatch_loop s n w search } })
      else if \<not> hasValue (nodes s n) then Some (\<lparr>slot_of = Some w, value_of = None\<rparr>, no_value)
      else Some (\<lparr>slot_of = None, value_of = Some n\<rparr>, val (nodes s n), True))"

definition GetWatch :: "'v store \<Rightarrow> tree \<Rightarrow> bytes \<Rightarrow> (watch \<times> 'v any \<times> bool) option" where
  "GetWatch s t k = do { n \<leftarrow> t; GetWatch_loop s n n k }"

definition lp_result :: "'v store \<Rightarrow> addr option \<Rightarrow> 'v any \<times> bool" where
  "lp_result s lastn = (case lastn of None \<Rightarrow> no_value | Some l \<Rightarrow> (val (nodes s l), True))"

partial_function (option) LongestPrefix_loop ::
  "'v store \<Rightarrow> addr \<Rightarrow> bytes \<Rightarrow> addr option \<Rightarrow> ('v any \<times> bool) option" where
  "LongestPrefix_loop s n search lastn =
     (let lastn = (if hasValue (nodes s n) then Some n else lastn) in
      if search = [] then Some (lp_result s lastn)
      else (case node_rank (nodes s n) (hd search) of (idx, ok) \<Rightarrow>
        if \<not> ok then Some (lp_result s lastn)
        else do {
          n \<leftarrow> kid (nodes s n) idx;
          hp \<leftarrow> hasPrefix (nodes s n) search;
          if \<not> hp then Some (lp_result s lastn)
          else do {
            search \<leftarrow> slice_from search (length (prefix (nodes s n)));
            LongestPrefix_loop s n search lastn } }))"

definition LongestPrefix :: "'v store \<Rightarrow> tree \<Rightarrow> bytes \<Rightarrow> ('v any \<times> bool) option" where
  "LongestPrefix s t k = do { n \<leftarrow> t; LongestPrefix_loop s n k None }"

section \<open>Prefix lookups\<close>

text \<open>
  The second component is the node whose watch slot covers the prefix; the first is nil when no key
  has the prefix.
\<close>

partial_function (option) seekPrefix_loop ::
  "'v store \<Rightarrow> addr \<Rightarrow> addr \<Rightarrow> bytes \<Rightarrow> (addr option \<times> addr) option" where
  "seekPrefix_loop s n w search =
     (if search \<noteq> [] then
        (case node_rank (nodes s n) (hd search) of (idx, ok) \<Rightarrow>
           if \<not> ok then Some (None, w)
           else do {
             n \<leftarrow> kid (nodes s n) idx;
             let w = n;
             hp \<leftarrow> hasPrefix (nodes s n) search;
             if hp then do {
               search \<leftarrow> slice_from search (length (prefix (nodes s n)));
               seekPrefix_loop s n w search }
             else if length search < length (prefix (nodes s n))
                     \<and> take (length search) (prefix (nodes s n)) = search
             then Some (Some n, w)
             else Some (None, w) })
      else Some (Some n, w))"

definition seekPrefix :: "'v store \<Rightarrow> tree \<Rightarrow> bytes \<Rightarrow> (addr option \<times> addr) option" where
  "seekPrefix s t p = do { n \<leftarrow> t; seekPrefix_loop s n n p }"

definition FirstPrefix :: "'v store \<Rightarrow> tree \<Rightarrow> bytes \<Rightarrow> (watch \<times> 'v any \<times> bool) option" where
  "FirstPrefix s t p =
     do { (n, w) \<leftarrow> seekPrefix s t p;
          (case n of None \<Rightarrow> Some (\<lparr>slot_of = Some w, value_of = None\<rparr>, no_value)
           | Some n \<Rightarrow> do {
               m \<leftarrow> minNode s n;
               (case m of None \<Rightarrow> Some (\<lparr>slot_of = Some w, value_of = None\<rparr>, no_value)
                | Some m \<Rightarrow> Some (\<lparr>slot_of = Some w, value_of = None\<rparr>, val (nodes s m), True)) }) }"

definition LastPrefix :: "'v store \<Rightarrow> tree \<Rightarrow> bytes \<Rightarrow> (watch \<times> 'v any \<times> bool) option" where
  "LastPrefix s t p =
     do { (n, w) \<leftarrow> seekPrefix s t p;
          (case n of None \<Rightarrow> Some (\<lparr>slot_of = Some w, value_of = None\<rparr>, no_value)
           | Some n \<Rightarrow> do {
               m \<leftarrow> maxNode s n;
               (case m of None \<Rightarrow> Some (\<lparr>slot_of = Some w, value_of = None\<rparr>, no_value)
                | Some m \<Rightarrow> Some (\<lparr>slot_of = Some w, value_of = None\<rparr>, val (nodes s m), True)) }) }"

section \<open>Counting\<close>

partial_function (option) countLeaves :: "'v store \<Rightarrow> addr \<Rightarrow> nat option" where
  "countLeaves s n =
     (let c = (if hasValue (nodes s n) then 1 else 0) in
      ofold (\<lambda>k c. do { k \<leftarrow> k; m \<leftarrow> countLeaves s k; Some (c + m) }) (kidList (nodes s n)) c)"

definition Len :: "'v store \<Rightarrow> tree \<Rightarrow> nat option" where
  "Len s t = do { n \<leftarrow> t; countLeaves s n }"

section \<open>What the lookups return\<close>

definition found :: "'v any option \<Rightarrow> 'v any \<times> bool" where
  "found r = (case r of None \<Rightarrow> no_value | Some v \<Rightarrow> (v, True))"

lemma value_at_cases [simp]:
  "hasValue n \<Longrightarrow> value_at n = Some (val n)" "\<not> hasValue n \<Longrightarrow> value_at n = None"
  by (simp_all add: value_at_def)

lemma Get_loop_spec:
  assumes "rep s g" and "wf_kids (map (absn s) (gk g))"
  shows "Get_loop s (ad g) k = Some (found (look (absn s g) k))"
  using assms
proof (induction g arbitrary: k rule: gtree.induct)
  case (G a xt gs)
  let ?g = "G a xt gs"
  show ?case
  proof (cases "k = []")
    case True
    then show ?thesis by (subst Get_loop.simps) (simp add: found_def value_at_def)
  next
    case False
    from G.prems show ?thesis
    proof (cases rule: rep_step [where b = "hd k"])
      case miss
      then show ?thesis
        using False by (subst Get_loop.simps) (simp add: look_step found_def)
    next
      case (hit i c)
      then have c: "c \<in> set gs" by auto
      have hp: "hasPrefix (nodes s (ad c)) k = Some (starts k (prefix (nodes s (ad c))))"
        using hasPrefix_starts hit False by metis
      show ?thesis
        using False hit G.IH [OF c hit(7,11)]
        by (subst Get_loop.simps) (auto simp: look_step hp found_def dest: starts_length)
    qed
  qed
qed

lemma Get_spec:
  assumes "tree_ok s g"
  shows "Get s (Some (ad g)) k = Some (found (map_of (contents s g) k))"
  using Get_loop_spec [OF tree_okD(1,2) [OF assms], of k] tree_okD(2) [OF assms]
  by (simp add: Get_def contents_def look_below)

text \<open>\<open>GetWatch\<close> agrees with \<open>Get\<close>; on a hit the watch is on the value.\<close>

lemma GetWatch_loop_spec:
  assumes "rep s g" and "wf_kids (map (absn s) (gk g))" and "w \<in> set (addrs g)"
  shows "\<exists>wt. GetWatch_loop s (ad g) w k = Some (wt, found (look (absn s g) k)) \<and>
     (case look (absn s g) k of
        Some v \<Rightarrow> (\<exists>n \<in> set (addrs g). wt = \<lparr>slot_of = None, value_of = Some n\<rparr> \<and> value_at (nodes s n) = Some v)
      | None \<Rightarrow> (\<exists>n \<in> set (addrs g). wt = \<lparr>slot_of = Some n, value_of = None\<rparr>))"
  using assms
proof (induction g arbitrary: k w rule: gtree.induct)
  case (G a xt gs)
  let ?g = "G a xt gs"
  show ?case
  proof (cases "k = []")
    case True
    then show ?thesis using G.prems(3)
      by (subst GetWatch_loop.simps) (auto simp: found_def value_at_def)
  next
    case False
    from G.prems(1,2) show ?thesis
    proof (cases rule: rep_step [where b = "hd k"])
      case miss
      then show ?thesis
        using False G.prems(3) by (subst GetWatch_loop.simps) (auto simp: look_step found_def)
    next
      case (hit i c)
      then have c: "c \<in> set gs" by auto
      then have sub: "set (addrs c) \<subseteq> set (addrs ?g)" by auto
      have hp: "hasPrefix (nodes s (ad c)) k = Some (starts k (prefix (nodes s (ad c))))"
        using hasPrefix_starts hit False by metis
      have lk: "look (absn s ?g) k = (if starts k (prefix (nodes s (ad c)))
          then look (absn s c) (drop (length (prefix (nodes s (ad c)))) k) else None)"
        using hit False by (simp add: look_step)
      show ?thesis
      proof (cases "starts k (prefix (nodes s (ad c)))")
        case True
        let ?r = "drop (length (prefix (nodes s (ad c)))) k"
        have "GetWatch_loop s (ad ?g) w k = GetWatch_loop s (ad c) (ad c) ?r"
          using False hit True by (subst GetWatch_loop.simps) (simp add: hp starts_length)
        with G.IH [OF c hit(7,11) ad_in_addrs, of ?r] lk True sub show ?thesis
          by (fastforce split: option.splits)
      next
        case nost: False
        have "GetWatch_loop s (ad ?g) w k = Some (\<lparr>slot_of = Some (ad c), value_of = None\<rparr>, no_value)"
          using False hit nost by (subst GetWatch_loop.simps) (simp add: hp)
        moreover have "ad c \<in> set (addrs ?g)" using sub ad_in_addrs by blast
        ultimately show ?thesis using lk nost by (simp add: found_def)
      qed
    qed
  qed
qed

section \<open>Longest prefix\<close>

text \<open>The stored keys that are prefixes of \<open>k\<close> lie on the search path.\<close>

lemma filter_below_step:
  assumes wf: "wf_kids ks" and Q: "\<And>k. Q k \<Longrightarrow> k = [] \<or> hd k = b"
  shows "filter (\<lambda>e. Q (fst e)) (below (RT p ov ks)) =
    filter (\<lambda>e. Q (fst e)) (own_ents ov) @
    (case child ks b of None \<Rightarrow> [] | Some c \<Rightarrow> filter (\<lambda>e. Q (fst e)) (ents c))"
proof -
  let ?Q = "\<lambda>k. k \<noteq> [] \<and> Q k"
  have ne: "filter (\<lambda>e. ?Q (fst e)) (concat (map ents L)) = filter (\<lambda>e. Q (fst e)) (concat (map ents L))"
    if "set L \<subseteq> set ks" for L
    using that wf by (intro filter_cong refl) (auto dest!: ents_hd(1) dest: wf_kids_sub wf_subD(1))
  have none: "filter (\<lambda>e. Q (fst e)) (concat (map ents L)) = []"
    if "set L \<subseteq> set ks" "\<forall>c \<in> set L. lab c \<noteq> b" for L
  proof -
    have "filter (\<lambda>e. \<not> ?Q (fst e)) (concat (map ents L)) = concat (map ents L)"
      using that wf Q by (intro filter_other_kids [of _ b]) (auto dest: wf_kids_sub wf_subD(1))
    then show ?thesis using ne [OF that(1)] by (auto simp: filter_empty_conv filter_id_conv)
  qed
  from wf show ?thesis
  proof (cases rule: rank_cases [where b = b])
    case miss
    then have "\<forall>c \<in> set ks. lab c \<noteq> b" by (auto simp: child_None_iff)
    with none [of ks] miss(1) show ?thesis by (simp add: below_def)
  next
    case (hit c)
    let ?i = "rank_of (map lab ks) b"
    have "distinct (map lab (take ?i ks @ c # drop (Suc ?i) ks))"
      using wf_kids_distinct [OF wf] split_at [OF hit(2)] hit(3) by simp
    then have "b \<notin> lab ` set (take ?i ks)" "b \<notin> lab ` set (drop (Suc ?i) ks)" using hit(4) by auto
    then have "filter (\<lambda>e. Q (fst e)) (concat (map ents (take ?i ks))) = []"
        "filter (\<lambda>e. Q (fst e)) (concat (map ents (drop (Suc ?i) ks))) = []"
      by (intro none; use set_take_subset set_drop_subset in force)+
    with hit show ?thesis by (simp add: below_def concat_map_split [OF hit(2)])
  qed
qed

lemma filter_ents_pos:
  "filter (\<lambda>e. Q (fst e)) (ents t)
     = map (\<lambda>(k, v). (seg t @ k, v)) (filter (\<lambda>e. Q (seg t @ fst e)) (below t))"
  by (simp add: ents_below filter_map comp_def case_prod_unfold)

lemma prefixes_step:
  fixes ks :: "'v rtree list"
  assumes "wf_kids ks" and "s \<noteq> []"
  shows "map snd (filter (\<lambda>e. starts s (fst e)) (below (RT p ov ks))) =
    map snd (own_ents ov) @
    (case child ks (hd s) of None \<Rightarrow> []
     | Some c \<Rightarrow> if starts s (seg c)
         then map snd (filter (\<lambda>e. starts (drop (length (seg c)) s) (fst e)) (below c)) else [])"
proof -
  have Q: "starts s k \<Longrightarrow> k = [] \<or> hd k = hd s" for k using starts_hd [of s k] by (cases k) auto
  have "filter (\<lambda>e. starts s (fst e)) (own_ents ov) = own_ents ov"
    by (simp add: own_ents_def split: option.split)
  moreover have "map snd (filter (\<lambda>e. starts s (fst e)) (ents c)) =
      (if starts s (seg c)
       then map snd (filter (\<lambda>e. starts (drop (length (seg c)) s) (fst e)) (below c)) else [])" for c :: "'v rtree"
    by (auto simp: filter_ents_pos [of "starts s"] starts_append_iff case_prod_unfold comp_def)
  moreover have "map snd (filter (\<lambda>e. starts s (fst e)) (below (RT p ov ks))) = map snd (own_ents ov) @ 
      (case child ks (hd s) of None \<Rightarrow> [] | Some c \<Rightarrow> map snd (filter (\<lambda>e. starts s (fst e)) (ents c)))"
    using filter_below_step [of ks "\<lambda>k. starts s k" "hd s" p ov, OF assms(1) Q] calculation(1)
    by (simp split: option.split)
  ultimately show ?thesis by (simp only: cong: option.case_cong)
qed

definition last_or :: "'v any list \<Rightarrow> 'v any \<times> bool \<Rightarrow> 'v any \<times> bool" where
  "last_or vs d = (if vs = [] then d else (last vs, True))"

lemma LongestPrefix_loop_spec:
  assumes "rep s g" and "wf_kids (map (absn s) (gk g))"
  shows "LongestPrefix_loop s (ad g) k la =
    Some (last_or (map snd (filter (\<lambda>e. starts k (fst e)) (below (absn s g)))) (lp_result s la))"
  using assms
proof (induction g arbitrary: k la rule: gtree.induct)
  case (G a xt gs)
  let ?g = "G a xt gs" and ?la = "if hasValue (nodes s a) then Some a else la"
  have own: "last_or (map snd (own_ents (value_at (nodes s a))) @ vs) (lp_result s la)
      = last_or vs (lp_result s ?la)" for vs
    by (auto simp: last_or_def own_ents_def lp_result_def value_at_def)
  show ?case
  proof (cases "k = []")
    case True
    have "map snd (filter (\<lambda>e. starts [] (fst e)) (below (absn s ?g)))
        = map snd (own_ents (value_at (nodes s a)))"
    proof -
      have "filter (\<lambda>e. fst e = []) (concat (map ents (map (absn s) gs))) = []"
        using G.prems(2) by (auto simp: filter_empty_conv dest!: ents_hd(1) wf_kids_sub wf_subD(1))
      then show ?thesis by (simp add: below_def own_ents_def split: option.split)
    qed
    with own [of "[]"] True show ?thesis
      by (subst LongestPrefix_loop.simps) (simp add: last_or_def)
  next
    case False
    note st = prefixes_step [of "map (absn s) gs" k "prefix (nodes s a)" "value_at (nodes s a)", OF _ False]
    from G.prems show ?thesis
    proof (cases rule: rep_step [where b = "hd k"])
      case miss
      then show ?thesis
        using False st G.prems(2) own [of "[]"]
        by (subst LongestPrefix_loop.simps) (simp add: last_or_def)
    next
      case (hit i c)
      then have c: "c \<in> set gs" by auto
      have hp: "hasPrefix (nodes s (ad c)) k = Some (starts k (prefix (nodes s (ad c))))"
        using hasPrefix_starts hit False by metis
      show ?thesis
        using False hit G.IH [OF c hit(7,11)] st G.prems(2) own [of "[]"] own
        by (subst LongestPrefix_loop.simps) (auto simp: hp last_or_def dest: starts_length)
    qed
  qed
qed

lemma LongestPrefix_spec:
  assumes "tree_ok s g"
  shows "LongestPrefix s (Some (ad g)) k =
    Some (last_or (map snd (filter (\<lambda>e. starts k (fst e)) (contents s g))) no_value)"
  using LongestPrefix_loop_spec [OF tree_okD(1,2) [OF assms], of k None]
  by (simp add: LongestPrefix_def contents_def lp_result_def)

section \<open>Prefix search\<close>

text \<open>The subtree whose entries are those with a given prefix.\<close>

function seek :: "'v rtree \<Rightarrow> bytes \<Rightarrow> 'v rtree option" where
  "seek (RT p ov ks) s =
     (if s = [] then Some (RT p ov ks)
      else (case child ks (hd s) of None \<Rightarrow> None
        | Some c \<Rightarrow> if starts s (seg c) then seek c (drop (length (seg c)) s)
                    else if starts (seg c) s then Some c else None))"
  by pat_completeness auto
termination
  by (relation "measure (\<lambda>(t, s). size t)") (auto dest: size_child)

declare seek.simps [simp del]

lemma seek_Nil [simp]: "seek t [] = Some t"
  by (cases t) (simp add: seek.simps)

lemma seek_step:
  "s \<noteq> [] \<Longrightarrow> seek t s =
     (case child (subs t) (hd s) of None \<Rightarrow> None
      | Some c \<Rightarrow> if starts s (seg c) then seek c (drop (length (seg c)) s)
                  else if starts (seg c) s then Some c else None)"
  by (cases t) (simp add: seek.simps)

definition tvals :: "'v rtree \<Rightarrow> 'v any list" where
  "tvals t = map snd (below t)"

lemma tvals_ents: "map snd (ents t) = tvals t"
  unfolding tvals_def by (subst ents_below) (simp add: case_prod_unfold comp_def)

lemma tvals_RT: "tvals (RT p ov ks) = map snd (own_ents ov) @ concat (map tvals ks)"
proof -
  have "map snd (concat (map ents ks)) = concat (map tvals ks)"
    by (induction ks) (simp_all add: tvals_ents)
  then show ?thesis by (simp add: tvals_def below_def)
qed

lemma tvals_sel: "tvals t = map snd (own_ents (rval t)) @ concat (map tvals (subs t))"
  by (cases t) (simp add: tvals_RT)

lemma with_prefix_step:
  fixes ks :: "'v rtree list"
  assumes "wf_kids ks" and "s \<noteq> []"
  shows "map snd (filter (\<lambda>e. starts (fst e) s) (below (RT p ov ks))) =
    (case child ks (hd s) of None \<Rightarrow> []
     | Some c \<Rightarrow>
         if starts s (seg c)
         then map snd (filter (\<lambda>e. starts (fst e) (drop (length (seg c)) s)) (below c))
         else if starts (seg c) s then tvals c else [])"
proof -
  have Q: "starts k s \<Longrightarrow> k = [] \<or> hd k = hd s" for k using starts_hd [of k s] assms(2) by auto
  have "filter (\<lambda>e. starts (fst e) s) (own_ents ov) = []"
    using assms(2) by (simp add: own_ents_def split: option.split)
  moreover have "map snd (filter (\<lambda>e. starts (fst e) s) (ents c)) =
      (if starts s (seg c)
       then map snd (filter (\<lambda>e. starts (fst e) (drop (length (seg c)) s)) (below c))
       else if starts (seg c) s then tvals c else [])" for c :: "'v rtree"
  proof -
    have "starts (seg c @ k) s \<longleftrightarrow>
        (if starts s (seg c) then starts k (drop (length (seg c)) s) else starts (seg c) s)" for k
    proof (cases "starts s (seg c)")
      case True
      then have "s = seg c @ drop (length (seg c)) s" by (simp flip: starts_iff)
      then show ?thesis using starts_append_iff [of "seg c @ k" "seg c" "drop (length (seg c)) s"] True
        by simp
    next
      case False
      have "starts (seg c @ k) s \<Longrightarrow> starts (seg c) s"
        using starts_linear [of "seg c @ k" s "seg c"] starts_linear [of "seg c @ k" "seg c" s] False
          linear [of "length s" "length (seg c)"] by auto
      with False show ?thesis using starts_trans [of "seg c @ k" "seg c" s] by auto
    qed
    then show ?thesis
      by (simp add: filter_ents_pos [of "\<lambda>k. starts k s"] tvals_def case_prod_unfold comp_def)
  qed
  moreover have "map snd (filter (\<lambda>e. starts (fst e) s) (below (RT p ov ks))) = 
      (case child ks (hd s) of None \<Rightarrow> [] | Some c \<Rightarrow> map snd (filter (\<lambda>e. starts (fst e) s) (ents c)))"
    using filter_below_step [of ks "\<lambda>k. starts k s" "hd s" p ov, OF assms(1) Q] calculation(1)
    by (simp split: option.split)
  ultimately show ?thesis by (simp only: cong: option.case_cong)
qed

lemma tvals_seek:
  "wf_kids (subs t) \<Longrightarrow>
     map snd (filter (\<lambda>e. starts (fst e) s) (below t)) = (case seek t s of None \<Rightarrow> [] | Some c \<Rightarrow> tvals c)"
proof (induction t s rule: seek.induct)
  case (1 p ov ks s)
  have wf: "wf_kids ks" using "1.prems" by simp
  show ?case
  proof (cases "s = []")
    case True
    then show ?thesis by (simp add: tvals_def)
  next
    case False
    have "map snd (filter (\<lambda>e. starts (fst e) (drop (length (seg c)) s)) (below c)) =
        (case seek c (drop (length (seg c)) s) of None \<Rightarrow> [] | Some c \<Rightarrow> tvals c)"
      if "child ks (hd s) = Some c" "starts s (seg c)" for c
      using "1.IH" [OF False that] child_SomeD [OF that(1)] wf by (auto dest: wf_kids_sub wf_subD(2))
    then show ?thesis
      using False by (auto simp: with_prefix_step [OF wf False] seek_step split: option.split)
  qed
qed

lemma seekPrefix_loop_spec:
  assumes "rep s g" and "wf_kids (map (absn s) (gk g))" and "w \<in> set (addrs g)"
  shows "\<exists>r w'. seekPrefix_loop s (ad g) w k = Some (r, w') \<and> w' \<in> set (addrs g) \<and>
     (case seek (absn s g) k of
        None \<Rightarrow> r = None
      | Some t \<Rightarrow> (\<exists>c. r = Some (ad c) \<and> t = absn s c \<and> rep s c \<and> wf_kids (map (absn s) (gk c))
                     \<and> set (addrs c) \<subseteq> set (addrs g) \<and> (c = g \<or> wf_sub (absn s c))))"
  using assms
proof (induction g arbitrary: k w rule: gtree.induct)
  case (G a xt gs)
  let ?g = "G a xt gs"
  show ?case
  proof (cases "k = []")
    case True
    then show ?thesis using G.prems
      by (subst seekPrefix_loop.simps) (auto intro: exI [of _ ?g])
  next
    case False
    from G.prems(1,2) show ?thesis
    proof (cases rule: rep_step [where b = "hd k"])
      case miss
      then show ?thesis
        using False G.prems(3) by (subst seekPrefix_loop.simps) (simp add: seek_step)
    next
      case (hit i c)
      then have c: "c \<in> set gs" by auto
      then have sub: "set (addrs c) \<subseteq> set (addrs ?g)" by auto
      let ?p = "prefix (nodes s (ad c))"
      have hp: "hasPrefix (nodes s (ad c)) k = Some (starts k ?p)"
        using hasPrefix_starts hit False by metis
      show ?thesis
      proof (cases "starts k ?p")
        case True
        let ?r = "drop (length ?p) k"
        have "seekPrefix_loop s (ad ?g) w k = seekPrefix_loop s (ad c) (ad c) ?r"
          using False hit True by (subst seekPrefix_loop.simps) (simp add: hp starts_length)
        moreover have "seek (absn s ?g) k = seek (absn s c) ?r"
          using False hit True by (simp add: seek_step)
        ultimately show ?thesis
          using G.IH [OF c hit(7,11) ad_in_addrs, of ?r] sub hit(8) by (fastforce split: option.splits)
      next
        case nost: False
        then have len: "starts ?p k \<Longrightarrow> length k < length ?p"
          using starts_length [of ?p k] by (metis le_neq_implies_less starts_def starts_self take_all_iff)
        have "seekPrefix_loop s (ad ?g) w k = Some (if starts ?p k then Some (ad c) else None, ad c)"
          using False hit nost len by (subst seekPrefix_loop.simps) (auto simp: hp starts_def)
        moreover have "seek (absn s ?g) k = (if starts ?p k then Some (absn s c) else None)"
          using False hit nost by (simp add: seek_step)
        moreover have "ad c \<in> set (addrs ?g)" using sub ad_in_addrs by blast
        ultimately show ?thesis using hit sub by auto
      qed
    qed
  qed
qed

section \<open>Smallest and greatest keys\<close>

lemma tvals_wf_sub: "wf_sub t \<Longrightarrow> tvals t \<noteq> []"
proof (induction t rule: rtree_induct)
  case (RT p ov ks)
  show ?case
  proof (cases ov)
    case None
    with RT.prems obtain c cs where "ks = c # cs" by (cases ks) (auto simp: wf_sub.simps)
    with RT show ?thesis by (auto simp: tvals_RT wf_sub.simps)
  next
    case (Some v)
    then show ?thesis by (simp add: tvals_RT own_ents_def)
  qed
qed

lemma minNode_spec:
  assumes "rep s g" and "wf_kids (map (absn s) (gk g))"
  shows "\<exists>m. minNode s (ad g) = Some m \<and>
     (case m of None \<Rightarrow> tvals (absn s g) = [] | Some a \<Rightarrow> tvals (absn s g) \<noteq> [] \<and> val (nodes s a) = hd (tvals (absn s g)))"
  using assms
proof (induction g rule: gtree.induct)
  case (G a xt gs)
  show ?case
  proof (cases "hasValue (nodes s a)")
    case True
    then show ?thesis by (subst minNode.simps) (simp add: tvals_RT own_ents_def)
  next
    case noval: False
    show ?thesis
    proof (cases gs)
      case Nil
      then show ?thesis using noval rep_kidCount [OF G.prems(1)]
        by (subst minNode.simps) (simp add: tvals_RT own_ents_def)
    next
      case (Cons c cs)
      then have c: "rep s c" "wf_sub (absn s c)" using G.prems by (auto simp: wf_kids_def)
      obtain m where m: "minNode s (ad c) = Some m"
        "case m of None \<Rightarrow> tvals (absn s c) = []
         | Some a \<Rightarrow> tvals (absn s c) \<noteq> [] \<and> val (nodes s a) = hd (tvals (absn s c))"
        using G.IH [of c] Cons c wf_subD(2) [OF c(2)] by auto
      have "minNode s a = Some m"
        using noval rep_kidCount [OF G.prems(1)] rep_kid [OF G.prems(1), of 0] Cons m(1)
        by (subst minNode.simps) simp
      with m(2) tvals_wf_sub [OF c(2)] noval Cons show ?thesis
        by (auto simp: tvals_RT own_ents_def split: option.splits)
    qed
  qed
qed

lemma maxNode_spec:
  assumes "rep s g" and "wf_kids (map (absn s) (gk g))"
  shows "\<exists>m. maxNode s (ad g) = Some m \<and>
     (case m of None \<Rightarrow> tvals (absn s g) = [] | Some a \<Rightarrow> tvals (absn s g) \<noteq> [] \<and> val (nodes s a) = last (tvals (absn s g)))"
  using assms
proof (induction g rule: gtree.induct)
  case (G a xt gs)
  show ?case
  proof (cases gs rule: rev_cases)
    case Nil
    then show ?thesis using rep_kidCount [OF G.prems(1)]
      by (subst maxNode.simps) (simp add: tvals_RT own_ents_def)
  next
    case (snoc cs c)
    then have c: "rep s c" "wf_sub (absn s c)" using G.prems by (auto simp: wf_kids_def)
    obtain m where m: "maxNode s (ad c) = Some m"
      "case m of None \<Rightarrow> tvals (absn s c) = []
       | Some a \<Rightarrow> tvals (absn s c) \<noteq> [] \<and> val (nodes s a) = last (tvals (absn s c))"
      using G.IH [of c] snoc c wf_subD(2) [OF c(2)] by auto
    have "maxNode s a = Some m"
      using rep_kidCount [OF G.prems(1)] rep_kid [OF G.prems(1), of "length cs"] snoc m(1)
      by (subst maxNode.simps) (simp add: nth_append)
    with m(2) tvals_wf_sub [OF c(2)] snoc show ?thesis
      by (auto simp: tvals_RT split: option.splits)
  qed
qed

definition hd_or :: "'v any list \<Rightarrow> 'v any \<times> bool" where
  "hd_or vs = (if vs = [] then no_value else (hd vs, True))"

lemma prefix_lookup_spec:
  fixes g :: "'x gtree"
  assumes "tree_ok s g"
  shows "\<exists>w \<in> set (addrs g). FirstPrefix s (Some (ad g)) p =
      Some (\<lparr>slot_of = Some w, value_of = None\<rparr>, hd_or (map snd (filter (\<lambda>e. starts (fst e) p) (contents s g))))
    \<and> LastPrefix s (Some (ad g)) p =
      Some (\<lparr>slot_of = Some w, value_of = None\<rparr>, last_or (map snd (filter (\<lambda>e. starts (fst e) p) (contents s g))) no_value)"
proof -
  note wk = tree_okD(2) [OF assms]
  let ?vs = "map snd (filter (\<lambda>e. starts (fst e) p) (contents s g))"
  have vs: "?vs = (case seek (absn s g) p of None \<Rightarrow> [] | Some c \<Rightarrow> tvals c)"
    using tvals_seek [of "absn s g" p] wk by (simp add: contents_def)
  obtain r w where sp: "seekPrefix s (Some (ad g)) p = Some (r, w)" and w: "w \<in> set (addrs g)"
    and r: "case seek (absn s g) p of None \<Rightarrow> r = None
      | Some t \<Rightarrow> (\<exists>c :: 'x gtree. r = Some (ad c) \<and> t = absn s c \<and> rep s c \<and> wf_kids (map (absn s) (gk c)))"
    using seekPrefix_loop_spec [OF tree_okD(1) [OF assms] wk ad_in_addrs, of p]
    by (fastforce simp: seekPrefix_def split: option.splits)
  have "FirstPrefix s (Some (ad g)) p = Some (\<lparr>slot_of = Some w, value_of = None\<rparr>, hd_or ?vs) \<and>
    LastPrefix s (Some (ad g)) p = Some (\<lparr>slot_of = Some w, value_of = None\<rparr>, last_or ?vs no_value)"
  proof (cases "seek (absn s g) p")
    case None
    with r vs sp show ?thesis by (simp add: FirstPrefix_def LastPrefix_def hd_or_def last_or_def)
  next
    case (Some t)
    with r obtain c :: "'x gtree" where c: "r = Some (ad c)" "t = absn s c" "rep s c" "wf_kids (map (absn s) (gk c))"
      by auto
    from minNode_spec [OF c(3,4)] maxNode_spec [OF c(3,4)] Some c vs sp show ?thesis
      by (auto simp: FirstPrefix_def LastPrefix_def hd_or_def last_or_def split: option.splits)
  qed
  with w show ?thesis by blast
qed

section \<open>Counting\<close>

lemma countLeaves_spec: "rep s g \<Longrightarrow> countLeaves s (ad g) = Some (length (below (absn s g)))"
proof (induction g rule: gtree.induct)
  case (G a xt gs)
  let ?f = "\<lambda>k c. do { k \<leftarrow> k; m \<leftarrow> countLeaves s k; Some (c + m) }"
  have "set hs \<subseteq> set gs \<Longrightarrow> ofold ?f (map (\<lambda>g. Some (ad g)) hs) n
      = Some (n + length (concat (map ents (map (absn s) hs))))" for hs n
  proof (induction hs arbitrary: n)
    case (Cons h hs)
    then have "countLeaves s (ad h) = Some (length (below (absn s h)))"
      using G.IH [of h] G.prems by simp
    with Cons show ?case by (simp add: ents_below [of "absn s h"])
  qed simp
  with G.prems show ?case
    by (subst countLeaves.simps) (auto simp: below_def own_ents_def value_at_def)
qed

lemma Len_spec: "tree_ok s g \<Longrightarrow> Len s (Some (ad g)) = Some (length (contents s g))"
  by (simp add: Len_def contents_def countLeaves_spec tree_okD(1))

end
