(* ===== verification/Txn.thy ===== *)
theory Txn
  imports Lookup
begin

text \<open>
  The write side of \<^verbatim>\<open>internal/radix/txn.go\<close>: ownership epochs, copy-on-write and in-place
  mutation, insertion, deletion, prefix deletion, and the \<open>Notifier\<close>.  Every operation takes the
  transaction and the store and returns them changed; \<open>None\<close> is a panic or a loop that does not
  return.
\<close>

section \<open>Transactions\<close>

text \<open>\<open>tepoch\<close> is 0 when no epoch has been drawn since the last \<open>Freeze\<close>.\<close>

record txn =
  troot :: "addr option"
  tepoch :: u64
  tnf :: "nat option"

definition StartTxn :: "tree \<Rightarrow> nat option \<Rightarrow> txn" where
  "StartTxn t nf = \<lparr>troot = t, tepoch = 0, tnf = nf\<rparr>"

definition Started :: "txn \<Rightarrow> bool" where
  "Started t \<longleftrightarrow> troot t \<noteq> None"

definition TxnTree :: "txn \<Rightarrow> tree" where
  "TxnTree t = troot t"

definition Freeze :: "txn \<Rightarrow> txn" where
  "Freeze t = t\<lparr>tepoch := 0\<rparr>"

definition Commit :: "txn \<Rightarrow> tree \<times> txn" where
  "Commit t = (troot t, t\<lparr>tepoch := 0\<rparr>)"

definition begin_txn :: "txn \<Rightarrow> 'v store \<Rightarrow> txn \<times> 'v store" where
  "begin_txn t s =
     (if tepoch t = 0
      then (t\<lparr>tepoch := epochCounter s + 1\<rparr>, s\<lparr>epochCounter := epochCounter s + 1\<rparr>)
      else (t, s))"

definition owns :: "txn \<Rightarrow> 'v node \<Rightarrow> bool" where
  "owns t n \<longleftrightarrow> epoch n AND epochMask = tepoch t"

section \<open>Recording replaced objects\<close>

definition upd_notifier :: "txn \<Rightarrow> (notifier \<Rightarrow> notifier) \<Rightarrow> 'v store \<Rightarrow> 'v store" where
  "upd_notifier t f s =
     (case tnf t of None \<Rightarrow> s | Some i \<Rightarrow> s\<lparr>notifiers := (notifiers s)(i := f (notifiers s i))\<rparr>)"

definition dropNode :: "txn \<Rightarrow> addr \<Rightarrow> 'v store \<Rightarrow> 'v store" where
  "dropNode t n s = upd_notifier t (\<lambda>nf. nf\<lparr>nf_nodes := nf_nodes nf @ [n]\<rparr>) s"

definition dropLeaf :: "txn \<Rightarrow> laddr option \<Rightarrow> 'v store \<Rightarrow> 'v store" where
  "dropLeaf t l s = upd_notifier t (\<lambda>nf. nf\<lparr>nf_leaves := nf_leaves nf @ [l]\<rparr>) s"

definition dropValue :: "txn \<Rightarrow> addr \<Rightarrow> 'v store \<Rightarrow> 'v store" where
  "dropValue t n s = upd_notifier t (\<lambda>nf. nf\<lparr>nf_values := nf_values nf @ [n]\<rparr>) s"

definition dropSubtree :: "txn \<Rightarrow> addr \<Rightarrow> 'v store \<Rightarrow> 'v store" where
  "dropSubtree t n s = upd_notifier t (\<lambda>nf. nf\<lparr>nf_subtrees := nf_subtrees nf @ [n]\<rparr>) s"

section \<open>Copying nodes\<close>

definition shareLeaf :: "txn \<Rightarrow> addr \<Rightarrow> 'v store \<Rightarrow> laddr option \<times> 'v store" where
  "shareLeaf t a s = (if owns t (nodes s a) then (leafp (nodes s a), s) else leafOf a s)"

definition copyShape :: "txn \<Rightarrow> addr \<Rightarrow> nat \<Rightarrow> 'v store \<Rightarrow> (addr \<times> 'v store) option" where
  "copyShape t a extra s =
     (let n = nodes s a; count = kidCount n in
      do { c \<leftarrow> (if count + extra = 0 then Some (newLeafNode (prefix n) [])
                else if kidCap n = 0
                then Some ((newNode (build s) extra)\<lparr>prefix := cloneSegment (prefix n)\<rparr>)
                else do {
                  c \<leftarrow> setKidCount ((newNode (build s) (count + extra))
                          \<lparr>prefix := prefix n, bitmap := bitmap n\<rparr>) count;
                  Some (set_kidList c (go_copy (kidList c) 0 (kidList n))) });
           Some (alloc_node (c\<lparr>epoch := tepoch t\<rparr>) s) })"

definition copyNode :: "txn \<Rightarrow> addr \<Rightarrow> nat \<Rightarrow> 'v store \<Rightarrow> (addr \<times> 'v store) option" where
  "copyNode t a extra s =
     do { (c, s) \<leftarrow> copyShape t a extra s;
          if hasValue (nodes s a)
          then let s = upd_node c (\<lambda>m. m\<lparr>val := val (nodes s a), epoch := epoch m OR valueBit\<rparr>) s;
                   (l, s) = shareLeaf t a s
               in Some (c, if l \<noteq> None then upd_node c (\<lambda>m. m\<lparr>leafp := l\<rparr>) s else s)
          else Some (c, s) }"

definition leafNode :: "txn \<Rightarrow> bytes \<Rightarrow> 'v any \<Rightarrow> 'v store \<Rightarrow> addr \<times> 'v store" where
  "leafNode t p v s =
     alloc_node ((newLeafNode p [])\<lparr>epoch := tepoch t OR (valueBit OR leafOwnedBit), val := v\<rparr>) s"

text \<open>Writing one child pointer or the child count of a node in the store.\<close>

definition setKidAt :: "addr \<Rightarrow> nat \<Rightarrow> addr \<Rightarrow> 'v store \<Rightarrow> 'v store option" where
  "setKidAt a i c s = do { n \<leftarrow> setKid (nodes s a) i (Some c); Some (put_node a n s) }"

definition setKidCountAt :: "addr \<Rightarrow> nat \<Rightarrow> 'v store \<Rightarrow> 'v store option" where
  "setKidCountAt a k s = do { n \<leftarrow> setKidCount (nodes s a) k; Some (put_node a n s) }"

definition link :: "txn \<Rightarrow> addr option \<Rightarrow> nat \<Rightarrow> addr \<Rightarrow> 'v store \<Rightarrow> (txn \<times> 'v store) option" where
  "link t parent pidx c s =
     (case parent of None \<Rightarrow> Some (t\<lparr>troot := Some c\<rparr>, s)
      | Some p \<Rightarrow> do { s \<leftarrow> setKidAt p pidx c s; Some (t, s) })"

definition own :: "txn \<Rightarrow> addr option \<Rightarrow> nat \<Rightarrow> addr \<Rightarrow> nat \<Rightarrow> 'v store \<Rightarrow> (addr \<times> txn \<times> 'v store) option"
  where
  "own t parent pidx n extra s =
     (if owns t (nodes s n) then
        if kidCount (nodes s n) + extra \<le> kidCap (nodes s n) then Some (n, t, s)
        else do {
          (c, s) \<leftarrow> copyNode t n (kidCount (nodes s n) + extra) s;
          let s = upd_node c (\<lambda>m. m\<lparr>epoch := epoch (nodes s n)\<rparr>) s;
          (t, s) \<leftarrow> link t parent pidx c s;
          Some (c, t, s) }
      else do {
        (c, s) \<leftarrow> copyNode t n extra s;
        let s = dropNode t n s;
        (t, s) \<leftarrow> link t parent pidx c s;
        Some (c, t, s) })"

section \<open>Values\<close>

definition releaseValue :: "txn \<Rightarrow> addr \<Rightarrow> 'v store \<Rightarrow> 'v store" where
  "releaseValue t n s =
     (if \<not> owns t (nodes s n) then dropValue t n s
      else if epoch (nodes s n) AND leafOwnedBit = 0 then dropLeaf t (leafp (nodes s n)) s
      else s)"

definition clear_value :: "'v node \<Rightarrow> 'v node" where
  "clear_value n =
     n\<lparr>leafp := None, val := None, epoch := epoch n AND NOT (valueBit OR leafOwnedBit)\<rparr>"

definition ownValueless ::
  "txn \<Rightarrow> addr option \<Rightarrow> nat \<Rightarrow> addr \<Rightarrow> 'v store \<Rightarrow> (addr \<times> txn \<times> 'v store) option" where
  "ownValueless t parent pidx n s =
     (let s = (if hasValue (nodes s n) then releaseValue t n s else s) in
      if owns t (nodes s n) then Some (n, t, upd_node n clear_value s)
      else do {
        (c, s) \<leftarrow> copyShape t n 0 s;
        let s = dropNode t n s;
        (t, s) \<leftarrow> link t parent pidx c s;
        Some (c, t, s) })"

definition setValue ::
  "txn \<Rightarrow> addr option \<Rightarrow> nat \<Rightarrow> addr \<Rightarrow> 'v any \<Rightarrow> 'v store \<Rightarrow> (('v any \<times> bool) \<times> txn \<times> 'v store) option"
  where
  "setValue t parent pidx n v s =
     (let old = val (nodes s n); existed = hasValue (nodes s n) in
      if existed \<and> owns t (nodes s n) \<and> epoch (nodes s n) AND leafOwnedBit \<noteq> 0
      then Some ((old, True), t, upd_node n (\<lambda>m. m\<lparr>val := v\<rparr>) s)
      else do {
        (n, t, s) \<leftarrow> ownValueless t parent pidx n s;
        let s = upd_node n (\<lambda>m. m\<lparr>val := v, epoch := epoch m OR (valueBit OR leafOwnedBit)\<rparr>) s;
        Some ((old, existed), t, s) })"

section \<open>Insertion\<close>

definition addLabel :: "addr \<Rightarrow> byte \<Rightarrow> 'v store \<Rightarrow> 'v store" where
  "addLabel a b s = upd_node a (\<lambda>m. m\<lparr>bitmap := bm_add (bitmap m) b\<rparr>) s"

text \<open>The split of a child whose segment the key leaves after \<open>common\<close> bytes.\<close>

definition splitChild ::
  "txn \<Rightarrow> addr \<Rightarrow> nat \<Rightarrow> addr \<Rightarrow> nat \<Rightarrow> bytes \<Rightarrow> 'v any \<Rightarrow> 'v store \<Rightarrow> 'v store option" where
  "splitChild t n idx ch common search v s =
     do { (trimmed, s) \<leftarrow>
            (if owns t (nodes s ch) then Some (ch, s)
             else do { (c, s) \<leftarrow> copyNode t ch 0 s; Some (c, dropNode t ch s) });
          let sp = take common (prefix (nodes s ch));
          let sp = (if kidCap (nodes s ch) = 0 then cloneSegment sp else sp);
          let (split, s) = alloc_node ((newNode (build s) 2)\<lparr>epoch := tepoch t, prefix := sp\<rparr>) s;
          let s = upd_node trimmed (\<lambda>m. trimPrefix m common) s;
          s \<leftarrow> setKidAt n idx split s;
          rest \<leftarrow> slice_from search common;
          lt \<leftarrow> byte0 (prefix (nodes s trimmed));
          s \<leftarrow> (if rest = [] then do {
                 let s = upd_node split
                           (\<lambda>m. m\<lparr>val := v, epoch := epoch m OR (valueBit OR leafOwnedBit)\<rparr>) s;
                 s \<leftarrow> setKidCountAt split 1 s;
                 setKidAt split 0 trimmed s }
               else do {
                 let (added, s) = leafNode t rest v s;
                 s \<leftarrow> setKidCountAt split 2 s;
                 la \<leftarrow> byte0 (prefix (nodes s added));
                 s \<leftarrow> (if la < lt
                       then do { s \<leftarrow> setKidAt split 0 added s; setKidAt split 1 trimmed s }
                       else do { s \<leftarrow> setKidAt split 0 trimmed s; setKidAt split 1 added s });
                 Some (addLabel split la s) });
          Some (addLabel split lt s) }"

partial_function (option) Insert_loop ::
  "txn \<Rightarrow> addr option \<Rightarrow> nat \<Rightarrow> addr \<Rightarrow> bytes \<Rightarrow> 'v any \<Rightarrow> 'v store \<Rightarrow>
     (('v any \<times> bool) \<times> txn \<times> 'v store) option" where
  "Insert_loop t parent pidx n search v s =
     (if search = [] then setValue t parent pidx n v s
      else (case node_rank (nodes s n) (hd search) of (idx, ok) \<Rightarrow>
        if \<not> ok then do {
          (n, t, s) \<leftarrow> own t parent pidx n 1 s;
          let (c, s) = leafNode t search v s;
          s \<leftarrow> addKid n idx c s;
          Some (no_value, t, s) }
        else do {
          ch \<leftarrow> kid (nodes s n) idx;
          let common = commonPrefixLen search (prefix (nodes s ch));
          (n, t, s) \<leftarrow> own t parent pidx n 0 s;
          if common = length (prefix (nodes s ch))
          then do {
            search \<leftarrow> slice_from search common;
            Insert_loop t (Some n) idx ch search v s }
          else do {
            s \<leftarrow> splitChild t n idx ch common search v s;
            Some (no_value, t, s) } }))"

definition Insert :: "txn \<Rightarrow> bytes \<Rightarrow> 'v any \<Rightarrow> 'v store \<Rightarrow> (('v any \<times> bool) \<times> txn \<times> 'v store) option"
  where
  "Insert t k v s =
     (let (t, s) = begin_txn t s in do { n \<leftarrow> troot t; Insert_loop t None 0 n k v s })"

section \<open>Deletion\<close>

text \<open>A root-to-parent path: each node with the position of the next one in it.\<close>

type_synonym path = "(addr \<times> nat) list"

fun ownPath_loop ::
  "txn \<Rightarrow> addr option \<Rightarrow> nat \<Rightarrow> path \<Rightarrow> 'v store \<Rightarrow> (path \<times> txn \<times> 'v store) option" where
  "ownPath_loop t parent pidx [] s = Some ([], t, s)"
| "ownPath_loop t parent pidx ((n, idx) # path) s =
     do { (n, t, s) \<leftarrow> own t parent pidx n 0 s;
          (path, t, s) \<leftarrow> ownPath_loop t (Some n) idx path s;
          Some ((n, idx) # path, t, s) }"

definition ownPath :: "txn \<Rightarrow> path \<Rightarrow> 'v store \<Rightarrow> (path \<times> txn \<times> 'v store) option" where
  "ownPath t path s = ownPath_loop t None 0 path s"

text \<open>\<open>path[i]\<close>, which panics out of range\<close>

definition path_at :: "path \<Rightarrow> nat \<Rightarrow> (addr \<times> nat) option" where
  "path_at path i = (if i < length path then Some (path ! i) else None)"

definition mergeChild ::
  "txn \<Rightarrow> addr \<Rightarrow> nat \<Rightarrow> addr \<Rightarrow> addr \<Rightarrow> 'v store \<Rightarrow> 'v store option" where
  "mergeChild t parent pidx n c s =
     do { (m, s) \<leftarrow>
            (if childless (nodes s c) then
               let (m, s) = alloc_node ((newLeafNode (prefix (nodes s n)) (prefix (nodes s c)))
                                          \<lparr>val := val (nodes s c)\<rparr>) s;
                   (l, s) = shareLeaf t c s;
                   s = (if l \<noteq> None then upd_node m (\<lambda>k. k\<lparr>leafp := l\<rparr>) s else s);
                   s = upd_node m (\<lambda>k. k\<lparr>epoch := tepoch t OR valueBit\<rparr>) s;
                   s = (if owns t (nodes s c)
                        then upd_node m (\<lambda>k. k\<lparr>epoch := epoch k OR (epoch (nodes s c) AND leafOwnedBit)\<rparr>) s
                        else s)
               in Some (m, s)
             else if owns t (nodes s c) then
               Some (c, upd_node c (\<lambda>k. k\<lparr>prefix := prefix (nodes s n) @ prefix k\<rparr>) s)
             else do {
               (m, s) \<leftarrow> copyNode t c 0 s;
               Some (m, upd_node m (\<lambda>k. k\<lparr>prefix := prefix (nodes s n) @ prefix (nodes s c)\<rparr>) s) });
          let s = (if \<not> owns t (nodes s c) then dropNode t c s else s);
          setKidAt parent pidx m s }"

definition unlink :: "txn \<Rightarrow> path \<Rightarrow> 'v store \<Rightarrow> (txn \<times> 'v store) option" where
  "unlink t path s =
     do { (parent, idx) \<leftarrow> path_at path (length path - 1);
          if 0 < length path - 1 \<and> \<not> hasValue (nodes s parent) \<and> kidCount (nodes s parent) = 2
          then do {
            (path', t, s) \<leftarrow> ownPath t (take (length path - 1) path) s;
            let s = (if \<not> owns t (nodes s parent) then dropNode t parent s else s);
            (gp, gidx) \<leftarrow> path_at path' (length path - 2);
            sib \<leftarrow> kid (nodes s parent) (1 - idx);
            s \<leftarrow> mergeChild t gp gidx parent sib s;
            Some (t, s) }
          else do {
            (path', t, s) \<leftarrow> ownPath t path s;
            (p, _) \<leftarrow> path_at path' (length path - 1);
            s \<leftarrow> delKid p idx s;
            Some (t, s) } }"

definition dropWithLeaf :: "txn \<Rightarrow> addr \<Rightarrow> 'v store \<Rightarrow> 'v store" where
  "dropWithLeaf t n s =
     (let s = releaseValue t n s in if \<not> owns t (nodes s n) then dropNode t n s else s)"

text \<open>\<open>Some None\<close>: the key is missing.\<close>

partial_function (option) Delete_descend ::
  "'v store \<Rightarrow> addr \<Rightarrow> bytes \<Rightarrow> path \<Rightarrow> (addr \<times> path) option option" where
  "Delete_descend s n search path =
     (if search = [] then Some (Some (n, path))
      else (case node_rank (nodes s n) (hd search) of (idx, ok) \<Rightarrow>
        if \<not> ok then Some None
        else do {
          c \<leftarrow> kid (nodes s n) idx;
          hp \<leftarrow> hasPrefix (nodes s c) search;
          if \<not> hp then Some None
          else do {
            search \<leftarrow> slice_from search (length (prefix (nodes s c)));
            Delete_descend s c search (path @ [(n, idx)]) } }))"

definition Delete :: "txn \<Rightarrow> bytes \<Rightarrow> 'v store \<Rightarrow> (('v any \<times> bool) \<times> txn \<times> 'v store) option" where
  "Delete t k s =
     do { r \<leftarrow> troot t;
          d \<leftarrow> Delete_descend s r k [];
          (case d of None \<Rightarrow> Some (no_value, t, s)
           | Some (n, path) \<Rightarrow>
             if \<not> hasValue (nodes s n) then Some (no_value, t, s)
             else (let old = val (nodes s n); (t, s) = begin_txn t s in
               if path = [] then do {
                 (_, t, s) \<leftarrow> ownValueless t None 0 n s;
                 Some ((old, True), t, s) }
               else if childless (nodes s n) then do {
                 let s = dropWithLeaf t n s;
                 (t, s) \<leftarrow> unlink t path s;
                 Some ((old, True), t, s) }
               else if kidCount (nodes s n) = 1 then do {
                 (path', t, s) \<leftarrow> ownPath t path s;
                 let s = dropWithLeaf t n s;
                 (p, idx) \<leftarrow> path_at path' (length path - 1);
                 c \<leftarrow> kid (nodes s n) 0;
                 s \<leftarrow> mergeChild t p idx n c s;
                 Some ((old, True), t, s) }
               else do {
                 (path', t, s) \<leftarrow> ownPath t path s;
                 (p, idx) \<leftarrow> path_at path' (length path - 1);
                 (_, t, s) \<leftarrow> ownValueless t (Some p) idx n s;
                 Some ((old, True), t, s) })) }"

partial_function (option) DeletePrefix_descend ::
  "'v store \<Rightarrow> addr \<Rightarrow> bytes \<Rightarrow> path \<Rightarrow> (addr \<times> path) option option" where
  "DeletePrefix_descend s n search path =
     (if search = [] then Some (Some (n, path))
      else (case node_rank (nodes s n) (hd search) of (idx, ok) \<Rightarrow>
        if \<not> ok then Some None
        else do {
          c \<leftarrow> kid (nodes s n) idx;
          hp \<leftarrow> hasPrefix (nodes s c) search;
          if hp then do {
            search \<leftarrow> slice_from search (length (prefix (nodes s c)));
            DeletePrefix_descend s c search (path @ [(n, idx)]) }
          else if length search < length (prefix (nodes s c))
                  \<and> take (length search) (prefix (nodes s c)) = search
          then DeletePrefix_descend s c [] (path @ [(n, idx)])
          else Some None }))"

text \<open>
  The empty prefix never looks at the root, so a zero transaction gets an empty root.  With a notifier
  a nil root would be recorded, and \<open>Notify\<close> would panic on it; the model takes that panic at once.
\<close>

definition cutRoot :: "txn \<Rightarrow> 'v store \<Rightarrow> txn \<times> 'v store" where
  "cutRoot t s = (let (a, s) = alloc_node (zero_node\<lparr>epoch := tepoch t\<rparr>) s in (t\<lparr>troot := Some a\<rparr>, s))"

definition DeletePrefix :: "txn \<Rightarrow> bytes \<Rightarrow> 'v store \<Rightarrow> (bool \<times> txn \<times> 'v store) option" where
  "DeletePrefix t p s =
     (if troot t = None \<and> p = [] \<and> tnf t = None
      then (let (t, s) = begin_txn t s; (t, s) = cutRoot t s in Some (True, t, s))
      else do {
          r \<leftarrow> troot t;
          d \<leftarrow> DeletePrefix_descend s r p [];
          (case d of None \<Rightarrow> Some (False, t, s)
           | Some (n, path) \<Rightarrow>
             (let (t, s) = begin_txn t s; s = dropSubtree t n s in
              if path = [] then (let (t, s) = cutRoot t s in Some (True, t, s))
              else do { (t, s) \<leftarrow> unlink t path s; Some (True, t, s) })) })"

section \<open>Notification\<close>

partial_function (option) sealSubtree :: "addr \<Rightarrow> 'v store \<Rightarrow> 'v store option" where
  "sealSubtree n s =
     do { s \<leftarrow> node_Seal n s;
          s \<leftarrow> (if hasValue (nodes s n) then sealValue n s else Some s);
          ofold (\<lambda>k s. do { k \<leftarrow> k; sealSubtree k s }) (kidList (nodes s n)) s }"

definition Notify :: "nat \<Rightarrow> 'v store \<Rightarrow> 'v store option" where
  "Notify i s =
     do { let nf = notifiers s i;
          s \<leftarrow> ofold node_Seal (nf_nodes nf) s;
          s \<leftarrow> ofold (\<lambda>l s. do { l \<leftarrow> l; leaf_Seal l s }) (nf_leaves nf) s;
          s \<leftarrow> ofold sealValue (nf_values nf) s;
          s \<leftarrow> ofold sealSubtree (nf_subtrees nf) s;
          Some (s\<lparr>notifiers := (notifiers s)(i := zero_notifier)\<rparr>) }"

definition ResetNotifier :: "nat \<Rightarrow> 'v store \<Rightarrow> 'v store" where
  "ResetNotifier i s = s\<lparr>notifiers := (notifiers s)(i := zero_notifier)\<rparr>"

definition pending :: "nat \<Rightarrow> 'v store \<Rightarrow> nat" where
  "pending i s =
     (let nf = notifiers s i in
      length (nf_nodes nf) + length (nf_leaves nf) + length (nf_values nf) + length (nf_subtrees nf))"

end
