(* ===== verification/Ownership.thy ===== *)
theory Ownership
  imports Txn
begin

text \<open>
  What the writing primitives of a transaction change.  A node is owned when its epoch, without the
  two stolen bits, is the transaction's.  \<open>eff\<close> bounds the effect of a piece of code: nodes that are
  not owned change at most by the installation of a leaf, owned nodes outside a given set do not
  change, fresh nodes are owned, watch slots, cells and channels are untouched, and the notifier
  grows by given lists.  \<open>replaced\<close> says that one subtree took the place of another.
\<close>

section \<open>Epoch bits\<close>

definition own_e :: "u64 \<Rightarrow> 'v node \<Rightarrow> bool" where
  "own_e E n \<longleftrightarrow> epoch n AND epochMask = E"

definition epoch_ok :: "u64 \<Rightarrow> bool" where
  "epoch_ok E \<longleftrightarrow> E AND epochMask = E"

lemma owns_own_e: "owns t n \<longleftrightarrow> own_e (tepoch t) n"
  by (simp add: owns_def own_e_def)

lemma bit_valueBit [bits_simps]: "bit valueBit i \<longleftrightarrow> i = 62"
  unfolding valueBit_def by (subst bit_push_bit_iff) (auto simp: bit_1_iff)

lemma bit_leafOwnedBit [bits_simps]: "bit leafOwnedBit i \<longleftrightarrow> i = 63"
  unfolding leafOwnedBit_def by (subst bit_push_bit_iff) (auto simp: bit_1_iff)

lemma bit_epochMask [bits_simps]: "bit epochMask i \<longleftrightarrow> i < 62"
proof -
  have "epochMask = mask 62" unfolding epochMask_def valueBit_def by (simp only: mask_eq_exp_minus_1 push_bit_of_1)
  then have "bit epochMask i \<longleftrightarrow> bit (mask 62 :: u64) i" by (simp only:)
  also have "\<dots> \<longleftrightarrow> i < 62" by (subst bit_mask_iff) auto
  finally show ?thesis .
qed

lemma u64_eqI: "(\<And>i. i < 64 \<Longrightarrow> bit (x :: u64) i \<longleftrightarrow> bit y i) \<Longrightarrow> x = y"
  by (rule bit_word_eqI) simp

lemma and_bit_zero: "(x :: u64) AND valueBit \<noteq> 0 \<longleftrightarrow> bit x 62" "x AND leafOwnedBit \<noteq> 0 \<longleftrightarrow> bit x 63"
proof -
  have "x AND valueBit = 0 \<longleftrightarrow> \<not> bit x 62"
  proof
    assume "x AND valueBit = 0"
    then have "\<not> bit (x AND valueBit) 62" by simp
    then show "\<not> bit x 62" by (simp add: bit_and_iff bit_valueBit)
  next
    assume "\<not> bit x 62"
    then show "x AND valueBit = 0" by (intro u64_eqI) (simp add: bit_and_iff bit_valueBit, metis)
  qed
  moreover have "x AND leafOwnedBit = 0 \<longleftrightarrow> \<not> bit x 63"
  proof
    assume "x AND leafOwnedBit = 0"
    then have "\<not> bit (x AND leafOwnedBit) 63" by simp
    then show "\<not> bit x 63" by (simp add: bit_and_iff bit_leafOwnedBit)
  next
    assume "\<not> bit x 63"
    then show "x AND leafOwnedBit = 0" by (intro u64_eqI) (simp add: bit_and_iff bit_leafOwnedBit, metis)
  qed
  ultimately show "x AND valueBit \<noteq> 0 \<longleftrightarrow> bit x 62" "x AND leafOwnedBit \<noteq> 0 \<longleftrightarrow> bit x 63" by blast+
qed

lemma hasValue_bit: "hasValue n \<longleftrightarrow> bit (epoch n) 62"
  by (simp add: hasValue_def and_bit_zero)

lemma leafOwned_bit: "leafOwned n \<longleftrightarrow> bit (epoch n) 63"
  by (simp add: leafOwned_def and_bit_zero)

lemma mask_or [simp]:
  "(x OR valueBit) AND epochMask = x AND epochMask"
  "(x OR (valueBit OR leafOwnedBit)) AND epochMask = x AND epochMask"
  "(x AND NOT (valueBit OR leafOwnedBit)) AND epochMask = x AND epochMask"
  "(x OR (y AND leafOwnedBit)) AND epochMask = x AND epochMask"
  by (rule u64_eqI, auto simp: bit_and_iff bit_or_iff bit_not_iff bits_simps)+

lemma bits_or [simp]:
  "bit (x OR valueBit) 62" "bit (x OR (valueBit OR leafOwnedBit)) 62"
  "bit (x OR (valueBit OR leafOwnedBit)) 63"
  "bit (x OR valueBit) 63 \<longleftrightarrow> bit x 63"
  "\<not> bit (x AND NOT (valueBit OR leafOwnedBit)) 62" "\<not> bit (x AND NOT (valueBit OR leafOwnedBit)) 63"
  "bit (x OR (y AND leafOwnedBit)) 62 \<longleftrightarrow> bit x 62"
  "bit (x OR (y AND leafOwnedBit)) 63 \<longleftrightarrow> bit x 63 \<or> bit y 63"
  for x y :: u64
  by (auto simp: bit_and_iff bit_or_iff bit_not_iff bits_simps)

lemma epoch_ok_bits: assumes "epoch_ok E" shows "\<not> bit E 62" "\<not> bit E 63"
proof -
  have "bit E i \<Longrightarrow> i < 62" for i
    using assms unfolding epoch_ok_def by (metis bit_and_iff bit_epochMask)
  from this [of 62] this [of 63] show "\<not> bit E 62" "\<not> bit E 63" by auto
qed

lemma epoch_okD: "epoch_ok E \<Longrightarrow> E AND epochMask = E"
  by (simp add: epoch_ok_def)

lemma same_node_own: "same_node n m \<Longrightarrow> own_e E m \<longleftrightarrow> own_e E n"
  by (simp add: same_node_def own_e_def)

text \<open>
  A value an owned node inherited from a published one shares the leaf of the original, which
  therefore exists.  (A value stored in the current epoch has no leaf yet, but nothing relies on it.)
\<close>

definition own_ok :: "u64 \<Rightarrow> 'v node \<Rightarrow> bool" where
  "own_ok E n \<longleftrightarrow> (own_e E n \<longrightarrow> hasValue n \<longrightarrow> \<not> leafOwned n \<longrightarrow> leafp n \<noteq> None)"

section \<open>Bounded effects\<close>

definition nf_add :: "notifier \<Rightarrow> notifier \<Rightarrow> notifier" where
  "nf_add m d =
     \<lparr>nf_nodes = nf_nodes m @ nf_nodes d, nf_leaves = nf_leaves m @ nf_leaves d,
      nf_values = nf_values m @ nf_values d, nf_subtrees = nf_subtrees m @ nf_subtrees d\<rparr>"

definition nf_log :: "nat option \<Rightarrow> 'v store \<Rightarrow> notifier \<Rightarrow> 'v store \<Rightarrow> bool" where
  "nf_log f s D s' \<longleftrightarrow>
     notifiers s' = (case f of None \<Rightarrow> notifiers s
                     | Some i \<Rightarrow> (notifiers s)(i := nf_add (notifiers s i) D))"

text \<open>Single records.\<close>

definition d_node :: "addr \<Rightarrow> notifier" where
  "d_node a = zero_notifier\<lparr>nf_nodes := [a]\<rparr>"

definition d_leaf :: "laddr option \<Rightarrow> notifier" where
  "d_leaf l = zero_notifier\<lparr>nf_leaves := [l]\<rparr>"

definition d_value :: "addr \<Rightarrow> notifier" where
  "d_value a = zero_notifier\<lparr>nf_values := [a]\<rparr>"

definition d_subtree :: "addr \<Rightarrow> notifier" where
  "d_subtree a = zero_notifier\<lparr>nf_subtrees := [a]\<rparr>"

text \<open>The parts of the store a transaction leaves alone; leaves it creates have an empty slot.\<close>

definition quiet :: "'v store \<Rightarrow> 'v store \<Rightarrow> bool" where
  "quiet s s' \<longleftrightarrow>
     build s' = build s \<and> epochCounter s' = epochCounter s \<and> cell_ch s' = cell_ch s \<and>
     next_cell s' = next_cell s \<and> closed s' = closed s \<and> next_chan s' = next_chan s \<and>
     next_leaf s \<le> next_leaf s' \<and>
     (\<forall>l. leaves s' l = (if next_leaf s \<le> l \<and> l < next_leaf s' then None else leaves s l))"

definition modifies :: "u64 \<Rightarrow> 'v store \<Rightarrow> addr set \<Rightarrow> 'v store \<Rightarrow> bool" where
  "modifies E s X s' \<longleftrightarrow>
     next_node s \<le> next_node s' \<and>
     (\<forall>a < next_node s.
        (\<not> own_e E (nodes s a) \<longrightarrow> same_node (nodes s a) (nodes s' a)) \<and>
        (own_e E (nodes s a) \<longrightarrow> own_e E (nodes s' a) \<and> (a \<notin> X \<longrightarrow> nodes s' a = nodes s a)) \<and>
        nwatch (nodes s' a) = nwatch (nodes s a)) \<and>
     (\<forall>a. next_node s \<le> a \<and> a < next_node s' \<longrightarrow>
        own_e E (nodes s' a) \<and> nwatch (nodes s' a) = None)"

definition eff :: "u64 \<Rightarrow> nat option \<Rightarrow> 'v store \<Rightarrow> addr set \<Rightarrow> notifier \<Rightarrow> 'v store \<Rightarrow> bool" where
  "eff E f s X D s' \<longleftrightarrow> modifies E s X s' \<and> quiet s s' \<and> nf_log f s D s'"

lemma nf_add_assoc: "nf_add (nf_add a b) c = nf_add a (nf_add b c)"
  by (simp add: nf_add_def)

lemma nf_add_zero [simp]: "nf_add m zero_notifier = m" "nf_add zero_notifier m = m"
  by (simp_all add: nf_add_def zero_notifier_def)

lemma nf_sel [simp]:
  "nf_nodes (nf_add m d) = nf_nodes m @ nf_nodes d" "nf_leaves (nf_add m d) = nf_leaves m @ nf_leaves d"
  "nf_values (nf_add m d) = nf_values m @ nf_values d"
  "nf_subtrees (nf_add m d) = nf_subtrees m @ nf_subtrees d"
  "nf_nodes zero_notifier = []" "nf_leaves zero_notifier = []" "nf_values zero_notifier = []"
  "nf_subtrees zero_notifier = []"
  "nf_nodes (d_node a) = [a]" "nf_leaves (d_node a) = []" "nf_values (d_node a) = []"
  "nf_subtrees (d_node a) = []"
  "nf_nodes (d_leaf l) = []" "nf_leaves (d_leaf l) = [l]" "nf_values (d_leaf l) = []"
  "nf_subtrees (d_leaf l) = []"
  "nf_nodes (d_value a) = []" "nf_leaves (d_value a) = []" "nf_values (d_value a) = [a]"
  "nf_subtrees (d_value a) = []"
  "nf_nodes (d_subtree a) = []" "nf_leaves (d_subtree a) = []" "nf_values (d_subtree a) = []"
  "nf_subtrees (d_subtree a) = [a]"
  by (simp_all add: nf_add_def zero_notifier_def d_node_def d_leaf_def d_value_def d_subtree_def)

lemma nf_log_trans: "nf_log f s D s' \<Longrightarrow> nf_log f s' D' s'' \<Longrightarrow> nf_log f s (nf_add D D') s''"
  by (auto simp: nf_log_def nf_add_assoc split: option.splits)

lemma quiet_trans: "quiet s s' \<Longrightarrow> quiet s' s'' \<Longrightarrow> quiet s s''"
  by (auto simp: quiet_def)

lemma modifies_trans:
  assumes "modifies E s X s'" and "modifies E s' Y s''"
  shows "modifies E s (X \<union> Y) s''"
proof -
  have n: "next_node s \<le> next_node s'" "next_node s' \<le> next_node s''"
    using assms by (simp_all add: modifies_def)
  have old: "(\<not> own_e E (nodes s a) \<longrightarrow> same_node (nodes s a) (nodes s'' a)) \<and>
      (own_e E (nodes s a) \<longrightarrow> own_e E (nodes s'' a) \<and> (a \<notin> X \<union> Y \<longrightarrow> nodes s'' a = nodes s a)) \<and>
      nwatch (nodes s'' a) = nwatch (nodes s a)"
    if a: "a < next_node s" for a
  proof -
    have a': "a < next_node s'" using a n(1) by simp
    note p = assms(1) [unfolded modifies_def, THEN conjunct2, THEN conjunct1, rule_format, OF a]
    note q = assms(2) [unfolded modifies_def, THEN conjunct2, THEN conjunct1, rule_format, OF a']
    show ?thesis
    proof (cases "own_e E (nodes s a)")
      case False
      then have "same_node (nodes s a) (nodes s' a)" using p by blast
      moreover from this have "\<not> own_e E (nodes s' a)" using False same_node_own by blast
      ultimately show ?thesis using p q False same_node_trans by metis
    qed (use p q in auto)
  qed
  have new: "own_e E (nodes s'' a) \<and> nwatch (nodes s'' a) = None"
    if "next_node s \<le> a" "a < next_node s''" for a
    using assms that by (cases "a < next_node s'") (simp_all add: modifies_def)
  have "next_node s \<le> next_node s''" using n by simp
  then show ?thesis using old new unfolding modifies_def by blast
qed

lemma eff_trans: "eff E f s X D s' \<Longrightarrow> eff E f s' Y D' s'' \<Longrightarrow> eff E f s (X \<union> Y) (nf_add D D') s''"
  unfolding eff_def using modifies_trans nf_log_trans quiet_trans by blast

lemma eff_weaken: "eff E f s X D s' \<Longrightarrow> X \<inter> {..<next_node s} \<subseteq> Y \<Longrightarrow> eff E f s Y D s'"
  unfolding eff_def modifies_def by blast

lemma eff_trans_weaken:
  assumes "eff E f s X D s'" and "eff E f s' Y D' s''" and "(X \<union> Y) \<inter> {..<next_node s} \<subseteq> Z"
    and "D'' = nf_add D D'"
  shows "eff E f s Z D'' s''"
  using eff_weaken [OF eff_trans [OF assms(1,2)] assms(3)] assms(4) by simp

lemma eff_refl: "eff E f s X zero_notifier s"
  by (auto simp: eff_def modifies_def quiet_def nf_log_def split: option.split)

lemma eff_next: "eff E f s X D s' \<Longrightarrow> next_node s \<le> next_node s'"
  by (simp add: eff_def modifies_def)

lemma eff_same: "eff E f s X D s' \<Longrightarrow> a < next_node s \<Longrightarrow> \<not> own_e E (nodes s a) \<Longrightarrow> same_node (nodes s a) (nodes s' a)"
  by (simp add: eff_def modifies_def)

lemma eff_eq: "eff E f s X D s' \<Longrightarrow> a < next_node s \<Longrightarrow> own_e E (nodes s a) \<Longrightarrow> a \<notin> X \<Longrightarrow> nodes s' a = nodes s a"
  by (simp add: eff_def modifies_def)

lemma eff_same': "eff E f s X D s' \<Longrightarrow> a < next_node s \<Longrightarrow> a \<notin> X \<Longrightarrow> same_node (nodes s a) (nodes s' a)"
  using eff_same eff_eq by (metis same_node_refl)

lemma eff_own: "eff E f s X D s' \<Longrightarrow> a < next_node s \<Longrightarrow> own_e E (nodes s' a) \<longleftrightarrow> own_e E (nodes s a)"
  unfolding eff_def modifies_def using same_node_own by blast

lemma eff_fresh:
  "eff E f s X D s' \<Longrightarrow> next_node s \<le> a \<Longrightarrow> a < next_node s' \<Longrightarrow> own_e E (nodes s' a)"
  by (simp add: eff_def modifies_def)

lemma eff_build: "eff E f s X D s' \<Longrightarrow> build s' = build s"
  by (simp add: eff_def quiet_def)

lemma eff_agree:
  assumes "eff E f s X D s'" and "rep s g" and "\<forall>a \<in> set (addrs g). \<not> own_e E (nodes s a) \<or> a \<notin> X"
  shows "agree (set (addrs g)) s s'"
  using assms eff_same [OF assms(1)] eff_same' [OF assms(1)] eff_next [OF assms(1)] rep_bound [OF assms(2)]
  by (auto simp: agree_def)

section \<open>Primitives\<close>

lemma eff_alloc:
  assumes "alloc_node n s = (a, s')" and "own_e E n" and "nwatch n = None"
  shows "eff E f s {} zero_notifier s'" and "a = next_node s" and "nodes s' a = n"
    and "next_node s' = Suc (next_node s)" and "\<And>b. b \<noteq> a \<Longrightarrow> nodes s' b = nodes s b"
  using assms
  by (auto simp: alloc_node_def eff_def modifies_def quiet_def nf_log_def split: option.split)

lemma eff_upd:
  assumes "own_e E (nodes s a)" and "epoch (h (nodes s a)) AND epochMask = epoch (nodes s a) AND epochMask"
    and "nwatch (h (nodes s a)) = nwatch (nodes s a)"
  shows "eff E f s {a} zero_notifier (upd_node a h s)"
  using assms
  by (auto simp: upd_node_def eff_def modifies_def quiet_def nf_log_def own_e_def split: option.split)

lemma upd_node_simps [simp]:
  "nodes (upd_node a h s) b = (if b = a then h (nodes s a) else nodes s b)"
  "next_node (upd_node a h s) = next_node s" "build (upd_node a h s) = build s"
  by (simp_all add: upd_node_def)

lemma put_node_simps [simp]:
  "nodes (put_node a n s) b = (if b = a then n else nodes s b)"
  "next_node (put_node a n s) = next_node s" "build (put_node a n s) = build s"
  by (simp_all add: put_node_def)

lemma eff_put:
  assumes "own_e E (nodes s a)" and "epoch n AND epochMask = epoch (nodes s a) AND epochMask"
    and "nwatch n = nwatch (nodes s a)"
  shows "eff E f s {a} zero_notifier (put_node a n s)"
  unfolding put_node_def using assms by (intro eff_upd) auto

lemma upd_notifier_simps [simp]:
  "nodes (upd_notifier t h s) = nodes s" "next_node (upd_notifier t h s) = next_node s"
  "build (upd_notifier t h s) = build s"
  by (simp_all add: upd_notifier_def split: option.split)

lemma drop_simps [simp]:
  "nodes (dropNode t a s) = nodes s" "next_node (dropNode t a s) = next_node s"
  "nodes (dropLeaf t l s) = nodes s" "next_node (dropLeaf t l s) = next_node s"
  "nodes (dropValue t a s) = nodes s" "next_node (dropValue t a s) = next_node s"
  "nodes (dropSubtree t a s) = nodes s" "next_node (dropSubtree t a s) = next_node s"
  by (simp_all add: dropNode_def dropLeaf_def dropValue_def dropSubtree_def)

lemma eff_drop:
  "eff E (tnf t) s X (d_node a) (dropNode t a s)"
  "eff E (tnf t) s X (d_leaf l) (dropLeaf t l s)"
  "eff E (tnf t) s X (d_value a) (dropValue t a s)"
  "eff E (tnf t) s X (d_subtree a) (dropSubtree t a s)"
  by (auto simp: dropNode_def dropLeaf_def dropValue_def dropSubtree_def upd_notifier_def eff_def
      modifies_def quiet_def nf_log_def nf_add_def d_node_def d_leaf_def d_value_def d_subtree_def
      zero_notifier_def split: option.split)

lemma leafOf_spec:
  assumes "hasValue (nodes s a)" and "\<not> own_e E (nodes s a)" and "leafOf a s = (l, s')"
  shows "eff E f s X zero_notifier s'" and "l \<noteq> None" and "leafp (nodes s' a) = l"
    and "same_node (nodes s a) (nodes s' a)" and "\<And>b. b \<noteq> a \<Longrightarrow> nodes s' b = nodes s b"
    and "next_node s' = next_node s"
    and "leafp (nodes s a) \<noteq> None \<Longrightarrow> s' = s"
proof -
  have "eff E f s X zero_notifier s' \<and> l \<noteq> None \<and> leafp (nodes s' a) = l \<and> same_node (nodes s a) (nodes s' a) \<and>
    (\<forall>b. b \<noteq> a \<longrightarrow> nodes s' b = nodes s b) \<and> next_node s' = next_node s \<and>
    (leafp (nodes s a) \<noteq> None \<longrightarrow> s' = s)"
  proof (cases "leafp (nodes s a)")
    case None
    with assms show ?thesis
      by (auto simp: leafOf_def new_leaf_def cas_def upd_node_def eff_def modifies_def quiet_def
          nf_log_def same_node_def own_e_def split: option.split)
  next
    case (Some k)
    then have "l = Some k" and "s' = s" using assms(3) by (simp_all add: leafOf_def)
    then show ?thesis using eff_refl Some by simp
  qed
  then show "eff E f s X zero_notifier s'" "l \<noteq> None" "leafp (nodes s' a) = l"
    "same_node (nodes s a) (nodes s' a)" "\<And>b. b \<noteq> a \<Longrightarrow> nodes s' b = nodes s b"
    "next_node s' = next_node s" "leafp (nodes s a) \<noteq> None \<Longrightarrow> s' = s"
    by auto
qed

end
