(* ===== verification/Cow.thy ===== *)
theory Cow
  imports Ownership
begin

text \<open>
  Copy-on-write on ghost trees.  \<open>replaced\<close> says that a piece of code put one subtree in the place of
  another: which addresses the new one may use, which published nodes it recorded as having left,
  and for every value whether it was inherited (sharing its leaf), newly written, or recorded as
  gone.  The relation composes, lifts from a child to its owned parent, and is established for the
  primitives by one lemma about replacing a node.
\<close>

section \<open>Trees under a writer\<close>

definition unowned :: "u64 \<Rightarrow> 'v store \<Rightarrow> 'x gtree \<Rightarrow> addr set" where
  "unowned E s g = {a \<in> set (addrs g). \<not> own_e E (nodes s a)}"

definition trep :: "u64 \<Rightarrow> 'v store \<Rightarrow> 'x gtree \<Rightarrow> bool" where
  "trep E s g \<longleftrightarrow> rep s g \<and> distinct (addrs g) \<and> (\<forall>a \<in> set (addrs g). own_ok E (nodes s a))"

text \<open>The nodes of a tree that hold a value, with their tags.\<close>

fun vnodes :: "'v store \<Rightarrow> 'x gtree \<Rightarrow> (addr \<times> 'x) set" where
  "vnodes s (G a xt gs) = (if hasValue (nodes s a) then {(a, xt)} else {}) \<union> (\<Union>g \<in> set gs. vnodes s g)"

lemma distinct_concat_kid:
  "distinct (concat (map addrs gs)) \<Longrightarrow> g \<in> set gs \<Longrightarrow> distinct (addrs g)"
  by (induction gs) auto

lemma distinct_kids_disj:
  assumes "distinct (concat (map addrs gs))" and "i < length gs" and "j < length gs" and "i \<noteq> j"
  shows "set (addrs (gs ! i)) \<inter> set (addrs (gs ! j)) = {}"
  using assms
proof (induction gs arbitrary: i j)
  case (Cons g gs)
  have far: "set (addrs g) \<inter> set (addrs (gs ! k)) = {}" if "k < length gs" for k
    using Cons.prems(1) that by (auto dest: nth_mem)
  show ?case
  proof (cases i)
    case 0
    then show ?thesis using Cons.prems far by (cases j) auto
  next
    case (Suc m)
    then show ?thesis using Cons.prems Cons.IH [of m] far by (cases j) auto
  qed
qed simp

lemma trep_G:
  "trep E s (G a xt gs) \<longleftrightarrow>
     a < next_node s \<and> kidList (nodes s a) = map (\<lambda>g. Some (ad g)) gs \<and>
     node_ok (nodes s a) (map (lab_at s) gs) \<and> own_ok E (nodes s a) \<and>
     (\<forall>g \<in> set gs. trep E s g) \<and> distinct (a # concat (map addrs gs))"
  using distinct_concat_kid by (auto simp: trep_def)

lemma trep_kid: "trep E s (G a xt gs) \<Longrightarrow> g \<in> set gs \<Longrightarrow> trep E s g"
  by (simp add: trep_G)

lemma trepD: "trep E s g \<Longrightarrow> rep s g" "trep E s g \<Longrightarrow> distinct (addrs g)"
  by (simp_all add: trep_def)

lemma trep_bound: "trep E s g \<Longrightarrow> a \<in> set (addrs g) \<Longrightarrow> a < next_node s"
  by (rule rep_bound [OF trepD(1)])

lemma vnodes_addrs: "(a, y) \<in> vnodes s g \<Longrightarrow> a \<in> set (addrs g) \<and> hasValue (nodes s a)"
  by (induction g) (auto split: if_splits)

lemma vnodes_agree: "agree (set (addrs g)) s s' \<Longrightarrow> vnodes s' g = vnodes s g"
proof (induction g)
  case (G a xt gs)
  have "same_node (nodes s a) (nodes s' a)" using G.prems by (simp add: agree_def)
  moreover have "\<forall>g \<in> set gs. vnodes s' g = vnodes s g"
    using G.IH agree_mono [OF G.prems] by fastforce
  ultimately show ?case by (simp add: same_node_hasValue)
qed

text \<open>A tree whose owned nodes were not touched is the same tree.\<close>

lemma eff_trep:
  assumes e: "eff E f s X D s'" and t: "trep E s g"
    and X: "\<And>a. a \<in> set (addrs g) \<Longrightarrow> own_e E (nodes s a) \<Longrightarrow> a \<notin> X"
  shows "trep E s' g" and "absh h s' g = absh h s g" and "absn s' g = absn s g"
    and "lab_at s' g = lab_at s g" and "vnodes s' g = vnodes s g" and "unowned E s' g = unowned E s g"
    and "agree (set (addrs g)) s s'"
proof -
  note r = trepD(1) [OF t]
  show a: "agree (set (addrs g)) s s'" using eff_agree [OF e r] X by blast
  have own: "own_e E (nodes s' b) \<longleftrightarrow> own_e E (nodes s b)" if "b \<in> set (addrs g)" for b
    using eff_own [OF e rep_bound [OF r that]] .
  have "own_ok E (nodes s' b)" if b: "b \<in> set (addrs g)" for b
  proof (cases "own_e E (nodes s b)")
    case True
    then have "nodes s' b = nodes s b" using eff_eq [OF e rep_bound [OF r b]] X b by blast
    with t b show ?thesis by (simp add: trep_def)
  qed (simp add: own_ok_def own b)
  with t frame_rep [OF a r] show "trep E s' g" by (simp add: trep_def)
  show "absh h s' g = absh h s g" using a by (rule frame_absh)
  show "absn s' g = absn s g" using frame_absn [OF a r] .
  show "lab_at s' g = lab_at s g" using a by (rule lab_at_agree)
  show "vnodes s' g = vnodes s g" using a by (rule vnodes_agree)
  show "unowned E s' g = unowned E s g" using own by (auto simp: unowned_def)
qed

section \<open>Inherited and recorded values\<close>

text \<open>
  Node \<open>a'\<close> holds the value of \<open>a\<close>: a published \<open>a\<close> has a leaf and shares it with an owned copy, an
  owned \<open>a\<close> hands over whatever it had.
\<close>

definition heir :: "u64 \<Rightarrow> 'v store \<Rightarrow> 'v store \<Rightarrow> addr \<Rightarrow> addr \<Rightarrow> bool" where
  "heir E s s' a a' \<longleftrightarrow>
     (a' = a \<or> next_node s \<le> a') \<and>
     (if own_e E (nodes s a)
      then own_e E (nodes s' a') \<and> leafOwned (nodes s' a') = leafOwned (nodes s a) \<and>
           leafp (nodes s' a') = leafp (nodes s a)
      else a' = a \<or>
           own_e E (nodes s' a') \<and> \<not> leafOwned (nodes s' a') \<and> leafp (nodes s' a') \<noteq> None \<and>
           leafp (nodes s' a') = leafp (nodes s' a))"

text \<open>The records \<open>D\<close> make sure that the watchers of the value of \<open>a\<close> are notified.\<close>

definition gone :: "u64 \<Rightarrow> 'v store \<Rightarrow> 'v store \<Rightarrow> notifier \<Rightarrow> addr \<Rightarrow> bool" where
  "gone E s s' D a \<longleftrightarrow>
     (if own_e E (nodes s a)
      then \<not> leafOwned (nodes s a) \<longrightarrow> leafp (nodes s a) \<in> set (nf_leaves D)
      else a \<in> set (nf_values D) \<or>
           leafp (nodes s' a) \<noteq> None \<and> leafp (nodes s' a) \<in> set (nf_leaves D))"

lemma heir_refl:
  assumes "eff E f s X D s'" and "a < next_node s" and "own_e E (nodes s a) \<Longrightarrow> a \<notin> X"
  shows "heir E s s' a a"
  using assms eff_eq [OF assms(1,2)] by (auto simp: heir_def)

lemma leafp_kept:
  assumes "eff E f s X D s'" and "a < next_node s" and "\<not> own_e E (nodes s a)" and "leafp (nodes s a) \<noteq> None"
  shows "leafp (nodes s' a) = leafp (nodes s a)"
  using eff_same [OF assms(1,2,3)] assms(4) by (simp add: same_node_def)

lemma heir_trans:
  assumes e1: "eff E f s X D s1" and e2: "eff E f s1 Y D' s2" and a: "a < next_node s"
    and h1: "heir E s s1 a b" and h2: "heir E s1 s2 b c"
  shows "heir E s s2 a c"
proof -
  have n: "next_node s \<le> next_node s1" using eff_next [OF e1] .
  have o1: "own_e E (nodes s1 a) \<longleftrightarrow> own_e E (nodes s a)" using eff_own [OF e1 a] .
  show ?thesis
  proof (cases "own_e E (nodes s a)")
    case True
    with h1 h2 n show ?thesis by (auto simp: heir_def)
  next
    case False
    note f = False
    show ?thesis
    proof (cases "b = a")
      case True
      with h2 f o1 n show ?thesis by (auto simp: heir_def)
    next
      case False
      with h1 f have b: "own_e E (nodes s1 b)" "\<not> leafOwned (nodes s1 b)" "leafp (nodes s1 b) \<noteq> None"
        "leafp (nodes s1 b) = leafp (nodes s1 a)" "next_node s \<le> b" by (auto simp: heir_def iff del: not_None_eq)
      then have "leafp (nodes s2 a) = leafp (nodes s1 a)"
        using leafp_kept [OF e2, of a] a n f o1 by simp
      with b h2 f n show ?thesis by (auto simp: heir_def iff del: not_None_eq)
    qed
  qed
qed

lemma gone_later:
  assumes e2: "eff E f s1 Y D' s2" and a: "a < next_node s1" and o: "own_e E (nodes s1 a) \<longleftrightarrow> own_e E (nodes s a)"
    and g: "gone E s s1 D a"
  shows "gone E s s2 (nf_add D D') a"
  using g leafp_kept [OF e2 a] o by (auto simp: gone_def)

lemma heir_gone:
  assumes e1: "eff E f s X D s1" and e2: "eff E f s1 Y D' s2" and a: "a < next_node s"
    and h1: "heir E s s1 a b" and g: "gone E s1 s2 D' b"
  shows "gone E s s2 (nf_add D D') a"
proof -
  have n: "a < next_node s1" using eff_next [OF e1] a by simp
  have o1: "own_e E (nodes s1 a) \<longleftrightarrow> own_e E (nodes s a)" using eff_own [OF e1 a] .
  show ?thesis
    using h1 g o1 leafp_kept [OF e2 n] by (cases "b = a") (auto simp: heir_def gone_def iff del: not_None_eq)
qed

definition vals :: "u64 \<Rightarrow> 'v store \<Rightarrow> 'x gtree \<Rightarrow> 'v store \<Rightarrow> 'x gtree \<Rightarrow> notifier \<Rightarrow> addr set \<Rightarrow> 'x set \<Rightarrow> bool"
  where
  "vals E s g s' g' D Z W \<longleftrightarrow>
     (\<forall>a' y. (a', y) \<in> vnodes s' g' \<longrightarrow>
        y \<in> W \<and> own_e E (nodes s' a') \<and> leafOwned (nodes s' a') \<or>
        (\<exists>a. (a, y) \<in> vnodes s g \<and> heir E s s' a a')) \<and>
     (\<forall>a y. (a, y) \<in> vnodes s g \<longrightarrow>
        (\<exists>a'. (a', y) \<in> vnodes s' g' \<and> heir E s s' a a') \<or> a \<in> Z \<or> gone E s s' D a)"

lemma vals_trans:
  assumes e1: "eff E f s X D s1" and e2: "eff E f s1 Y D' s2"
    and v1: "vals E s g s1 g1 D Z W" and v2: "vals E s1 g1 s2 g2 D' Z' W'"
    and b: "\<And>a. a \<in> set (addrs g) \<Longrightarrow> a < next_node s" and Z': "Z' \<subseteq> {..<next_node s}"
  shows "vals E s g s2 g2 (nf_add D D') (Z \<union> Z') (W \<union> W')"
proof -
  have 1: "y \<in> W \<union> W' \<and> own_e E (nodes s2 c) \<and> leafOwned (nodes s2 c) \<or>
      (\<exists>a. (a, y) \<in> vnodes s g \<and> heir E s s2 a c)" if c: "(c, y) \<in> vnodes s2 g2" for c y
  proof -
    consider "y \<in> W'" "own_e E (nodes s2 c)" "leafOwned (nodes s2 c)"
      | a1 where "(a1, y) \<in> vnodes s1 g1" "heir E s1 s2 a1 c"
      using v2 c unfolding vals_def by blast
    then show ?thesis
    proof cases
      case 2
      from v1 2(1) consider "y \<in> W" "own_e E (nodes s1 a1)" "leafOwned (nodes s1 a1)"
        | a where "(a, y) \<in> vnodes s g" "heir E s s1 a a1"
        unfolding vals_def by blast
      then show ?thesis
      proof cases
        case 1
        with 2(2) show ?thesis by (auto simp: heir_def)
      next
        case (2 a)
        then have "a < next_node s" using b vnodes_addrs [OF 2(1)] by blast
        from heir_trans [OF e1 e2 this 2(2) \<open>heir E s1 s2 a1 c\<close>] 2(1) show ?thesis by blast
      qed
    qed blast
  qed
  have 2: "(\<exists>c. (c, y) \<in> vnodes s2 g2 \<and> heir E s s2 a c) \<or> a \<in> Z \<union> Z' \<or> gone E s s2 (nf_add D D') a"
    if a: "(a, y) \<in> vnodes s g" for a y
  proof -
    have la: "a < next_node s" using b vnodes_addrs [OF a] by blast
    have la1: "a < next_node s1" using la eff_next [OF e1] by simp
    consider "a \<in> Z" | "gone E s s1 D a" | a1 where "(a1, y) \<in> vnodes s1 g1" "heir E s s1 a a1"
      using v1 a unfolding vals_def by blast
    then show ?thesis
    proof cases
      case 2
      then show ?thesis using gone_later [OF e2 la1 eff_own [OF e1 la]] by blast
    next
      case 3
      from v2 3(1) consider "a1 \<in> Z'" | "gone E s1 s2 D' a1" | c where "(c, y) \<in> vnodes s2 g2" "heir E s1 s2 a1 c"
        unfolding vals_def by blast
      then show ?thesis
      proof cases
        case 1
        then have "a1 = a" using Z' 3(2) by (auto simp: heir_def)
        with 1 show ?thesis by simp
      next
        case 2
        then show ?thesis using heir_gone [OF e1 e2 la 3(2)] by blast
      next
        case (3 c)
        then show ?thesis using heir_trans [OF e1 e2 la \<open>heir E s s1 a a1\<close>] by blast
      qed
    qed blast
  qed
  show ?thesis using 1 2 unfolding vals_def by blast
qed

section \<open>Replacement\<close>

text \<open>
  \<open>H\<close>: owned nodes outside the tree that were changed (the parent whose child pointer is written);
  \<open>Z\<close>: nodes of the tree whose departure is recorded elsewhere; \<open>W\<close>: the tags of new values.
\<close>

definition replaced :: "u64 \<Rightarrow> nat option \<Rightarrow> 'v store \<Rightarrow> addr set \<Rightarrow> 'x gtree \<Rightarrow> 'v store \<Rightarrow> 'x gtree \<Rightarrow>
    notifier \<Rightarrow> addr set \<Rightarrow> 'x set \<Rightarrow> bool" where
  "replaced E f s H g s' g' D Z W \<longleftrightarrow>
     eff E f s (H \<union> set (addrs g)) D s' \<and> trep E s' g' \<and>
     set (addrs g') \<subseteq> set (addrs g) \<union> {next_node s..} \<and> Z \<subseteq> set (addrs g) \<and>
     Z \<inter> set (addrs g') = {} \<and> set (nf_nodes D) \<union> (unowned E s g \<inter> Z) = unowned E s g - set (addrs g') \<and>
     None \<notin> set (nf_leaves D) \<and> nf_subtrees D = [] \<and>
     set (nf_values D) \<subseteq> {a \<in> unowned E s g. hasValue (nodes s a)} \<and>
     vals E s g s' g' D Z W"

lemma replacedD:
  assumes "replaced E f s H g s' g' D Z W"
  shows "eff E f s (H \<union> set (addrs g)) D s'" and "trep E s' g'"
    and "set (addrs g') \<subseteq> set (addrs g) \<union> {next_node s..}"
    and "set (nf_nodes D) \<union> (unowned E s g \<inter> Z) = unowned E s g - set (addrs g')"
    and "None \<notin> set (nf_leaves D)" and "nf_subtrees D = []"
    and "set (nf_values D) \<subseteq> {a \<in> unowned E s g. hasValue (nodes s a)}"
    and "vals E s g s' g' D Z W" and "Z \<subseteq> set (addrs g)" and "Z \<inter> set (addrs g') = {}"
  using assms by (simp_all add: replaced_def)

lemma vals_refl:
  assumes "eff E f s X D s'" and "trep E s g" and "\<And>a. a \<in> set (addrs g) \<Longrightarrow> own_e E (nodes s a) \<Longrightarrow> a \<notin> X"
  shows "vals E s g s' g D Z W"
proof -
  have "heir E s s' a a" if "(a, y) \<in> vnodes s g" for a y
    using heir_refl [OF assms(1)] assms(3) vnodes_addrs [OF that] trep_bound [OF assms(2)] by blast
  then show ?thesis using eff_trep(5) [OF assms] unfolding vals_def by blast
qed

lemma replaced_refl: "trep E s g \<Longrightarrow> replaced E f s H g s g zero_notifier {} W"
  using vals_refl [OF eff_refl [where X = "{}"]] eff_refl
  by (auto simp: replaced_def unowned_def)

lemma replaced_weaken:
  "replaced E f s H g s' g' D Z W \<Longrightarrow> H \<subseteq> H' \<Longrightarrow> W \<subseteq> W' \<Longrightarrow> replaced E f s H' g s' g' D Z W'"
  unfolding replaced_def vals_def
  by (safe; (rule eff_weaken, assumption, blast | blast)?)

lemma replaced_trans:
  assumes t: "trep E s g" and r1: "replaced E f s H g s1 g1 D Z W"
    and r2: "replaced E f s1 K g1 s2 g2 D' Z' W'" and Z': "Z' \<subseteq> set (addrs g)" and K: "K \<inter> {..<next_node s} \<subseteq> H"
  shows "replaced E f s H g s2 g2 (nf_add D D') (Z \<union> Z') (W \<union> W')"
proof -
  note e1 = replacedD(1) [OF r1] and e2 = replacedD(1) [OF r2]
  note b = trep_bound [OF t]
  have n: "next_node s \<le> next_node s1" using eff_next [OF e1] .
  have A1: "set (addrs g1) \<subseteq> set (addrs g) \<union> {next_node s..}" using replacedD(3) [OF r1] .
  have A2: "set (addrs g2) \<subseteq> set (addrs g1) \<union> {next_node s..}" using replacedD(3) [OF r2] n by auto
  have "eff E f s (H \<union> set (addrs g)) (nf_add D D') s2"
    using A1 K b by (intro eff_trans_weaken [OF e1 e2]) auto
  moreover have U: "a \<in> unowned E s1 g1 \<longleftrightarrow> a \<in> unowned E s g \<and> a \<in> set (addrs g1)" if "a < next_node s" for a
    using A1 that eff_own [OF e1 that] by (auto simp: unowned_def)
  have U': "a < next_node s" if "a \<in> unowned E s1 g1" for a
    using that eff_fresh [OF e1, of a] trep_bound [OF replacedD(2) [OF r1], of a]
    by (force simp: unowned_def)
  have U1: "unowned E s1 g1 = unowned E s g \<inter> set (addrs g1)"
    using U U' b by (auto simp: unowned_def [of E s g])
  have "set (nf_nodes (nf_add D D')) \<union> (unowned E s g \<inter> (Z \<union> Z')) = unowned E s g - set (addrs g2)"
  proof -
    have fr: "a \<in> set (addrs g1)" if "a \<in> unowned E s g" "a \<in> set (addrs g2)" for a
      using A2 that b by (force simp: unowned_def)
    have z: "Z' \<subseteq> set (addrs g1)" using replacedD(9) [OF r2] .
    show ?thesis using replacedD(4) [OF r1] replacedD(4) [OF r2] fr z unfolding U1 nf_sel set_append
      by blast
  qed
  moreover have "set (nf_values (nf_add D D')) \<subseteq> {a \<in> unowned E s g. hasValue (nodes s a)}"
  proof -
    have "hasValue (nodes s a)" if "a \<in> unowned E s1 g1" "hasValue (nodes s1 a)" for a
      using eff_same [OF e1 U' [OF that(1)]] that same_node_hasValue U1 by (auto simp: unowned_def)
    then show ?thesis using replacedD(7) [OF r1] replacedD(7) [OF r2] U1 by auto
  qed
  moreover have "vals E s g s2 g2 (nf_add D D') (Z \<union> Z') (W \<union> W')"
    using vals_trans [OF e1 e2 replacedD(8) [OF r1] replacedD(8) [OF r2] b] Z' b by blast
  moreover have "(Z \<union> Z') \<inter> set (addrs g2) = {}"
    using replacedD(9,10) [OF r1] replacedD(10) [OF r2] A2 b by fastforce
  moreover have "Z \<union> Z' \<subseteq> set (addrs g)" using replacedD(9) [OF r1] Z' by blast
  moreover have "set (addrs g2) \<subseteq> set (addrs g) \<union> {next_node s..}" using A1 A2 by blast
  ultimately show ?thesis
    using replacedD(5,6) [OF r1] replacedD(2,5,6) [OF r2] unfolding replaced_def by simp
qed

lemma in_others:
  assumes "x \<in> set (take i xs) \<union> set (drop (Suc i) xs)" and "i < length xs"
  obtains j where "j < length xs" and "j \<noteq> i" and "x = xs ! j"
proof (cases "x \<in> set (take i xs)")
  case True
  then obtain j where "j < i" "x = xs ! j" using assms(2) by (auto simp: in_set_conv_nth)
  with that [of j] assms(2) show ?thesis by simp
next
  case False
  with assms(1) obtain k where "k < length xs - Suc i" "x = xs ! (Suc i + k)"
    by (auto simp: in_set_conv_nth)
  with that [of "Suc i + k"] show ?thesis by simp
qed

lemma set_update_cases:
  assumes "x \<in> set (xs[i := y])"
  obtains "x = y" | j where "j < length xs" and "j \<noteq> i" and "x = xs ! j"
proof -
  from assms obtain j where j: "j < length xs" "x = xs[i := y] ! j" by (auto simp: in_set_conv_nth)
  show ?thesis
  proof (cases "j = i")
    case True
    with j that(1) show ?thesis by simp
  next
    case False
    with j that(2) [of j] show ?thesis by simp
  qed
qed

lemma set_nth_cases:
  assumes "x \<in> set xs"
  obtains "x = xs ! i" | j where "j < length xs" and "j \<noteq> i" and "x = xs ! j"
  using assms set_update_cases [of x xs i "xs ! i"] by auto

text \<open>A replaced child of an owned node: the node takes the new child, its labels stay the same.\<close>

lemma replaced_lift:
  assumes t: "trep E s (G c xt gs)" and o: "own_e E (nodes s c)" and i: "i < length gs"
    and r: "replaced E f s {c} (gs ! i) s' g' D Z W"
    and p: "nodes s' c = (nodes s c)\<lparr>arr := (arr (nodes s c))[i := Some (ad g')]\<rparr>"
    and l: "lab_at s' g' = lab_at s (gs ! i)"
  shows "replaced E f s {} (G c xt gs) s' (G c xt (gs[i := g'])) D Z W"
    and "absh h s' (G c xt (gs[i := g'])) =
           RT (prefix (nodes s c)) (map_option (\<lambda>v. h v xt) (value_at (nodes s c)))
             ((map (absh h s) gs)[i := absh h s' g'])"
proof -
  let ?g = "G c xt gs" and ?g' = "G c xt (gs[i := g'])" and ?X = "{c} \<union> set (addrs (gs ! i))"
  note e = replacedD(1) [OF r]
  have d: "distinct (c # concat (map addrs gs))" using t by (simp add: trep_G)
  have gi: "gs ! i \<in> set gs" using i by simp
  have sub: "set (addrs (gs ! j)) \<subseteq> set (addrs ?g)" if "j < length gs" for j using that by auto
  have disj: "a \<notin> ?X" if "j < length gs" "j \<noteq> i" "a \<in> set (addrs (gs ! j))" for a j
    using distinct_kids_disj [of gs j i] d i that by auto
  have tj: "trep E s (gs ! j)" if "j < length gs" for j using trep_kid [OF t] that by simp
  have kept: "trep E s' (gs ! j)" "absh h s' (gs ! j) = absh h s (gs ! j)"
    "lab_at s' (gs ! j) = lab_at s (gs ! j)" "vnodes s' (gs ! j) = vnodes s (gs ! j)"
    if "j < length gs" "j \<noteq> i" for j
    using eff_trep [OF e tj [OF that(1)]] disj [OF that] by blast+
  have c: "c < next_node s" "c \<notin> set (addrs (gs ! i))" using t d gi by (auto simp: trep_G)
  have len: "nkids (nodes s c) = length gs" using rep_nkids [OF trepD(1) [OF t]] by simp
  have "eff E f s ({} \<union> set (addrs ?g)) D s'" using sub [OF i] by (intro eff_weaken [OF e]) auto
  moreover have L: "map (lab_at s') (gs[i := g']) = map (lab_at s) gs"
    by (rule nth_equalityI) (auto simp: nth_list_update i l kept(3))
  have c': "c \<notin> set (addrs g')" using replacedD(3) [OF r] c by auto
  have A: "set (addrs ?g') \<subseteq> set (addrs ?g) \<union> {next_node s..}"
    using replacedD(3) [OF r] sub [OF i] set_update_subset_insert [of gs i g'] by auto
  have D: "distinct (addrs ?g')"
  proof -
    have g'dist: "distinct (addrs g')" using replacedD(2) [OF r] by (simp add: trepD)
    have "set (addrs g') \<inter> set (addrs h) = {}" if h: "h \<in> set (take i gs) \<union> set (drop (Suc i) gs)" for h
    proof -
      obtain j where j: "j < length gs" "j \<noteq> i" "h = gs ! j"
        using in_others [OF h i] .
      have "set (addrs h) \<inter> {next_node s..} = {}" using trep_bound [OF tj [OF j(1)]] j(3) by force
      then show ?thesis using disj [OF j(1,2)] j(3) replacedD(3) [OF r] by blast
    qed
    note g'disj = this
    have "gs = take i gs @ gs ! i # drop (Suc i) gs" using i by (rule id_take_nth_drop)
    then have dd: "distinct (concat (map addrs (take i gs)) @ addrs (gs ! i) @ concat (map addrs (drop (Suc i) gs)))"
      using d by (metis concat.simps(2) concat_append distinct.simps(2) list.simps(9) map_append)
    have "distinct (concat (map addrs (gs[i := g'])))"
      using dd g'dist g'disj i by (auto simp: upd_conv_take_nth_drop)
    moreover have "c \<notin> set (concat (map addrs (gs[i := g'])))"
      using d c' set_update_subset_insert [of gs i g'] by auto
    ultimately show ?thesis by simp
  qed
  moreover have "trep E s' ?g'"
  proof -
    have "c < next_node s'" using c eff_next [OF e] by simp
    moreover have "kidList (nodes s' c) = map (\<lambda>g. Some (ad g)) (gs[i := g'])"
    proof -
      have "kidList (nodes s c) = map (\<lambda>g. Some (ad g)) gs" using t by (simp add: trep_G)
      then show ?thesis by (simp add: p kidList_def take_update_swap map_update)
    qed
    moreover have "node_ok (nodes s' c) (map (lab_at s') (gs[i := g']))"
      using t unfolding L by (simp add: trep_G p node_ok_def hasValue_def leafOwned_def)
    moreover have "own_ok E (nodes s' c)"
      using t by (simp add: trep_G p own_ok_def own_e_def hasValue_def leafOwned_def)
    moreover have "\<forall>g \<in> set (gs[i := g']). trep E s' g"
    proof
      fix h assume "h \<in> set (gs[i := g'])"
      then show "trep E s' h" using replacedD(2) [OF r] kept(1) by (cases rule: set_update_cases) auto
    qed
    ultimately show ?thesis using D by (simp add: trep_G)
  qed
  moreover have n1: "a \<notin> set (addrs ?g')" if na: "a \<in> set (addrs (gs ! i))" "a \<notin> set (addrs g')" for a
  proof
    assume "a \<in> set (addrs ?g')"
    moreover have "a \<noteq> c" using na(1) c(2) by auto
    ultimately obtain h where h: "h \<in> set (gs[i := g'])" "a \<in> set (addrs h)" by auto
    then obtain j where "j < length gs" "j \<noteq> i" "a \<in> set (addrs (gs ! j))"
      using na(2) by (cases rule: set_update_cases) auto
    from disj [OF this] na(1) show False by simp
  qed
  moreover have "set (nf_nodes D) \<union> (unowned E s ?g \<inter> Z) = unowned E s ?g - set (addrs ?g')"
  proof -
    have U: "unowned E s ?g = (\<Union>g \<in> set gs. unowned E s g)" using o by (auto simp: unowned_def)
    have k: "a \<in> unowned E s (gs ! i) \<or> (\<exists>j < length gs. j \<noteq> i \<and> a \<in> unowned E s (gs ! j))"
      if "a \<in> unowned E s ?g" for a using that unfolding U by (auto simp: in_set_conv_nth)
    have s1: "unowned E s (gs ! i) \<subseteq> unowned E s ?g" using gi unfolding U by blast
    have g': "a \<in> set (addrs ?g')" if "j < length gs" "j \<noteq> i" "a \<in> unowned E s (gs ! j)" for a j
    proof -
      have "gs ! j \<in> set (gs[i := g'])"
        using that nth_mem [of j "gs[i := g']"] by simp
      then show ?thesis using that(3) by (auto simp: unowned_def)
    qed
    have g'': "set (addrs g') \<subseteq> set (addrs ?g')" using i set_update_memI [of i gs g'] by auto
    have z: "a \<notin> Z" if "j < length gs" "j \<noteq> i" "a \<in> unowned E s (gs ! j)" for a j
      using replacedD(9) [OF r] disj [of j a] that by (auto simp: unowned_def)
    note q = replacedD(4) [OF r]
    show ?thesis
    proof (intro set_eqI iffI)
      fix a assume a: "a \<in> set (nf_nodes D) \<union> (unowned E s ?g \<inter> Z)"
      have "a \<in> unowned E s (gs ! i) - set (addrs g')"
      proof (cases "a \<in> set (nf_nodes D)")
        case False
        with a have "a \<in> unowned E s (gs ! i)" using k z by blast
        with a q False show ?thesis by blast
      qed (use q in blast)
      then show "a \<in> unowned E s ?g - set (addrs ?g')" using n1 s1 by (auto simp: unowned_def)
    next
      fix a assume a: "a \<in> unowned E s ?g - set (addrs ?g')"
      then have "a \<in> unowned E s (gs ! i)" using k g' by blast
      then have "a \<in> unowned E s (gs ! i) - set (addrs g')" using a g'' by blast
      then show "a \<in> set (nf_nodes D) \<union> (unowned E s ?g \<inter> Z)" using q s1 by blast
    qed
  qed
  moreover have "set (nf_values D) \<subseteq> {a \<in> unowned E s ?g. hasValue (nodes s a)}"
    using replacedD(7) [OF r] sub [OF i] by (auto simp: unowned_def)
  moreover have "vals E s ?g s' ?g' D Z W"
  proof -
    have hc: "hasValue (nodes s' c) \<longleftrightarrow> hasValue (nodes s c)" "heir E s s' c c"
      using o by (simp_all add: p hasValue_def heir_def leafOwned_def own_e_def)
    have hj: "heir E s s' a a" if "j < length gs" "j \<noteq> i" "(a, y) \<in> vnodes s (gs ! j)" for a j y
      using vnodes_addrs [OF that(3)] trep_bound [OF tj [OF that(1)]] disj [OF that(1,2)]
      by (intro heir_refl [OF e]) auto
    note v = replacedD(8) [OF r, unfolded vals_def]
    have 1: "y \<in> W \<and> own_e E (nodes s' a') \<and> leafOwned (nodes s' a') \<or> (\<exists>a. (a, y) \<in> vnodes s ?g \<and> heir E s s' a a')"
      if "(a', y) \<in> vnodes s' ?g'" for a' y
    proof -
      from that consider "a' = c" "y = xt" "hasValue (nodes s c)" | "(a', y) \<in> vnodes s' g'"
        | j where "j < length gs" "j \<noteq> i" "(a', y) \<in> vnodes s' (gs ! j)"
        using hc(1) by (auto split: if_splits elim!: set_update_cases)
      then show ?thesis
      proof cases
        case 2
        with v gi show ?thesis by fastforce
      next
        case 3
        then have "(a', y) \<in> vnodes s (gs ! j)" using kept(4) by simp
        with hj 3 show ?thesis by (auto intro!: exI [of _ a'] bexI [of _ "gs ! j"])
      qed (use hc in auto)
    qed
    have 2: "(\<exists>a'. (a', y) \<in> vnodes s' ?g' \<and> heir E s s' a a') \<or> a \<in> Z \<or> gone E s s' D a"
      if "(a, y) \<in> vnodes s ?g" for a y
    proof -
      from that consider "a = c" "y = xt" "hasValue (nodes s c)" | "(a, y) \<in> vnodes s (gs ! i)"
        | j where "j < length gs" "j \<noteq> i" "(a, y) \<in> vnodes s (gs ! j)"
        by (auto split: if_splits elim!: set_nth_cases [where i = i])
      then show ?thesis
      proof cases
        case 2
        have "vnodes s' g' \<subseteq> vnodes s' ?g'" using set_update_memI [OF i, of g'] by auto
        with v 2 show ?thesis by blast
      next
        case 3
        then have "(a, y) \<in> vnodes s' ((gs[i := g']) ! j)" using kept(4) by simp
        moreover have "(gs[i := g']) ! j \<in> set (gs[i := g'])" using 3 by (intro nth_mem) simp
        ultimately have "(a, y) \<in> vnodes s' ?g'" by (auto simp del: nth_list_update_neq)
        then show ?thesis using hj 3 by blast
      qed (use hc in auto)
    qed
    show ?thesis using 1 2 unfolding vals_def by blast
  qed
  moreover have "Z \<subseteq> set (addrs ?g)" using replacedD(9) [OF r] sub [OF i] by blast
  moreover have "Z \<inter> set (addrs ?g') = {}" using replacedD(9,10) [OF r] n1 by blast
  ultimately show "replaced E f s {} ?g s' ?g' D Z W"
    using replacedD(5,6) [OF r] A unfolding replaced_def by blast
  have "map (absh h s') (gs[i := g']) = (map (absh h s) gs)[i := absh h s' g']"
    by (rule nth_equalityI) (auto simp: nth_list_update i kept(2))
  then show "absh h s' ?g' = RT (prefix (nodes s c)) (map_option (\<lambda>v. h v xt) (value_at (nodes s c)))
             ((map (absh h s) gs)[i := absh h s' g'])"
    by (simp add: p value_at_def hasValue_def)
qed

end
