(* ===== verification/Reshape.thy ===== *)
theory Reshape
  imports Cow
begin

text \<open>
  The three shapes of a replacement at one node: a node with changed children or value
  (\<open>replaced_shape\<close>), a subtree hung below a new node (\<open>replaced_wrap\<close>), and a node giving way to one
  of its children (\<open>replaced_promote\<close>).
\<close>

lemma kids_disj:
  assumes "distinct (concat (map addrs gs))" and "g \<in> set gs" and "g' \<in> set gs" and "g \<noteq> g'"
  shows "set (addrs g) \<inter> set (addrs g') = {}"
proof -
  from assms(2,3) obtain i j where "i < length gs" "gs ! i = g" "j < length gs" "gs ! j = g'"
    by (auto simp: in_set_conv_nth)
  with distinct_kids_disj [OF assms(1), of i j] assms(4) show ?thesis by auto
qed

lemma replaced_shape:
  assumes t: "trep E s (G a xt gs)"
    and e: "eff E f s (H \<union> {a}) D s'" and H: "H \<inter> set (addrs (G a xt gs)) = {}"
    and c: "c = a \<and> own_e E (nodes s a) \<or> next_node s \<le> c \<and> c < next_node s'"
    and kl: "kidList (nodes s' c) = map (\<lambda>g. Some (ad g)) gs'"
    and ok: "node_ok (nodes s' c) (map (lab_at s') gs')" and oo: "own_ok E (nodes s' c)"
    and kids: "\<And>g. g \<in> set gs' \<Longrightarrow> g \<in> set gs \<or>
          trep E s' g \<and> set (addrs g) \<subseteq> {next_node s..} \<and>
          (\<forall>a' y. (a', y) \<in> vnodes s' g \<longrightarrow> y \<in> W \<and> own_e E (nodes s' a') \<and> leafOwned (nodes s' a'))"
    and dist: "distinct (c # concat (map addrs gs'))"
    and dn: "set (nf_nodes D) = (if own_e E (nodes s a) then {} else {a})"
    and dl: "None \<notin> set (nf_leaves D)" and ds: "nf_subtrees D = []"
    and dv: "\<And>b. b \<in> set (nf_values D) \<Longrightarrow> b = a \<and> \<not> own_e E (nodes s a) \<and> hasValue (nodes s a)"
    and Z: "Z = (\<Union>g \<in> set gs - set gs'. set (addrs g))"
    and v1: "hasValue (nodes s' c) \<Longrightarrow>
          xt' \<in> W \<and> own_e E (nodes s' c) \<and> leafOwned (nodes s' c) \<or>
          xt' = xt \<and> hasValue (nodes s a) \<and> heir E s s' a c"
    and v2: "hasValue (nodes s a) \<Longrightarrow>
          xt' = xt \<and> hasValue (nodes s' c) \<and> heir E s s' a c \<or> gone E s s' D a"
  shows "replaced E f s H (G a xt gs) s' (G c xt' gs') D Z W"
proof -
  let ?g = "G a xt gs" and ?g' = "G c xt' gs'"
  have a: "a < next_node s" and d: "distinct (a # concat (map addrs gs))" using t by (auto simp: trep_G)
  have fr: "b \<notin> H \<union> {a}" if "g \<in> set gs" "b \<in> set (addrs g)" for g b using H d that by auto
  note tk = trep_kid [OF t]
  have kept: "trep E s' g" "vnodes s' g = vnodes s g" if "g \<in> set gs" for g
    using eff_trep [OF e tk [OF that]] fr [OF that] by blast+
  have bk: "b < next_node s" if "g \<in> set gs" "b \<in> set (addrs g)" for g b
    using trep_bound [OF tk [OF that(1)] that(2)] .
  have A': "b \<in> set (addrs ?g')" if "g \<in> set gs'" "b \<in> set (addrs g)" for g b using that by auto
  have A: "set (addrs ?g') \<subseteq> set (addrs ?g) \<union> {next_node s..}"
    using c kids by fastforce
  have AE: "eff E f s (H \<union> set (addrs ?g)) D s'" by (rule eff_weaken [OF e]) auto
  have TR: "trep E s' ?g'"
  proof -
    have "c < next_node s'" using c a eff_next [OF e] by auto
    moreover have "\<forall>g \<in> set gs'. trep E s' g" using kids kept(1) by blast
    ultimately show ?thesis using kl ok oo dist unfolding trep_G by blast
  qed
  have out: "b \<notin> set (addrs ?g')" if g: "g \<in> set gs" "g \<notin> set gs'" "b \<in> set (addrs g)" for g b
  proof -
    have "b \<noteq> c" using c bk [OF g(1,3)] fr [OF g(1,3)] by auto
    moreover have "b \<notin> set (addrs k)" if k: "k \<in> set gs'" for k
    proof (cases "k \<in> set gs")
      case True
      then have "set (addrs g) \<inter> set (addrs k) = {}" using kids_disj [of gs g k] d g k by auto
      with g(3) show ?thesis by blast
    next
      case False
      with kids [OF k] bk [OF g(1,3)] show ?thesis by auto
    qed
    ultimately show ?thesis by auto
  qed
  then have ZZ: "Z \<inter> set (addrs ?g') = {}" unfolding Z by blast
  have "set (nf_nodes D) \<union> (unowned E s ?g \<inter> Z) = unowned E s ?g - set (addrs ?g')"
  proof (intro set_eqI iffI)
    fix b assume b: "b \<in> set (nf_nodes D) \<union> (unowned E s ?g \<inter> Z)"
    show "b \<in> unowned E s ?g - set (addrs ?g')"
    proof (cases "b \<in> set (nf_nodes D)")
      case True
      then have ba: "b = a" "\<not> own_e E (nodes s a)" using dn by (auto split: if_splits)
      have "a \<notin> set (addrs g)" if "g \<in> set gs'" for g using kids [OF that] d a by auto
      moreover have "a \<noteq> c" using c ba a by auto
      ultimately show ?thesis using ba by (auto simp: unowned_def)
    next
      case False
      with b Z obtain g where g: "g \<in> set gs" "g \<notin> set gs'" "b \<in> set (addrs g)" and bu: "b \<in> unowned E s ?g"
        by auto
      then show ?thesis using out by blast
    qed
  next
    fix b assume b: "b \<in> unowned E s ?g - set (addrs ?g')"
    then have bu: "b \<in> unowned E s ?g" "\<not> own_e E (nodes s b)" by (auto simp: unowned_def)
    show "b \<in> set (nf_nodes D) \<union> (unowned E s ?g \<inter> Z)"
    proof (cases "b = a")
      case True
      with bu dn show ?thesis by simp
    next
      case False
      with b obtain g where g: "g \<in> set gs" "b \<in> set (addrs g)" by (auto simp: unowned_def)
      then have "g \<notin> set gs'" using A' [of g b] b by blast
      with g Z bu show ?thesis by auto
    qed
  qed
  moreover have "vals E s ?g s' ?g' D Z W"
  proof -
    have hk: "heir E s s' b b" if "g \<in> set gs" "b \<in> set (addrs g)" for g b
      using heir_refl [OF e bk [OF that]] fr [OF that] by blast
    have 1: "y \<in> W \<and> own_e E (nodes s' a') \<and> leafOwned (nodes s' a') \<or> (\<exists>b. (b, y) \<in> vnodes s ?g \<and> heir E s s' b a')"
      if "(a', y) \<in> vnodes s' ?g'" for a' y
    proof -
      from that consider "a' = c" "y = xt'" "hasValue (nodes s' c)"
        | g where "g \<in> set gs'" "(a', y) \<in> vnodes s' g" by (auto split: if_splits)
      then show ?thesis
      proof cases
        case 1
        with v1 show ?thesis by auto
      next
        case (2 g)
        show ?thesis
        proof (cases "g \<in> set gs")
          case True
          with 2 kept(2) have "(a', y) \<in> vnodes s g" by simp
          with True hk [OF True, of a'] vnodes_addrs [OF this] show ?thesis by auto
        next
          case False
          with kids [OF 2(1)] 2(2) show ?thesis by blast
        qed
      qed
    qed
    have 2: "(\<exists>a'. (a', y) \<in> vnodes s' ?g' \<and> heir E s s' b a') \<or> b \<in> Z \<or> gone E s s' D b"
      if "(b, y) \<in> vnodes s ?g" for b y
    proof -
      from that consider "b = a" "y = xt" "hasValue (nodes s a)"
        | g where "g \<in> set gs" "(b, y) \<in> vnodes s g" by (auto split: if_splits)
      then show ?thesis
      proof cases
        case 1
        with v2 show ?thesis by auto
      next
        case (2 g)
        note b = vnodes_addrs [OF 2(2), THEN conjunct1]
        show ?thesis
        proof (cases "g \<in> set gs'")
          case True
          then have "(b, y) \<in> vnodes s' ?g'" using 2 kept(2) by auto
          then show ?thesis using hk [OF 2(1) b] by blast
        next
          case False
          then show ?thesis using 2(1) b Z by blast
        qed
      qed
    qed
    show ?thesis using 1 2 unfolding vals_def by blast
  qed
  moreover have "set (nf_values D) \<subseteq> {b \<in> unowned E s ?g. hasValue (nodes s b)}"
    using dv by (auto simp: unowned_def)
  moreover have "Z \<subseteq> set (addrs ?g)" using Z by auto
  ultimately show ?thesis using dl ds ZZ A AE TR unfolding replaced_def by blast
qed

text \<open>The children of a replaced node are still what they were.\<close>

lemma shape_kids:
  assumes t: "trep E s (G a xt gs)" and e: "eff E f s (H \<union> {a}) D s'"
    and H: "H \<inter> set (addrs (G a xt gs)) = {}" and g: "g \<in> set gs"
  shows "absh h s' g = absh h s g" and "absn s' g = absn s g" and "lab_at s' g = lab_at s g"
    and "trep E s' g" and "unowned E s' g = unowned E s g"
proof -
  have d: "distinct (a # concat (map addrs gs))" using t by (auto simp: trep_G)
  have "b \<notin> H \<union> {a}" if "b \<in> set (addrs g)" for b using H d that g by auto
  with eff_trep [OF e trep_kid [OF t g]]
  show "absh h s' g = absh h s g" "absn s' g = absn s g" "lab_at s' g = lab_at s g"
    "trep E s' g" "unowned E s' g = unowned E s g" by blast+
qed

text \<open>A new node above the replacement, possibly with other new children.\<close>

lemma replaced_wrap:
  assumes t: "trep E s g" and r: "replaced E f s H g s' g' D Z W"
    and p: "next_node s \<le> p" "p < next_node s'"
    and kl: "kidList (nodes s' p) = map (\<lambda>g. Some (ad g)) gs'"
    and ok: "node_ok (nodes s' p) (map (lab_at s') gs')" and oo: "own_ok E (nodes s' p)"
    and g': "g' \<in> set gs'"
    and kids: "\<And>k. k \<in> set gs' \<Longrightarrow> k = g' \<or>
          trep E s' k \<and> set (addrs k) \<subseteq> {next_node s..} \<and>
          (\<forall>a' y. (a', y) \<in> vnodes s' k \<longrightarrow> y \<in> W \<and> own_e E (nodes s' a') \<and> leafOwned (nodes s' a'))"
    and dist: "distinct (p # concat (map addrs gs'))"
    and v: "hasValue (nodes s' p) \<Longrightarrow> xp \<in> W \<and> own_e E (nodes s' p) \<and> leafOwned (nodes s' p)"
  shows "replaced E f s H g s' (G p xp gs') D Z W"
proof -
  have U: "a < next_node s" if "a \<in> unowned E s g" for a
    using that trep_bound [OF t] by (auto simp: unowned_def)
  have k: "a \<in> set (addrs g')" if "a < next_node s" "a \<in> set (addrs (G p xp gs'))" for a
    using that p kids by fastforce
  have k': "set (addrs g') \<subseteq> set (addrs (G p xp gs'))" using g' by auto
  have "set (addrs (G p xp gs')) \<subseteq> set (addrs g) \<union> {next_node s..}"
    using replacedD(3) [OF r] k by (meson Un_iff atLeast_iff in_mono not_less subsetI)
  moreover have "trep E s' (G p xp gs')"
    using p kl ok oo kids dist replacedD(2) [OF r] unfolding trep_G by blast
  moreover have "unowned E s g - set (addrs (G p xp gs')) = unowned E s g - set (addrs g')"
    using U k k' by blast
  moreover have "vals E s g s' (G p xp gs') D Z W"
  proof -
    note w = replacedD(8) [OF r, unfolded vals_def]
    have "y \<in> W \<and> own_e E (nodes s' a') \<and> leafOwned (nodes s' a') \<or> (a', y) \<in> vnodes s' g'"
      if "(a', y) \<in> vnodes s' (G p xp gs')" for a' y
    proof -
      from that consider "a' = p" "y = xp" "hasValue (nodes s' p)" | k where "k \<in> set gs'" "(a', y) \<in> vnodes s' k"
        by (auto split: if_splits)
      then show ?thesis using v kids by cases blast+
    qed
    moreover have "vnodes s' g' \<subseteq> vnodes s' (G p xp gs')" using g' by auto
    ultimately show ?thesis using w unfolding vals_def by blast
  qed
  moreover have "Z \<inter> set (addrs (G p xp gs')) = {}"
    using replacedD(9,10) [OF r] k trep_bound [OF t] by blast
  ultimately show ?thesis using replacedD [OF r] unfolding replaced_def by blast
qed

text \<open>A node whose departure is recorded elsewhere gives way to the replacement of its child.\<close>

lemma replaced_promote:
  assumes t: "trep E s (G a xt gs)" and i: "i < length gs"
    and r: "replaced E f s H (gs ! i) s' g' D {} W"
    and Z: "Z = insert a (\<Union>j \<in> {..<length gs} - {i}. set (addrs (gs ! j)))"
  shows "replaced E f s H (G a xt gs) s' g' D Z W"
proof -
  let ?g = "G a xt gs"
  have d: "distinct (a # concat (map addrs gs))" using t by (simp add: trep_G)
  have gi: "gs ! i \<in> set gs" using i by simp
  have sub: "set (addrs (gs ! i)) \<subseteq> set (addrs ?g)" using gi by auto
  have disj: "set (addrs (gs ! i)) \<inter> Z = {}"
    using distinct_kids_disj [of gs i] d gi i unfolding Z by fastforce
  have split: "b \<in> set (addrs (gs ! i)) \<or> b \<in> Z" if "b \<in> set (addrs ?g)" for b
  proof (cases "b = a")
    case False
    with that obtain h where h: "h \<in> set gs" "b \<in> set (addrs h)" by auto
    from h(1) show ?thesis
      by (cases rule: set_nth_cases [where i = i]) (use h(2) Z in auto)
  qed (simp add: Z)
  have n: "b < next_node s" if "b \<in> set (addrs ?g)" for b using trep_bound [OF t that] .
  have Zg: "Z \<subseteq> set (addrs ?g)" unfolding Z by auto
  have g': "b \<notin> set (addrs g')" if "b \<in> Z" for b
  proof
    assume "b \<in> set (addrs g')"
    moreover have "b < next_node s" using n Zg that by blast
    ultimately have "b \<in> set (addrs (gs ! i))" using replacedD(3) [OF r] by auto
    with disj that show False by blast
  qed
  have "eff E f s (H \<union> set (addrs ?g)) D s'" using sub by (intro eff_weaken [OF replacedD(1) [OF r]]) auto
  moreover have "set (nf_nodes D) \<union> (unowned E s ?g \<inter> Z) = unowned E s ?g - set (addrs g')"
    using replacedD(4) [OF r] split g' sub disj by (auto simp: unowned_def)
  moreover have "set (nf_values D) \<subseteq> {b \<in> unowned E s ?g. hasValue (nodes s b)}"
    using replacedD(7) [OF r] sub by (auto simp: unowned_def)
  moreover have "vals E s ?g s' g' D Z W"
  proof -
    have "(b, y) \<in> vnodes s (gs ! i) \<or> b \<in> Z" if "(b, y) \<in> vnodes s ?g" for b y
    proof (cases "b = a")
      case False
      with that obtain h where h: "h \<in> set gs" "(b, y) \<in> vnodes s h" by (auto split: if_splits)
      from h(1) show ?thesis
        by (cases rule: set_nth_cases [where i = i]) (use h(2) vnodes_addrs [OF h(2)] Z in auto)
    qed (simp add: Z)
    moreover have "vnodes s (gs ! i) \<subseteq> vnodes s ?g" using gi by auto
    ultimately show ?thesis using replacedD(8) [OF r] unfolding vals_def by blast
  qed
  moreover have "Z \<inter> set (addrs g') = {}" using g' by blast
  ultimately show ?thesis using replacedD [OF r] sub Zg unfolding replaced_def by blast
qed

end
