(* ===== verification/Cow_Ops.thy ===== *)
theory Cow_Ops
  imports Reshape
begin

text \<open>
  What the copying primitives of a transaction do to ghost trees: \<open>copyShape\<close>, \<open>copyNode\<close>, \<open>link\<close>,
  \<open>own\<close>, \<open>ownValueless\<close>, \<open>setValue\<close>, \<open>addKid\<close> and \<open>delKid\<close>.
\<close>

section \<open>Capacities\<close>

lemma newLeafNode_eq: "newLeafNode a b = zero_node\<lparr>prefix := a @ b\<rparr>"
proof (cases "length a + length b = 1")
  case True
  then show ?thesis by (cases a; cases b) (auto simp: newLeafNode_def)
qed (simp add: newLeafNode_def zero_node_def)

lemma cloneSegment_eq [simp]: "cloneSegment p = p"
  by (cases p) (auto simp: cloneSegment_def)

lemma size_class_ge: "min 256 k \<le> size_class b k"
  by (auto simp: size_classes)

lemma byte_list_256: "distinct (ls :: byte list) \<Longrightarrow> length ls \<le> 256"
proof -
  assume "distinct ls"
  then have "length ls = card (set ls)" by (simp add: distinct_card)
  also have "\<dots> \<le> card (UNIV :: byte set)" by (rule card_mono) auto
  finally show ?thesis by (simp add: card_word)
qed

lemma byte_list_less_256: "distinct (ls :: byte list) \<Longrightarrow> b \<notin> set ls \<Longrightarrow> length ls < 256"
  using byte_list_256 [of "b # ls"] by simp

lemma enum_distinct: "bm.enum b ls \<Longrightarrow> distinct ls"
  by (simp add: bm.enum_def strict_sorted_iff)

lemma kids_256: "rep s g \<Longrightarrow> length (gk g) \<le> 256"
  using repD(3) [of s g] byte_list_256 [OF enum_distinct] by (force simp: node_ok_def)

section \<open>Copies\<close>

lemma copyShape_spec:
  fixes s :: "'v store"
  assumes ok: "node_ok (nodes s a) ls" and len: "length ls = nkids (nodes s a)"
    and ex: "nkids (nodes s a) \<le> 256"
  obtains m where "copyShape t a extra s = Some (alloc_node m s)" and "prefix m = prefix (nodes s a)"
    and "kidList m = kidList (nodes s a)" and "nkids m = nkids (nodes s a)" and "bm.enum (bitmap m) ls"
    and "nkids m \<le> length (arr m)" and "min 256 (nkids (nodes s a) + extra) \<le> kidCap m" and "val m = None"
    and "leafp m = None" and "nwatch m = None" and "epoch m = tepoch t"
proof -
  let ?n = "nodes s a"
  have e: "bm.enum (bitmap ?n) ls" and nk: "nkids ?n \<le> length (arr ?n)" using ok by (simp_all add: node_ok_def)
  consider "nkids ?n + extra = 0" | "nkids ?n + extra \<noteq> 0" "kidCap ?n = 0"
    | "nkids ?n + extra \<noteq> 0" "kidCap ?n \<noteq> 0" by blast
  then show thesis
  proof cases
    case 1
    then have "ls = []" using len by simp
    with 1 show ?thesis
      by (intro that [of "(newLeafNode (prefix ?n) [])\<lparr>epoch := tepoch t\<rparr>"])
        (simp_all add: copyShape_def Let_def newLeafNode_eq kidCount_def zero_node_def kidList_def bm.enum_empty kidCap_def)
  next
    case 2
    then have z: "nkids ?n = 0" "ls = []" using nk len by (simp_all add: kidCap_def)
    note c = size_class_ge [of extra "build s"]
    from 2 z c show ?thesis
      by (intro that [of "(newNode (build s) extra)\<lparr>prefix := prefix ?n, epoch := tepoch t\<rparr>"])
        (simp_all add: copyShape_def Let_def newNode_def kidCount_def zero_node_def kidList_def bm.enum_empty kidCap_def)
  next
    case 3
    let ?k = "nkids ?n + extra"
    have c: "nkids ?n \<le> size_class (build s) ?k" "min 256 ?k \<le> size_class (build s) ?k"
      using size_class_ge [of ?k "build s"] ex by auto
    let ?c = "(newNode (build s) ?k :: 'v node)\<lparr>prefix := prefix ?n, bitmap := bitmap ?n, nkids := nkids ?n\<rparr>"
    let ?ks = "go_copy (kidList ?c) 0 (kidList ?n)"
    have ks: "?ks = kidList ?n"
      using c nk by (simp add: go_copy_def kidList_def newNode_def zero_node_def min_def Let_def)
    have sc: "setKidCount ((newNode (build s) ?k)\<lparr>prefix := prefix ?n, bitmap := bitmap ?n\<rparr>) (nkids ?n) = Some ?c"
      using c by (simp add: setKidCount_def newNode_def)
    have lk: "length (kidList ?n) = nkids ?n" using nk by (simp add: kidList_def)
    show ?thesis
      by (rule that [of "(set_kidList ?c (kidList ?n))\<lparr>epoch := tepoch t\<rparr>"])
        (use 3 sc ks c e lk in \<open>auto simp: copyShape_def Let_def kidCount_def set_kidList_def kidList_def kidCap_def
           newNode_def zero_node_def\<close>)
  qed
qed

lemma alloc_node_simps:
  assumes "alloc_node n s = (a, s')"
  shows "a = next_node s" and "nodes s' = (nodes s)(next_node s := n)" and "next_node s' = Suc (next_node s)"
  using assms by (auto simp: alloc_node_def)

text \<open>How a copy relates to the node it was made from.\<close>

definition copied :: "u64 \<Rightarrow> 'v node \<Rightarrow> 'v node \<Rightarrow> 'v node \<Rightarrow> bool" where
  "copied E n n' m \<longleftrightarrow>
     prefix m = prefix n \<and> kidList m = kidList n \<and> nkids m = nkids n \<and> nwatch m = None \<and>
     own_e E m \<and> hasValue m = hasValue n \<and> value_at m = value_at n \<and> \<not> leafOwned m \<and>
     (\<forall>ls. length ls = nkids n \<longrightarrow> node_ok n ls \<longrightarrow> node_ok m ls) \<and>
     (hasValue n \<longrightarrow> val m = val n \<and> leafp m = leafp n' \<and> (\<not> own_e E n \<longrightarrow> leafp m \<noteq> None)) \<and>
     same_node n n' \<and> (own_e E n \<longrightarrow> n' = n)"

lemma copiedD:
  assumes "copied E n n' m"
  shows "prefix m = prefix n" and "kidList m = kidList n" and "nkids m = nkids n" and "nwatch m = None"
    and "own_e E m" and "hasValue m = hasValue n" and "value_at m = value_at n" and "\<not> leafOwned m"
    and "length ls = nkids n \<Longrightarrow> node_ok n ls \<Longrightarrow> node_ok m ls" and "hasValue n \<Longrightarrow> val m = val n"
    and "hasValue n \<Longrightarrow> leafp m = leafp n'" and "hasValue n \<Longrightarrow> \<not> own_e E n \<Longrightarrow> leafp m \<noteq> None"
    and "same_node n n'" and "own_e E n \<Longrightarrow> n' = n"
  using assms unfolding copied_def by blast+

lemma kidList_upd [simp]:
  "kidList (n\<lparr>epoch := e\<rparr>) = kidList n" "kidList (n\<lparr>val := v\<rparr>) = kidList n"
  "kidList (n\<lparr>leafp := l\<rparr>) = kidList n" "kidList (n\<lparr>prefix := p\<rparr>) = kidList n"
  "kidList (n\<lparr>bitmap := b\<rparr>) = kidList n"
  by (simp_all add: kidList_def)

lemma shareLeaf_spec:
  assumes "hasValue (nodes s a)" and "shareLeaf t a s = (l, s')"
  shows "eff (tepoch t) f s X zero_notifier s'" and "leafp (nodes s' a) = l"
    and "same_node (nodes s a) (nodes s' a)" and "\<And>b. b \<noteq> a \<Longrightarrow> nodes s' b = nodes s b"
    and "next_node s' = next_node s" and "own_e (tepoch t) (nodes s a) \<Longrightarrow> s' = s"
    and "\<not> own_e (tepoch t) (nodes s a) \<Longrightarrow> l \<noteq> None"
proof -
  have "eff (tepoch t) f s X zero_notifier s' \<and> leafp (nodes s' a) = l \<and> same_node (nodes s a) (nodes s' a) \<and>
    (\<forall>b. b \<noteq> a \<longrightarrow> nodes s' b = nodes s b) \<and> next_node s' = next_node s \<and>
    (own_e (tepoch t) (nodes s a) \<longrightarrow> s' = s) \<and> (\<not> own_e (tepoch t) (nodes s a) \<longrightarrow> l \<noteq> None)"
  proof (cases "own_e (tepoch t) (nodes s a)")
    case True
    then have "leafp (nodes s a) = l" "s' = s" using assms(2) by (auto simp: shareLeaf_def owns_own_e)
    with True eff_refl show ?thesis by auto
  next
    case False
    then have "leafOf a s = (l, s')" using assms(2) by (simp add: shareLeaf_def owns_own_e)
    from leafOf_spec [OF assms(1) False this] False show ?thesis by blast
  qed
  then show "eff (tepoch t) f s X zero_notifier s'" "leafp (nodes s' a) = l"
    "same_node (nodes s a) (nodes s' a)" "\<And>b. b \<noteq> a \<Longrightarrow> nodes s' b = nodes s b"
    "next_node s' = next_node s" "own_e (tepoch t) (nodes s a) \<Longrightarrow> s' = s"
    "\<not> own_e (tepoch t) (nodes s a) \<Longrightarrow> l \<noteq> None"
    by blast+
qed

lemma copyNode_spec:
  assumes E: "epoch_ok (tepoch t)" and ok: "node_ok (nodes s a) ls" and len: "length ls = nkids (nodes s a)"
    and ex: "nkids (nodes s a) \<le> 256" and a: "a < next_node s"
  obtains s' where "copyNode t a extra s = Some (next_node s, s')"
    and "\<And>f X. eff (tepoch t) f s X zero_notifier s'" and "next_node s' = Suc (next_node s)"
    and "copied (tepoch t) (nodes s a) (nodes s' a) (nodes s' (next_node s))"
    and "min 256 (nkids (nodes s a) + extra) \<le> kidCap (nodes s' (next_node s))"
    and "\<And>b. b \<noteq> a \<Longrightarrow> b \<noteq> next_node s \<Longrightarrow> nodes s' b = nodes s b"
proof -
  let ?E = "tepoch t" and ?n = "nodes s a" and ?c = "next_node s"
  obtain m where m: "copyShape t a extra s = Some (alloc_node m s)" "prefix m = prefix ?n"
    "kidList m = kidList ?n" "nkids m = nkids ?n" "bm.enum (bitmap m) ls" "nkids m \<le> length (arr m)"
    "min 256 (nkids ?n + extra) \<le> kidCap m" "val m = None" "leafp m = None" "nwatch m = None" "epoch m = ?E"
    using copyShape_spec [OF ok len ex, of t] by blast
  obtain s1 where s1: "alloc_node m s = (?c, s1)" by (simp add: alloc_node_def)
  note al = alloc_node_simps [OF s1]
  have mE: "own_e ?E m" using E m(11) by (simp add: own_e_def epoch_okD)
  have e1: "eff ?E f s {} zero_notifier s1" for f by (rule eff_alloc(1) [OF s1 mE m(10)])
  have lsn: "length ls' = nkids ?n \<Longrightarrow> node_ok ?n ls' \<Longrightarrow> bm.enum (bitmap m) ls'" for ls'
    using ok m(5) by (simp add: node_ok_def bm.enum_def)
  have nb: "\<not> bit ?E 62" "\<not> bit ?E 63" using epoch_ok_bits [OF E] by auto
  show thesis
  proof (cases "hasValue ?n")
    case False
    have "copyNode t a extra s = Some (?c, s1)" using False m(1) s1 a al by (simp add: copyNode_def)
    moreover have "copied ?E ?n (nodes s1 a) (nodes s1 ?c)"
      using False m mE nb lsn a al
      by (auto simp: copied_def hasValue_bit and_bit_zero leafOwned_def value_at_def node_ok_def)
    moreover have "eff ?E f s X zero_notifier s1" for f X by (rule eff_weaken [OF e1]) simp
    ultimately show ?thesis using that [of s1] al m(7) by simp
  next
    case True
    let ?s2 = "upd_node ?c (\<lambda>k. k\<lparr>val := val ?n, epoch := epoch k OR valueBit\<rparr>) s1"
    obtain l s3 where s3: "shareLeaf t a ?s2 = (l, s3)" by fastforce
    let ?s4 = "if l \<noteq> None then upd_node ?c (\<lambda>k. k\<lparr>leafp := l\<rparr>) s3 else s3"
    have n2: "nodes ?s2 a = ?n" using a al by simp
    have hv: "hasValue (nodes ?s2 a)" using True n2 by simp
    note sh = shareLeaf_spec [OF hv s3]
    have c2: "nodes ?s2 ?c = m\<lparr>val := val ?n, epoch := ?E OR valueBit\<rparr>" using al m(11) by simp
    have c3: "nodes s3 ?c = nodes ?s2 ?c" using sh(4) [of ?c] a by simp
    have c4: "nodes ?s4 ?c = m\<lparr>val := val ?n, epoch := ?E OR valueBit, leafp := l\<rparr>"
      using c2 c3 m(9) by simp
    have a4: "nodes ?s4 a = nodes s3 a" using a by simp
    have "copyNode t a extra s = Some (?c, ?s4)" using True m(1) s1 s3 a al by (simp add: copyNode_def Let_def)
    moreover have "eff ?E f s X zero_notifier ?s4" for f X
    proof -
      have own1: "own_e ?E (nodes s1 ?c)" using al mE by simp
      have e2: "eff ?E f s1 {?c} zero_notifier ?s2" by (rule eff_upd) (use own1 in auto)
      have own3: "own_e ?E (nodes s3 ?c)" using c3 c2 E by (simp add: own_e_def epoch_okD)
      have "eff ?E f s3 {?c} zero_notifier (upd_node ?c (\<lambda>k. k\<lparr>leafp := l\<rparr>) s3)"
        by (rule eff_upd) (use own3 in auto)
      then have e4: "eff ?E f s3 {?c} zero_notifier ?s4" by (auto intro: eff_refl)
      have "eff ?E f s {} zero_notifier ?s2" by (rule eff_trans_weaken [OF e1 e2]) auto
      then have "eff ?E f s {} zero_notifier s3"
        by (rule eff_trans_weaken [OF _ sh(1) [where X = "{}"]]) auto
      then show ?thesis by (rule eff_trans_weaken [OF _ e4]) auto
    qed
    moreover have "next_node ?s4 = Suc ?c" using sh(5) al by simp
    moreover have "copied ?E ?n (nodes ?s4 a) (nodes ?s4 ?c)"
    proof -
      have "leafp (nodes s3 a) = l" "same_node ?n (nodes s3 a)" "own_e ?E ?n \<Longrightarrow> nodes s3 a = ?n"
        "\<not> own_e ?E ?n \<Longrightarrow> l \<noteq> None"
        using sh(2,3,6,7) n2 by auto
      then show ?thesis
        using True m lsn nb E unfolding c4 a4
        by (auto simp: copied_def hasValue_bit leafOwned_bit value_at_def node_ok_def own_e_def epoch_okD kidList_def)
    qed
    moreover have "min 256 (nkids ?n + extra) \<le> kidCap (nodes ?s4 ?c)" unfolding c4 using m(7) by (simp add: kidCap_def)
    moreover have "nodes ?s4 b = nodes s b" if "b \<noteq> a" "b \<noteq> ?c" for b using that sh(4) al by simp
    ultimately show ?thesis using that [of ?s4] by blast
  qed
qed

section \<open>The place of a subtree\<close>

text \<open>
  A subtree hangs at the root of the transaction, or at one position of an owned node outside it.
  \<open>plugged\<close>: only that pointer was redirected.
\<close>

definition hole :: "addr option \<Rightarrow> addr set" where
  "hole parent = set_option parent"

definition at_hole :: "txn \<Rightarrow> addr option \<Rightarrow> nat \<Rightarrow> 'v store \<Rightarrow> 'x gtree \<Rightarrow> bool" where
  "at_hole t parent pidx s g \<longleftrightarrow>
     (case parent of None \<Rightarrow> troot t = Some (ad g)
      | Some p \<Rightarrow> p < next_node s \<and> own_e (tepoch t) (nodes s p) \<and> p \<notin> set (addrs g) \<and>
                 pidx < nkids (nodes s p) \<and> nkids (nodes s p) \<le> length (arr (nodes s p)) \<and>
                 arr (nodes s p) ! pidx = Some (ad g))"

definition plugged :: "addr option \<Rightarrow> nat \<Rightarrow> txn \<Rightarrow> 'v store \<Rightarrow> addr \<Rightarrow> txn \<Rightarrow> 'v store \<Rightarrow> bool" where
  "plugged parent pidx t s c t' s' \<longleftrightarrow>
     (case parent of None \<Rightarrow> t' = t\<lparr>troot := Some c\<rparr>
      | Some p \<Rightarrow> t' = t \<and> nodes s' p = (nodes s p)\<lparr>arr := (arr (nodes s p))[pidx := Some c]\<rparr>)"

lemma hole_simps [simp]: "hole None = {}" "hole (Some p) = {p}"
  by (simp_all add: hole_def)

lemma at_hole_disj: "at_hole t parent pidx s g \<Longrightarrow> hole parent \<inter> set (addrs g) = {}"
  by (auto simp: at_hole_def hole_def split: option.splits)

lemma plugged_txn:
  "plugged parent pidx t s c t' s' \<Longrightarrow> tepoch t' = tepoch t \<and> tnf t' = tnf t \<and> (parent \<noteq> None \<longrightarrow> t' = t)"
  by (auto simp: plugged_def split: option.splits)

lemma plugged_refl: "at_hole t parent pidx s g \<Longrightarrow> plugged parent pidx t s (ad g) t s"
proof (cases parent)
  case (Some p)
  assume "at_hole t parent pidx s g"
  then have "(arr (nodes s p))[pidx := Some (ad g)] = arr (nodes s p)"
    using Some list_update_id [of "arr (nodes s p)" pidx] by (simp add: at_hole_def)
  with Some show ?thesis by (simp add: plugged_def)
qed (simp add: at_hole_def plugged_def)

lemma plugged_id:
  assumes "at_hole t parent pidx s g" and "hole parent \<subseteq> {a. nodes s' a = nodes s a}"
  shows "plugged parent pidx t s (ad g) t s'"
  using assms plugged_refl [OF assms(1)] by (auto simp: plugged_def split: option.splits)

text \<open>After a change that left the place alone, the subtree still hangs there.\<close>

lemma at_hole_eff:
  assumes h: "at_hole t parent pidx s g" and e: "eff (tepoch t) f s X D s'" and X: "hole parent \<inter> X = {}"
  shows "at_hole t parent pidx s' g"
proof (cases parent)
  case None
  with h show ?thesis by (simp add: at_hole_def)
next
  case (Some p)
  with h have p: "p < next_node s" "own_e (tepoch t) (nodes s p)" by (simp_all add: at_hole_def)
  then have "nodes s' p = nodes s p" using eff_eq [OF e p] X Some by simp
  with h Some eff_next [OF e] show ?thesis by (simp add: at_hole_def)
qed

lemma at_hole_fresh: "at_hole t parent pidx s g \<Longrightarrow> next_node s \<notin> hole parent"
  by (auto simp: at_hole_def hole_def split: option.splits)

lemma link_spec:
  assumes h: "at_hole t parent pidx s g"
  obtains t' s' where "link t parent pidx c s = Some (t', s')" and "plugged parent pidx t s c t' s'"
    and "\<And>f. eff (tepoch t) f s (hole parent) zero_notifier s'" and "next_node s' = next_node s"
    and "\<And>b. b \<notin> hole parent \<Longrightarrow> nodes s' b = nodes s b"
proof (cases parent)
  case None
  then show ?thesis by (intro that [of "t\<lparr>troot := Some c\<rparr>" s]) (auto simp: link_def plugged_def eff_refl)
next
  case (Some p)
  let ?n = "(nodes s p)\<lparr>arr := (arr (nodes s p))[pidx := Some c]\<rparr>"
  have p: "pidx < nkids (nodes s p)" "own_e (tepoch t) (nodes s p)" using h Some by (simp_all add: at_hole_def)
  have "eff (tepoch t) f s {p} zero_notifier (put_node p ?n s)" for f using p(2) by (intro eff_put) auto
  then show ?thesis
    using p(1) Some
    by (intro that [of t "put_node p ?n s"]) (auto simp: link_def plugged_def setKidAt_def setKid_def)
qed

text \<open>A fresh node takes the place of the root of \<open>g\<close>, with the same children.\<close>

lemma link_fresh:
  assumes t: "trep (tepoch t) s (G a xt gs)" and h: "at_hole t parent pidx s (G a xt gs)"
    and e: "eff (tepoch t) f s X D s1" and X: "X \<subseteq> {a}" and c: "next_node s \<le> c" "c < next_node s1"
    and kl: "kidList (nodes s1 c) = kidList (nodes s a)"
    and ok: "node_ok (nodes s1 c) (map (lab_at s) gs)" and oo: "own_ok (tepoch t) (nodes s1 c)"
    and dn: "set (nf_nodes D) = (if own_e (tepoch t) (nodes s a) then {} else {a})"
    and dl: "None \<notin> set (nf_leaves D)" and ds: "nf_subtrees D = []"
    and dv: "\<And>b. b \<in> set (nf_values D) \<Longrightarrow> b = a \<and> \<not> own_e (tepoch t) (nodes s a) \<and> hasValue (nodes s a)"
    and v1: "hasValue (nodes s1 c) \<Longrightarrow>
          xt' \<in> W \<and> own_e (tepoch t) (nodes s1 c) \<and> leafOwned (nodes s1 c) \<or>
          xt' = xt \<and> hasValue (nodes s a) \<and> heir (tepoch t) s s1 a c"
    and v2: "hasValue (nodes s a) \<Longrightarrow>
          xt' = xt \<and> hasValue (nodes s1 c) \<and> heir (tepoch t) s s1 a c \<or> gone (tepoch t) s s1 D a"
  obtains t' s' where "link t parent pidx c s1 = Some (t', s')" and "plugged parent pidx t s c t' s'"
    and "replaced (tepoch t) f s (hole parent) (G a xt gs) s' (G c xt' gs) D {} W"
    and "absh hf s' (G c xt' gs) = RT (prefix (nodes s1 c))
           (map_option (\<lambda>v. hf v xt') (value_at (nodes s1 c))) (map (absh hf s) gs)"
    and "\<And>b. b \<notin> hole parent \<Longrightarrow> nodes s' b = nodes s1 b" and "next_node s' = next_node s1"
    and "eff (tepoch t) f s (hole parent \<union> X) D s'"
proof -
  let ?E = "tepoch t"
  have disj: "hole parent \<inter> set (addrs (G a xt gs)) = {}" using at_hole_disj [OF h] .
  have h1: "at_hole t parent pidx s1 (G a xt gs)"
    by (rule at_hole_eff [OF h e]) (use disj X in auto)
  obtain t' s' where l: "link t parent pidx c s1 = Some (t', s')" "plugged parent pidx t s1 c t' s'"
    "\<And>f. eff ?E f s1 (hole parent) zero_notifier s'" "next_node s' = next_node s1"
    "\<And>b. b \<notin> hole parent \<Longrightarrow> nodes s' b = nodes s1 b"
    using link_spec [OF h1] by metis
  have eX: "eff ?E f s (hole parent \<union> X) D s'"
    by (rule eff_trans_weaken [OF e l(3)]) auto
  have e': "eff ?E f s (hole parent \<union> {a}) D s'" by (rule eff_weaken [OF eX]) (use X in auto)
  have a: "a < next_node s" and gsd: "distinct (a # concat (map addrs gs))" using t by (auto simp: trep_G)
  have hp: "b < next_node s" if "b \<in> hole parent" for b
    using h that by (auto simp: at_hole_def hole_def split: option.splits)
  have ch: "c \<notin> hole parent" using hp c(1) by force
  have nc: "nodes s' c = nodes s1 c" "nodes s' a = nodes s1 a" using l(5) ch disj by auto
  have pl: "plugged parent pidx t s c t' s'"
  proof (cases parent)
    case (Some p)
    then have "nodes s1 p = nodes s p"
      using eff_eq [OF e, of p] h X by (auto simp: at_hole_def)
    with l(2) Some show ?thesis by (simp add: plugged_def)
  qed (use l(2) in \<open>simp add: plugged_def\<close>)
  note sk = shape_kids [OF t e' disj]
  have lab: "map (lab_at s') gs = map (lab_at s) gs" using sk(3) by simp
  have hr: "heir ?E s s' a c \<longleftrightarrow> heir ?E s s1 a c" "gone ?E s s' D a \<longleftrightarrow> gone ?E s s1 D a"
    using nc by (simp_all add: heir_def gone_def)
  have "replaced ?E f s (hole parent) (G a xt gs) s' (G c xt' gs) D {} W"
  proof (rule replaced_shape [OF t e' disj])
    show "c = a \<and> own_e ?E (nodes s a) \<or> next_node s \<le> c \<and> c < next_node s'" using c l(4) by simp
    show "kidList (nodes s' c) = map (\<lambda>g. Some (ad g)) gs" using kl t nc by (simp add: trep_G)
    show "node_ok (nodes s' c) (map (lab_at s') gs)" using ok nc unfolding lab by simp
    show "own_ok ?E (nodes s' c)" using oo nc by simp
    show "distinct (c # concat (map addrs gs))" using gsd trep_bound [OF t, of c] c(1) by auto
    show "set (nf_nodes D) = (if own_e ?E (nodes s a) then {} else {a})" by (rule dn)
    show "None \<notin> set (nf_leaves D)" "nf_subtrees D = []" by (rule dl, rule ds)
  qed (use v1 v2 hr nc dv in auto)
  moreover have "absh hf s' (G c xt' gs) = RT (prefix (nodes s1 c))
      (map_option (\<lambda>v. hf v xt') (value_at (nodes s1 c))) (map (absh hf s) gs)"
    using nc by (simp add: sk(1))
  ultimately show ?thesis using that l(1,4,5) pl eX by blast
qed

section \<open>Ownership of a node\<close>

lemma own_spec:
  assumes t: "trep (tepoch t) s (G a xt gs)" and h: "at_hole t parent pidx s (G a xt gs)"
    and E: "epoch_ok (tepoch t)" and ex: "length gs + extra \<le> 256"
  obtains c t' s' D where "own t parent pidx a extra s = Some (c, t', s')" and "plugged parent pidx t s c t' s'"
    and "replaced (tepoch t) (tnf t) s (hole parent) (G a xt gs) s' (G c xt gs) D {} {}"
    and "absh hf s' (G c xt gs) = absh hf s (G a xt gs)"
    and "own_e (tepoch t) (nodes s' c)" and "length gs + extra \<le> kidCap (nodes s' c)"
    and "prefix (nodes s' c) = prefix (nodes s a)" and "value_at (nodes s' c) = value_at (nodes s a)"
    and "eff (tepoch t) (tnf t) s (hole parent) D s'"
proof -
  let ?E = "tepoch t" and ?n = "nodes s a" and ?f = "tnf t" and ?ls = "map (lab_at s) gs"
  note r = trepD(1) [OF t]
  have a: "a < next_node s" and ok: "node_ok ?n ?ls" and oo: "own_ok ?E ?n" using t by (simp_all add: trep_G)
  have nk: "nkids ?n = length gs" using rep_nkids [OF r] by simp
  then have len: "length ?ls = nkids ?n" by simp
  have g256: "length gs \<le> 256" using kids_256 [OF r] by simp
  consider (stay) "own_e ?E ?n" "length gs + extra \<le> kidCap ?n"
    | (grow) "own_e ?E ?n" "\<not> length gs + extra \<le> kidCap ?n" | (copy) "\<not> own_e ?E ?n" by blast
  then show thesis
  proof cases
    case stay
    then show ?thesis
      using plugged_refl [OF h] replaced_refl [OF t] nk
      by (intro that [of a t s zero_notifier]) (simp_all add: own_def owns_own_e kidCount_def eff_refl)
  next
    case grow
    obtain s1 where cp: "copyNode t a (kidCount ?n + extra) s = Some (next_node s, s1)"
      "\<And>f X. eff ?E f s X zero_notifier s1" "next_node s1 = Suc (next_node s)"
      "copied ?E ?n (nodes s1 a) (nodes s1 (next_node s))"
      "min 256 (nkids ?n + (kidCount ?n + extra)) \<le> kidCap (nodes s1 (next_node s))"
      using copyNode_spec [OF E ok len, of "kidCount ?n + extra"] g256 nk a by metis
    let ?c = "next_node s" and ?s2 = "upd_node (next_node s) (\<lambda>m. m\<lparr>epoch := epoch ?n\<rparr>) s1"
    note cd = copiedD [OF cp(4)]
    have own1: "own_e ?E (nodes s1 ?c)" using cd(5) .
    have e12: "eff ?E ?f s1 {?c} zero_notifier ?s2"
      by (rule eff_upd) (use own1 grow(1) in \<open>auto simp: own_e_def\<close>)
    have e2: "eff ?E ?f s {} zero_notifier ?s2"
      by (rule eff_trans_weaken [OF cp(2) [where X = "{}"] e12]) auto
    have n: "nodes s1 a = ?n" using cd(14) grow(1) .
    have c2: "nodes ?s2 ?c = (nodes s1 ?c)\<lparr>epoch := epoch ?n\<rparr>" by simp
    have hv: "hasValue (nodes ?s2 ?c) = hasValue ?n" "leafOwned (nodes ?s2 ?c) = leafOwned ?n"
      "own_e ?E (nodes ?s2 ?c)" using grow(1) by (simp_all add: hasValue_def leafOwned_def own_e_def)
    have ok1: "node_ok (nodes s1 ?c) ?ls" using cd(9) [OF len ok] .
    have ok2: "node_ok (nodes ?s2 ?c) ?ls" using ok1 ok hv cd(6) by (simp add: node_ok_def)
    have lf: "leafp (nodes ?s2 ?c) = leafp ?n" if "hasValue ?n" using cd(11) n that by simp
    have va: "value_at (nodes ?s2 ?c) = value_at ?n" using cd(10) hv by (simp add: value_at_def)
    have kl: "kidList (nodes ?s2 ?c) = kidList ?n" using cd(2) by simp
    have oo2: "own_ok ?E (nodes ?s2 ?c)" using oo grow(1) hv lf unfolding own_ok_def by metis
    have hr: "heir ?E s ?s2 a ?c" if "hasValue ?n" using hv lf [OF that] grow(1) by (simp add: heir_def)
    obtain t' s' where l: "link t parent pidx ?c ?s2 = Some (t', s')" "plugged parent pidx t s ?c t' s'"
      "replaced ?E ?f s (hole parent) (G a xt gs) s' (G ?c xt gs) zero_notifier {} {}"
      "absh hf s' (G ?c xt gs) = RT (prefix (nodes ?s2 ?c))
           (map_option (\<lambda>v. hf v xt) (value_at (nodes ?s2 ?c))) (map (absh hf s) gs)"
      "\<And>b. b \<notin> hole parent \<Longrightarrow> nodes s' b = nodes ?s2 b" "next_node s' = next_node ?s2"
      "eff ?E ?f s (hole parent \<union> {}) zero_notifier s'"
      by (rule link_fresh [where hf = hf and c = ?c and xt' = xt and W = "{}", OF t h e2])
        (use kl ok2 oo2 hv hr cp(3) grow(1) in auto)
    have nc: "nodes s' ?c = nodes ?s2 ?c" using l(5) at_hole_fresh [OF h] by simp
    have ow: "own t parent pidx a extra s = Some (?c, t', s')"
      using grow cp(1) l(1) nk n by (simp add: own_def owns_own_e kidCount_def)
    have cap: "length gs + extra \<le> kidCap (nodes s' ?c)"
      using cp(5) nk ex nc by (simp add: kidCount_def kidCap_def)
    have ab: "absh hf s' (G ?c xt gs) = absh hf s (G a xt gs)"
      unfolding l(4) using cd(1) va by simp
    show ?thesis
      by (rule that [OF ow l(2,3) ab]) (use nc hv(3) cap cd(1) va l(7) in simp_all)
  next
    case copy
    obtain s1 where cp: "copyNode t a extra s = Some (next_node s, s1)"
      "\<And>f X. eff ?E f s X zero_notifier s1" "next_node s1 = Suc (next_node s)"
      "copied ?E ?n (nodes s1 a) (nodes s1 (next_node s))"
      "min 256 (nkids ?n + extra) \<le> kidCap (nodes s1 (next_node s))"
      using copyNode_spec [OF E ok len, of extra] g256 nk a by metis
    let ?c = "next_node s" and ?s2 = "dropNode t a s1"
    note cd = copiedD [OF cp(4)]
    have e2: "eff ?E ?f s {} (d_node a) ?s2"
      by (rule eff_trans_weaken [OF cp(2) [where X = "{}"] eff_drop(1) [where X = "{}"]]) auto
    have hv: "hasValue (nodes ?s2 ?c) = hasValue ?n" "\<not> leafOwned (nodes ?s2 ?c)" "own_e ?E (nodes ?s2 ?c)"
      using cd(6,8,5) by simp_all
    have ok2: "node_ok (nodes ?s2 ?c) ?ls" using cd(9) [OF len ok] by simp
    have lf: "leafp (nodes ?s2 ?c) = leafp (nodes ?s2 a)" "leafp (nodes ?s2 ?c) \<noteq> None" if "hasValue ?n"
      using cd(11) cd(12) [OF that copy] that by simp_all
    have va: "value_at (nodes ?s2 ?c) = value_at ?n" using cd(7) by simp
    have kl: "kidList (nodes ?s2 ?c) = kidList ?n" using cd(2) by simp
    have oo2: "own_ok ?E (nodes ?s2 ?c)" using hv lf(2) by (simp add: own_ok_def)
    have hr: "heir ?E s ?s2 a ?c" if "hasValue ?n" using hv lf [OF that] copy by (simp add: heir_def)
    obtain t' s' where l: "link t parent pidx ?c ?s2 = Some (t', s')" "plugged parent pidx t s ?c t' s'"
      "replaced ?E ?f s (hole parent) (G a xt gs) s' (G ?c xt gs) (d_node a) {} {}"
      "absh hf s' (G ?c xt gs) = RT (prefix (nodes ?s2 ?c))
           (map_option (\<lambda>v. hf v xt) (value_at (nodes ?s2 ?c))) (map (absh hf s) gs)"
      "\<And>b. b \<notin> hole parent \<Longrightarrow> nodes s' b = nodes ?s2 b" "next_node s' = next_node ?s2"
      "eff ?E ?f s (hole parent \<union> {}) (d_node a) s'"
      by (rule link_fresh [where hf = hf and c = ?c and xt' = xt and W = "{}", OF t h e2])
        (use kl ok2 oo2 hv hr cp(3) copy in auto)
    have nc: "nodes s' ?c = nodes ?s2 ?c" using l(5) at_hole_fresh [OF h] by simp
    have ow: "own t parent pidx a extra s = Some (?c, t', s')"
      using copy cp(1) l(1) by (simp add: own_def owns_own_e)
    have cap: "length gs + extra \<le> kidCap (nodes s' ?c)" using cp(5) nk ex nc by simp
    have ab: "absh hf s' (G ?c xt gs) = absh hf s (G a xt gs)"
      unfolding l(4) using cd(1) va by simp
    show ?thesis
      by (rule that [OF ow l(2,3) ab]) (use nc hv(3) cap cd(1) va l(7) in simp_all)
  qed
qed

section \<open>Values\<close>

text \<open>An owned node is changed in place; its children stay.\<close>

lemma replaced_own:
  assumes t: "trep E s (G a xt gs)" and o: "own_e E (nodes s a)" and e: "eff E f s {a} D s'"
    and kl: "kidList (nodes s' a) = kidList (nodes s a)" and ok: "node_ok (nodes s' a) (map (lab_at s) gs)"
    and oo: "own_ok E (nodes s' a)"
    and D: "nf_nodes D = []" "None \<notin> set (nf_leaves D)" "nf_values D = []" "nf_subtrees D = []"
    and v1: "hasValue (nodes s' a) \<Longrightarrow>
          xt' \<in> W \<and> leafOwned (nodes s' a) \<or>
          xt' = xt \<and> hasValue (nodes s a) \<and> leafp (nodes s' a) = leafp (nodes s a) \<and>
            leafOwned (nodes s' a) = leafOwned (nodes s a)"
    and v2: "hasValue (nodes s a) \<Longrightarrow>
          xt' = xt \<and> hasValue (nodes s' a) \<and> leafp (nodes s' a) = leafp (nodes s a) \<and>
            leafOwned (nodes s' a) = leafOwned (nodes s a) \<or>
          (\<not> leafOwned (nodes s a) \<longrightarrow> leafp (nodes s a) \<in> set (nf_leaves D))"
  shows "replaced E f s H (G a xt gs) s' (G a xt' gs) D {} W"
    and "absh hf s' (G a xt' gs) = RT (prefix (nodes s' a))
           (map_option (\<lambda>v. hf v xt') (value_at (nodes s' a))) (map (absh hf s) gs)"
proof -
  have a: "a < next_node s" using t by (simp add: trep_G)
  have e': "eff E f s ({} \<union> {a}) D s'" using e by simp
  have o': "own_e E (nodes s' a)" using eff_own [OF e a] o by simp
  note sk = shape_kids [OF t e']
  have lab: "map (lab_at s') gs = map (lab_at s) gs" using sk(3) by simp
  have he: "heir E s s' a a \<longleftrightarrow> leafOwned (nodes s' a) = leafOwned (nodes s a) \<and> leafp (nodes s' a) = leafp (nodes s a)"
    using o o' by (simp add: heir_def)
  have "replaced E f s {} (G a xt gs) s' (G a xt' gs) D {} W"
  proof (rule replaced_shape [OF t e'])
    show "kidList (nodes s' a) = map (\<lambda>g. Some (ad g)) gs" using kl t by (simp add: trep_G)
    show "node_ok (nodes s' a) (map (lab_at s') gs)" using ok unfolding lab .
    show "distinct (a # concat (map addrs gs))" using t by (simp add: trep_G)
  qed (use o o' oo D v1 v2 he in \<open>auto simp: gone_def\<close>)
  then show "replaced E f s H (G a xt gs) s' (G a xt' gs) D {} W" by (rule replaced_weaken) auto
  show "absh hf s' (G a xt' gs) = RT (prefix (nodes s' a))
           (map_option (\<lambda>v. hf v xt') (value_at (nodes s' a))) (map (absh hf s) gs)"
    by (simp add: sk(1))
qed

lemma epoch_clear: "epoch (clear_value n) = epoch n AND NOT (valueBit OR leafOwnedBit)"
  unfolding clear_value_def by simp

lemma clear_value_bits:
  "\<not> hasValue (clear_value n)" "\<not> leafOwned (clear_value n)"
  "epoch (clear_value n) AND epochMask = epoch n AND epochMask"
  unfolding hasValue_bit leafOwned_bit epoch_clear by (rule bits_or mask_or)+

lemma clear_value_simps [simp]:
  "prefix (clear_value n) = prefix n" "kidList (clear_value n) = kidList n" "nkids (clear_value n) = nkids n"
  "arr (clear_value n) = arr n" "bitmap (clear_value n) = bitmap n" "nwatch (clear_value n) = nwatch n"
  "val (clear_value n) = None" "leafp (clear_value n) = None" "\<not> hasValue (clear_value n)"
  "\<not> leafOwned (clear_value n)" "own_e E (clear_value n) = own_e E n" "epoch (clear_value n) AND epochMask = epoch n AND epochMask"
  "value_at (clear_value n) = None"
  by (simp_all add: value_at_def own_e_def clear_value_bits) (simp_all add: clear_value_def kidList_def)

text \<open>What giving up a value records: nothing when it was stored in this epoch.\<close>

definition d_release :: "txn \<Rightarrow> addr \<Rightarrow> 'v node \<Rightarrow> notifier" where
  "d_release t a n =
     (if \<not> own_e (tepoch t) n then d_value a else if \<not> leafOwned n then d_leaf (leafp n) else zero_notifier)"

lemma releaseValue_spec:
  "eff (tepoch t) (tnf t) s X (d_release t a (nodes s a)) (releaseValue t a s)"
  "nodes (releaseValue t a s) = nodes s" "next_node (releaseValue t a s) = next_node s"
  using eff_drop(2,3) [of "tepoch t" t s X]
  by (simp_all add: releaseValue_def d_release_def owns_own_e leafOwned_def eff_refl)

lemma d_release_simps:
  assumes "hasValue n" and "own_ok (tepoch t) n"
  shows "nf_nodes (d_release t a n) = []" and "nf_subtrees (d_release t a n) = []"
    and "None \<notin> set (nf_leaves (d_release t a n))"
    and "set (nf_values (d_release t a n)) = (if own_e (tepoch t) n then {} else {a})"
    and "own_e (tepoch t) n \<Longrightarrow> \<not> leafOwned n \<Longrightarrow> leafp n \<in> set (nf_leaves (d_release t a n))"
  using assms by (auto simp: d_release_def own_ok_def)

lemma ownValueless_spec:
  assumes t: "trep (tepoch t) s (G a xt gs)" and h: "at_hole t parent pidx s (G a xt gs)"
    and E: "epoch_ok (tepoch t)"
  obtains c t' s' D where "ownValueless t parent pidx a s = Some (c, t', s')" and "plugged parent pidx t s c t' s'"
    and "replaced (tepoch t) (tnf t) s (hole parent) (G a xt gs) s' (G c xt gs) D {} {}"
    and "absh hf s' (G c xt gs) = RT (prefix (nodes s a)) None (map (absh hf s) gs)"
    and "own_e (tepoch t) (nodes s' c)" and "\<not> hasValue (nodes s' c)"
    and "prefix (nodes s' c) = prefix (nodes s a)" and "c = a \<or> c = next_node s"
proof -
  let ?E = "tepoch t" and ?n = "nodes s a" and ?f = "tnf t" and ?ls = "map (lab_at s) gs"
  note r = trepD(1) [OF t]
  have a: "a < next_node s" and ok: "node_ok ?n ?ls" and oo: "own_ok ?E ?n" using t by (simp_all add: trep_G)
  have nk: "nkids ?n = length gs" using rep_nkids [OF r] by simp
  have g256: "length gs \<le> 256" using kids_256 [OF r] by simp
  define s1 where "s1 = (if hasValue ?n then releaseValue t a s else s)"
  define D1 where "D1 = (if hasValue ?n then d_release t a ?n else zero_notifier)"
  have e1: "eff ?E ?f s X D1 s1" for X by (simp add: s1_def D1_def eff_refl releaseValue_spec(1))
  have n1: "nodes s1 = nodes s" "next_node s1 = next_node s"
    by (simp_all add: s1_def releaseValue_spec(2,3))
  note dr = d_release_simps [OF _ oo, of a]
  have D1: "nf_nodes D1 = []" "nf_subtrees D1 = []" "None \<notin> set (nf_leaves D1)"
    "set (nf_values D1) = (if hasValue ?n \<and> \<not> own_e ?E ?n then {a} else {})"
    "hasValue ?n \<Longrightarrow> own_e ?E ?n \<Longrightarrow> \<not> leafOwned ?n \<Longrightarrow> leafp ?n \<in> set (nf_leaves D1)"
    using dr by (auto simp: D1_def)
  show thesis
  proof (cases "own_e ?E ?n")
    case True
    let ?s' = "upd_node a clear_value s1"
    have "eff ?E ?f s1 {a} zero_notifier ?s'"
      by (rule eff_upd) (use True n1 in auto)
    then have e': "eff ?E ?f s {a} D1 ?s'" by (rule eff_trans_weaken [OF e1 [of "{}"]]) auto
    have nv: "nodes ?s' a = clear_value ?n" using n1 by simp
    have ok': "node_ok (nodes ?s' a) ?ls" using ok n1 by (simp add: node_ok_def)
    have v0: "nf_values D1 = []" using D1(4) True by simp
    note ro = replaced_own [OF t True e', where xt' = xt and W = "{}"]
    have "replaced ?E ?f s (hole parent) (G a xt gs) ?s' (G a xt gs) D1 {} {}"
      by (rule ro(1)) (use nv ok' D1 v0 True in \<open>simp_all add: own_ok_def\<close>)
    moreover have "absh hf ?s' (G a xt gs) = RT (prefix ?n) None (map (absh hf s) gs)"
      by (subst ro(2)) (use nv ok' D1 v0 True in \<open>simp_all add: own_ok_def\<close>)
    moreover have "plugged parent pidx t s a t ?s'"
      by (rule plugged_id [OF h, unfolded gtree.sel]) (use at_hole_disj [OF h] n1 in auto)
    ultimately show ?thesis using that [of a t ?s' D1] True n1
      by (simp add: ownValueless_def owns_own_e s1_def [symmetric])
  next
    case False
    have ok1: "node_ok (nodes s1 a) ?ls" "length ?ls = nkids (nodes s1 a)" "nkids (nodes s1 a) \<le> 256"
      using ok nk g256 n1 by simp_all
    obtain m where m: "copyShape t a 0 s1 = Some (alloc_node m s1)" "prefix m = prefix ?n"
      "kidList m = kidList ?n" "nkids m = nkids ?n" "bm.enum (bitmap m) ?ls" "nkids m \<le> length (arr m)"
      "min 256 (nkids ?n + 0) \<le> kidCap m" "val m = None" "leafp m = None" "nwatch m = None" "epoch m = ?E"
      by (rule copyShape_spec [OF ok1, of t 0]) (simp add: n1)
    obtain s2 where s2: "alloc_node m s1 = (next_node s, s2)" using n1 by (simp add: alloc_node_def)
    let ?c = "next_node s" and ?s3 = "dropNode t a s2"
    note al = alloc_node_simps [OF s2]
    have mE: "own_e ?E m" "\<not> hasValue m" "\<not> leafOwned m"
      using E m(11) epoch_ok_bits [OF E] by (simp_all add: own_e_def epoch_okD hasValue_bit leafOwned_bit)
    have "eff ?E ?f s {} D1 s2"
      by (rule eff_trans_weaken [OF e1 [of "{}"] eff_alloc(1) [OF s2 mE(1) m(10)]]) auto
    then have e3: "eff ?E ?f s {} (nf_add D1 (d_node a)) ?s3"
      by (rule eff_trans_weaken [OF _ eff_drop(1) [where X = "{}"]]) auto
    have c3: "nodes ?s3 ?c = m" using al n1 by simp
    have ok3: "node_ok (nodes ?s3 ?c) ?ls" using m mE c3 by (simp add: node_ok_def)
    have gn: "gone ?E s ?s3 (nf_add D1 (d_node a)) a" if "hasValue ?n"
      using D1(4) that False by (simp add: gone_def)
    have kl3: "kidList (nodes ?s3 ?c) = kidList ?n" using c3 m(3) by simp
    have oo3: "own_ok ?E (nodes ?s3 ?c)" "\<not> hasValue (nodes ?s3 ?c)" using c3 mE by (simp_all add: own_ok_def)
    have cc: "next_node s \<le> ?c" "?c < next_node ?s3" using al n1 by simp_all
    have dd: "set (nf_nodes (nf_add D1 (d_node a))) = (if own_e ?E ?n then {} else {a})"
      "None \<notin> set (nf_leaves (nf_add D1 (d_node a)))" "nf_subtrees (nf_add D1 (d_node a)) = []"
      "\<And>b. b \<in> set (nf_values (nf_add D1 (d_node a))) \<Longrightarrow> b = a \<and> \<not> own_e ?E ?n \<and> hasValue ?n"
      using D1 False by (simp_all split: if_splits)
    obtain t' s' where l: "link t parent pidx ?c ?s3 = Some (t', s')" "plugged parent pidx t s ?c t' s'"
      "replaced ?E ?f s (hole parent) (G a xt gs) s' (G ?c xt gs) (nf_add D1 (d_node a)) {} {}"
      "absh hf s' (G ?c xt gs) = RT (prefix (nodes ?s3 ?c))
           (map_option (\<lambda>v. hf v xt) (value_at (nodes ?s3 ?c))) (map (absh hf s) gs)"
      "\<And>b. b \<notin> hole parent \<Longrightarrow> nodes s' b = nodes ?s3 b" "next_node s' = next_node ?s3"
      "eff ?E ?f s (hole parent \<union> {}) (nf_add D1 (d_node a)) s'"
      by (rule link_fresh [where hf = hf and c = ?c and xt' = xt and W = "{}",
            OF t h e3 _ cc kl3 ok3 oo3(1) dd]) (use oo3(2) gn in blast)+
    have "nodes s' ?c = m" using l(5) at_hole_fresh [OF h] c3 by simp
    moreover have "ownValueless t parent pidx a s = Some (?c, t', s')"
      using False m(1) s2 l(1) n1 by (simp add: ownValueless_def owns_own_e s1_def [symmetric])
    moreover have "absh hf s' (G ?c xt gs) = RT (prefix ?n) None (map (absh hf s) gs)"
      unfolding l(4) using c3 m(2) mE by (simp add: value_at_def)
    ultimately show ?thesis using that [OF _ l(2,3)] m(2) mE by simp
  qed
qed

lemma setValue_spec:
  assumes t: "trep (tepoch t) s (G a xt gs)" and h: "at_hole t parent pidx s (G a xt gs)"
    and E: "epoch_ok (tepoch t)"
  obtains c t' s' D where "setValue t parent pidx a v s = Some ((val (nodes s a), hasValue (nodes s a)), t', s')"
    and "plugged parent pidx t s c t' s'"
    and "replaced (tepoch t) (tnf t) s (hole parent) (G a xt gs) s' (G c xv gs) D {} {xv}"
    and "absh hf s' (G c xv gs) = RT (prefix (nodes s a)) (Some (hf v xv)) (map (absh hf s) gs)"
proof -
  let ?E = "tepoch t" and ?n = "nodes s a" and ?f = "tnf t" and ?ls = "map (lab_at s) gs"
  have ok: "node_ok ?n ?ls" and oo: "own_ok ?E ?n" using t by (simp_all add: trep_G)
  show thesis
  proof (cases "hasValue ?n \<and> own_e ?E ?n \<and> leafOwned ?n")
    case True
    let ?s' = "upd_node a (\<lambda>m. m\<lparr>val := v\<rparr>) s"
    have e: "eff ?E ?f s {a} zero_notifier ?s'" by (rule eff_upd) (use True in auto)
    have hv: "hasValue (nodes ?s' a)" "leafOwned (nodes ?s' a)" "value_at (nodes ?s' a) = Some v"
      "node_ok (nodes ?s' a) ?ls" "own_ok ?E (nodes ?s' a)"
      using True ok oo by (auto simp: hasValue_def leafOwned_def value_at_def node_ok_def own_ok_def own_e_def)
    note ro = replaced_own [OF t _ e, where xt' = xv and W = "{xv}"]
    have "replaced ?E ?f s (hole parent) (G a xt gs) ?s' (G a xv gs) zero_notifier {} {xv}"
      by (rule ro(1)) (use hv True in simp_all)
    moreover have "absh hf ?s' (G a xv gs) = RT (prefix ?n) (Some (hf v xv)) (map (absh hf s) gs)"
      by (subst ro(2)) (use hv True in simp_all)
    moreover have "plugged parent pidx t s a t ?s'"
      by (rule plugged_id [OF h, unfolded gtree.sel]) (use at_hole_disj [OF h] in auto)
    ultimately show ?thesis using that [of t ?s' a zero_notifier] True
      by (simp add: setValue_def owns_own_e leafOwned_def)
  next
    case False
    obtain c t1 s1 D where o: "ownValueless t parent pidx a s = Some (c, t1, s1)" "plugged parent pidx t s c t1 s1"
      "replaced ?E ?f s (hole parent) (G a xt gs) s1 (G c xt gs) D {} {}"
      "absh hf s1 (G c xt gs) = RT (prefix ?n) None (map (absh hf s) gs)"
      "own_e ?E (nodes s1 c)" "\<not> hasValue (nodes s1 c)" "prefix (nodes s1 c) = prefix ?n" "c = a \<or> c = next_node s"
      by (rule ownValueless_spec [where hf = hf, OF t h E])
    note t1 = replacedD(2) [OF o(3)]
    let ?b = "valueBit OR leafOwnedBit"
    let ?s' = "upd_node c (\<lambda>m. m\<lparr>val := v, epoch := epoch m OR ?b\<rparr>) s1"
    have e: "eff ?E ?f s1 {c} zero_notifier ?s'" by (rule eff_upd) (use o(5) in auto)
    have okc: "node_ok (nodes s1 c) (map (lab_at s1) gs)" using t1 by (simp add: trep_G)
    have hv: "hasValue (nodes ?s' c)" "leafOwned (nodes ?s' c)" "value_at (nodes ?s' c) = Some v"
      "leafp (nodes ?s' c) = None" "node_ok (nodes ?s' c) (map (lab_at s1) gs)" "own_ok ?E (nodes ?s' c)"
      "kidList (nodes ?s' c) = kidList (nodes s1 c)" "prefix (nodes ?s' c) = prefix (nodes s1 c)"
      using o(6) okc by (auto simp: hasValue_bit leafOwned_bit value_at_def node_ok_def own_ok_def)
    note ro = replaced_own [OF t1 o(5) e, where xt' = xv and W = "{xv}"]
    have ab: "absh hf ?s' (G c xv gs) = RT (prefix ?n) (Some (hf v xv)) (map (absh hf s1) gs)"
      by (subst ro(2)) (use hv o(6,7) in simp_all)
    have "replaced ?E ?f s1 {} (G c xt gs) ?s' (G c xv gs) zero_notifier {} {xv}"
      by (rule ro(1)) (use hv o(6,7) in simp_all)
    then have "replaced ?E ?f s (hole parent) (G a xt gs) ?s' (G c xv gs) (nf_add D zero_notifier) ({} \<union> {}) ({} \<union> {xv})"
      using replaced_trans [OF t o(3)] by blast
    moreover have "map (absh hf s1) gs = map (absh hf s) gs" using o(4) by simp
    moreover have "plugged parent pidx t s c t1 ?s'"
    proof (cases parent)
      case (Some p)
      then have "c \<noteq> p" using o(8) h at_hole_disj [OF h] by (auto simp: at_hole_def)
      with Some o(2) show ?thesis by (simp add: plugged_def)
    qed (use o(2) in \<open>simp add: plugged_def\<close>)
    moreover have "setValue t parent pidx a v s = Some ((val ?n, hasValue ?n), t1, ?s')"
      using False o(1) by (auto simp: setValue_def owns_own_e leafOwned_def Let_def)
    ultimately show ?thesis using that [of t1 ?s' c D] ab by simp
  qed
qed

end
