(* ===== verification/Cow_Kids.thy ===== *)
theory Cow_Kids
  imports Cow_Ops
begin

text \<open>
  Operations on the children of an owned node: adding a new leaf node, removing a child, splitting a
  child's segment (\<open>splitChild\<close>), and merging a node with its only remaining child (\<open>mergeChild\<close>).
\<close>

section \<open>Store updates in one normal form\<close>

lemma put_put [simp]: "put_node a n (put_node a m s) = put_node a n s"
  by (simp add: put_node_def upd_node_def)

lemma upd_node_put: "upd_node a h s = put_node a (h (nodes s a)) s"
  by (simp add: put_node_def upd_node_def)

lemma addLabel_put: "addLabel a b s = put_node a ((nodes s a)\<lparr>bitmap := bm_add (bitmap (nodes s a)) b\<rparr>) s"
  by (simp add: addLabel_def upd_node_put)

lemma setKidAt_put:
  "i < nkids (nodes s a) \<Longrightarrow>
     setKidAt a i c s = Some (put_node a ((nodes s a)\<lparr>arr := (arr (nodes s a))[i := Some c]\<rparr>) s)"
  by (simp add: setKidAt_def setKid_def)

lemma setKidCountAt_put:
  "k \<le> length (arr (nodes s a)) \<Longrightarrow>
     setKidCountAt a k s = Some (put_node a ((nodes s a)\<lparr>nkids := k\<rparr>) s)"
  by (simp add: setKidCountAt_def setKidCount_def)

section \<open>New leaf nodes\<close>

lemma leafNode_spec:
  assumes E: "epoch_ok (tepoch t)" and l: "leafNode t p v s = (l, s')"
  shows "l = next_node s" and "eff (tepoch t) f s X zero_notifier s'" and "next_node s' = Suc (next_node s)"
    and "\<And>b. b \<noteq> l \<Longrightarrow> nodes s' b = nodes s b" and "prefix (nodes s' l) = p"
    and "trep (tepoch t) s' (G l y [])" and "absh hf s' (G l y []) = RT p (Some (hf v y)) []"
    and "vnodes s' (G l y []) = {(l, y)}" and "leafOwned (nodes s' l)" and "own_e (tepoch t) (nodes s' l)"
proof -
  define m :: "'a node" where
    "m = (newLeafNode p [])\<lparr>epoch := tepoch t OR (valueBit OR leafOwnedBit), val := v\<rparr>"
  have a: "alloc_node m s = (l, s')" using l by (simp add: leafNode_def m_def)
  note al = alloc_node_simps [OF a]
  have o: "own_e (tepoch t) m" using E by (simp add: m_def own_e_def epoch_okD)
  have m: "prefix m = p" "nkids m = 0" "arr m = []" "bitmap m = bm_zero" "val m = v" "leafp m = None"
    "nwatch m = None" "hasValue m" "leafOwned m"
    by (simp_all add: m_def newLeafNode_eq zero_node_def hasValue_bit leafOwned_bit)
  show "l = next_node s" "next_node s' = Suc (next_node s)" by (rule al)+
  show "eff (tepoch t) f s X zero_notifier s'"
    by (rule eff_weaken [OF eff_alloc(1) [OF a o m(7)]]) simp
  have n: "nodes s' l = m" using al by simp
  show "nodes s' b = nodes s b" if "b \<noteq> l" for b using that al by simp
  show "prefix (nodes s' l) = p" "leafOwned (nodes s' l)" "own_e (tepoch t) (nodes s' l)"
    using n m o by simp_all
  show "trep (tepoch t) s' (G l y [])"
    using al n m by (simp add: trep_G kidList_def node_ok_def own_ok_def bm.enum_empty)
  show "absh hf s' (G l y []) = RT p (Some (hf v y)) []" "vnodes s' (G l y []) = {(l, y)}"
    using n m by (simp_all add: value_at_def)
qed

section \<open>Adding a child\<close>

lemma distinct_concat_split:
  assumes "distinct (concat (map f xs))"
  shows "distinct (concat (map f (take i xs)))" and "distinct (concat (map f (drop i xs)))"
    and "set (concat (map f (take i xs))) \<inter> set (concat (map f (drop i xs))) = {}"
proof -
  have "distinct (concat (map f (take i xs)) @ concat (map f (drop i xs)))"
    using assms by (metis append_take_drop_id concat_append map_append)
  then show "distinct (concat (map f (take i xs)))" "distinct (concat (map f (drop i xs)))"
    "set (concat (map f (take i xs))) \<inter> set (concat (map f (drop i xs))) = {}"
    unfolding distinct_append by blast+
qed

lemma distinct_concat_insert:
  assumes "distinct (concat (map f xs))" and "distinct (f x)" and "\<And>y. y \<in> set xs \<Longrightarrow> set (f x) \<inter> set (f y) = {}"
  shows "distinct (concat (map f (insert_at i x xs)))"
proof -
  have "set (f x) \<inter> set (concat (map f (take i xs))) = {}" "set (f x) \<inter> set (concat (map f (drop i xs))) = {}"
    using assms(3) by (auto dest: in_set_takeD in_set_dropD)
  then show ?thesis using distinct_concat_split [OF assms(1), of i] assms(2)
    unfolding insert_at_def map_append concat_append list.map concat.simps distinct_append by auto
qed

lemma distinct_concat_remove:
  assumes "distinct (concat (map f xs))"
  shows "distinct (concat (map f (remove_at i xs)))"
proof -
  have "set (drop (Suc i) xs) \<subseteq> set (drop i xs)" by (rule set_drop_subset_set_drop) simp
  then have "set (concat (map f (take i xs))) \<inter> set (concat (map f (drop (Suc i) xs))) = {}"
    using distinct_concat_split(3) [OF assms, of i] by auto
  then show ?thesis using distinct_concat_split(1) [OF assms, of i] distinct_concat_split(2) [OF assms, of "Suc i"]
    unfolding remove_at_def map_append concat_append distinct_append by blast
qed

lemma addKid_put:
  assumes "prefix (nodes s c) = b # p" and "idx \<le> nkids (nodes s a)" and "nkids (nodes s a) < length (arr (nodes s a))"
  obtains m where "addKid a idx c s = Some (put_node a m s)" and "nkids m = Suc (nkids (nodes s a))"
    and "kidList m = insert_at idx (Some c) (kidList (nodes s a))" and "length (arr m) = length (arr (nodes s a))"
    and "bitmap m = bm_add (bitmap (nodes s a)) b" and "prefix m = prefix (nodes s a)"
    and "val m = val (nodes s a)" and "leafp m = leafp (nodes s a)" and "nwatch m = nwatch (nodes s a)"
    and "epoch m = epoch (nodes s a)"
proof -
  let ?n = "nodes s a" and ?k = "nkids (nodes s a)"
  let ?kids = "take (Suc ?k) (arr ?n)"
  let ?k1 = "go_copy ?kids (idx + 1) (drop idx (take ?k ?kids))"
  let ?k2 = "?k1[idx := Some c]"
  have len: "length ?kids = Suc ?k" using assms(3) by simp
  have k2: "?k2 = insert_at idx (Some c) (kidList ?n)"
  proof (rule nth_equalityI)
    show "length ?k2 = length (insert_at idx (Some c) (kidList ?n))"
      using assms by (simp add: kidList_def)
    fix j assume "j < length ?k2"
    then have j: "j < Suc ?k" using assms by simp
    show "?k2 ! j = insert_at idx (Some c) (kidList ?n) ! j"
      using assms j
      by (cases "j < idx"; cases "j = idx")
        (auto simp: go_copy_def Let_def insert_at_def kidList_def nth_append min_def nth_list_update)
  qed
  show ?thesis
  proof (rule that [of "(set_kidList (?n\<lparr>nkids := Suc ?k\<rparr>) ?k2)\<lparr>bitmap := bm_add (bitmap ?n) b\<rparr>"])
    show "addKid a idx c s = Some (put_node a ((set_kidList (?n\<lparr>nkids := Suc ?k\<rparr>) ?k2)\<lparr>bitmap := bm_add (bitmap ?n) b\<rparr>) s)"
      using assms by (simp add: addKid_def byte0_def kidCount_def setKidCount_def kidList_def set_kidList_def Let_def)
    show "kidList ((set_kidList (?n\<lparr>nkids := Suc ?k\<rparr>) ?k2)\<lparr>bitmap := bm_add (bitmap ?n) b\<rparr>) =
      insert_at idx (Some c) (kidList ?n)"
      using k2 assms by (simp add: set_kidList_def kidList_def)
  qed (use assms in \<open>simp_all add: set_kidList_def\<close>)
qed

lemma replaced_add:
  assumes E: "epoch_ok (tepoch t)" and t: "trep (tepoch t) s (G a xt gs)" and o: "own_e (tepoch t) (nodes s a)"
    and cap: "length gs + 1 \<le> kidCap (nodes s a)" and k: "k \<noteq> []"
    and r: "bm_rank (bitmap (nodes s a)) (hd k) = (idx, False)"
    and l: "leafNode t k v s = (l, s1)"
  obtains s' where "addKid a idx l s1 = Some s'"
    and "replaced (tepoch t) f s {} (G a xt gs) s' (G a xt (insert_at idx (G l y []) gs)) zero_notifier {} {y}"
    and "absh hf s' (G a xt (insert_at idx (G l y []) gs)) =
           RT (prefix (nodes s a)) (map_option (\<lambda>v. hf v xt) (value_at (nodes s a)))
             (insert_at idx (RT k (Some (hf v y)) []) (map (absh hf s) gs))"
proof -
  let ?E = "tepoch t" and ?n = "nodes s a" and ?gs = "insert_at idx (G l y []) gs"
  note lf = leafNode_spec [OF E l]
  have a: "a < next_node s" "a \<noteq> l" using t lf(1) by (auto simp: trep_G)
  have na: "nodes s1 a = ?n" using lf(4) a by simp
  have nk: "nkids ?n = length gs" using rep_nkids [OF trepD(1) [OF t]] by simp
  have ok: "node_ok ?n (map (lab_at s) gs)" and oo: "own_ok ?E ?n" using t by (simp_all add: trep_G)
  have en: "bm.enum (bitmap ?n) (map (lab_at s) gs)" using ok by (simp add: node_ok_def)
  note ea = bm.enum_add [OF en r]
  have idx: "idx \<le> length gs" using ea(1) by simp
  obtain p where p: "prefix (nodes s1 l) = hd k # p" using lf(5) k by (cases k) auto
  obtain m where m: "addKid a idx l s1 = Some (put_node a m s1)" "nkids m = Suc (nkids ?n)"
    "kidList m = insert_at idx (Some l) (kidList ?n)" "length (arr m) = length (arr ?n)"
    "bitmap m = bm_add (bitmap ?n) (hd k)" "prefix m = prefix ?n" "val m = val ?n" "leafp m = leafp ?n"
    "nwatch m = nwatch ?n" "epoch m = epoch ?n"
    using addKid_put [OF p, of idx a] idx nk cap na by (auto simp: kidCap_def)
  let ?s' = "put_node a m s1"
  have hv: "hasValue m = hasValue ?n" "leafOwned m = leafOwned ?n" "value_at m = value_at ?n" "own_e ?E m"
    "own_ok ?E m"
    using m(7,8,10) o oo by (simp_all add: hasValue_def leafOwned_def value_at_def own_e_def own_ok_def)
  have "eff ?E f s1 {a} zero_notifier ?s'" by (rule eff_put) (use o m na in auto)
  then have e: "eff ?E f s ({} \<union> {a}) zero_notifier ?s'"
    by (rule eff_trans_weaken [OF lf(2) [where X = "{}"]]) auto
  note sk = shape_kids [OF t e]
  have nl: "nodes ?s' l = nodes s1 l" using a by simp
  have lt: "trep ?E ?s' (G l y [])" "absh hf ?s' (G l y []) = RT k (Some (hf v y)) []"
    "vnodes ?s' (G l y []) = {(l, y)}" "lab_at ?s' (G l y []) = hd k"
    using lf(6) [of y] lf(7) [of hf y] lf(8) [of y] nl lf(5) by (simp_all add: trep_G lab_at_def)
  have lab: "map (lab_at ?s') ?gs = insert_at idx (hd k) (map (lab_at s) gs)"
    using sk(3) lt(4) by (simp add: map_insert_at cong: map_cong)
  have heir: "heir ?E s ?s' a a" using o hv m(8) by (simp add: heir_def)
  have al: "l = next_node s" "l < next_node ?s'" using lf(1,3) by simp_all
  have ngs: "l \<notin> set (addrs g)" if "g \<in> set gs" for g
    using trep_bound [OF trep_kid [OF t that], of l] al by auto
  have "replaced ?E f s {} (G a xt gs) ?s' (G a xt ?gs) zero_notifier {} {y}"
  proof (rule replaced_shape [OF t e])
    show "kidList (nodes ?s' a) = map (\<lambda>g. Some (ad g)) ?gs"
      using m(3) t by (simp add: trep_G map_insert_at)
    show "node_ok (nodes ?s' a) (map (lab_at ?s') ?gs)"
      unfolding lab using ok ea(2) m cap nk hv by (simp add: node_ok_def kidCap_def)
    show "distinct (a # concat (map addrs ?gs))"
      using t a(2) distinct_concat_insert [of addrs gs "G l y []" idx] ngs by (simp add: trep_G)
    show "{} = (\<Union>g \<in> set gs - set ?gs. set (addrs g))" by auto
    show "own_ok ?E (nodes ?s' a)" using hv(5) by simp
    fix g assume "g \<in> set ?gs"
    then have "g \<in> set gs \<or> g = G l y []" by auto
    then show "g \<in> set gs \<or> trep ?E ?s' g \<and> set (addrs g) \<subseteq> {next_node s..} \<and>
      (\<forall>a' z. (a', z) \<in> vnodes ?s' g \<longrightarrow> z \<in> {y} \<and> own_e ?E (nodes ?s' a') \<and> leafOwned (nodes ?s' a'))"
      using lt(1,3) al(1) lf(9,10) nl by fastforce
  qed (use o hv(1) heir in simp_all)
  moreover have "absh hf ?s' (G a xt ?gs) =
           RT (prefix ?n) (map_option (\<lambda>v. hf v xt) (value_at ?n))
             (insert_at idx (RT k (Some (hf v y)) []) (map (absh hf s) gs))"
  proof -
    have "map (absh hf ?s') gs = map (absh hf s) gs" by (simp add: sk(1))
    then have "map (absh hf ?s') ?gs = insert_at idx (RT k (Some (hf v y)) []) (map (absh hf s) gs)"
      unfolding map_insert_at lt(2) by (rule arg_cong)
    then show ?thesis using m(6) hv(3) by simp
  qed
  ultimately show ?thesis using that m(1) by blast
qed

section \<open>Removing a child\<close>

lemma delKid_put:
  assumes "idx < nkids (nodes s a)" and "nkids (nodes s a) \<le> length (arr (nodes s a))"
    and "arr (nodes s a) ! idx = Some c" and "prefix (nodes s c) = b # p"
  obtains m where "delKid a idx s = Some (put_node a m s)" and "nkids m = nkids (nodes s a) - 1"
    and "kidList m = remove_at idx (kidList (nodes s a))" and "length (arr m) = length (arr (nodes s a))"
    and "bitmap m = bm_del (bitmap (nodes s a)) b" and "prefix m = prefix (nodes s a)"
    and "val m = val (nodes s a)" and "leafp m = leafp (nodes s a)" and "nwatch m = nwatch (nodes s a)"
    and "epoch m = epoch (nodes s a)"
proof -
  let ?n = "nodes s a"
  let ?k = "nkids ?n" and ?kids = "kidList ?n"
  let ?k1 = "go_copy ?kids idx (drop (idx + 1) ?kids)"
  let ?k2 = "?k1[?k - 1 := None]"
  have len: "length ?kids = ?k" using assms(2) by (simp add: kidList_def)
  have l2: "length ?k2 = ?k" using assms(1) len by simp
  have k2: "take (?k - 1) ?k2 = remove_at idx ?kids"
  proof (rule nth_equalityI)
    show "length (take (?k - 1) ?k2) = length (remove_at idx ?kids)" using assms(1) len l2 by simp
    fix j assume "j < length (take (?k - 1) ?k2)"
    then have j: "j < ?k - 1" using l2 by simp
    show "take (?k - 1) ?k2 ! j = remove_at idx ?kids ! j"
      using assms(1) j len
      by (cases "j < idx") (auto simp: go_copy_def Let_def remove_at_def nth_append min_def)
  qed
  let ?m = "(set_kidList ?n ?k2)\<lparr>nkids := ?k - 1, bitmap := bm_del (bitmap ?n) b\<rparr>"
  show ?thesis
  proof (rule that [of ?m])
    have "kid ?n idx = Some c" using assms(1,3) by (simp add: kid_def)
    then show "delKid a idx s = Some (put_node a ?m s)"
      using assms len l2 by (simp add: delKid_def byte0_def setKidCount_def set_kidList_def Let_def)
    have "kidList ?m = take (?k - 1) ?k2" using l2 assms(1) by (simp add: set_kidList_def kidList_def)
    then show "kidList ?m = remove_at idx ?kids" using k2 by simp
    show "length (arr ?m) = length (arr ?n)" using l2 assms(2) by (simp add: set_kidList_def)
  qed (simp_all add: set_kidList_def)
qed

lemma set_remove_at: "distinct xs \<Longrightarrow> i < length xs \<Longrightarrow> set xs - set (remove_at i xs) = {xs ! i}"
  by (auto simp: set_remove_at_distinct)

lemma distinct_kids:
  assumes "distinct (concat (map addrs gs))"
  shows "distinct gs"
  using assms
proof (induction gs)
  case (Cons g gs)
  then have "g \<notin> set gs" using ad_in_addrs [of g] by (auto simp del: ad_in_addrs)
  with Cons show ?case by simp
qed simp

lemma replaced_del:
  assumes t: "trep E s (G a xt gs)" and o: "own_e E (nodes s a)"
    and i: "i < length gs" and p: "prefix (nodes s (ad (gs ! i))) \<noteq> []"
  obtains s' where "delKid a i s = Some s'"
    and "replaced E f s {} (G a xt gs) s' (G a xt (remove_at i gs)) zero_notifier (set (addrs (gs ! i))) W"
    and "absh hf s' (G a xt (remove_at i gs)) =
           RT (prefix (nodes s a)) (map_option (\<lambda>v. hf v xt) (value_at (nodes s a)))
             (remove_at i (map (absh hf s) gs))"
proof -
  let ?n = "nodes s a" and ?gs = "remove_at i gs"
  have d: "distinct (a # concat (map addrs gs))" and a: "a < next_node s" using t by (simp_all add: trep_G)
  have nk: "nkids ?n = length gs" using rep_nkids [OF trepD(1) [OF t]] by simp
  have ok: "node_ok ?n (map (lab_at s) gs)" and oo: "own_ok E ?n" using t by (simp_all add: trep_G)
  have le: "nkids ?n \<le> length (arr ?n)" using ok by (simp add: node_ok_def)
  have kid: "arr ?n ! i = Some (ad (gs ! i))"
    using rep_kid [OF trepD(1) [OF t]] i nk by (simp add: kid_def)
  obtain q where q: "prefix (nodes s (ad (gs ! i))) = lab_at s (gs ! i) # q"
    using p by (cases "prefix (nodes s (ad (gs ! i)))") (auto simp: lab_at_def)
  obtain m where m: "delKid a i s = Some (put_node a m s)" "nkids m = nkids ?n - 1"
    "kidList m = remove_at i (kidList ?n)" "length (arr m) = length (arr ?n)"
    "bitmap m = bm_del (bitmap ?n) (lab_at s (gs ! i))" "prefix m = prefix ?n"
    "val m = val ?n" "leafp m = leafp ?n" "nwatch m = nwatch ?n" "epoch m = epoch ?n"
    using delKid_put [OF _ le kid q] i nk by auto
  let ?s' = "put_node a m s"
  have hv: "hasValue m = hasValue ?n" "leafOwned m = leafOwned ?n" "value_at m = value_at ?n" "own_e E m"
    "own_ok E m"
    using m(7,8,10) o oo by (simp_all add: hasValue_def leafOwned_def value_at_def own_e_def own_ok_def)
  have "eff E f s {a} zero_notifier ?s'" by (rule eff_put) (use o m in auto)
  then have e: "eff E f s ({} \<union> {a}) zero_notifier ?s'" by simp
  note sk = shape_kids [OF t e]
  have sub: "g \<in> set gs" if "g \<in> set ?gs" for g using that set_remove_at_subset by fast
  have lab: "map (lab_at ?s') ?gs = remove_at i (map (lab_at s) gs)"
    using sk(3) sub by (simp add: map_remove_at [symmetric])
  have heir: "heir E s ?s' a a" using o hv m(8) by (simp add: heir_def)
  have "replaced E f s {} (G a xt gs) ?s' (G a xt ?gs) zero_notifier (set (addrs (gs ! i))) W"
  proof (rule replaced_shape [OF t e])
    show "kidList (nodes ?s' a) = map (\<lambda>g. Some (ad g)) ?gs"
      using m(3) t by (simp add: trep_G map_remove_at)
    show "node_ok (nodes ?s' a) (map (lab_at ?s') ?gs)"
      unfolding lab using ok m nk hv le bm.enum_del [of "bitmap ?n" "map (lab_at s) gs" i] i
      by (simp add: node_ok_def)
    show "distinct (a # concat (map addrs ?gs))"
      using d distinct_concat_remove [of addrs gs i] sub by auto
    show "set (addrs (gs ! i)) = (\<Union>g \<in> set gs - set ?gs. set (addrs g))"
      using set_remove_at [OF distinct_kids i] d by simp
    show "own_ok E (nodes ?s' a)" using hv(5) by simp
  qed (use o hv(1) heir sub in simp_all)
  moreover have "absh hf ?s' (G a xt ?gs) =
           RT (prefix ?n) (map_option (\<lambda>v. hf v xt) (value_at ?n)) (remove_at i (map (absh hf s) gs))"
  proof -
    have "map (absh hf ?s') gs = map (absh hf s) gs" by (simp add: sk(1))
    then have "map (absh hf ?s') ?gs = remove_at i (map (absh hf s) gs)" unfolding map_remove_at by (rule arg_cong)
    then show ?thesis using m(6) hv(3) by simp
  qed
  ultimately show ?thesis using that m(1) by blast
qed

end
