(* ===== verification/Cow_Split.thy ===== *)
theory Cow_Split
  imports Cow_Kids
begin

text \<open>
  The two restructurings of \<^verbatim>\<open>txn.go\<close>: \<open>splitChild\<close>, which divides a child's path segment, and
  \<open>mergeChild\<close>, which joins a node's segment with that of its only remaining child.
\<close>

lemma prefix_upd [simp]:
  "hasValue (n\<lparr>prefix := q\<rparr>) = hasValue n" "leafOwned (n\<lparr>prefix := q\<rparr>) = leafOwned n"
  "own_e E (n\<lparr>prefix := q\<rparr>) = own_e E n" "value_at (n\<lparr>prefix := q\<rparr>) = value_at n"
  "node_ok (n\<lparr>prefix := q\<rparr>) ls = node_ok n ls" "own_ok E (n\<lparr>prefix := q\<rparr>) = own_ok E n"
  by (simp_all add: hasValue_def leafOwned_def own_e_def value_at_def node_ok_def own_ok_def)

lemma trimPrefix_eq: "trimPrefix n k = n\<lparr>prefix := drop k (prefix n)\<rparr>"
  by (simp add: trimPrefix_def)

section \<open>Splitting a child\<close>

text \<open>The node that is to be trimmed: the child itself when owned, a recorded copy otherwise.\<close>

definition trimmed_of :: "txn \<Rightarrow> addr \<Rightarrow> 'v store \<Rightarrow> (addr \<times> 'v store) option" where
  "trimmed_of t ch s =
     (if owns t (nodes s ch) then Some (ch, s)
      else do { (c, s) \<leftarrow> copyNode t ch 0 s; Some (c, dropNode t ch s) })"

lemma trimmed_spec:
  assumes t: "trep (tepoch t) s (G a xt gs)" and E: "epoch_ok (tepoch t)"
  obtains c s1 D where "trimmed_of t a s = Some (c, s1)" and "\<And>X. eff (tepoch t) (tnf t) s X D s1"
    and "c = a \<and> own_e (tepoch t) (nodes s a) \<or> next_node s \<le> c \<and> c < next_node s1"
    and "set (nf_nodes D) = (if own_e (tepoch t) (nodes s a) then {} else {a})"
    and "nf_leaves D = []" and "nf_values D = []" and "nf_subtrees D = []"
    and "prefix (nodes s1 c) = prefix (nodes s a)" and "kidList (nodes s1 c) = kidList (nodes s a)"
    and "node_ok (nodes s1 c) (map (lab_at s) gs)" and "own_ok (tepoch t) (nodes s1 c)"
    and "own_e (tepoch t) (nodes s1 c)" and "hasValue (nodes s1 c) = hasValue (nodes s a)"
    and "value_at (nodes s1 c) = value_at (nodes s a)"
    and "hasValue (nodes s a) \<Longrightarrow> heir (tepoch t) s s1 a c"
    and "\<And>b. b \<noteq> a \<Longrightarrow> b \<noteq> c \<Longrightarrow> nodes s1 b = nodes s b" and "prefix (nodes s1 a) = prefix (nodes s a)"
proof -
  let ?E = "tepoch t" and ?n = "nodes s a" and ?ls = "map (lab_at s) gs"
  note r = trepD(1) [OF t]
  have a: "a < next_node s" and ok: "node_ok ?n ?ls" and oo: "own_ok ?E ?n" using t by (simp_all add: trep_G)
  have nk: "nkids ?n = length gs" using rep_nkids [OF r] by simp
  then have len: "length ?ls = nkids ?n" by simp
  have g256: "nkids ?n \<le> 256" using kids_256 [OF r] nk by simp
  show thesis
  proof (cases "own_e ?E ?n")
    case True
    then show ?thesis using that [of a s zero_notifier] ok oo
      by (simp add: trimmed_of_def owns_own_e eff_refl heir_def)
  next
    case False
    obtain s1 where cp: "copyNode t a 0 s = Some (next_node s, s1)"
      "\<And>f X. eff ?E f s X zero_notifier s1" "next_node s1 = Suc (next_node s)"
      "copied ?E ?n (nodes s1 a) (nodes s1 (next_node s))"
      "\<And>b. b \<noteq> a \<Longrightarrow> b \<noteq> next_node s \<Longrightarrow> nodes s1 b = nodes s b"
      using copyNode_spec [OF E ok len g256 a, of 0] by metis
    let ?c = "next_node s" and ?s2 = "dropNode t a s1"
    note cd = copiedD [OF cp(4)]
    have e2: "eff ?E (tnf t) s X (d_node a) ?s2" for X
    proof -
      have "eff ?E (tnf t) s {} (d_node a) ?s2"
        by (rule eff_trans_weaken [OF cp(2) [where X = "{}"] eff_drop(1) [where X = "{}"]]) auto
      then show ?thesis by (rule eff_weaken) simp
    qed
    have lf: "leafp (nodes ?s2 ?c) = leafp (nodes ?s2 a)" "leafp (nodes ?s2 ?c) \<noteq> None" if "hasValue ?n"
      using cd(11) cd(12) [OF that False] that by simp_all
    have hr: "heir ?E s ?s2 a ?c" if "hasValue ?n" using cd(5,8) lf [OF that] False by (simp add: heir_def)
    have sn: "prefix (nodes s1 a) = prefix ?n" using cd(13) by (simp add: same_node_def)
    show ?thesis
    proof (rule that [of ?c ?s2 "d_node a"])
      show "trimmed_of t a s = Some (?c, ?s2)" using False cp(1) by (simp add: trimmed_of_def owns_own_e)
      show "own_ok ?E (nodes ?s2 ?c)" using cd(6,8) lf(2) by (simp add: own_ok_def)
      show "node_ok (nodes ?s2 ?c) ?ls" using cd(9) [OF len ok] by simp
    qed (use e2 hr cd cp(3,5) False sn in simp_all)
  qed
qed

lemma splitChild_unfold:
  "splitChild t n idx ch common search v s =
     do { (trimmed, s) \<leftarrow> trimmed_of t ch s;
          let (split, s) = alloc_node ((newNode (build s) 2)\<lparr>epoch := tepoch t, prefix := take common (prefix (nodes s ch))\<rparr>) s;
          let s = upd_node trimmed (\<lambda>m. trimPrefix m common) s;
          s \<leftarrow> setKidAt n idx split s;
          rest \<leftarrow> slice_from search common;
          lt \<leftarrow> byte0 (prefix (nodes s trimmed));
          s \<leftarrow> (if rest = [] then do {
                 let s = upd_node split
                           (\<lambda>m. m\<lparr>val := v, epoch := epoch m OR (valueBit OR leafOwnedBit)\<rparr>) s;
                 s \<leftarrow> setKidCountAt split 1 s;
                 setKidAt split 0 trimmed s }
               else do {
                 let (added, s) = leafNode t rest v s;
                 s \<leftarrow> setKidCountAt split 2 s;
                 la \<leftarrow> byte0 (prefix (nodes s added));
                 s \<leftarrow> (if la < lt
                       then do { s \<leftarrow> setKidAt split 0 added s; setKidAt split 1 trimmed s }
                       else do { s \<leftarrow> setKidAt split 0 trimmed s; setKidAt split 1 added s });
                 Some (addLabel split la s) });
          Some (addLabel split lt s) }"
  by (simp only: splitChild_def trimmed_of_def Let_def cloneSegment_eq if_cancel)

text \<open>
  The final store of a split: the trimmed child, the new node above it, and below that the new leaf
  when the key goes on.
\<close>

lemma splitChild_spec:
  fixes s :: "'v store"
  assumes E: "epoch_ok (tepoch t)" and t: "trep (tepoch t) s (G n xn gs)" and o: "own_e (tepoch t) (nodes s n)"
    and i: "i < length gs" and gi: "gs ! i = G ch cx hs"
    and common: "0 < common" "common < length (prefix (nodes s ch))" "common \<le> length search"
  obtains s' c p l D m where "splitChild t n i ch common search v s = Some s'"
    and "eff (tepoch t) (tnf t) s {n, ch} D s'"
    and "c = ch \<and> own_e (tepoch t) (nodes s ch) \<or> next_node s \<le> c \<and> c < next_node s'"
    and "next_node s \<le> p" "p < next_node s'" "p \<noteq> c"
    and "set (nf_nodes D) = (if own_e (tepoch t) (nodes s ch) then {} else {ch})"
    and "nf_leaves D = []" and "nf_values D = []" and "nf_subtrees D = []"
    and "nodes s' n = (nodes s n)\<lparr>arr := (arr (nodes s n))[i := Some p]\<rparr>"
    and "prefix (nodes s' c) = drop common (prefix (nodes s ch))" and "kidList (nodes s' c) = kidList (nodes s ch)"
    and "node_ok (nodes s' c) (map (lab_at s) hs)" and "own_ok (tepoch t) (nodes s' c)"
    and "hasValue (nodes s' c) = hasValue (nodes s ch)" and "value_at (nodes s' c) = value_at (nodes s ch)"
    and "hasValue (nodes s ch) \<Longrightarrow> heir (tepoch t) s s' ch c"
    and "own_e (tepoch t) (nodes s' p)" and "prefix (nodes s' p) = take common (prefix (nodes s ch))"
    and "if drop common search = [] then
           kidList (nodes s' p) = [Some c] \<and> value_at (nodes s' p) = Some v \<and>
           node_ok (nodes s' p) [hd (drop common (prefix (nodes s ch)))] \<and> own_ok (tepoch t) (nodes s' p) \<and>
           leafOwned (nodes s' p)
         else
           l \<noteq> c \<and> l \<noteq> p \<and> l \<noteq> n \<and> next_node s \<le> l \<and> l < next_node s' \<and> \<not> hasValue (nodes s' p) \<and>
           kidList (nodes s' l) = [] \<and> node_ok (nodes s' l) [] \<and> own_ok (tepoch t) (nodes s' l) \<and> prefix (nodes s' l) = drop common search \<and>
           value_at (nodes s' l) = Some v \<and> leafOwned (nodes s' l) \<and> own_e (tepoch t) (nodes s' l) \<and>
           (let la = hd (drop common search); lc = hd (drop common (prefix (nodes s ch))) in
            la \<noteq> lc \<longrightarrow>
              kidList (nodes s' p) = (if la < lc then [Some l, Some c] else [Some c, Some l]) \<and>
              node_ok (nodes s' p) (if la < lc then [la, lc] else [lc, la]))"
proof -
  let ?E = "tepoch t" and ?f = "tnf t" and ?pre = "prefix (nodes s ch)"
  have gin: "gs ! i \<in> set gs" using i by simp
  have tc: "trep ?E s (G ch cx hs)" using trep_kid [OF t gin] gi by simp
  have d: "distinct (n # concat (map addrs gs))" and nlt: "n < next_node s" using t by (simp_all add: trep_G)
  have nch: "n \<noteq> ch" using d gin gi by auto
  have chlt: "ch < next_node s" using tc by (simp add: trep_G)
  have nkn: "nkids (nodes s n) = length gs" using rep_nkids [OF trepD(1) [OF t]] by simp
  obtain c s1 D where A: "trimmed_of t ch s = Some (c, s1)" "\<And>X. eff ?E ?f s X D s1"
    "c = ch \<and> own_e ?E (nodes s ch) \<or> next_node s \<le> c \<and> c < next_node s1"
    "set (nf_nodes D) = (if own_e ?E (nodes s ch) then {} else {ch})"
    "nf_leaves D = []" "nf_values D = []" "nf_subtrees D = []"
    "prefix (nodes s1 c) = ?pre" "kidList (nodes s1 c) = kidList (nodes s ch)"
    "node_ok (nodes s1 c) (map (lab_at s) hs)" "own_ok ?E (nodes s1 c)"
    "own_e ?E (nodes s1 c)" "hasValue (nodes s1 c) = hasValue (nodes s ch)"
    "value_at (nodes s1 c) = value_at (nodes s ch)"
    "hasValue (nodes s ch) \<Longrightarrow> heir ?E s s1 ch c"
    "\<And>b. b \<noteq> ch \<Longrightarrow> b \<noteq> c \<Longrightarrow> nodes s1 b = nodes s b" "prefix (nodes s1 ch) = ?pre"
    by (rule trimmed_spec [OF tc E]) blast
  let ?tr = "drop common ?pre" and ?rest = "drop common search"
  define k where "k = size_class (build s1) 2"
  have k: "2 \<le> k" using size_class_ge [of 2 "build s1"] by (simp add: k_def)
  define F0 :: "'v node" where
    "F0 = (newNode (build s1) 2)\<lparr>epoch := ?E, prefix := take common ?pre\<rparr>"
  have F0: "prefix F0 = take common ?pre" "arr F0 = replicate k None" "nkids F0 = 0" "bitmap F0 = bm_zero"
    "val F0 = None" "leafp F0 = None" "nwatch F0 = None" "epoch F0 = ?E"
    by (simp_all add: F0_def newNode_def zero_node_def k_def)
  have oF: "own_e ?E F0" using E F0(8) by (simp add: own_e_def epoch_okD)
  obtain p s2 where B: "alloc_node F0 s1 = (p, s2)" by (cases "alloc_node F0 s1")
  note al = alloc_node_simps [OF B]
  have n1: "next_node s \<le> next_node s1" using eff_next [OF A(2)] .
  have ne: "p \<noteq> c" "p \<noteq> n" "p \<noteq> ch" "n \<noteq> c" "next_node s \<le> p"
    using A(3) chlt nlt nch n1 al(1) by auto
  define T where "T = trimPrefix (nodes s1 c) common"
  define N where "N = (nodes s n)\<lparr>arr := (arr (nodes s n))[i := Some p]\<rparr>"
  define s4 where "s4 = put_node n N (put_node c T s2)"
  have nn: "nodes s1 n = nodes s n" using A(16) nch ne(4) by simp
  have n4: "nodes s4 p = F0" "nodes s4 c = T" "nodes s4 n = N" "next_node s4 = Suc p"
    using al ne by (simp_all add: s4_def)
  have T: "prefix T = ?tr" "kidList T = kidList (nodes s ch)" "hasValue T = hasValue (nodes s ch)"
    "value_at T = value_at (nodes s ch)" "own_e ?E T" "node_ok T (map (lab_at s) hs)" "own_ok ?E T"
    "leafp T = leafp (nodes s1 c)" "leafOwned T = leafOwned (nodes s1 c)"
    using A(8-14) by (simp_all add: T_def trimPrefix_eq)
  have e4: "eff ?E ?f s {n, ch} D s4"
  proof -
    have "eff ?E ?f s {} D s2"
      by (rule eff_trans_weaken [OF A(2) [of "{}"] eff_alloc(1) [OF B oF F0(7)]]) auto
    moreover have "eff ?E ?f s2 {c} zero_notifier (put_node c T s2)"
      using A(12) al ne by (intro eff_put) (simp_all add: T_def trimPrefix_def)
    ultimately have "eff ?E ?f s {ch} D (put_node c T s2)"
      by (rule eff_trans_weaken) (use A(3) in auto)
    moreover have "eff ?E ?f (put_node c T s2) {n} zero_notifier s4"
      unfolding s4_def by (rule eff_put) (use o al ne nn n1 nlt in \<open>simp_all add: N_def\<close>)
    ultimately show ?thesis by (rule eff_trans_weaken) auto
  qed
  have C: "setKidAt n i p (upd_node c (\<lambda>m. trimPrefix m common) s2) = Some s4"
  proof -
    have "nodes (put_node c T s2) n = nodes s n" "nodes s2 c = nodes s1 c" using al ne nn nlt n1 by simp_all
    then show ?thesis using i nkn by (simp add: setKidAt_put upd_node_put s4_def N_def T_def)
  qed
  have lt: "byte0 (prefix (nodes s4 c)) = Some (hd ?tr)"
    using T(1) n4(2) common(2) by (cases ?tr) (simp_all add: byte0_def)
  have heir: "heir ?E s S ch c" if "hasValue (nodes s ch)" "nodes S c = T" "leafp (nodes S ch) = leafp (nodes s1 ch)" for S
    using A(15) [OF that(1)] that(2,3) T(5,8,9) A(12) unfolding heir_def by (auto iff del: not_None_eq)
  have ch4: "leafp (nodes s4 ch) = leafp (nodes s1 ch)"
    using al ne nch chlt n1 T(8) by (simp add: s4_def)
  have pre: "splitChild t n i ch common search v s =
     do { s \<leftarrow> (if ?rest = [] then do {
                 let s = upd_node p (\<lambda>m. m\<lparr>val := v, epoch := epoch m OR (valueBit OR leafOwnedBit)\<rparr>) s4;
                 s \<leftarrow> setKidCountAt p 1 s;
                 setKidAt p 0 c s }
               else do {
                 let (added, s) = leafNode t ?rest v s4;
                 s \<leftarrow> setKidCountAt p 2 s;
                 la \<leftarrow> byte0 (prefix (nodes s added));
                 s \<leftarrow> (if la < hd ?tr
                       then do { s \<leftarrow> setKidAt p 0 added s; setKidAt p 1 c s }
                       else do { s \<leftarrow> setKidAt p 0 c s; setKidAt p 1 added s });
                 Some (addLabel p la s) });
          Some (addLabel p (hd ?tr) s) }"
    unfolding splitChild_unfold using A(1,17) B C lt common(3) by (simp add: F0_def Let_def)
  have bnd: "c < next_node s4" "p < next_node s4" "n < next_node s4"
    using A(3) chlt nlt n1 n4(4) al(1) by auto
  have cc: "c = ch \<and> own_e ?E (nodes s ch) \<or> next_node s \<le> c" using A(3) by blast
  show ?thesis
  proof (cases "?rest = []")
    case True
    define F where "F = F0\<lparr>val := v, epoch := ?E OR (valueBit OR leafOwnedBit), nkids := 1,
        arr := (arr F0)[0 := Some c], bitmap := bm_add bm_zero (hd ?tr)\<rparr>"
    let ?S = "put_node p F s4"
    have "splitChild t n i ch common search v s = Some ?S"
      unfolding pre using True k F0 n4(1)
      by (simp add: setKidAt_put setKidCountAt_put addLabel_put upd_node_put Let_def F_def)
    moreover have "eff ?E ?f s {n, ch} D ?S"
    proof -
      have "eff ?E ?f s4 {p} zero_notifier ?S"
        by (rule eff_put) (use n4(1) oF F0 E in \<open>simp_all add: F_def epoch_okD\<close>)
      then show ?thesis by (rule eff_trans_weaken [OF e4]) (use ne(5) in auto)
    qed
    moreover have "kidList F = [Some c]"
      using k F0 by (cases k) (simp_all add: F_def kidList_def)
    moreover have "value_at F = Some v" "own_e ?E F" "own_ok ?E F" "leafOwned F" "hasValue F"
      using F0 E by (simp_all add: F_def value_at_def own_e_def own_ok_def epoch_okD hasValue_bit leafOwned_bit)
    moreover have "node_ok F [hd ?tr]"
      using k F0 \<open>hasValue F\<close> by (simp add: F_def node_ok_def bm.enum_def bm.labels_add bm.labels_empty)
    moreover have "prefix F = take common ?pre" using F0 by (simp add: F_def)
    moreover have "nodes ?S c = T" "nodes ?S n = N" "nodes ?S p = F" "leafp (nodes ?S ch) = leafp (nodes s1 ch)"
      using n4 ne ch4 by simp_all
    ultimately show ?thesis
      using that [of ?S D c p] cc A(4-7) bnd ne T True heir [of ?S] unfolding N_def by simp
  next
    case False
    obtain l s5 where L: "leafNode t ?rest v s4 = (l, s5)" by fastforce
    note lf = leafNode_spec [OF E L]
    have nel: "l \<noteq> p" "l \<noteq> c" "l \<noteq> n" "l \<noteq> ch" "next_node s \<le> l"
      using lf(1) bnd chlt n1 n4(4) al(1) by auto
    have n5: "nodes s5 p = F0" "nodes s5 c = T" "nodes s5 n = N" "nodes s5 ch = nodes s4 ch"
      using lf(4) nel n4 by metis+
    let ?la = "hd ?rest" and ?lc = "hd ?tr"
    have la: "byte0 (prefix (nodes s5 l)) = Some ?la"
      using lf(5) False by (cases ?rest) (simp_all add: byte0_def)
    define F where "F = F0\<lparr>nkids := 2,
        arr := (if ?la < ?lc then (arr F0)[0 := Some l, 1 := Some c] else (arr F0)[0 := Some c, 1 := Some l]),
        bitmap := bm_add (bm_add bm_zero ?la) ?lc\<rparr>"
    let ?S = "put_node p F s5"
    have "splitChild t n i ch common search v s = Some ?S"
      unfolding pre using False k F0 n5(1) L la nel(1)
      by (simp add: setKidAt_put setKidCountAt_put addLabel_put upd_node_put Let_def F_def)
    moreover have "eff ?E ?f s {n, ch} D ?S"
    proof -
      have e5: "eff ?E ?f s {n, ch} D s5" by (rule eff_trans_weaken [OF e4 lf(2) [where X = "{}"]]) auto
      have "eff ?E ?f s5 {p} zero_notifier ?S"
        by (rule eff_put) (use n5(1) oF F0 E in \<open>simp_all add: F_def epoch_okD\<close>)
      then show ?thesis by (rule eff_trans_weaken [OF e5]) (use ne(5) in auto)
    qed
    moreover have kF: "kidList F = (if ?la < ?lc then [Some l, Some c] else [Some c, Some l])"
    proof -
      obtain j where j: "k = Suc (Suc j)" using k by (metis Suc_le_D numeral_2_eq_2 Suc_le_mono)
      show ?thesis using F0 by (simp add: F_def kidList_def j)
    qed
    moreover have F: "own_e ?E F" "own_ok ?E F" "\<not> hasValue F" "prefix F = take common ?pre" "\<not> leafOwned F"
      "val F = None" "leafp F = None" "length (arr F) = k" "nkids F = 2"
      using F0 epoch_ok_bits [OF E] E
      by (simp_all add: F_def own_e_def own_ok_def epoch_okD hasValue_bit leafOwned_bit)
    moreover have "node_ok F (if ?la < ?lc then [?la, ?lc] else [?lc, ?la])" if "?la \<noteq> ?lc"
      using that k F by (auto simp: node_ok_def bm.enum_def F_def bm.labels_add bm.labels_empty)
    moreover have "nodes ?S c = T" "nodes ?S n = N" "nodes ?S p = F" "leafp (nodes ?S ch) = leafp (nodes s1 ch)"
      "nodes ?S l = nodes s5 l"
      using n5 nel ne ch4 by simp_all
    moreover have "kidList (nodes s5 l) = []" "node_ok (nodes s5 l) []" "own_ok ?E (nodes s5 l)"
      using lf(6) [of v] by (simp_all add: trep_G)
    moreover have "value_at (nodes s5 l) = Some v" using lf(7) [of "\<lambda>v x. Some v" v] by simp
    ultimately show ?thesis
      using that [of ?S D c p l] cc A(4-7) bnd ne nel T False heir [of ?S] lf(1,3,5,9,10) unfolding N_def
      by (simp add: Let_def)
  qed
qed

lemma replaced_split:
  fixes s :: "'v store"
  assumes E: "epoch_ok (tepoch t)" and t: "trep (tepoch t) s (G n xn gs)" and o: "own_e (tepoch t) (nodes s n)"
    and i: "i < length gs" and gi: "gs ! i = G ch cx hs"
    and common: "0 < common" "common < length (prefix (nodes s ch))" "common \<le> length search"
    and diff: "drop common search \<noteq> [] \<Longrightarrow> hd (drop common search) \<noteq> hd (drop common (prefix (nodes s ch)))"
  obtains s' g' D where "splitChild t n i ch common search v s = Some s'"
    and "replaced (tepoch t) (tnf t) s {} (G n xn gs) s' (G n xn (gs[i := g'])) D {} {y}"
    and "absh hf s' (G n xn (gs[i := g'])) =
           RT (prefix (nodes s n)) (map_option (\<lambda>v. hf v xn) (value_at (nodes s n)))
             ((map (absh hf s) gs)[i := split_node common search (hf v y) (absh hf s (gs ! i))])"
proof -
  let ?E = "tepoch t" and ?f = "tnf t" and ?pre = "prefix (nodes s ch)"
  let ?rest = "drop common search" and ?tr = "drop common ?pre"
  have gin: "gs ! i \<in> set gs" using i by simp
  have tc: "trep ?E s (G ch cx hs)" using trep_kid [OF t gin] gi by simp
  have d: "distinct (n # concat (map addrs gs))" and nlt: "n < next_node s" using t by (simp_all add: trep_G)
  have dc: "distinct (ch # concat (map addrs hs))" and chlt: "ch < next_node s" using tc by (simp_all add: trep_G)
  have nh: "{n} \<inter> set (addrs (G ch cx hs)) = {}" using d gin gi by auto
  obtain s' c p l D m where S: "splitChild t n i ch common search v s = Some s'"
    and e: "eff ?E ?f s {n, ch} D s'"
    and c: "c = ch \<and> own_e ?E (nodes s ch) \<or> next_node s \<le> c \<and> c < next_node s'"
    and p: "next_node s \<le> p" "p < next_node s'" "p \<noteq> c"
    and D: "set (nf_nodes D) = (if own_e ?E (nodes s ch) then {} else {ch})"
      "nf_leaves D = []" "nf_values D = []" "nf_subtrees D = []"
    and N: "nodes s' n = (nodes s n)\<lparr>arr := (arr (nodes s n))[i := Some p]\<rparr>"
    and C: "prefix (nodes s' c) = ?tr" "kidList (nodes s' c) = kidList (nodes s ch)"
      "node_ok (nodes s' c) (map (lab_at s) hs)" "own_ok ?E (nodes s' c)"
      "hasValue (nodes s' c) = hasValue (nodes s ch)" "value_at (nodes s' c) = value_at (nodes s ch)"
      "hasValue (nodes s ch) \<Longrightarrow> heir ?E s s' ch c"
    and P: "own_e ?E (nodes s' p)" "prefix (nodes s' p) = take common ?pre"
    and R: "if ?rest = [] then
           kidList (nodes s' p) = [Some c] \<and> value_at (nodes s' p) = Some v \<and>
           node_ok (nodes s' p) [hd ?tr] \<and> own_ok ?E (nodes s' p) \<and> leafOwned (nodes s' p)
         else
           l \<noteq> c \<and> l \<noteq> p \<and> l \<noteq> n \<and> next_node s \<le> l \<and> l < next_node s' \<and> \<not> hasValue (nodes s' p) \<and>
           kidList (nodes s' l) = [] \<and> node_ok (nodes s' l) [] \<and> own_ok ?E (nodes s' l) \<and>
           prefix (nodes s' l) = ?rest \<and>
           value_at (nodes s' l) = Some v \<and> leafOwned (nodes s' l) \<and> own_e ?E (nodes s' l) \<and>
           (let la = hd ?rest; lc = hd ?tr in
            la \<noteq> lc \<longrightarrow>
              kidList (nodes s' p) = (if la < lc then [Some l, Some c] else [Some c, Some l]) \<and>
              node_ok (nodes s' p) (if la < lc then [la, lc] else [lc, la]))"
    by (rule splitChild_spec [OF E t o i gi common]) blast
  have e': "eff ?E ?f s ({n} \<union> {ch}) D s'" using e by (simp add: insert_commute)
  note sk = shape_kids [OF tc e' nh]
  have labs: "map (lab_at s') hs = map (lab_at s) hs" by (simp add: sk(3))
  have cfresh: "c = ch \<or> next_node s \<le> c" using c by blast
  have hb: "b < next_node s" if "g \<in> set hs" "b \<in> set (addrs g)" for g b
    using trep_bound [OF trep_kid [OF tc that(1)] that(2)] .
  have dist: "distinct (c # concat (map addrs hs))" using dc cfresh hb by fastforce
  have rc: "replaced ?E ?f s {n} (G ch cx hs) s' (G c cx hs) D {} {y}"
  proof (rule replaced_shape [OF tc e' nh c])
    show "kidList (nodes s' c) = map (\<lambda>g. Some (ad g)) hs" using C(2) tc by (simp add: trep_G)
    show "node_ok (nodes s' c) (map (lab_at s') hs)" using C(3) unfolding labs .
  qed (use C D dist in simp_all)
  let ?gc = "G c cx hs"
  have abc: "absh hf s' ?gc = RT ?tr (map_option (\<lambda>v. hf v cx) (value_at (nodes s ch))) (map (absh hf s) hs)"
    using C by (simp add: sk(1))
  have labc: "lab_at s' ?gc = hd ?tr" using C(1) by (simp add: lab_at_def)
  have pnot: "p \<notin> set (addrs ?gc)" using p hb by fastforce
  have abt: "absh hf s (G ch cx hs) = RT ?pre (map_option (\<lambda>v. hf v cx) (value_at (nodes s ch))) (map (absh hf s) hs)"
    by simp
  have "\<exists>gs'. replaced ?E ?f s {n} (G ch cx hs) s' (G p y gs') D {} {y} \<and>
      absh hf s' (G p y gs') = split_node common search (hf v y) (absh hf s (G ch cx hs))"
  proof (cases "?rest = []")
    case True
    with R have R': "kidList (nodes s' p) = [Some c]" "value_at (nodes s' p) = Some v"
      "node_ok (nodes s' p) [hd ?tr]" "own_ok ?E (nodes s' p)" "leafOwned (nodes s' p)" by simp_all
    have "replaced ?E ?f s {n} (G ch cx hs) s' (G p y [?gc]) D {} {y}"
    proof (rule replaced_wrap [OF tc rc p(1,2)])
      show "node_ok (nodes s' p) (map (lab_at s') [?gc])" using R'(3) labc by simp
      show "distinct (p # concat (map addrs [?gc]))" using pnot dist by simp
    qed (use R' P in auto)
    moreover have "absh hf s' (G p y [?gc]) = split_node common search (hf v y) (absh hf s (G ch cx hs))"
      unfolding absh.simps(1) [of _ _ p] list.map abc abt using True P(2) R'(2)
      by (simp add: split_node_def)
    ultimately show ?thesis by blast
  next
    case False
    let ?gl = "G l y []" and ?la = "hd ?rest" and ?lc = "hd ?tr"
    have ne: "?la \<noteq> ?lc" by (rule diff [OF False])
    from R False have R': "l \<noteq> c" "l \<noteq> p" "next_node s \<le> l" "l < next_node s'" "\<not> hasValue (nodes s' p)"
      "kidList (nodes s' l) = []" "node_ok (nodes s' l) []" "own_ok ?E (nodes s' l)"
      "prefix (nodes s' l) = ?rest" "value_at (nodes s' l) = Some v" "leafOwned (nodes s' l)" "own_e ?E (nodes s' l)"
      by simp_all
    from R False ne have R2: "kidList (nodes s' p) = (if ?la < ?lc then [Some l, Some c] else [Some c, Some l])"
      "node_ok (nodes s' p) (if ?la < ?lc then [?la, ?lc] else [?lc, ?la])"
      by (simp_all add: Let_def)
    let ?ks = "if ?la < ?lc then [?gl, ?gc] else [?gc, ?gl]"
    have lnot: "l \<notin> set (addrs ?gc)" using R'(1,3) hb by fastforce
    have tl: "trep ?E s' ?gl" using R' by (simp add: trep_G)
    have lab2: "lab_at s' ?gl = ?la" using R'(9) by (simp add: lab_at_def)
    have hl: "hasValue (nodes s' l)" using R'(10) by (simp add: value_at_def split: if_splits)
    have "replaced ?E ?f s {n} (G ch cx hs) s' (G p y ?ks) D {} {y}"
    proof (rule replaced_wrap [OF tc rc p(1,2)])
      show "kidList (nodes s' p) = map (\<lambda>g. Some (ad g)) ?ks" using R2(1) by simp
      show "node_ok (nodes s' p) (map (lab_at s') ?ks)" using R2(2) labc lab2 by (simp split: if_splits)
      show "own_ok ?E (nodes s' p)" using R'(5) by (simp add: own_ok_def)
      show "distinct (p # concat (map addrs ?ks))" using pnot dist lnot R'(2) by auto
      fix k assume "k \<in> set ?ks"
      then have "k = ?gc \<or> k = ?gl" by (auto split: if_splits)
      then show "k = ?gc \<or> trep ?E s' k \<and> set (addrs k) \<subseteq> {next_node s..} \<and>
          (\<forall>a' z. (a', z) \<in> vnodes s' k \<longrightarrow> z \<in> {y} \<and> own_e ?E (nodes s' a') \<and> leafOwned (nodes s' a'))"
        using tl R' hl by auto
    qed (use R' in auto)
    moreover have abl: "absh hf s' ?gl = RT ?rest (Some (hf v y)) []" using R'(9,10) by simp
    have "absh hf s' (G p y ?ks) = split_node common search (hf v y) (absh hf s (G ch cx hs))"
      unfolding absh.simps(1) [of _ _ p] if_distrib [of "map (absh hf s')"] list.map abc abt abl
      using False P(2) R'(5) by (simp add: split_node_def value_at_def lab_def)
    ultimately show ?thesis by blast
  qed
  then obtain gs' where g': "replaced ?E ?f s {n} (G ch cx hs) s' (G p y gs') D {} {y}"
    "absh hf s' (G p y gs') = split_node common search (hf v y) (absh hf s (G ch cx hs))" by blast
  have lab: "lab_at s' (G p y gs') = lab_at s (gs ! i)"
    using P(2) common gi by (cases ?pre; cases common) (simp_all add: lab_at_def)
  have pl: "nodes s' n = (nodes s n)\<lparr>arr := (arr (nodes s n))[i := Some (ad (G p y gs'))]\<rparr>" using N by simp
  have g'': "replaced ?E ?f s {n} (gs ! i) s' (G p y gs') D {} {y}" using g'(1) gi by simp
  from replaced_lift(1) [OF t o i g'' pl lab] replaced_lift(2) [OF t o i g'' pl lab, of hf] g'(2) gi S
  show ?thesis using that by simp
qed

section \<open>Merging a node with its only child\<close>

definition merged_of :: "txn \<Rightarrow> addr \<Rightarrow> addr \<Rightarrow> 'v store \<Rightarrow> (addr \<times> 'v store) option" where
  "merged_of t n c s =
     do { (m, s) \<leftarrow>
            (if childless (nodes s c) then
               let (m, s) = alloc_node ((newLeafNode (prefix (nodes s n)) (prefix (nodes s c)))
                                          \<lparr>val := val (nodes s c)\<rparr>) s;
                   (l, s) = shareLeaf t c s;
                   s = (if l \<noteq> None then upd_node m (\<lambda>k. k\<lparr>leafp := l\<rparr>) s else s);
                   s = upd_node m (\<lambda>k. k\<lparr>epoch := tepoch t OR valueBit\<rparr>) s;
                   s = (if owns t (nodes s c)
                        then upd_node m (\<lambda>k. k\<lparr>epoch := epoch k OR (epoch (nodes s c) AND leafOwnedBit)\<rparr>) s
                        else s)
               in Some (m, s)
             else if owns t (nodes s c) then
               Some (c, upd_node c (\<lambda>k. k\<lparr>prefix := prefix (nodes s n) @ prefix k\<rparr>) s)
             else do {
               (m, s) \<leftarrow> copyNode t c 0 s;
               Some (m, upd_node m (\<lambda>k. k\<lparr>prefix := prefix (nodes s n) @ prefix (nodes s c)\<rparr>) s) });
          Some (m, if \<not> owns t (nodes s c) then dropNode t c s else s) }"

lemma mergeChild_unfold:
  "mergeChild t parent pidx n c s = do { (m, s) \<leftarrow> merged_of t n c s; setKidAt parent pidx m s }"
proof -
  have "(bind x (\<lambda>(m, s). let s = h m s in k m s)) = bind (bind x (\<lambda>(m, s). Some (m, h m s))) (\<lambda>(m, s). k m s)"
    for x :: "('x \<times> 'y) option" and h and k :: "'x \<Rightarrow> 'y \<Rightarrow> 'z option"
    by (cases x) (auto simp: Let_def)
  then show ?thesis unfolding mergeChild_def merged_of_def .
qed

text \<open>A node that is only completed after its allocation.\<close>

lemma eff_alloc_later:
  assumes a: "alloc_node n s = (m, s1)" and e: "eff E f s1 X D s2" and F: "own_e E F" "nwatch F = None"
  shows "eff E f s X D (put_node m F s2)"
proof -
  note al = alloc_node_simps [OF a]
  have q: "quiet s s1" and l: "nf_log f s zero_notifier s1"
    using a by (auto simp: alloc_node_def quiet_def nf_log_def split: option.split)
  have q2: "quiet s s2" using quiet_trans [OF q] e by (simp add: eff_def)
  have l2: "nf_log f s D s2" using nf_log_trans [OF l] e by (fastforce simp: eff_def)
  have "modifies E s X (put_node m F s2)"
  proof -
    note m = e [unfolded eff_def modifies_def, THEN conjunct1]
    have old: "nodes s1 b = nodes s b" "b < next_node s1" "b \<noteq> m" if "b < next_node s" for b
      using that al by simp_all
    show ?thesis unfolding modifies_def put_node_simps
    proof (intro conjI allI impI)
      show "next_node s \<le> next_node s2" using m al by simp
    next
      fix b assume b: "b < next_node s"
      from m old [OF b]
      show "\<not> own_e E (nodes s b) \<Longrightarrow> same_node (nodes s b) (if b = m then F else nodes s2 b)"
        "own_e E (nodes s b) \<Longrightarrow> own_e E (if b = m then F else nodes s2 b)"
        "own_e E (nodes s b) \<Longrightarrow> b \<notin> X \<Longrightarrow> (if b = m then F else nodes s2 b) = nodes s b"
        "nwatch (if b = m then F else nodes s2 b) = nwatch (nodes s b)" by metis+
    next
      fix b assume b: "next_node s \<le> b \<and> b < next_node s2"
      then have "b = m \<or> next_node s1 \<le> b" using al by auto
      with m b F show "own_e E (if b = m then F else nodes s2 b)" "nwatch (if b = m then F else nodes s2 b) = None"
        by auto
    qed
  qed
  moreover have "quiet s (put_node m F s2)" "nf_log f s D (put_node m F s2)"
    using q2 l2 by (simp_all add: quiet_def nf_log_def put_node_def upd_node_def)
  ultimately show ?thesis by (simp add: eff_def)
qed

lemma merged_spec:
  fixes s :: "'v store"
  assumes t: "trep (tepoch t) s (G b y hs)" and E: "epoch_ok (tepoch t)" and n: "n < next_node s" "n \<noteq> b"
    and v: "hs = [] \<Longrightarrow> hasValue (nodes s b)"
  obtains m s1 D where "merged_of t n b s = Some (m, s1)" and "eff (tepoch t) (tnf t) s {b} D s1"
    and "m = b \<and> own_e (tepoch t) (nodes s b) \<or> next_node s \<le> m \<and> m < next_node s1"
    and "set (nf_nodes D) = (if own_e (tepoch t) (nodes s b) then {} else {b})"
    and "nf_leaves D = []" and "nf_values D = []" and "nf_subtrees D = []"
    and "prefix (nodes s1 m) = prefix (nodes s n) @ prefix (nodes s b)"
    and "kidList (nodes s1 m) = kidList (nodes s b)"
    and "node_ok (nodes s1 m) (map (lab_at s) hs)" and "own_ok (tepoch t) (nodes s1 m)"
    and "hasValue (nodes s1 m) = hasValue (nodes s b)" and "value_at (nodes s1 m) = value_at (nodes s b)"
    and "hasValue (nodes s b) \<Longrightarrow> heir (tepoch t) s s1 b m"
    and "\<And>k. k \<noteq> b \<Longrightarrow> k \<noteq> m \<Longrightarrow> nodes s1 k = nodes s k"
proof -
  let ?E = "tepoch t" and ?f = "tnf t" and ?b = "nodes s b" and ?ls = "map (lab_at s) hs"
  note r = trepD(1) [OF t]
  have b: "b < next_node s" and ok: "node_ok ?b ?ls" and oo: "own_ok ?E ?b" using t by (simp_all add: trep_G)
  have nk: "nkids ?b = length hs" using rep_nkids [OF r] by simp
  then have len: "length ?ls = nkids ?b" by simp
  have g256: "nkids ?b \<le> 256" using kids_256 [OF r] nk by simp
  have nb: "\<not> bit ?E 62" "\<not> bit ?E 63" using epoch_ok_bits [OF E] by auto
  consider (leaf) "hs = []" | (inplace) "hs \<noteq> []" "own_e ?E ?b" | (copy) "hs \<noteq> []" "\<not> own_e ?E ?b" by blast
  then show thesis
  proof cases
    case leaf
    have hv: "hasValue ?b" using v leaf by blast
    define N0 :: "'v node" where "N0 = (newLeafNode (prefix (nodes s n)) (prefix ?b))\<lparr>val := val ?b\<rparr>"
    obtain m s1 where al0: "alloc_node N0 s = (m, s1)" by (cases "alloc_node N0 s")
    note al = alloc_node_simps [OF al0]
    have mb: "m \<noteq> b" "m \<noteq> n" using al(1) b n by auto
    obtain l s2 where sh0: "shareLeaf t b s1 = (l, s2)" by fastforce
    have nb1: "nodes s1 b = ?b" using al mb by simp
    have hv1: "hasValue (nodes s1 b)" using hv nb1 by simp
    note sh = shareLeaf_spec [OF hv1 sh0]
    define e where "e = (if own_e ?E ?b then (?E OR valueBit) OR (epoch ?b AND leafOwnedBit) else ?E OR valueBit)"
    define F where "F = N0\<lparr>leafp := l, epoch := e\<rparr>"
    have N0: "prefix N0 = prefix (nodes s n) @ prefix ?b" "val N0 = val ?b" "leafp N0 = None" "nkids N0 = 0"
      "arr N0 = []" "bitmap N0 = bm_zero" "nwatch N0 = None" "epoch N0 = 0"
      by (simp_all add: N0_def newLeafNode_eq zero_node_def)
    have m2: "nodes s2 m = N0" using sh(4) [of m] mb al by simp
    have eb: "epoch (nodes s2 b) = epoch ?b" using sh(3) nb1 by (simp add: same_node_def)
    let ?s3 = "put_node m F s2"
    have st: "(if own_e ?E ?b then upd_node m (\<lambda>k. k\<lparr>epoch := epoch k OR (epoch ?b AND leafOwnedBit)\<rparr>)
          (put_node m (N0\<lparr>leafp := l, epoch := ?E OR valueBit\<rparr>) s2)
        else put_node m (N0\<lparr>leafp := l, epoch := ?E OR valueBit\<rparr>) s2) = ?s3"
      by (simp add: upd_node_put F_def e_def)
    have st1: "upd_node m (\<lambda>k. k\<lparr>epoch := ?E OR valueBit\<rparr>) (if l \<noteq> None then upd_node m (\<lambda>k. k\<lparr>leafp := l\<rparr>) s2 else s2)
        = put_node m (N0\<lparr>leafp := l, epoch := ?E OR valueBit\<rparr>) s2"
    proof -
      have "N0\<lparr>leafp := None\<rparr> = N0" using N0(3) by (cases N0) simp
      then show ?thesis using m2 by (auto simp: upd_node_put)
    qed
    let ?S = "if own_e ?E ?b then ?s3 else dropNode t b ?s3"
    have ow: "owns t (nodes (put_node m k s2) b) \<longleftrightarrow> own_e ?E ?b" "epoch (nodes (put_node m k s2) b) = epoch ?b" for k
      using eb mb by (simp_all add: owns_own_e own_e_def)
    have "merged_of t n b s =
        (let s3 = upd_node m (\<lambda>k. k\<lparr>epoch := ?E OR valueBit\<rparr>) (if l \<noteq> None then upd_node m (\<lambda>k. k\<lparr>leafp := l\<rparr>) s2 else s2);
             s4 = (if owns t (nodes s3 b)
                   then upd_node m (\<lambda>k. k\<lparr>epoch := epoch k OR (epoch (nodes s3 b) AND leafOwnedBit)\<rparr>) s3 else s3)
         in Some (m, if \<not> owns t (nodes s4 b) then dropNode t b s4 else s4))"
      using leaf al0 sh0 by (simp add: merged_of_def rep_childless [OF r, unfolded gtree.sel] N0_def [symmetric] Let_def)
    also have "\<dots> = (let s4 = ?s3 in Some (m, if \<not> owns t (nodes s4 b) then dropNode t b s4 else s4))"
      unfolding st1 Let_def ow st ..
    also have "\<dots> = Some (m, ?S)" unfolding Let_def ow by simp
    finally have "merged_of t n b s = Some (m, ?S)" .
    moreover have F: "own_e ?E F" "hasValue F" "leafOwned F \<longleftrightarrow> own_e ?E ?b \<and> leafOwned ?b" "leafp F = l"
      "val F = val ?b" "kidList F = []" "node_ok F []" "nwatch F = None" "prefix F = prefix (nodes s n) @ prefix ?b"
      using N0 E nb
      by (auto simp: F_def e_def own_e_def epoch_okD hasValue_bit leafOwned_bit kidList_def node_ok_def bm.enum_empty
          bit_and_iff bits_simps)
    moreover have lf: "l = leafp (nodes ?S b)" "own_e ?E ?b \<Longrightarrow> leafp (nodes ?S b) = leafp ?b" "\<not> own_e ?E ?b \<Longrightarrow> l \<noteq> None"
      using sh(2,6,7) nb1 mb al by auto
    moreover have "nodes ?S m = F" "next_node ?S = Suc m" using sh(5) al by simp_all
    moreover have "eff ?E ?f s {b} (if own_e ?E ?b then zero_notifier else d_node b) ?S"
    proof -
      have e3: "eff ?E ?f s {b} zero_notifier ?s3"
        by (rule eff_alloc_later [OF al0 sh(1) F(1,8)])
      have "eff ?E ?f s {b} (d_node b) (dropNode t b ?s3)"
        by (rule eff_trans_weaken [OF e3 eff_drop(1) [where X = "{b}"]]) auto
      with e3 show ?thesis by simp
    qed
    moreover have "nodes ?S k = nodes s k" if "k \<noteq> b" "k \<noteq> m" for k using that sh(4) al by simp
    moreover have "kidList ?b = []" "?ls = []" using leaf t by (simp_all add: trep_G)
    ultimately show ?thesis
      using that [of m ?S "if own_e ?E ?b then zero_notifier else d_node b"] hv al(1) leaf oo
      by (simp add: value_at_def own_ok_def heir_def)
  next
    case inplace
    let ?m = "?b\<lparr>prefix := prefix (nodes s n) @ prefix ?b\<rparr>"
    let ?S = "put_node b ?m s"
    have "merged_of t n b s = Some (b, ?S)"
      using inplace by (simp add: merged_of_def rep_childless [OF r, unfolded gtree.sel] owns_own_e upd_node_put)
    moreover have "eff ?E ?f s {b} zero_notifier ?S" by (rule eff_put) (use inplace in auto)
    ultimately show ?thesis
      using that [of b ?S zero_notifier] inplace ok oo by (simp add: heir_def)
  next
    case copy
    obtain s1 where cp: "copyNode t b 0 s = Some (next_node s, s1)"
      "\<And>f X. eff ?E f s X zero_notifier s1" "next_node s1 = Suc (next_node s)"
      "copied ?E ?b (nodes s1 b) (nodes s1 (next_node s))"
      "\<And>k. k \<noteq> b \<Longrightarrow> k \<noteq> next_node s \<Longrightarrow> nodes s1 k = nodes s k"
      using copyNode_spec [OF E ok len g256 b, of 0] by metis
    let ?c = "next_node s"
    note cd = copiedD [OF cp(4)]
    have n1: "nodes s1 n = nodes s n" using cp(5) n by simp
    have pb: "prefix (nodes s1 b) = prefix ?b" "own_e ?E (nodes s1 b) \<longleftrightarrow> own_e ?E ?b"
      using cd(13) by (simp_all add: same_node_def own_e_def)
    define F where "F = (nodes s1 ?c)\<lparr>prefix := prefix (nodes s n) @ prefix ?b\<rparr>"
    let ?S = "dropNode t b (put_node ?c F s1)"
    have "merged_of t n b s = Some (?c, ?S)"
      using copy cp(1) n1 pb b
      by (simp add: merged_of_def rep_childless [OF r, unfolded gtree.sel] owns_own_e upd_node_put F_def)
    moreover have "eff ?E ?f s {b} (d_node b) ?S"
    proof -
      have "eff ?E ?f s1 {?c} zero_notifier (put_node ?c F s1)"
        by (rule eff_put) (use cd(5) in \<open>simp_all add: F_def\<close>)
      then have "eff ?E ?f s {b} zero_notifier (put_node ?c F s1)"
        by (rule eff_trans_weaken [OF cp(2) [where X = "{}"]]) auto
      then show ?thesis by (rule eff_trans_weaken [OF _ eff_drop(1) [where X = "{b}"]]) auto
    qed
    moreover have lf: "leafp F = leafp (nodes s1 b)" "leafp F \<noteq> None" if "hasValue ?b"
      using cd(11) cd(12) [OF that copy(2)] that by (simp_all add: F_def)
    moreover have FF: "prefix F = prefix (nodes s n) @ prefix ?b" "kidList F = kidList ?b" "own_e ?E F"
      "hasValue F = hasValue ?b" "value_at F = value_at ?b" "\<not> leafOwned F" "node_ok F ?ls"
      using cd(2,5,6,7,8) cd(9) [OF len ok] by (simp_all add: F_def)
    moreover have "own_ok ?E F" using FF(4,6) lf(2) by (simp add: own_ok_def)
    moreover have "heir ?E s ?S b ?c" if "hasValue ?b"
      using FF(3,6) lf [OF that] copy b by (simp add: heir_def)
    moreover have "nodes ?S k = nodes s k" if "k \<noteq> b" "k \<noteq> ?c" for k using that cp(5) by simp
    ultimately show ?thesis using that [of ?c ?S "d_node b"] copy cp(3) by simp
  qed
qed

text \<open>
  \<open>mergeChild\<close> at one position of an owned parent: the node \<open>a\<close> and its other children, recorded
  elsewhere, give way to the child with the joined segment.
\<close>

lemma replaced_merge:
  fixes s :: "'v store"
  assumes t: "trep (tepoch t) s (G a xt gs)" and h: "at_hole t (Some q) pidx s (G a xt gs)"
    and E: "epoch_ok (tepoch t)" and j: "j < length gs" and gj: "gs ! j = G b y hs"
    and v: "hs = [] \<Longrightarrow> hasValue (nodes s b)"
    and Z: "Z = insert a (\<Union>k \<in> {..<length gs} - {j}. set (addrs (gs ! k)))"
  obtains s' m D where "mergeChild t q pidx a b s = Some s'"
    and "plugged (Some q) pidx t s m t s'"
    and "replaced (tepoch t) (tnf t) s {q} (G a xt gs) s' (G m y hs) D Z {}"
    and "absh hf s' (G m y hs) =
           RT (prefix (nodes s a) @ prefix (nodes s b)) (map_option (\<lambda>v. hf v y) (value_at (nodes s b)))
             (map (absh hf s) hs)"
    and "prefix (nodes s' m) = prefix (nodes s a) @ prefix (nodes s b)"
proof -
  let ?E = "tepoch t" and ?f = "tnf t"
  have gin: "gs ! j \<in> set gs" using j by simp
  have tb: "trep ?E s (G b y hs)" using trep_kid [OF t gin] gj by simp
  have q: "q < next_node s" "own_e ?E (nodes s q)" "q \<notin> set (addrs (G a xt gs))" "pidx < nkids (nodes s q)"
    using h by (simp_all add: at_hole_def)
  have d: "distinct (a # concat (map addrs gs))" and alt: "a < next_node s" using t by (simp_all add: trep_G)
  have db: "distinct (b # concat (map addrs hs))" using tb by (simp add: trep_G)
  have ab: "a \<noteq> b" using d gin gj by auto
  have qb: "{q} \<inter> set (addrs (G b y hs)) = {}" using q(3) gin gj by auto
  obtain m s1 D where M: "merged_of t a b s = Some (m, s1)" "eff ?E ?f s {b} D s1"
    "m = b \<and> own_e ?E (nodes s b) \<or> next_node s \<le> m \<and> m < next_node s1"
    "set (nf_nodes D) = (if own_e ?E (nodes s b) then {} else {b})"
    "nf_leaves D = []" "nf_values D = []" "nf_subtrees D = []"
    "prefix (nodes s1 m) = prefix (nodes s a) @ prefix (nodes s b)"
    "kidList (nodes s1 m) = kidList (nodes s b)"
    "node_ok (nodes s1 m) (map (lab_at s) hs)" "own_ok ?E (nodes s1 m)"
    "hasValue (nodes s1 m) = hasValue (nodes s b)" "value_at (nodes s1 m) = value_at (nodes s b)"
    "hasValue (nodes s b) \<Longrightarrow> heir ?E s s1 b m"
    "\<And>k. k \<noteq> b \<Longrightarrow> k \<noteq> m \<Longrightarrow> nodes s1 k = nodes s k"
    by (rule merged_spec [OF tb E alt ab v]) blast+
  have qm: "q \<noteq> m" "q \<noteq> b" using M(3) q(1) qb by auto
  have nq: "nodes s1 q = nodes s q" using M(15) qm by simp
  let ?N = "(nodes s q)\<lparr>arr := (arr (nodes s q))[pidx := Some m]\<rparr>"
  let ?S = "put_node q ?N s1"
  have S: "mergeChild t q pidx a b s = Some ?S"
    using M(1) q(4) nq by (simp add: mergeChild_unfold setKidAt_put)
  have "eff ?E ?f s1 {q} zero_notifier ?S" by (rule eff_put) (use q(2) nq in auto)
  then have e: "eff ?E ?f s ({q} \<union> {b}) D ?S" by (rule eff_trans_weaken [OF M(2)]) auto
  have nm: "nodes ?S m = nodes s1 m" "nodes ?S b = nodes s1 b" using qm by simp_all
  note sk = shape_kids [OF tb e qb]
  have labs: "map (lab_at ?S) hs = map (lab_at s) hs" by (simp add: sk(3))
  have mb: "m \<notin> set (addrs g)" if "g \<in> set hs" for g
    using M(3) trep_bound [OF trep_kid [OF tb that], of m] db that by auto
  have hc: "heir ?E s ?S b m \<longleftrightarrow> heir ?E s s1 b m" unfolding heir_def nm ..
  have rb: "replaced ?E ?f s {q} (G b y hs) ?S (G m y hs) D {} {}"
  proof (rule replaced_shape [OF tb e qb])
    show "m = b \<and> own_e ?E (nodes s b) \<or> next_node s \<le> m \<and> m < next_node ?S" using M(3) by simp
    show "kidList (nodes ?S m) = map (\<lambda>g. Some (ad g)) hs" using M(9) nm tb by (simp add: trep_G)
    show "node_ok (nodes ?S m) (map (lab_at ?S) hs)" using M(10) nm unfolding labs by simp
    show "own_ok ?E (nodes ?S m)" using M(11) nm by simp
    show "distinct (m # concat (map addrs hs))" using db mb by auto
    show "hasValue (nodes s b) \<Longrightarrow> y = y \<and> hasValue (nodes ?S m) \<and> heir ?E s ?S b m \<or> gone ?E s ?S D b"
      "hasValue (nodes ?S m) \<Longrightarrow> y \<in> {} \<and> own_e ?E (nodes ?S m) \<and> leafOwned (nodes ?S m) \<or>
          y = y \<and> hasValue (nodes s b) \<and> heir ?E s ?S b m"
      using M(12,14) nm(1) unfolding hc by simp_all
  qed (use M in simp_all)
  have "replaced ?E ?f s {q} (G a xt gs) ?S (G m y hs) D Z {}"
    using replaced_promote [OF t j _ Z, of ?f "{q}" ?S "G m y hs" D "{}"] rb gj by simp
  moreover have "absh hf ?S (G m y hs) =
           RT (prefix (nodes s a) @ prefix (nodes s b)) (map_option (\<lambda>v. hf v y) (value_at (nodes s b)))
             (map (absh hf s) hs)"
    using M(8,13) nm by (simp add: sk(1))
  moreover have "plugged (Some q) pidx t s m t ?S" by (simp add: plugged_def)
  moreover have "prefix (nodes ?S m) = prefix (nodes s a) @ prefix (nodes s b)" using M(8) nm by simp
  ultimately show ?thesis using that S by blast
qed

end
