(* ===== verification/Insertion.thy ===== *)
theory Insertion
  imports Cow_Split
begin

text \<open>
  \<open>Txn.Insert\<close> on the heap implements insertion into the abstract tree: the returned value is the one
  the key had, and the new tree reads as \<open>ins\<close> of the old one, whatever is read off values and tags.
\<close>

section \<open>The abstract shape does not depend on what is read\<close>

lemma lab_absh [simp]: "lab (absh h s g) = lab_at s g"
  by (cases g) (simp add: lab_at_def)

lemma lab_comp_absh [simp]: "lab \<circ> absh h s = lab_at s"
  by (simp add: fun_eq_iff)

lemma absh_sel [simp]:
  "seg (absh h s g) = prefix (nodes s (ad g))" "subs (absh h s g) = map (absh h s) (gk g)"
  "rval (absh h s g) = map_option (\<lambda>v. h v (tg g)) (value_at (nodes s (ad g)))"
  by (cases g, simp)+

lemma map_lab_absh: "map lab (map (absh h s) gs) = map (lab_at s) gs"
  by simp

text \<open>The child taken by a step of the descent, after its parent was made owned.\<close>

lemma plugged_later:
  assumes p: "plugged parent pidx t s c t1 s1" and h: "at_hole t parent pidx s g" and e1: "eff (tepoch t) f s X D s1"
    and e: "eff (tepoch t) f1 s1 Y D1 s2" and Y: "hole parent \<inter> Y = {}"
  shows "plugged parent pidx t s c t1 s2"
proof (cases parent)
  case (Some q)
  have q: "q < next_node s" "own_e (tepoch t) (nodes s q)" using h Some by (simp_all add: at_hole_def)
  have "q < next_node s1" "own_e (tepoch t) (nodes s1 q)" using q eff_next [OF e1] eff_own [OF e1 q(1)] by simp_all
  then have "nodes s2 q = nodes s1 q" using eff_eq [OF e] Y Some by simp
  with p Some show ?thesis by (simp add: plugged_def)
qed (use p in \<open>simp add: plugged_def\<close>)

lemma at_hole_kid:
  assumes t: "trep (tepoch t) s (G c xt gs)" and o: "own_e (tepoch t) (nodes s c)" and i: "i < length gs"
  shows "at_hole t (Some c) i s (gs ! i)"
proof -
  have "c < next_node s" "c \<notin> set (addrs (gs ! i))" "nkids (nodes s c) \<le> length (arr (nodes s c))"
    using t i by (auto simp: trep_G node_ok_def)
  moreover have "nkids (nodes s c) = length gs" using rep_nkids [OF trepD(1) [OF t]] by simp
  moreover have "arr (nodes s c) ! i = Some (ad (gs ! i))"
    using rep_kid [OF trepD(1) [OF t]] i calculation(4) by (simp add: kid_def)
  ultimately show ?thesis using o i by (simp add: at_hole_def)
qed

lemma plugged_SomeD:
  "plugged (Some c) i t s a t' s' \<Longrightarrow> t' = t \<and> nodes s' c = (nodes s c)\<lparr>arr := (arr (nodes s c))[i := Some a]\<rparr>"
  by (simp add: plugged_def)

text \<open>
  One level of a descent that owns its path: the node is made owned, something replaces its \<open>i\<close>th
  child, and the result replaces the node.
\<close>

lemma replaced_below:
  assumes t: "trep (tepoch t) s (G a xt gs)" and h: "at_hole t parent pidx s (G a xt gs)"
    and r1: "replaced (tepoch t) (tnf t) s (hole parent) (G a xt gs) s1 (G c xt gs) D {} {}"
    and e1: "eff (tepoch t) (tnf t) s (hole parent) D s1"
    and p1: "plugged parent pidx t s c t1 s1"
    and r2: "replaced (tepoch t) (tnf t) s1 {} (G c xt gs) s2 (G c xt gs') D' Z W" and Z: "Z \<subseteq> set (addrs (G a xt gs))"
  shows "replaced (tepoch t) (tnf t) s (hole parent) (G a xt gs) s2 (G c xt gs') (nf_add D D') Z W"
    and "plugged parent pidx t s c t1 s2"
proof -
  have "replaced (tepoch t) (tnf t) s (hole parent) (G a xt gs) s2 (G c xt gs') (nf_add D D') ({} \<union> Z) ({} \<union> W)"
    by (rule replaced_trans [OF t r1 r2 Z]) simp
  then show "replaced (tepoch t) (tnf t) s (hole parent) (G a xt gs) s2 (G c xt gs') (nf_add D D') Z W" by simp
  have disj: "hole parent \<inter> set (addrs (G c xt gs)) = {}"
  proof -
    have "b < next_node s" if "b \<in> hole parent" for b
      using h that by (auto simp: at_hole_def hole_def split: option.splits)
    then show ?thesis using at_hole_disj [OF h] replacedD(3) [OF r1] by fastforce
  qed
  show "plugged parent pidx t s c t1 s2"
    by (rule plugged_later [OF p1 h e1 replacedD(1) [OF r2]]) (use disj in simp)
qed

section \<open>Insertion\<close>

lemma Insert_loop_spec:
  fixes g :: "'x gtree" and s :: "'v store"
  assumes "trep (tepoch t) s g" and "at_hole t parent pidx s g" and "epoch_ok (tepoch t)"
    and "wf_kids (map (absn s) (gk g))"
  shows "\<exists>t' s' g' D. Insert_loop t parent pidx (ad g) search v s = Some (found (look (absn s g) search), t', s') \<and>
     plugged parent pidx t s (ad g') t' s' \<and>
     replaced (tepoch t) (tnf t) s (hole parent) g s' g' D {} {y} \<and>
     absh hf s' g' = ins search (hf v y) (absh hf s g)"
  using assms
proof (induction g arbitrary: t parent pidx search s)
  case (G a xt gs)
  let ?g = "G a xt gs" and ?E = "tepoch t" and ?f = "tnf t"
  note t = G.prems(1) and h = G.prems(2) and E = G.prems(3)
  have wf: "wf_kids (map (absn s) gs)" using G.prems(4) by simp
  note r = trepD(1) [OF t]
  show ?case
  proof (cases "search = []")
    case True
    obtain c t' s' D where "setValue t parent pidx a v s = Some ((val (nodes s a), hasValue (nodes s a)), t', s')"
      "plugged parent pidx t s c t' s'" "replaced ?E ?f s (hole parent) ?g s' (G c y gs) D {} {y}"
      "absh hf s' (G c y gs) = RT (prefix (nodes s a)) (Some (hf v y)) (map (absh hf s) gs)"
      by (rule setValue_spec [where hf = hf, OF t h E])
    moreover have "(val (nodes s a), hasValue (nodes s a)) = found (look (absn s ?g) search)"
      using True t by (auto simp: trep_G node_ok_def found_def value_at_def)
    ultimately show ?thesis using True
      by (intro exI [of _ t'] exI [of _ s'] exI [of _ "G c y gs"] exI [of _ D])
        (subst Insert_loop.simps, simp add: ins.simps)
  next
    case False
    let ?b = "hd search" and ?ls = "map (lab_at s) gs"
    have k256: "length gs \<le> 256" using kids_256 [OF r] by simp
    have insabs: "ins search w (absh hf s ?g) =
       (let i = rank_of ?ls ?b in
        if i < length gs \<and> lab_at s (gs ! i) = ?b
        then let c = absh hf s (gs ! i); m = lcp search (seg c) in
          RT (prefix (nodes s a)) (map_option (\<lambda>v. hf v xt) (value_at (nodes s a)))
            ((map (absh hf s) gs)[i := (if m = length (seg c) then ins (drop m search) w c else split_node m search w c)])
        else RT (prefix (nodes s a)) (map_option (\<lambda>v. hf v xt) (value_at (nodes s a)))
            (insert_at i (RT search (Some w) []) (map (absh hf s) gs)))" for w
      using False by (simp add: ins.simps Let_def cong: conj_cong)
    from r G.prems(4) show ?thesis
    proof (cases rule: rep_step [where b = ?b])
      case miss
      let ?idx = "rank_of ?ls ?b"
      have nb: "?b \<notin> set ?ls" using rep_rank [OF r, of ?b] miss(1) by simp
      have dl: "distinct ?ls" using enum_distinct t by (auto simp: trep_G node_ok_def)
      have room: "length gs + 1 \<le> 256" using byte_list_less_256 [OF dl nb] by simp
      obtain c t1 s1 D1 where o: "own t parent pidx a 1 s = Some (c, t1, s1)" "plugged parent pidx t s c t1 s1"
        "replaced ?E ?f s (hole parent) ?g s1 (G c xt gs) D1 {} {}"
        "absh hf s1 (G c xt gs) = absh hf s ?g" "own_e ?E (nodes s1 c)" "length gs + 1 \<le> kidCap (nodes s1 c)"
        "prefix (nodes s1 c) = prefix (nodes s a)" "value_at (nodes s1 c) = value_at (nodes s a)"
        "eff ?E ?f s (hole parent) D1 s1"
        by (rule own_spec [where hf = hf, OF t h E room])
      have t1: "tepoch t1 = ?E" "tnf t1 = ?f" using plugged_txn [OF o(2)] by simp_all
      note tr1 = replacedD(2) [OF o(3)]
      have same: "map (absh hf s1) gs = map (absh hf s) gs" using o(4) by simp
      then have ls1: "map (lab_at s1) gs = ?ls" by (metis map_lab_absh)
      have rk: "bm_rank (bitmap (nodes s1 c)) ?b = (?idx, False)"
        using rep_rank [OF trepD(1) [OF tr1], of ?b] ls1 nb
        by (simp flip: set_map)
      obtain l s2 where L: "leafNode t1 search v s1 = (l, s2)" by fastforce
      obtain s' where ad: "addKid c ?idx l s2 = Some s'"
        "replaced ?E ?f s1 {} (G c xt gs) s' (G c xt (insert_at ?idx (G l y []) gs)) zero_notifier {} {y}"
        "absh hf s' (G c xt (insert_at ?idx (G l y []) gs)) =
           RT (prefix (nodes s1 c)) (map_option (\<lambda>v. hf v xt) (value_at (nodes s1 c)))
             (insert_at ?idx (RT search (Some (hf v y)) []) (map (absh hf s1) gs))"
        using replaced_add [where t = t1 and f = ?f and hf = hf and y = y, OF _ _ _ o(6) False rk L, of xt] E tr1 o(5)
        unfolding t1 by metis
      have "Insert_loop t parent pidx a search v s = Some (no_value, t1, s')"
        using False miss(1) o(1) L ad(1) by (subst Insert_loop.simps) simp
      moreover note replaced_below [OF t h o(3,9,2) ad(2)]
      moreover have "absh hf s' (G c xt (insert_at ?idx (G l y []) gs)) = ins search (hf v y) (absh hf s ?g)"
      proof -
        have "\<not> (?idx < length gs \<and> lab_at s (gs ! ?idx) = ?b)" using nb by (metis length_map nth_map nth_mem)
        then show ?thesis unfolding insabs ad(3) same o(7,8) by (simp only: Let_def if_False)
      qed
      moreover have "found (look (absn s ?g) search) = no_value"
        using miss(2) False by (simp add: look_step found_def)
      ultimately show ?thesis
        by (intro exI [of _ t1] exI [of _ s'] exI [of _ "G c xt (insert_at ?idx (G l y []) gs)"]
            exI [of _ "nf_add D1 zero_notifier"]) simp
    next
      case (hit i gc)
      have i: "i < length gs" "gs ! i = gc" "gc \<in> set gs" using hit(3,4) by auto
      let ?pre = "prefix (nodes s (ad gc))" and ?m = "lcp search (prefix (nodes s (ad gc)))"
      have room: "length gs + 0 \<le> 256" using k256 by simp
      obtain c t1 s1 D1 where o: "own t parent pidx a 0 s = Some (c, t1, s1)" "plugged parent pidx t s c t1 s1"
        "replaced ?E ?f s (hole parent) ?g s1 (G c xt gs) D1 {} {}"
        "absh hf s1 (G c xt gs) = absh hf s ?g" "own_e ?E (nodes s1 c)" "length gs + 0 \<le> kidCap (nodes s1 c)"
        "prefix (nodes s1 c) = prefix (nodes s a)" "value_at (nodes s1 c) = value_at (nodes s a)"
        "eff ?E ?f s (hole parent) D1 s1"
        by (rule own_spec [where hf = hf, OF t h E room])
      have t1: "tepoch t1 = ?E" "tnf t1 = ?f" using plugged_txn [OF o(2)] by simp_all
      note tr1 = replacedD(2) [OF o(3)]
      have same: "map (absh hf s1) gs = map (absh hf s) gs" using o(4) by simp
      have gc1: "trep ?E s1 gc" using trep_kid [OF tr1 i(3)] .
      have disj: "hole parent \<inter> set (addrs gc) = {}" using at_hole_disj [OF h] i(3) by auto
      have ag: "agree (set (addrs gc)) s s1"
        using eff_trep(7) [OF o(9) trep_kid [OF t i(3)]] disj by blast
      have ab1: "absn s1 gc = absn s gc" "absh hf s1 gc = absh hf s gc" "prefix (nodes s1 (ad gc)) = ?pre"
        using frame_absn [OF ag hit(7)] frame_absh [OF ag] ag by (auto simp: agree_def same_node_def)
      have ksame: "map (absn s1) (gk gc) = map (absn s) (gk gc)"
        using ab1(1) by (metis absn_sel(3))
      have lk: "look (absn s ?g) search = (if starts search ?pre then look (absn s gc) (drop (length ?pre) search) else None)"
        using hit(6) False by (simp add: look_step)
      have cm: "commonPrefixLen search ?pre = ?m" by (rule commonPrefixLen_lcp)
      have insg: "ins search w (absh hf s ?g) = RT (prefix (nodes s a)) (map_option (\<lambda>v. hf v xt) (value_at (nodes s a)))
            ((map (absh hf s) gs)[i := (if ?m = length ?pre then ins (drop ?m search) w (absh hf s gc)
               else split_node ?m search w (absh hf s gc))])" for w
      proof -
        have "rank_of ?ls ?b = i" "lab_at s (gs ! i) = ?b" using hit(2,10) i by (simp_all add: lab_at_def)
        then show ?thesis unfolding insabs Let_def using i by simp
      qed
      show ?thesis
      proof (cases "?m = length ?pre")
        case True
        then have st: "starts search ?pre" by (simp add: lcp_starts)
        let ?srch = "drop ?m search"
        have ah: "at_hole t1 (Some c) i s1 gc" using at_hole_kid [of t1 s1 c xt gs i] tr1 o(5) i t1 by simp
        obtain t2 s2 g' D2 where ih: "Insert_loop t1 (Some c) i (ad gc) ?srch v s1 = Some (found (look (absn s1 gc) ?srch), t2, s2)"
          "plugged (Some c) i t1 s1 (ad g') t2 s2" "replaced ?E ?f s1 {c} gc s2 g' D2 {} {y}"
          "absh hf s2 g' = ins ?srch (hf v y) (absh hf s1 gc)"
          using G.IH [OF i(3), of t1 s1 "Some c" i ?srch] gc1 ah E hit(11) ksame t1 by auto
        note pl = plugged_SomeD [OF ih(2)]
        have lab: "lab_at s2 g' = lab_at s1 (gs ! i)"
        proof -
          have "prefix (nodes s2 (ad g')) = prefix (nodes s1 (ad gc))"
            using arg_cong [OF ih(4), of seg] by simp
          then show ?thesis using i by (simp add: lab_at_def)
        qed
        have r2: "replaced ?E ?f s1 {c} (gs ! i) s2 g' D2 {} {y}" using ih(3) i by simp
        note lift = replaced_lift [OF tr1 o(5) i(1) r2 conjunct2 [OF pl] lab]
        have "Insert_loop t parent pidx a search v s = Some (found (look (absn s ?g) search), t1, s2)"
          using False hit(1,5) o(1) cm True ab1 ih(1) lk st pl lcp_le(1) [of search ?pre]
          by (subst Insert_loop.simps) (simp add: Let_def)
        moreover note replaced_below [OF t h o(3,9,2) lift(1)]
        moreover have "absh hf s2 (G c xt (gs[i := g'])) = ins search (hf v y) (absh hf s ?g)"
          unfolding lift(2) insg same o(7,8) ih(4) ab1(2) using True by simp
        ultimately show ?thesis
          by (intro exI [of _ t1] exI [of _ s2] exI [of _ "G c xt (gs[i := g'])"] exI [of _ "nf_add D1 D2"]) simp
      next
        case nt: False
        have ml: "?m < length ?pre" "?m \<le> length search" using nt lcp_le [of search ?pre] by auto
        have m0: "0 < ?m" using lcp_pos [OF False hit(9)] hit(10) by simp
        obtain ch cx hs where gch: "gc = G ch cx hs" by (cases gc)
        have pch: "prefix (nodes s1 ch) = ?pre" "?pre = prefix (nodes s ch)" using ab1(3) gch by simp_all
        have diff: "hd (drop ?m search) \<noteq> hd (drop ?m (prefix (nodes s1 ch)))" if "drop ?m search \<noteq> []"
          using lcp_nth [of search ?pre] ml that unfolding pch(1) by (simp add: hd_drop_conv_nth)
        have gi: "gs ! i = G ch cx hs" using i gch by simp
        have ml1: "?m < length (prefix (nodes s1 ch))" using ml pch by simp
        obtain s2 g' D2 where sp: "splitChild t1 c i ch ?m search v s1 = Some s2"
          "replaced ?E ?f s1 {} (G c xt gs) s2 (G c xt (gs[i := g'])) D2 {} {y}"
          "absh hf s2 (G c xt (gs[i := g'])) =
             RT (prefix (nodes s1 c)) (map_option (\<lambda>v. hf v xt) (value_at (nodes s1 c)))
               ((map (absh hf s1) gs)[i := split_node ?m search (hf v y) (absh hf s1 (gs ! i))])"
          using replaced_split [where t = t1 and hf = hf and y = y and v = v and xn = xt, OF _ _ _ i(1) gi m0 ml1 ml(2) diff]
            E tr1 o(5) unfolding t1 by metis
        have "Insert_loop t parent pidx a search v s = Some (no_value, t1, s2)"
          using False hit(1,5) o(1) cm nt ab1(3) sp(1) gch
          by (subst Insert_loop.simps) (simp add: Let_def)
        moreover note replaced_below [OF t h o(3,9,2) sp(2)]
        moreover have "absh hf s2 (G c xt (gs[i := g'])) = ins search (hf v y) (absh hf s ?g)"
          unfolding sp(3) insg same o(7,8) using nt i ab1(2) by simp
        moreover have "found (look (absn s ?g) search) = no_value"
          using lk nt by (simp add: found_def lcp_starts)
        ultimately show ?thesis
          by (intro exI [of _ t1] exI [of _ s2] exI [of _ "G c xt (gs[i := g'])"] exI [of _ "nf_add D1 D2"]) simp
      qed
    qed
  qed
qed

end
