(* ===== verification/Radix_Path.thy ===== *)
theory Radix_Path
  imports Radix_Ops
begin

text \<open>
  Positions in abstract trees.  Deletion changes a tree at the end of a path and restores the shape on
  the way back; restoring it matters only at the last node and its parent, which is what the code
  relies on when it merges without looking further up.
\<close>

fun asub :: "nat list \<Rightarrow> 'v rtree \<Rightarrow> 'v rtree" where
  "asub [] t = t"
| "asub (i # is) t = asub is (subs t ! i)"

fun apos :: "nat list \<Rightarrow> 'v rtree \<Rightarrow> bool" where
  "apos [] t \<longleftrightarrow> True"
| "apos (i # is) t \<longleftrightarrow> i < length (subs t) \<and> apos is (subs t ! i)"

fun aput :: "nat list \<Rightarrow> 'v rtree \<Rightarrow> 'v rtree \<Rightarrow> 'v rtree" where
  "aput [] u t = u"
| "aput (i # is) u t = RT (seg t) (rval t) ((subs t)[i := aput is u (subs t ! i)])"

text \<open>Apply \<open>f\<close> at a position and restore the shape of every node above it.\<close>

fun amodn :: "nat list \<Rightarrow> ('v rtree \<Rightarrow> 'v rtree) \<Rightarrow> 'v rtree \<Rightarrow> 'v rtree" where
  "amodn [] f t = f t"
| "amodn (i # is) f t = RT (seg t) (rval t) (put_kid i (norm (amodn is f (subs t ! i))) (subs t))"

definition clear_val :: "'v rtree \<Rightarrow> 'v rtree" where
  "clear_val t = RT (seg t) None (subs t)"

definition cut_kid :: "nat \<Rightarrow> 'v rtree \<Rightarrow> 'v rtree" where
  "cut_kid i t = RT (seg t) (rval t) (remove_at i (subs t))"

lemma asub_snoc: "asub (is @ [i]) t = subs (asub is t) ! i"
  by (induction "is" arbitrary: t) simp_all

lemma apos_snoc: "apos (is @ [i]) t \<longleftrightarrow> apos is t \<and> i < length (subs (asub is t))"
  by (induction "is" arbitrary: t) auto

lemma wf_asub: "wf_kids (subs t) \<Longrightarrow> apos is t \<Longrightarrow> is \<noteq> [] \<Longrightarrow> wf_sub (asub is t)"
proof (induction "is" arbitrary: t)
  case (Cons i "is")
  then have c: "wf_sub (subs t ! i)" by (simp add: wf_kids_def)
  then show ?case using Cons.IH [of "subs t ! i"] Cons.prems wf_subD(2) by (cases "is") auto
qed simp

lemma wf_asub_kids: "wf_kids (subs t) \<Longrightarrow> apos is t \<Longrightarrow> wf_kids (subs (asub is t))"
  using wf_asub [of t "is"] wf_subD(2) by (cases "is") auto

lemma norm_id: "rval t \<noteq> None \<or> 2 \<le> length (subs t) \<Longrightarrow> norm t = Some t"
  by (cases t rule: norm.cases) auto

lemma norm_length:
  assumes "wf_sub c" and "length ks = length (subs c)"
  shows "norm (RT (seg c) (rval c) ks) = Some (RT (seg c) (rval c) ks)"
proof (rule norm_id)
  show "rval (RT (seg c) (rval c) ks) \<noteq> None \<or> 2 \<le> length (subs (RT (seg c) (rval c) ks))"
    using assms by (auto simp: wf_sub_iff)
qed

lemma amodn_snoc:
  "amodn (is @ [i]) f t =
     amodn is (\<lambda>p. RT (seg p) (rval p) (put_kid i (norm (f (subs p ! i))) (subs p))) t"
  by (induction "is" arbitrary: t) simp_all

text \<open>Above the last node nothing but the pointers changes.\<close>

lemma amodn_aput:
  assumes "wf_kids (subs t)" and "apos is t" and "is \<noteq> []" and "norm (f (asub is t)) = Some u"
  shows "amodn is f t = aput is u t"
  using assms
proof (induction "is" arbitrary: t)
  case (Cons i "is")
  let ?c = "subs t ! i"
  have c: "wf_sub ?c" using Cons.prems by (simp add: wf_kids_def)
  show ?case
  proof (cases "is")
    case Nil
    with Cons.prems show ?thesis by simp
  next
    case (Cons j js)
    have ih: "amodn is f ?c = aput is u ?c"
      using Cons.IH [of ?c] Cons.prems Cons wf_subD(2) [OF c] by simp
    have "norm (aput is u ?c) = Some (aput is u ?c)"
      unfolding Cons aput.simps by (rule norm_length [OF c]) simp
    with ih Cons.prems show ?thesis by simp
  qed
qed simp

text \<open>Where a key ends.\<close>

function locate :: "bytes \<Rightarrow> 'v rtree \<Rightarrow> nat list option" where
  "locate s (RT p ov ks) =
     (if s = [] then Some []
      else let i = rank_of (map lab ks) (hd s) in
        if i < length ks \<and> lab (ks ! i) = hd s \<and> starts s (seg (ks ! i))
        then map_option (Cons i) (locate (drop (length (seg (ks ! i))) s) (ks ! i))
        else None)"
  by pat_completeness auto
termination
  by (relation "measure (\<lambda>(s, t). size t)")
    (auto simp: less_Suc_eq_le intro: trans_le_add2 size_kid)

text \<open>The topmost node all of whose keys start with \<open>s\<close>.\<close>

function locatep :: "bytes \<Rightarrow> 'v rtree \<Rightarrow> nat list option" where
  "locatep s (RT p ov ks) =
     (if s = [] then Some []
      else let i = rank_of (map lab ks) (hd s) in
        if i < length ks \<and> lab (ks ! i) = hd s
        then if starts (seg (ks ! i)) s then Some [i]
             else if starts s (seg (ks ! i))
             then map_option (Cons i) (locatep (drop (length (seg (ks ! i))) s) (ks ! i))
             else None
        else None)"
  by pat_completeness auto
termination
  by (relation "measure (\<lambda>(s, t). size t)")
    (auto simp: less_Suc_eq_le intro: trans_le_add2 size_kid)

declare locate.simps [simp del] locatep.simps [simp del]

lemma put_kid_id: "wf_kids ks \<Longrightarrow> i < length ks \<Longrightarrow> put_kid i (norm (ks ! i)) ks = ks"
  by (simp add: norm_wf_sub wf_kids_def)

lemma del_locate:
  "wf_kids (subs t) \<Longrightarrow> del s t = (case locate s t of None \<Rightarrow> t | Some is \<Rightarrow> amodn is clear_val t)"
proof (induction s t rule: del.induct)
  case (1 s p ov ks)
  let ?i = "rank_of (map lab ks) (hd s)"
  have wf: "wf_kids ks" using "1.prems" by simp
  show ?case
  proof (cases "s = []")
    case True
    then show ?thesis by (simp add: del.simps locate.simps clear_val_def)
  next
    case False
    show ?thesis
    proof (cases "?i < length ks \<and> lab (ks ! ?i) = hd s \<and> starts s (seg (ks ! ?i))")
      case True
      have "wf_kids (subs (ks ! ?i))" using wf_subD(2) [OF wf_kids_sub [OF wf]] True by simp
      note ih = "1.IH" [OF False refl True this]
      show ?thesis
        using True False ih put_kid_id [OF wf, of ?i]
        by (auto simp: del.simps locate.simps Let_def split: option.split)
    qed (use False in \<open>auto simp: del.simps locate.simps Let_def\<close>)
  qed
qed

lemma locate_apos: "locate s t = Some is \<Longrightarrow> apos is t"
proof (induction s t arbitrary: "is" rule: locate.induct)
  case (1 s p ov ks)
  then show ?case by (auto simp: locate.simps [of s] Let_def split: if_splits)
qed

lemma locate_look:
  "wf_kids (subs t) \<Longrightarrow> look t s = (case locate s t of None \<Rightarrow> None | Some is \<Rightarrow> rval (asub is t))"
proof (induction s t rule: locate.induct)
  case (1 s p ov ks)
  let ?i = "rank_of (map lab ks) (hd s)"
  have wf: "wf_kids ks" using "1.prems" by simp
  show ?case
  proof (cases "s = []")
    case True
    then show ?thesis by (simp add: locate.simps)
  next
    case False
    from wf show ?thesis
    proof (cases rule: rank_cases [where b = "hd s"])
      case miss
      then show ?thesis using False by (auto simp: look_step locate.simps Let_def)
    next
      case (hit c)
      note ih = "1.IH" [OF False refl]
      show ?thesis
        using hit ih wf_subD(2) [OF hit(5)] False
        by (auto simp: look_step locate.simps Let_def split: option.split)
    qed
  qed
qed

lemma delp_locatep:
  "wf_kids (subs t) \<Longrightarrow> delp_kids s t =
     (case locatep s t of None \<Rightarrow> t | Some [] \<Rightarrow> t | Some (i # is) \<Rightarrow>
        amodn (butlast (i # is)) (cut_kid (last (i # is))) t)"
proof (induction s t rule: locatep.induct)
  case (1 s p ov ks)
  let ?i = "rank_of (map lab ks) (hd s)" and ?c = "ks ! rank_of (map lab ks) (hd s)"
  have wf: "wf_kids ks" using "1.prems" by simp
  show ?case
  proof (cases "s \<noteq> [] \<and> ?i < length ks \<and> lab ?c = hd s")
    case False
    then show ?thesis by (auto simp: delp_kids.simps locatep.simps Let_def)
  next
    case hit: True
    show ?thesis
    proof (cases "starts (seg ?c) s")
      case True
      with hit show ?thesis by (simp add: delp_kids.simps locatep.simps Let_def cut_kid_def)
    next
      case cut: False
      show ?thesis
      proof (cases "starts s (seg ?c)")
        case False
        with hit cut show ?thesis by (simp add: delp_kids.simps locatep.simps Let_def)
      next
        case True
        let ?r = "drop (length (seg ?c)) s"
        have "wf_kids (subs ?c)" using wf_subD(2) [OF wf_kids_sub [OF wf]] hit by simp
        with "1.IH" [OF _ refl _ cut True] hit
        have ih: "delp_kids ?r ?c = (case locatep ?r ?c of None \<Rightarrow> ?c | Some [] \<Rightarrow> ?c
            | Some (i # is) \<Rightarrow> amodn (butlast (i # is)) (cut_kid (last (i # is))) ?c)" by blast
        have "?r \<noteq> []" using cut True by (metis append_Nil2 starts_iff starts_self)
        then have ne: "locatep ?r ?c \<noteq> Some []"
          by (cases ?c) (auto simp: locatep.simps Let_def split: if_splits)
        show ?thesis
          using hit cut True ih ne put_kid_id [OF wf, of ?i]
          by (auto simp: delp_kids.simps locatep.simps Let_def split: option.split list.split)
      qed
    qed
  qed
qed

lemma locatep_apos: "locatep s t = Some is \<Longrightarrow> apos is t"
proof (induction s t arbitrary: "is" rule: locatep.induct)
  case (1 s p ov ks)
  then show ?case by (auto simp: locatep.simps [of s] Let_def split: if_splits)
qed

end
