(* ===== verification/Spine.thy ===== *)
theory Spine
  imports Insertion Radix_Path
begin

text \<open>
  Paths from the root: \<open>ownPath\<close> makes every node of a path owned and leaves the subtree below it
  alone; a replacement at the end of an owned path is a replacement of the whole tree.
\<close>

section \<open>Positions in ghost trees\<close>

fun sub_at :: "nat list \<Rightarrow> 'x gtree \<Rightarrow> 'x gtree" where
  "sub_at [] g = g"
| "sub_at (i # is) g = sub_at is (gk g ! i)"

fun put_at :: "nat list \<Rightarrow> 'x gtree \<Rightarrow> 'x gtree \<Rightarrow> 'x gtree" where
  "put_at [] u g = u"
| "put_at (i # is) u g = G (ad g) (tg g) ((gk g)[i := put_at is u (gk g ! i)])"

text \<open>The path entries are the nodes along the positions.\<close>

fun follows :: "'x gtree \<Rightarrow> path \<Rightarrow> bool" where
  "follows g [] \<longleftrightarrow> True"
| "follows g ((n, i) # path) \<longleftrightarrow> n = ad g \<and> i < length (gk g) \<and> follows (gk g ! i) path"

lemma asub_absh: "follows g path \<Longrightarrow> asub (map snd path) (absh h s g) = absh h s (sub_at (map snd path) g)"
  by (induction g path rule: follows.induct) auto

lemma asub_absn: "follows g path \<Longrightarrow> asub (map snd path) (absn s g) = absn s (sub_at (map snd path) g)"
  by (induction g path rule: follows.induct) auto

lemma apos_absh: "follows g path \<Longrightarrow> apos (map snd path) (absh h s g)"
  by (induction g path rule: follows.induct) auto

lemma follows_snoc:
  "follows g (path @ [(n, i)]) \<longleftrightarrow>
     follows g path \<and> n = ad (sub_at (map snd path) g) \<and> i < length (gk (sub_at (map snd path) g))"
  by (induction g path rule: follows.induct) auto

lemma sub_at_snoc: "sub_at (is @ [i]) g = gk (sub_at is g) ! i"
  by (induction "is" arbitrary: g) simp_all

lemma trep_sub_at: "trep E s g \<Longrightarrow> follows g path \<Longrightarrow> trep E s (sub_at (map snd path) g)"
proof (induction g path rule: follows.induct)
  case (2 g n i path)
  then show ?case using trep_kid [of E s "ad g" "tg g" "gk g" "gk g ! i"] by (cases g) simp
qed simp

lemma addrs_sub_at: "follows g path \<Longrightarrow> set (addrs (sub_at (map snd path) g)) \<subseteq> set (addrs g)"
proof (induction g path rule: follows.induct)
  case (2 g n i path)
  then have "set (addrs (gk g ! i)) \<subseteq> set (addrs g)" using addrs_kid [of "gk g ! i" g] by simp
  with 2 show ?case by auto
qed simp

definition owned_path :: "u64 \<Rightarrow> 'v store \<Rightarrow> path \<Rightarrow> bool" where
  "owned_path E s path \<longleftrightarrow> (\<forall>(n, i) \<in> set path. own_e E (nodes s n))"

text \<open>The place where a path ends.\<close>

definition end_of :: "path \<Rightarrow> addr option" where
  "end_of path = (if path = [] then None else Some (fst (last path)))"

lemma at_hole_path:
  assumes "trep (tepoch t) s g" and "follows g path" and "owned_path (tepoch t) s path" and "path \<noteq> []"
  shows "at_hole t (Some (fst (last path))) (snd (last path)) s (sub_at (map snd path) g)"
proof -
  obtain front n i where p: "path = front @ [(n, i)]" using assms(4) by (metis rev_exhaust surj_pair)
  have f: "follows g front" "n = ad (sub_at (map snd front) g)" "i < length (gk (sub_at (map snd front) g))"
    using assms(2) p by (simp_all add: follows_snoc)
  obtain x gs where gg: "sub_at (map snd front) g = G n x gs" using f(2) by (cases "sub_at (map snd front) g") simp
  have "trep (tepoch t) s (G n x gs)" using trep_sub_at [OF assms(1) f(1)] gg by simp
  moreover have "own_e (tepoch t) (nodes s n)" using assms(3) p by (auto simp: owned_path_def)
  ultimately have "at_hole t (Some n) i s (gs ! i)" using f(3) gg by (intro at_hole_kid) simp_all
  then show ?thesis using p gg by (simp add: sub_at_snoc)
qed

section \<open>Owning a path\<close>

lemma ownPath_loop_spec:
  fixes g :: "'x gtree" and s :: "'v store"
  assumes "trep (tepoch t) s g" and "at_hole t parent pidx s g" and "epoch_ok (tepoch t)" and "follows g path"
  shows "\<exists>path' t' s' g1 D. ownPath_loop t parent pidx path s = Some (path', t', s') \<and>
     plugged parent pidx t s (ad g1) t' s' \<and>
     replaced (tepoch t) (tnf t) s (hole parent) g s' g1 D {} {} \<and> absh hf s' g1 = absh hf s g \<and>
     follows g1 path' \<and> map snd path' = map snd path \<and> owned_path (tepoch t) s' path' \<and>
     sub_at (map snd path) g1 = sub_at (map snd path) g"
  using assms
proof (induction path arbitrary: t parent pidx g s)
  case Nil
  then show ?case
    using plugged_refl [OF Nil(2)] replaced_refl [OF Nil(1)]
    by (intro exI [of _ "[]"] exI [of _ t] exI [of _ s] exI [of _ g] exI [of _ zero_notifier])
      (simp add: owned_path_def)
next
  case (Cons e path)
  let ?E = "tepoch t" and ?f = "tnf t"
  obtain a xt gs where g: "g = G a xt gs" by (cases g)
  obtain i where e: "e = (a, i)" and i: "i < length gs" and fo: "follows (gs ! i) path"
    using Cons.prems(4) g by (cases e) auto
  note t = Cons.prems(1) [unfolded g] and h = Cons.prems(2) [unfolded g] and E = Cons.prems(3)
  have k256: "length gs + 0 \<le> 256" using kids_256 [OF trepD(1) [OF t]] by simp
  obtain c t1 s1 D1 where o: "own t parent pidx a 0 s = Some (c, t1, s1)" "plugged parent pidx t s c t1 s1"
    "replaced ?E ?f s (hole parent) (G a xt gs) s1 (G c xt gs) D1 {} {}"
    "absh hf s1 (G c xt gs) = absh hf s (G a xt gs)" "own_e ?E (nodes s1 c)" "length gs + 0 \<le> kidCap (nodes s1 c)"
    "prefix (nodes s1 c) = prefix (nodes s a)" "value_at (nodes s1 c) = value_at (nodes s a)"
    "eff ?E ?f s (hole parent) D1 s1"
    by (rule own_spec [where hf = hf, OF t h E k256])
  have t1: "tepoch t1 = ?E" "tnf t1 = ?f" using plugged_txn [OF o(2)] by simp_all
  note tr1 = replacedD(2) [OF o(3)]
  have same: "map (absh hf s1) gs = map (absh hf s) gs" using o(4) by simp
  have tg: "trep ?E s1 (gs ! i)" using trep_kid [OF tr1] i by simp
  have ah: "at_hole t1 (Some c) i s1 (gs ! i)" using at_hole_kid [of t1 s1 c xt gs i] tr1 o(5) i t1 by simp
  obtain path' t2 s2 g' D2 where ih: "ownPath_loop t1 (Some c) i path s1 = Some (path', t2, s2)"
    "plugged (Some c) i t1 s1 (ad g') t2 s2" "replaced ?E ?f s1 {c} (gs ! i) s2 g' D2 {} {}"
    "absh hf s2 g' = absh hf s1 (gs ! i)" "follows g' path'" "map snd path' = map snd path"
    "owned_path ?E s2 path'" "sub_at (map snd path) g' = sub_at (map snd path) (gs ! i)"
    using Cons.IH [of t1 s1 "gs ! i" "Some c" i] tg ah E fo t1 by auto
  note pl = plugged_SomeD [OF ih(2)]
  have lab: "lab_at s2 g' = lab_at s1 (gs ! i)" using arg_cong [OF ih(4), of seg] by (simp add: lab_at_def)
  note lift = replaced_lift [OF tr1 o(5) i ih(3) conjunct2 [OF pl] lab]
  note below = replaced_below [OF t h o(3,9,2) lift(1)]
  have "ownPath_loop t parent pidx (e # path) s = Some ((c, i) # path', t1, s2)"
    using o(1) ih(1) pl e by simp
  moreover have "absh hf s2 (G c xt (gs[i := g'])) = absh hf s (G a xt gs)"
  proof -
    have "(map (absh hf s) gs)[i := absh hf s (gs ! i)] = map (absh hf s) gs"
      using i list_update_id [of "map (absh hf s) gs" i] by simp
    moreover have "absh hf s1 (gs ! i) = absh hf s (gs ! i)" using arg_cong [OF same, of "\<lambda>l. l ! i"] i by simp
    ultimately show ?thesis unfolding lift(2) ih(4) same using o(7,8) by simp
  qed
  moreover have "own_e ?E (nodes s2 c)"
    using eff_own [OF replacedD(1) [OF lift(1)], of c] tr1 o(5) by (simp add: trep_G)
  ultimately show ?case
    using below ih i e g
    by (intro exI [of _ "(c, i) # path'"] exI [of _ t1] exI [of _ s2] exI [of _ "G c xt (gs[i := g'])"]
        exI [of _ "nf_add D1 D2"]) (auto simp: owned_path_def)
qed

section \<open>Replacing the end of an owned path\<close>

lemma replaced_deep:
  assumes "trep E s g" and "follows g path" and "owned_path E s path"
    and "replaced E f s (hole (end_of path)) (sub_at (map snd path) g) s' u D Z W"
    and "path \<noteq> [] \<Longrightarrow> nodes s' (fst (last path)) =
          (nodes s (fst (last path)))\<lparr>arr := (arr (nodes s (fst (last path))))[snd (last path) := Some (ad u)]\<rparr>"
    and "path \<noteq> [] \<Longrightarrow> lab_at s' u = lab_at s (sub_at (map snd path) g)"
  shows "replaced E f s {} g s' (put_at (map snd path) u g) D Z W \<and>
     absh hf s' (put_at (map snd path) u g) = aput (map snd path) (absh hf s' u) (absh hf s g)"
  using assms
proof (induction path arbitrary: g)
  case Nil
  then show ?case by (simp add: end_of_def)
next
  case (Cons e path)
  obtain c xt gs where g: "g = G c xt gs" by (cases g)
  obtain i where e: "e = (c, i)" and i: "i < length gs" and fo: "follows (gs ! i) path"
    using Cons.prems(2) g by (cases e) auto
  have o: "own_e E (nodes s c)" "owned_path E s path" using Cons.prems(3) e by (auto simp: owned_path_def)
  note t = Cons.prems(1) [unfolded g]
  show ?case
  proof (cases "path = []")
    case True
    then have r: "replaced E f s {c} (gs ! i) s' u D Z W" using Cons.prems(4) g e by (simp add: end_of_def)
    have pl: "nodes s' c = (nodes s c)\<lparr>arr := (arr (nodes s c))[i := Some (ad u)]\<rparr>"
      using Cons.prems(5) True e by simp
    have lab: "lab_at s' u = lab_at s (gs ! i)" using Cons.prems(6) True g e by simp
    note lift = replaced_lift [OF t o(1) i r pl lab]
    show ?thesis using lift(1) lift(2) [of hf] True g e i by simp
  next
    case False
    have tg: "trep E s (gs ! i)" using trep_kid [OF t] i by simp
    have le: "last (e # path) = last path" "end_of (e # path) = end_of path"
      using False by (simp_all add: end_of_def)
    let ?u = "put_at (map snd path) u (gs ! i)"
    have ih: "replaced E f s {} (gs ! i) s' ?u D Z W"
      "absh hf s' ?u = aput (map snd path) (absh hf s' u) (absh hf s (gs ! i))"
      using Cons.IH [OF tg fo o(2)] Cons.prems(4-6) False unfolding le by (simp_all add: g e)
    obtain j q where pq: "path = j # q" using False by (cases path) auto
    have adu: "ad ?u = ad (gs ! i)" using pq by simp
    have c: "c < next_node s" "c \<notin> set (addrs (gs ! i))" "nkids (nodes s c) = length gs"
      using t rep_nkids [OF trepD(1) [OF t]] i by (auto simp: trep_G)
    have same: "nodes s' c = nodes s c" using eff_eq [OF replacedD(1) [OF ih(1)] c(1) o(1)] c(2) by simp
    have "arr (nodes s c) ! i = Some (ad (gs ! i))"
      using rep_kid [OF trepD(1) [OF t]] i c(3) by (simp add: kid_def)
    then have pl: "nodes s' c = (nodes s c)\<lparr>arr := (arr (nodes s c))[i := Some (ad ?u)]\<rparr>"
      using same adu list_update_id [of "arr (nodes s c)" i] by simp
    have lab: "lab_at s' ?u = lab_at s (gs ! i)"
    proof -
      have "prefix (nodes s' (ad ?u)) = prefix (nodes s (ad (gs ! i)))"
        using arg_cong [OF ih(2), of seg] pq by simp
      then show ?thesis by (simp add: lab_at_def)
    qed
    have r: "replaced E f s {c} (gs ! i) s' ?u D Z W" by (rule replaced_weaken [OF ih(1)]) auto
    note lift = replaced_lift [OF t o(1) i r pl lab]
    show ?thesis using lift(1) lift(2) [of hf] ih(2) g e i by simp
  qed
qed

text \<open>Departures that were recorded before.\<close>

lemma replaced_account:
  assumes t: "trep E s g" and e0: "eff E f s {} D0 s1" and n: "nodes s1 = nodes s" "next_node s1 = next_node s"
    and r: "replaced E f s1 H g s' g' D (Z0 \<union> Z') W"
    and dn: "set (nf_nodes D0) = unowned E s g \<inter> Z0" and ds: "nf_subtrees D0 = []"
    and dl: "None \<notin> set (nf_leaves D0)" and dv: "set (nf_values D0) \<subseteq> {a \<in> unowned E s g. hasValue (nodes s a)}"
    and gn: "\<And>a y. (a, y) \<in> vnodes s g \<Longrightarrow> a \<in> Z0 \<Longrightarrow> gone E s s' D0 a"
  shows "replaced E f s H g s' g' (nf_add D0 D) Z' W"
proof -
  note d = replacedD [OF r]
  have U: "unowned E s1 g = unowned E s g" using n by (simp add: unowned_def)
  have vn: "vnodes s1 g = vnodes s g" by (induction g) (simp add: n)
  have "eff E f s (H \<union> set (addrs g)) (nf_add D0 D) s'" by (rule eff_trans_weaken [OF e0 d(1)]) auto
  moreover have hg: "heir E s1 s' a b \<longleftrightarrow> heir E s s' a b" "gone E s1 s' D a \<Longrightarrow> gone E s s' (nf_add D0 D) a"
    "gone E s s' D0 a \<Longrightarrow> gone E s s' (nf_add D0 D) a" for a b
    using n by (auto simp: heir_def gone_def)
  have "vals E s g s' g' (nf_add D0 D) Z' W"
    using d(8) gn hg unfolding vals_def vn by blast
  ultimately show ?thesis
    using d U dn ds dl dv n(2) unfolding replaced_def by (auto simp: n)
qed

end
