(* ===== verification/Deletion.thy ===== *)
theory Deletion
  imports Spine
begin

text \<open>
  \<open>Txn.Delete\<close> and \<open>Txn.DeletePrefix\<close> on the heap implement deletion in the abstract tree.  The
  read-only descent finds the node; \<open>unlink\<close> removes it and restores the shape; everything that
  leaves the tree is recorded.
\<close>

section \<open>The descents\<close>

lemma wf_sub_absh: "wf_sub (absh h s g) \<longleftrightarrow> wf_sub (absn s g)"
proof (induction g)
  case (G a xt gs)
  then show ?case by (simp add: wf_sub.simps)
qed

lemma wf_kids_absh: "wf_kids (map (absh h s) gs) \<longleftrightarrow> wf_kids (map (absn s) gs)"
  by (simp add: wf_kids_def wf_sub_absh)

lemma locate_Nil [simp]: "locate [] t = Some []" "locatep [] t = Some []"
  by (cases t; simp add: locate.simps locatep.simps)+

lemma descend_Nil [simp]:
  "Delete_descend s n [] path = Some (Some (n, path))"
  "DeletePrefix_descend s n [] path = Some (Some (n, path))"
  by (subst Delete_descend.simps, simp) (subst DeletePrefix_descend.simps, simp)

lemma locate_step:
  "locate k (absn s g) =
     (if k = [] then Some []
      else let i = rank_of (map (lab_at s) (gk g)) (hd k) in
        if i < length (gk g) \<and> lab_at s (gk g ! i) = hd k \<and> starts k (prefix (nodes s (ad (gk g ! i))))
        then map_option (Cons i) (locate (drop (length (prefix (nodes s (ad (gk g ! i))))) k) (absn s (gk g ! i)))
        else None)"
  by (cases g) (simp add: locate.simps Let_def cong: conj_cong)

lemma locatep_step:
  "locatep k (absn s g) =
     (if k = [] then Some []
      else let i = rank_of (map (lab_at s) (gk g)) (hd k) in
        if i < length (gk g) \<and> lab_at s (gk g ! i) = hd k
        then if starts (prefix (nodes s (ad (gk g ! i)))) k then Some [i]
             else if starts k (prefix (nodes s (ad (gk g ! i))))
             then map_option (Cons i) (locatep (drop (length (prefix (nodes s (ad (gk g ! i))))) k) (absn s (gk g ! i)))
             else None
        else None)"
  by (cases g) (simp add: locatep.simps Let_def cong: conj_cong)

lemma Delete_descend_spec:
  assumes "rep s g" and "wf_kids (map (absn s) (gk g))"
  shows "case locate k (absn s g) of
      None \<Rightarrow> Delete_descend s (ad g) k path0 = Some None
    | Some is \<Rightarrow> \<exists>path. Delete_descend s (ad g) k path0 = Some (Some (ad (sub_at is g), path0 @ path)) \<and>
        follows g path \<and> map snd path = is"
  using assms
proof (induction g arbitrary: k path0 rule: gtree.induct)
  case (G a xt gs)
  let ?g = "G a xt gs"
  show ?case
  proof (cases "k = []")
    case True
    then show ?thesis by simp
  next
    case False
    from G.prems show ?thesis
    proof (cases rule: rep_step [where b = "hd k"])
      case miss
      have "\<not> (rank_of (map (lab_at s) gs) (hd k) < length gs \<and> lab_at s (gs ! rank_of (map (lab_at s) gs) (hd k)) = hd k)"
        using miss(1) rep_rank [OF G.prems(1), of "hd k"] by (auto intro: rev_image_eqI [OF nth_mem])
      then have "locate k (absn s ?g) = None" using False by (auto simp: locate_step [of k s ?g] Let_def simp del: absn.simps)
      moreover have "Delete_descend s a k path0 = Some None"
        using miss(1) False by (subst Delete_descend.simps) simp
      ultimately show ?thesis by simp
    next
      case (hit i c)
      have i: "i = rank_of (map (lab_at s) gs) (hd k)" "i < length gs" "gs ! i = c" "lab_at s c = hd k"
        using hit by (auto simp: lab_at_def)
      let ?pre = "prefix (nodes s (ad c))"
      have hp: "hasPrefix (nodes s (ad c)) k = Some (starts k ?pre)"
        using hit(9,10) False by (intro hasPrefix_starts) auto
      show ?thesis
      proof (cases "starts k ?pre")
        case miss: False
        have "locate k (absn s ?g) = None" using i miss False by (simp add: locate_step [of k s ?g] Let_def del: absn.simps)
        moreover have "Delete_descend s a k path0 = Some None"
          using hit(1,5) hp miss False by (subst Delete_descend.simps) simp
        ultimately show ?thesis by simp
      next
        case True
        let ?r = "drop (length ?pre) k"
        have loc: "locate k (absn s ?g) = map_option (Cons i) (locate ?r (absn s c))"
          using i True False by (simp add: locate_step [of k s ?g] Let_def del: absn.simps)
        have un: "Delete_descend s a k path0 = Delete_descend s (ad c) ?r (path0 @ [(a, i)])"
          using hit(1,5) hp True False starts_length [OF True]
          by (subst Delete_descend.simps) simp
        have c: "c \<in> set gs" using i by auto
        from G.IH [OF c hit(7,11), of ?r "path0 @ [(a, i)]"] show ?thesis
          unfolding loc gtree.sel un using i
          by (cases "locate ?r (absn s c)") (auto intro: exI [of _ "(a, i) # _"])
      qed
    qed
  qed
qed

lemma DeletePrefix_descend_spec:
  assumes "rep s g" and "wf_kids (map (absn s) (gk g))"
  shows "case locatep k (absn s g) of
      None \<Rightarrow> DeletePrefix_descend s (ad g) k path0 = Some None
    | Some is \<Rightarrow> \<exists>path. DeletePrefix_descend s (ad g) k path0 = Some (Some (ad (sub_at is g), path0 @ path)) \<and>
        follows g path \<and> map snd path = is"
  using assms
proof (induction g arbitrary: k path0 rule: gtree.induct)
  case (G a xt gs)
  let ?g = "G a xt gs"
  show ?case
  proof (cases "k = []")
    case True
    then show ?thesis by simp
  next
    case False
    from G.prems show ?thesis
    proof (cases rule: rep_step [where b = "hd k"])
      case miss
      have "\<not> (rank_of (map (lab_at s) gs) (hd k) < length gs \<and> lab_at s (gs ! rank_of (map (lab_at s) gs) (hd k)) = hd k)"
        using miss(1) rep_rank [OF G.prems(1), of "hd k"] by (auto intro: rev_image_eqI [OF nth_mem])
      then have "locatep k (absn s ?g) = None" using False by (auto simp: locatep_step [of k s ?g] Let_def simp del: absn.simps)
      moreover have "DeletePrefix_descend s a k path0 = Some None"
        using miss(1) False by (subst DeletePrefix_descend.simps) simp
      ultimately show ?thesis by simp
    next
      case (hit i c)
      have i: "i = rank_of (map (lab_at s) gs) (hd k)" "i < length gs" "gs ! i = c" "lab_at s c = hd k"
        using hit by (auto simp: lab_at_def)
      let ?pre = "prefix (nodes s (ad c))"
      let ?r = "drop (length ?pre) k"
      have hp: "hasPrefix (nodes s (ad c)) k = Some (starts k ?pre)"
        using hit(9,10) False by (intro hasPrefix_starts) auto
      have c: "c \<in> set gs" using i by auto
      note ih = G.IH [OF c hit(7,11)]
      consider (in_seg) "starts ?pre k" "\<not> starts k ?pre" | (at) "starts ?pre k" "starts k ?pre"
        | (down) "\<not> starts ?pre k" "starts k ?pre" | (apart) "\<not> starts ?pre k" "\<not> starts k ?pre" by blast
      then show ?thesis
      proof cases
        case in_seg
        have lt: "length k < length ?pre" "take (length k) ?pre = k"
          using in_seg starts_length [OF in_seg(1)] by (auto simp: starts_def le_less)
        have "locatep k (absn s ?g) = Some [i]" using i in_seg False by (simp add: locatep_step [of k s ?g] Let_def del: absn.simps)
        moreover have "DeletePrefix_descend s a k path0 = DeletePrefix_descend s (ad c) [] (path0 @ [(a, i)])"
          using hit(1,5) hp in_seg(2) False lt by (subst DeletePrefix_descend.simps) simp
        ultimately show ?thesis using i by (auto intro!: exI [of _ "[(a, i)]"])
      next
        case at
        have "locatep k (absn s ?g) = Some [i]" using i at False by (simp add: locatep_step [of k s ?g] Let_def del: absn.simps)
        moreover have "?r = []" using at(1) starts_length by fastforce
        moreover have "DeletePrefix_descend s a k path0 = DeletePrefix_descend s (ad c) ?r (path0 @ [(a, i)])"
          using hit(1,5) hp at(2) False starts_length [OF at(2)] by (subst DeletePrefix_descend.simps) simp
        ultimately show ?thesis using i by (auto intro!: exI [of _ "[(a, i)]"])
      next
        case down
        have loc: "locatep k (absn s ?g) = map_option (Cons i) (locatep ?r (absn s c))"
          using i down False by (simp add: locatep_step [of k s ?g] Let_def del: absn.simps)
        have un: "DeletePrefix_descend s a k path0 = DeletePrefix_descend s (ad c) ?r (path0 @ [(a, i)])"
          using hit(1,5) hp down(2) False starts_length [OF down(2)]
          by (subst DeletePrefix_descend.simps) simp
        from ih [of ?r "path0 @ [(a, i)]"] show ?thesis
          unfolding loc gtree.sel un using i
          by (cases "locatep ?r (absn s c)") (auto intro: exI [of _ "(a, i) # _"])
      next
        case apart
        have "locatep k (absn s ?g) = None" using i apart False by (simp add: locatep_step [of k s ?g] Let_def del: absn.simps)
        moreover have "\<not> (length k < length ?pre \<and> take (length k) ?pre = k)" using apart(1) by (simp add: starts_def)
        then have "DeletePrefix_descend s a k path0 = Some None"
          using hit(1,5) hp apart(2) False by (subst DeletePrefix_descend.simps) simp
        ultimately show ?thesis by simp
      qed
    qed
  qed
qed

end
