(* ===== verification/Unlink.thy ===== *)
theory Unlink
  imports Deletion
begin

text \<open>
  \<open>unlink\<close>: the child at the end of a path is cut off, and a parent left with no value and a single
  child gives way to that child with the joined segment.  On the abstract tree this is \<open>cut_kid\<close>
  followed by restoring the shape all the way up.
\<close>

lemma ownPath_spec:
  fixes g :: "'x gtree" and s :: "'v store"
  assumes "trep (tepoch t) s g" and "troot t = Some (ad g)" and "epoch_ok (tepoch t)" and "follows g path"
  obtains path' s1 g1 D where "ownPath t path s = Some (path', t\<lparr>troot := Some (ad g1)\<rparr>, s1)"
    and "replaced (tepoch t) (tnf t) s {} g s1 g1 D {} {}" and "absh hf s1 g1 = absh hf s g"
    and "follows g1 path'" and "map snd path' = map snd path" and "owned_path (tepoch t) s1 path'"
    and "sub_at (map snd path) g1 = sub_at (map snd path) g"
proof -
  have h: "at_hole t None 0 s g" using assms(2) by (simp add: at_hole_def)
  from ownPath_loop_spec [OF assms(1) h assms(3,4), of hf] show ?thesis
    by (auto simp: plugged_def ownPath_def intro: that)
qed

text \<open>The subtree below an owned path reads as before.\<close>

lemma sub_at_absh_eq:
  assumes "absh h s1 g1 = absh h s g" and "follows g path" and "follows g1 path'"
    and "map snd path' = map snd path" and "sub_at (map snd path) g1 = sub_at (map snd path) g"
  shows "absh h s1 (sub_at (map snd path) g) = absh h s (sub_at (map snd path) g)"
  using asub_absh [OF assms(2), of h s] asub_absh [OF assms(3), of h s1] assms by simp

lemma hasValue_absh: "hasValue (nodes s (ad g)) \<longleftrightarrow> rval (absh h s g) \<noteq> None"
  by (simp add: value_at_def)

lemma hasValue_same:
  "absh h s1 (G n x gs) = absh h s (G n x gs) \<Longrightarrow> hasValue (nodes s1 n) \<longleftrightarrow> hasValue (nodes s n)"
  by (auto simp: value_at_def split: if_splits)

text \<open>The end of an owned path after a change below it that keeps the address.\<close>

lemma end_kept:
  fixes t :: txn
  assumes t: "trep (tepoch t) s g" and f: "follows g path" and o: "owned_path (tepoch t) s path" and p: "path \<noteq> []"
    and e: "eff (tepoch t) nf s X D s'" and X: "X \<subseteq> set (addrs (sub_at (map snd path) g))"
  shows "nodes s' (fst (last path)) =
    (nodes s (fst (last path)))\<lparr>arr := (arr (nodes s (fst (last path))))[snd (last path) := Some (ad (sub_at (map snd path) g))]\<rparr>"
proof -
  have h: "at_hole t (Some (fst (last path))) (snd (last path)) s (sub_at (map snd path) g)"
    using at_hole_path [OF t f o p] .
  then have "fst (last path) < next_node s" "own_e (tepoch t) (nodes s (fst (last path)))" "fst (last path) \<notin> X"
    using X by (auto simp: at_hole_def)
  then have "nodes s' (fst (last path)) = nodes s (fst (last path))" using eff_eq [OF e] by blast
  moreover have "(arr (nodes s (fst (last path))))[snd (last path) := Some (ad (sub_at (map snd path) g))]
      = arr (nodes s (fst (last path)))"
    using h list_update_id [of "arr (nodes s (fst (last path)))" "snd (last path)"] by (simp add: at_hole_def)
  ultimately show ?thesis by simp
qed

lemma path_at_last: "path_at (front @ [e]) (length front) = Some e"
  by (simp add: path_at_def)

lemma map_snd_snocE:
  assumes "map snd path' = map snd front @ [i]"
  obtains front' n where "path' = front' @ [(n, i)]" and "map snd front' = map snd front"
proof -
  have "path' \<noteq> []" using assms by auto
  then obtain front' e where p: "path' = front' @ [e]" by (metis rev_exhaust)
  with assms have "map snd front' = map snd front" "snd e = i" by auto
  with that [of front' "fst e"] p show ?thesis by (cases e) auto
qed

section \<open>Cutting without a merge\<close>

lemma unlink_cut:
  fixes g :: "'x gtree" and s :: "'v store"
  assumes t: "trep (tepoch t) s g" and r: "troot t = Some (ad g)" and E: "epoch_ok (tepoch t)"
    and f: "follows g (front @ [(pn, i)])" and wf: "wf_kids (map (absn s) (gk g))"
    and nm: "\<not> (front \<noteq> [] \<and> \<not> hasValue (nodes s pn) \<and> kidCount (nodes s pn) = 2)"
  shows "\<exists>t' s' g' D. unlink t (front @ [(pn, i)]) s = Some (t', s') \<and> t' = t\<lparr>troot := Some (ad g')\<rparr> \<and>
     replaced (tepoch t) (tnf t) s {} g s' g' D (set (addrs (sub_at (map snd front @ [i]) g))) {} \<and>
     absh hf s' g' = amodn (map snd front) (cut_kid i) (absh hf s g)"
proof -
  let ?E = "tepoch t" and ?f = "tnf t" and ?q = "map snd front"
  have ff: "follows g front" "pn = ad (sub_at ?q g)" "i < length (gk (sub_at ?q g))"
    using f by (simp_all add: follows_snoc)
  obtain path' s1 g1 D1 where o: "ownPath t (front @ [(pn, i)]) s = Some (path', t\<lparr>troot := Some (ad g1)\<rparr>, s1)"
    "replaced ?E ?f s {} g s1 g1 D1 {} {}" "absh hf s1 g1 = absh hf s g" "follows g1 path'"
    "map snd path' = map snd (front @ [(pn, i)])" "owned_path ?E s1 path'"
    "sub_at (map snd (front @ [(pn, i)])) g1 = sub_at (map snd (front @ [(pn, i)])) g"
    by (rule ownPath_spec [where hf = hf, OF t r E f])
  obtain front' n where p': "path' = front' @ [(n, i)]" and q: "map snd front' = ?q"
    using map_snd_snocE [of path' front i] o(5) by auto
  have f1: "follows g1 front'" "n = ad (sub_at ?q g1)" "i < length (gk (sub_at ?q g1))"
    using o(4) by (simp_all add: p' follows_snoc q)
  have oe: "owned_path ?E s1 front'" "own_e ?E (nodes s1 n)" using o(6) by (auto simp: p' owned_path_def)
  obtain px gs where pg: "sub_at ?q g1 = G n px gs" using f1(2) by (cases "sub_at ?q g1") simp
  note tr1 = replacedD(2) [OF o(2)]
  have tp: "trep ?E s1 (G n px gs)" using trep_sub_at [OF tr1 f1(1)] pg q by simp
  have i: "i < length gs" using f1(3) pg by simp
  have wf1: "wf_kids (map (absn s1) (gk g1))"
    using wf arg_cong [OF o(3), of subs] wf_kids_absh [of hf s "gk g"] wf_kids_absh [of hf s1 "gk g1"] by simp
  have ap: "apos ?q (absn s1 g1)" using apos_absh [OF f1(1), of "\<lambda>v x. v" s1] q by (simp add: absn_absh)
  have gi: "gs ! i = sub_at (?q @ [i]) g" using o(7) pg by (simp add: sub_at_snoc)
  have wfi: "wf_sub (absn s1 (gs ! i))"
  proof -
    have "wf_kids (subs (asub ?q (absn s1 g1)))" using wf_asub_kids [OF _ ap] wf1 by simp
    then have "wf_kids (map (absn s1) gs)" using asub_absn [OF f1(1), of s1] q pg by simp
    then show ?thesis using i by (simp add: wf_kids_def)
  qed
  have np: "prefix (nodes s1 (ad (gs ! i))) \<noteq> []" using wf_subD(1) [OF wfi] by simp
  obtain s2 where d: "delKid n i s1 = Some s2"
    "replaced ?E ?f s1 {} (G n px gs) s2 (G n px (remove_at i gs)) zero_notifier (set (addrs (gs ! i))) {}"
    "absh hf s2 (G n px (remove_at i gs)) = RT (prefix (nodes s1 n))
       (map_option (\<lambda>v. hf v px) (value_at (nodes s1 n))) (remove_at i (map (absh hf s1) gs))"
    by (rule replaced_del [where hf = hf and f = ?f and W = "{}", OF tp oe(2) i np])
  let ?u = "G n px (remove_at i gs)" and ?g2 = "put_at ?q (G n px (remove_at i gs)) g1"
  have u: "absh hf s2 ?u = cut_kid i (asub ?q (absh hf s g))"
    using d(3) asub_absh [OF f1(1), of hf s1] q pg o(3) by (simp add: cut_kid_def)
  have r0: "replaced ?E ?f s1 (hole (end_of front')) (sub_at (map snd front') g1) s2 ?u zero_notifier (set (addrs (gs ! i))) {}"
    using replaced_weaken [OF d(2), of "hole (end_of front')" "{}"] q pg by simp
  have ek: "front' \<noteq> [] \<Longrightarrow> nodes s2 (fst (last front')) =
      (nodes s1 (fst (last front')))\<lparr>arr := (arr (nodes s1 (fst (last front'))))[snd (last front') := Some (ad ?u)]\<rparr>"
    using end_kept [OF tr1 f1(1) oe(1) _ replacedD(1) [OF d(2)]] q pg by simp
  have lab: "front' \<noteq> [] \<Longrightarrow> lab_at s2 ?u = lab_at s1 (sub_at (map snd front') g1)"
    using arg_cong [OF d(3), of seg] q pg by (simp add: lab_at_def)
  have deep: "replaced ?E ?f s1 {} g1 s2 ?g2 zero_notifier (set (addrs (gs ! i))) {}"
    "absh hf s2 ?g2 = aput ?q (absh hf s2 ?u) (absh hf s1 g1)"
    using replaced_deep [OF tr1 f1(1) oe(1) r0 ek lab, of hf] q by simp_all
  have Z: "set (addrs (gs ! i)) \<subseteq> set (addrs g)" using addrs_sub_at [OF f] gi by simp
  have rr: "replaced ?E ?f s {} g s2 ?g2 (nf_add D1 zero_notifier) ({} \<union> set (addrs (gs ! i))) ({} \<union> {})"
    by (rule replaced_trans [OF t o(2) deep(1) Z]) simp
  have ab: "absh hf s2 ?g2 = amodn ?q (cut_kid i) (absh hf s g)"
  proof (cases "?q = []")
    case True
    then show ?thesis using deep(2) u by simp
  next
    case False
    have w: "wf_kids (subs (absh hf s g))" using wf by (simp add: wf_kids_absh)
    have a: "apos ?q (absh hf s g)" using apos_absh [OF ff(1)] .
    have ws: "wf_sub (asub ?q (absh hf s g))" using wf_asub [OF w a False] .
    have as: "asub ?q (absh hf s g) = absh hf s (sub_at ?q g)" using asub_absh [OF ff(1)] .
    have "norm (cut_kid i (asub ?q (absh hf s g))) = Some (cut_kid i (asub ?q (absh hf s g)))"
    proof (rule norm_id)
      have kc: "kidCount (nodes s pn) = length (gk (sub_at ?q g))"
        using rep_kidCount [OF trepD(1) [OF trep_sub_at [OF t ff(1)]]] ff(2) by simp
      have hv: "hasValue (nodes s pn) \<longleftrightarrow> rval (absh hf s (sub_at ?q g)) \<noteq> None" unfolding ff(2) by (rule hasValue_absh)
      have "rval (absh hf s (sub_at ?q g)) \<noteq> None \<or> 2 \<le> length (gk (sub_at ?q g))"
        using ws unfolding as by (simp add: wf_sub_iff)
      then show "rval (cut_kid i (asub ?q (absh hf s g))) \<noteq> None \<or>
          2 \<le> length (subs (cut_kid i (asub ?q (absh hf s g))))"
        unfolding as cut_kid_def rtree.sel using nm False kc hv ff(3) by auto
    qed
    from amodn_aput [where f = "cut_kid i", OF w a False this] show ?thesis using deep(2) u o(3) by simp
  qed
  have un: "unlink t (front @ [(pn, i)]) s = Some (t\<lparr>troot := Some (ad g1)\<rparr>, s2)"
    using nm o(1) d(1) p' arg_cong [OF q, of length] by (auto simp: unlink_def path_at_def nth_append)
  have "ad ?g2 = ad g1"
    using f1(2) pg by (cases "?q") auto
  with un rr ab gi show ?thesis
    by (intro exI [of _ "t\<lparr>troot := Some (ad g1)\<rparr>"] exI [of _ s2] exI [of _ ?g2] exI [of _ "nf_add D1 zero_notifier"]) simp
qed

section \<open>Cutting with a merge\<close>

text \<open>A change of the notifier only.\<close>

lemma trep_nodes: "nodes s' = nodes s \<Longrightarrow> next_node s' = next_node s \<Longrightarrow> trep E s' g \<longleftrightarrow> trep E s g"
proof -
  assume n: "nodes s' = nodes s" "next_node s' = next_node s"
  have l: "lab_at s' = lab_at s" by (simp add: fun_eq_iff lab_at_def n)
  have "rep s' g = rep s g" by (induction g) (simp add: n l)
  then show ?thesis by (simp add: trep_def n)
qed

lemma absh_nodes: "nodes s' = nodes s \<Longrightarrow> absh h s' g = absh h s g"
  by (induction g) simp

lemma absn_nodes: "nodes s' = nodes s \<Longrightarrow> absn s' g = absn s g"
  by (induction g) simp

text \<open>Recording a node on its way out, unless the transaction owns it.\<close>

definition d_out :: "txn \<Rightarrow> addr \<Rightarrow> 'v store \<Rightarrow> notifier" where
  "d_out t a s = (if owns t (nodes s a) then zero_notifier else d_node a)"

lemma drop_out:
  assumes "s' = (if \<not> owns t (nodes s a) then dropNode t a s else s)"
  shows "eff (tepoch t) (tnf t) s X (d_out t a s) s'" and "nodes s' = nodes s" and "next_node s' = next_node s"
  using assms eff_drop(1) [of "tepoch t" t s X a] eff_refl [of "tepoch t" "tnf t" s X]
  by (auto simp: d_out_def)

lemma d_out_simps [simp]:
  "nf_leaves (d_out t a s) = []" "nf_values (d_out t a s) = []" "nf_subtrees (d_out t a s) = []"
  "set (nf_nodes (d_out t a s)) = (if own_e (tepoch t) (nodes s a) then {} else {a})"
  by (auto simp: d_out_def owns_own_e)

text \<open>
  Node \<open>n\<close> leaves the tree: it is recorded unless owned, and so are the watchers of its value if
  anybody else can have seen it.
\<close>

definition departs :: "u64 \<Rightarrow> 'v store \<Rightarrow> addr \<Rightarrow> notifier \<Rightarrow> bool" where
  "departs E s n D \<longleftrightarrow>
     set (nf_nodes D) = (if own_e E (nodes s n) then {} else {n}) \<and> nf_subtrees D = [] \<and>
     None \<notin> set (nf_leaves D) \<and>
     set (nf_values D) \<subseteq> (if own_e E (nodes s n) \<or> \<not> hasValue (nodes s n) then {} else {n}) \<and>
     (hasValue (nodes s n) \<longrightarrow>
        (if own_e E (nodes s n) then \<not> leafOwned (nodes s n) \<longrightarrow> leafp (nodes s n) \<in> set (nf_leaves D)
         else n \<in> set (nf_values D)))"

lemma departs_out: "\<not> hasValue (nodes s n) \<Longrightarrow> departs (tepoch t) s n (d_out t n s)"
  by (simp add: departs_def)

lemma account_one:
  assumes t: "trep E s g" and n: "n \<in> set (addrs g)" and d: "departs E s n D0"
    and e: "eff E f s {} D0 s1" "nodes s1 = nodes s" "next_node s1 = next_node s"
    and r: "replaced E f s1 H g s' g' D (insert n Z') W"
  shows "replaced E f s H g s' g' (nf_add D0 D) Z' W"
proof -
  have r': "replaced E f s1 H g s' g' D ({n} \<union> Z') W" using r by simp
  show ?thesis
  proof (rule replaced_account [OF t e r'])
    show "gone E s s' D0 a" if "(a, y) \<in> vnodes s g" "a \<in> {n}" for a y
      using d vnodes_addrs [OF that(1)] that(2) by (auto simp: departs_def gone_def)
  qed (use d n in \<open>auto simp: departs_def unowned_def split: if_splits\<close>)
qed

text \<open>
  \<open>mergeChild\<close> at the end of an owned path: the node there departs together with its other children,
  and the one child takes its place with the joined segment.
\<close>

lemma merge_end:
  fixes g :: "'x gtree" and s :: "'v store"
  assumes t: "trep (tepoch t) s g" and E: "epoch_ok (tepoch t)" and f: "follows g path"
    and o: "owned_path (tepoch t) s path" and ne: "path \<noteq> []" and l: "last path = (gp, gidx)"
    and pg: "sub_at (map snd path) g = G n px gs" and d: "departs (tepoch t) s n D0"
    and e: "eff (tepoch t) (tnf t) s {} D0 s2" "nodes s2 = nodes s" "next_node s2 = next_node s"
    and j: "j < length gs" and w: "wf_sub (absh hf s (gs ! j))" and pn: "prefix (nodes s n) \<noteq> []"
    and u: "u = RT (prefix (nodes s n) @ seg (absh hf s (gs ! j))) (rval (absh hf s (gs ! j))) (subs (absh hf s (gs ! j)))"
  obtains s3 D c where "mergeChild t gp gidx n (ad (gs ! j)) s2 = Some s3"
    and "replaced (tepoch t) (tnf t) s {} g s3 (put_at (map snd path) c g) D
           (\<Union>k \<in> {..<length gs} - {j}. set (addrs (gs ! k))) {}"
    and "absh hf s3 (put_at (map snd path) c g) = aput (map snd path) u (absh hf s g)"
proof -
  let ?E = "tepoch t" and ?f = "tnf t" and ?q = "map snd path"
  let ?Z' = "\<Union>k \<in> {..<length gs} - {j}. set (addrs (gs ! k))"
  have t2: "trep ?E s2 g" using t e(2,3) trep_nodes by blast
  have op: "owned_path ?E s2 path" using o e(2) by (simp add: owned_path_def)
  have h: "at_hole t (Some gp) gidx s2 (G n px gs)" using at_hole_path [OF t2 f op ne] l pg by simp
  have tp: "trep ?E s2 (G n px gs)" using trep_sub_at [OF t2 f] pg by simp
  obtain b y hs where gj: "gs ! j = G b y hs" by (cases "gs ! j")
  have v: "hs = [] \<Longrightarrow> hasValue (nodes s2 b)"
    using w gj e(2) by (auto simp: wf_sub_iff value_at_def split: if_splits)
  obtain s3 m D where mc: "mergeChild t gp gidx n b s2 = Some s3" "plugged (Some gp) gidx t s2 m t s3"
    "replaced ?E ?f s2 {gp} (G n px gs) s3 (G m y hs) D (insert n ?Z') {}"
    "absh hf s3 (G m y hs) = RT (prefix (nodes s2 n) @ prefix (nodes s2 b))
       (map_option (\<lambda>v. hf v y) (value_at (nodes s2 b))) (map (absh hf s2) hs)"
    "prefix (nodes s3 m) = prefix (nodes s2 n) @ prefix (nodes s2 b)"
    by (rule replaced_merge [where hf = hf, OF tp h E j gj v refl]) assumption
  let ?c = "G m y hs"
  have r0: "replaced ?E ?f s2 (hole (end_of path)) (sub_at ?q g) s3 ?c D (insert n ?Z') {}"
    using mc(3) l ne pg by (simp add: end_of_def)
  have ek: "nodes s3 (fst (last path)) = (nodes s2 (fst (last path)))
      \<lparr>arr := (arr (nodes s2 (fst (last path))))[snd (last path) := Some (ad ?c)]\<rparr>"
    using plugged_SomeD [OF mc(2)] l by simp
  have lab: "lab_at s3 ?c = lab_at s2 (sub_at ?q g)" using mc(5) pn e(2) pg by (simp add: lab_at_def)
  have deep: "replaced ?E ?f s2 {} g s3 (put_at ?q ?c g) D (insert n ?Z') {}"
    "absh hf s3 (put_at ?q ?c g) = aput ?q (absh hf s3 ?c) (absh hf s2 g)"
    using replaced_deep [OF t2 f op r0, of hf] ek lab by simp_all
  have nin: "n \<in> set (addrs g)" using addrs_sub_at [OF f] pg by auto
  have "absh hf s2 = absh hf s" by (intro ext) (rule absh_nodes [OF e(2)])
  then have "absh hf s3 ?c = u" "absh hf s2 g = absh hf s g" using mc(4) e(2) gj u by simp_all
  with deep(2) that [of s3 ?c] mc(1) gj account_one [OF t nin d e deep(1)] show ?thesis by simp
qed

lemma unlink_merge:
  fixes g :: "'x gtree" and s :: "'v store"
  assumes t: "trep (tepoch t) s g" and r: "troot t = Some (ad g)" and E: "epoch_ok (tepoch t)"
    and f: "follows g (front @ [(pn, i)])" and wf: "wf_kids (map (absn s) (gk g))"
    and m: "front \<noteq> []" "\<not> hasValue (nodes s pn)" "kidCount (nodes s pn) = 2"
  shows "\<exists>t' s' g' D. unlink t (front @ [(pn, i)]) s = Some (t', s') \<and> t' = t\<lparr>troot := Some (ad g')\<rparr> \<and>
     replaced (tepoch t) (tnf t) s {} g s' g' D (set (addrs (sub_at (map snd front @ [i]) g))) {} \<and>
     absh hf s' g' = amodn (map snd front) (cut_kid i) (absh hf s g)"
proof -
  let ?E = "tepoch t" and ?f = "tnf t" and ?q = "map snd front"
  have ff: "follows g front" "pn = ad (sub_at ?q g)" "i < length (gk (sub_at ?q g))"
    using f by (simp_all add: follows_snoc)
  obtain px gs where pg: "sub_at ?q g = G pn px gs" using ff(2) by (cases "sub_at ?q g") simp
  have "kidCount (nodes s pn) = length gs"
    using rep_kidCount [OF trepD(1) [OF trep_sub_at [OF t ff(1)]]] unfolding pg by simp
  then have l2: "length gs = 2" "i < 2" using ff(3) m(3) unfolding pg by simp_all
  then have j: "1 - i < length gs" "{..<length gs} - {1 - i} = {i}" by (cases i; auto)+
  obtain path' s1 g1 D1 where o: "ownPath t front s = Some (path', t\<lparr>troot := Some (ad g1)\<rparr>, s1)"
    "replaced ?E ?f s {} g s1 g1 D1 {} {}" "absh hf s1 g1 = absh hf s g" "follows g1 path'"
    "map snd path' = ?q" "owned_path ?E s1 path'" "sub_at ?q g1 = sub_at ?q g"
    by (rule ownPath_spec [where hf = hf, OF t r E ff(1)])
  let ?t1 = "t\<lparr>troot := Some (ad g1)\<rparr>"
  define s2 where "s2 = (if \<not> owns ?t1 (nodes s1 pn) then dropNode ?t1 pn s1 else s1)"
  note dr = drop_out [OF s2_def]
  have ne: "path' \<noteq> []" and qne: "?q \<noteq> []" using o(5) m(1) by auto
  note tr1 = replacedD(2) [OF o(2)]
  have pg1: "sub_at (map snd path') g1 = G pn px gs" using o(5,7) pg by simp
  obtain gp gidx where e: "last path' = (gp, gidx)" by (cases "last path'")
  have same: "absh hf s1 (G pn px gs) = absh hf s (G pn px gs)"
    using sub_at_absh_eq [OF o(3) ff(1) o(4,5) o(7)] pg by simp
  have hv: "\<not> hasValue (nodes s1 pn)"
    using hasValue_same [OF same] m(2) by simp
  have w: "wf_kids (subs (absh hf s g))" using wf by (simp add: wf_kids_absh)
  have a: "apos ?q (absh hf s g)" using apos_absh [OF ff(1)] .
  have as: "asub ?q (absh hf s g) = absh hf s (G pn px gs)" using asub_absh [OF ff(1)] pg by simp
  have ws: "wf_sub (absh hf s1 (G pn px gs))" using wf_asub [OF w a qne] unfolding same as .
  have wj: "wf_sub (absh hf s1 (gs ! (1 - i)))"
    using wf_subD(2) [OF ws] j(1) by (simp add: wf_kids_def)
  have pp: "prefix (nodes s1 pn) \<noteq> []" using wf_subD(1) [OF ws] by simp
  let ?c = "absh hf s1 (gs ! (1 - i))"
  let ?u = "RT (prefix (nodes s1 pn) @ seg ?c) (rval ?c) (subs ?c)"
  have p: "trep (tepoch ?t1) s1 g1" "epoch_ok (tepoch ?t1)" "owned_path (tepoch ?t1) s1 path'"
    "departs (tepoch ?t1) s1 pn (d_out ?t1 pn s1)" "eff (tepoch ?t1) (tnf ?t1) s1 {} (d_out ?t1 pn s1) s2"
    using tr1 E o(6) departs_out [OF hv, of ?t1] dr(1) by simp_all
  obtain s3 D c where mc: "mergeChild ?t1 gp gidx pn (ad (gs ! (1 - i))) s2 = Some s3"
    "replaced (tepoch ?t1) (tnf ?t1) s1 {} g1 s3 (put_at (map snd path') c g1) D (\<Union>k \<in> {..<length gs} - {1 - i}. set (addrs (gs ! k))) {}"
    "absh hf s3 (put_at (map snd path') c g1) = aput (map snd path') ?u (absh hf s1 g1)"
    by (rule merge_end [where hf = hf, OF p(1,2) o(4) p(3) ne e pg1 p(4,5) dr(2,3) j(1) wj pp refl])
  let ?g3 = "put_at ?q c g1"
  have gi: "gs ! i = sub_at (?q @ [i]) g" using pg by (simp add: sub_at_snoc)
  have Zs: "set (addrs (gs ! i)) \<subseteq> set (addrs g)" using addrs_sub_at [OF f] gi by simp
  have acc: "replaced ?E ?f s1 {} g1 s3 ?g3 D (set (addrs (gs ! i))) {}" using mc(2) j(2) o(5) by simp
  have rr: "replaced ?E ?f s {} g s3 ?g3 (nf_add D1 D) ({} \<union> set (addrs (gs ! i))) ({} \<union> {})"
    by (rule replaced_trans [OF t o(2) acc Zs]) simp
  have nk: "norm (cut_kid i (asub ?q (absh hf s g))) = Some ?u"
  proof -
    obtain k0 k1 where gs2: "gs = [k0, k1]" using l2(1) by (cases gs; cases "tl gs"; cases "tl (tl gs)") auto
    have rv: "rval (absh hf s1 (G pn px gs)) = None" using hv by (simp add: value_at_def)
    have "remove_at i (map (absh hf s1) gs) = [?c]"
      using gs2 l2(2) by (auto simp: remove_at_def less_2_cases_iff)
    then show ?thesis using rv unfolding as same [symmetric] by (simp add: cut_kid_def)
  qed
  have ab: "absh hf s3 ?g3 = amodn ?q (cut_kid i) (absh hf s g)"
    using amodn_aput [where f = "cut_kid i", OF w a qne nk] mc(3) o(3,5) by metis
  have kj: "kid (nodes s2 pn) (1 - i) = Some (ad (gs ! (1 - i)))"
    using rep_kid [OF trepD(1) [OF trep_sub_at [OF tr1 o(4)]], of "1 - i"] j(1) pg1 dr(2) by simp
  have lp: "length path' = length front" using arg_cong [OF o(5), of length] by simp
  have "path' ! (length front - 1) = (gp, gidx)" using e ne lp by (simp add: last_conv_nth)
  then have pl: "path_at path' (length front - 1) = Some (gp, gidx)" using m(1) lp by (simp add: path_at_def)
  have un: "unlink t (front @ [(pn, i)]) s = Some (?t1, s3)"
    using m o(1) mc(1) kj pl s2_def by (simp add: unlink_def path_at_last Let_def)
  have "ad ?g3 = ad g1" using qne by (cases "?q") simp_all
  with un rr ab gi show ?thesis
    by (intro exI [of _ ?t1] exI [of _ s3] exI [of _ ?g3] exI [of _ "nf_add D1 D"]) simp
qed

theorem unlink_spec:
  fixes g :: "'x gtree" and s :: "'v store"
  assumes "trep (tepoch t) s g" and "troot t = Some (ad g)" and "epoch_ok (tepoch t)"
    and "follows g (front @ [(pn, i)])" and "wf_kids (map (absn s) (gk g))"
  obtains s' g' D where "unlink t (front @ [(pn, i)]) s = Some (t\<lparr>troot := Some (ad g')\<rparr>, s')"
    and "replaced (tepoch t) (tnf t) s {} g s' g' D (set (addrs (sub_at (map snd front @ [i]) g))) {}"
    and "absh hf s' g' = amodn (map snd front) (cut_kid i) (absh hf s g)"
  using unlink_cut [OF assms, of hf] unlink_merge [OF assms, of hf] by metis

end
