(* ===== verification/Delete_Ops.thy ===== *)
theory Delete_Ops
  imports Unlink
begin

text \<open>
  \<open>Delete\<close> and \<open>DeletePrefix\<close>: each case of the code puts the abstractly changed tree in the place of
  the old one, and records exactly what left.
\<close>

section \<open>Positions do not depend on how values are read\<close>

lemma locate_absh: "locate k (absh h s g) = locate k (absn s g)"
proof (induction g arbitrary: k rule: gtree.induct)
  case (G a xt gs)
  then show ?case by (auto simp: locate.simps [of k] Let_def cong: conj_cong)
qed

lemma locatep_absh: "locatep k (absh h s g) = locatep k (absn s g)"
proof (induction g arbitrary: k rule: gtree.induct)
  case (G a xt gs)
  then show ?case by (auto simp: locatep.simps [of k] Let_def)
qed

lemma amodn_cong: "f (asub is t) = f' (asub is t) \<Longrightarrow> amodn is f t = amodn is f' t"
  by (induction "is" arbitrary: t) auto

lemma amodn_drop:
  assumes "norm (f (asub (is @ [i]) t)) = None"
  shows "amodn (is @ [i]) f t = amodn is (cut_kid i) t"
  unfolding amodn_snoc using assms by (intro amodn_cong) (simp add: asub_snoc cut_kid_def)

section \<open>Beginning a write\<close>

lemma begin_txn_nodes:
  assumes "begin_txn t s = (t1, s1)"
  shows "nodes s1 = nodes s" and "next_node s1 = next_node s" and "troot t1 = troot t" and "tnf t1 = tnf t"
  using assms by (auto simp: begin_txn_def split: if_splits)

text \<open>What a transaction may write to: its root holds a well-formed tree.\<close>

definition writable :: "txn \<Rightarrow> 'v store \<Rightarrow> 'x gtree \<Rightarrow> bool" where
  "writable t s g \<longleftrightarrow>
     troot t = Some (ad g) \<and> trep (tepoch t) s g \<and> epoch_ok (tepoch t) \<and> wf_kids (map (absn s) (gk g))"

lemma writableD:
  assumes "writable t s g"
  shows "troot t = Some (ad g)" and "trep (tepoch t) s g" and "epoch_ok (tepoch t)"
    and "wf_kids (map (absn s) (gk g))" and "rep s g" and "at_hole t None 0 s g"
    and "wf_kids (subs (absh h s g))"
  using assms trepD(1) by (auto simp: writable_def at_hole_def wf_kids_absh)

text \<open>The node \<open>n\<close> that is dropped with its value departs.\<close>

lemma dropWithLeaf_spec:
  assumes t: "trep (tepoch t) s (G n xt gs)" and v: "hasValue (nodes s n)"
  obtains s' D where "dropWithLeaf t n s = s'" and "eff (tepoch t) (tnf t) s {} D s'" and "nodes s' = nodes s"
    and "next_node s' = next_node s" and "departs (tepoch t) s n D"
proof -
  have oo: "own_ok (tepoch t) (nodes s n)" using t by (simp add: trep_G)
  note rv = releaseValue_spec [where t = t and a = n and s = s]
  let ?s1 = "releaseValue t n s"
  let ?s2 = "if \<not> owns t (nodes ?s1 n) then dropNode t n ?s1 else ?s1"
  note dr = drop_out [of ?s2 t ?s1 n, OF refl]
  let ?D = "nf_add (d_release t n (nodes s n)) (d_out t n ?s1)"
  have "eff (tepoch t) (tnf t) s {} ?D ?s2" by (rule eff_trans_weaken [OF rv(1) dr(1)]) auto
  moreover have "departs (tepoch t) s n ?D"
    using d_release_simps [OF v oo] v rv(2) by (auto simp: departs_def split: if_splits)
  ultimately show ?thesis
    using that [of ?s2 ?D] rv dr by (simp add: dropWithLeaf_def Let_def)
qed

section \<open>The cases of \<open>Delete\<close>\<close>

lemma sub_wf:
  assumes "writable t s g" and "follows g path" and "path \<noteq> []"
  shows "wf_sub (absh h s (sub_at (map snd path) g))"
  using wf_asub [OF writableD(7) [OF assms(1)] apos_absh [OF assms(2)], of h] asub_absh [OF assms(2), of h s] assms(3)
  by simp

lemma del_root:
  fixes g :: "'x gtree" and s :: "'v store"
  assumes w: "writable t s g"
  obtains s' g' D c where "ownValueless t None 0 (ad g) s = Some (c, t\<lparr>troot := Some (ad g')\<rparr>, s')"
    and "replaced (tepoch t) (tnf t) s {} g s' g' D {} {}" and "absh hf s' g' = clear_val (absh hf s g)"
proof -
  obtain a xt gs where g: "g = G a xt gs" by (cases g)
  note t = writableD(2) [OF w, unfolded g] and h = writableD(6) [OF w, unfolded g] and E = writableD(3) [OF w]
  obtain c t' s' D where o: "ownValueless t None 0 a s = Some (c, t', s')" "plugged None 0 t s c t' s'"
    "replaced (tepoch t) (tnf t) s (hole None) (G a xt gs) s' (G c xt gs) D {} {}"
    "absh hf s' (G c xt gs) = RT (prefix (nodes s a)) None (map (absh hf s) gs)"
    by (rule ownValueless_spec [where hf = hf, OF t h E])
  then show ?thesis using that [of c "G c xt gs" s' D] g by (simp add: plugged_def clear_val_def)
qed

lemma del_leaf:
  fixes g :: "'x gtree" and s :: "'v store"
  assumes w: "writable t s g" and f: "follows g (front @ [(pn, i)])"
    and n: "sub_at (map snd front @ [i]) g = G n xn []" and v: "hasValue (nodes s n)"
  obtains s' g' D where "unlink t (front @ [(pn, i)]) (dropWithLeaf t n s) = Some (t\<lparr>troot := Some (ad g')\<rparr>, s')"
    and "replaced (tepoch t) (tnf t) s {} g s' g' D {} {}"
    and "absh hf s' g' = amodn (map snd front @ [i]) clear_val (absh hf s g)"
proof -
  let ?E = "tepoch t" and ?f = "tnf t" and ?p = "front @ [(pn, i)]"
  note t = writableD(2) [OF w] and E = writableD(3) [OF w]
  have tn: "trep ?E s (G n xn [])" using trep_sub_at [OF t f] n by simp
  have nin: "n \<in> set (addrs g)" using addrs_sub_at [OF f] n by simp
  obtain s1 D0 where d: "dropWithLeaf t n s = s1" "eff ?E ?f s {} D0 s1" "nodes s1 = nodes s"
    "next_node s1 = next_node s" "departs ?E s n D0"
    by (rule dropWithLeaf_spec [OF tn v])
  have t1: "trep ?E s1 g" using t d(3,4) trep_nodes by blast
  have ab: "absh hf s1 g = absh hf s g" by (rule absh_nodes [OF d(3)])
  have w1: "wf_kids (map (absn s1) (gk g))"
    using writableD(4) [OF w] by (simp add: absn_nodes [OF d(3)] cong: map_cong)
  obtain s2 g' D where u: "unlink t ?p s1 = Some (t\<lparr>troot := Some (ad g')\<rparr>, s2)"
    "replaced ?E ?f s1 {} g s2 g' D (set (addrs (sub_at (map snd front @ [i]) g))) {}"
    "absh hf s2 g' = amodn (map snd front) (cut_kid i) (absh hf s1 g)"
    by (rule unlink_spec [where hf = hf, OF t1 writableD(1) [OF w] E f w1])
  have "replaced ?E ?f s {} g s2 g' (nf_add D0 D) {} {}"
    using account_one [OF t nin d(5,2,3,4)] u(2) n by simp
  moreover have "amodn (map snd front) (cut_kid i) (absh hf s g) = amodn (map snd front @ [i]) clear_val (absh hf s g)"
    using asub_absh [OF f, of hf s] n by (intro amodn_drop [symmetric]) (simp add: clear_val_def)
  ultimately show ?thesis using that [OF _ _ trans [OF u(3)]] u(1) d(1) ab by simp
qed

lemma del_one:
  fixes g :: "'x gtree" and s :: "'v store"
  assumes w: "writable t s g" and f: "follows g path" and ne: "path \<noteq> []"
    and n: "sub_at (map snd path) g = G n xn [k]" and v: "hasValue (nodes s n)"
  obtains s' g' D where "do { (path', t, s) \<leftarrow> ownPath t path s;
        let s = dropWithLeaf t n s;
        (p, idx) \<leftarrow> path_at path' (length path - 1);
        c \<leftarrow> kid (nodes s n) 0;
        s \<leftarrow> mergeChild t p idx n c s;
        Some (r, t, s) } = Some (r, t\<lparr>troot := Some (ad g')\<rparr>, s')"
    and "replaced (tepoch t) (tnf t) s {} g s' g' D {} {}"
    and "absh hf s' g' = amodn (map snd path) clear_val (absh hf s g)"
proof -
  let ?E = "tepoch t" and ?f = "tnf t" and ?q = "map snd path"
  note t = writableD(2) [OF w] and E = writableD(3) [OF w]
  obtain path' s1 g1 D1 where o: "ownPath t path s = Some (path', t\<lparr>troot := Some (ad g1)\<rparr>, s1)"
    "replaced ?E ?f s {} g s1 g1 D1 {} {}" "absh hf s1 g1 = absh hf s g" "follows g1 path'"
    "map snd path' = ?q" "owned_path ?E s1 path'" "sub_at ?q g1 = sub_at ?q g"
    by (rule ownPath_spec [where hf = hf, OF t writableD(1) [OF w] E f])
  let ?t1 = "t\<lparr>troot := Some (ad g1)\<rparr>"
  have same: "absh hf s1 (G n xn [k]) = absh hf s (G n xn [k])"
    using sub_at_absh_eq [OF o(3) f o(4,5) o(7)] n by simp
  have v1: "hasValue (nodes s1 n)" using hasValue_same [OF same] v by simp
  have pg: "sub_at (map snd path') g1 = G n xn [k]" using o(5,7) n by simp
  note tr1 = replacedD(2) [OF o(2)]
  have ne': "path' \<noteq> []" using o(5) ne by auto
  obtain gp gidx where l: "last path' = (gp, gidx)" by (cases "last path'")
  have tn: "trep (tepoch ?t1) s1 (G n xn [k])" using trep_sub_at [OF tr1 o(4)] pg by simp
  obtain s2 D0 where d: "dropWithLeaf ?t1 n s1 = s2" "eff (tepoch ?t1) (tnf ?t1) s1 {} D0 s2" "nodes s2 = nodes s1"
    "next_node s2 = next_node s1" "departs (tepoch ?t1) s1 n D0"
    by (rule dropWithLeaf_spec [OF tn v1])
  have ws: "wf_sub (absh hf s1 (G n xn [k]))" using sub_wf [OF w f ne, of hf] unfolding n same .
  have pn: "prefix (nodes s1 n) \<noteq> []" using wf_subD(1) [OF ws] by simp
  have wk: "wf_sub (absh hf s1 ([k] ! 0))" using wf_subD(2) [OF ws] by (simp add: wf_kids_def)
  have p: "trep (tepoch ?t1) s1 g1" "epoch_ok (tepoch ?t1)" "owned_path (tepoch ?t1) s1 path'" "0 < length [k]"
    using tr1 E o(6) by simp_all
  let ?c = "absh hf s1 ([k] ! 0)"
  let ?u = "RT (prefix (nodes s1 n) @ seg ?c) (rval ?c) (subs ?c)"
  obtain s3 D c where mc: "mergeChild ?t1 gp gidx n (ad ([k] ! 0)) s2 = Some s3"
    "replaced (tepoch ?t1) (tnf ?t1) s1 {} g1 s3 (put_at (map snd path') c g1) D
      (\<Union>j \<in> {..<length [k]} - {0}. set (addrs ([k] ! j))) {}"
    "absh hf s3 (put_at (map snd path') c g1) = aput (map snd path') ?u (absh hf s1 g1)"
    by (rule merge_end [where hf = hf, OF p(1,2) o(4) p(3) ne' l pg d(5,2,3,4) p(4) wk pn refl])
  let ?g3 = "put_at ?q c g1"
  have acc: "replaced ?E ?f s1 {} g1 s3 ?g3 D {} {}" using mc(2) o(5) by (simp add: lessThan_Suc)
  have rr: "replaced ?E ?f s {} g s3 ?g3 (nf_add D1 D) ({} \<union> {}) ({} \<union> {})"
    by (rule replaced_trans [OF t o(2) acc]) simp_all
  have as: "asub ?q (absh hf s g) = absh hf s1 (G n xn [k])" unfolding same using asub_absh [OF f, of hf s] n by simp
  have nk: "norm (clear_val (asub ?q (absh hf s g))) = Some ?u" unfolding as by (simp add: clear_val_def)
  have qne: "?q \<noteq> []" using ne by simp
  have ab: "absh hf s3 ?g3 = amodn ?q clear_val (absh hf s g)"
    using amodn_aput [where f = clear_val, OF writableD(7) [OF w] apos_absh [OF f] qne nk] mc(3) o(3,5) by metis
  have kj: "kid (nodes s2 n) 0 = Some (ad k)"
    using rep_kid [OF trepD(1) [OF tn], of 0] d(3) by simp
  have lp: "length path' = length path" using arg_cong [OF o(5), of length] by simp
  have "path' ! (length path - 1) = (gp, gidx)" using l ne' lp by (simp add: last_conv_nth)
  then have pl: "path_at path' (length path - 1) = Some (gp, gidx)" using ne lp by (simp add: path_at_def)
  have "ad ?g3 = ad g1" using qne by (cases "?q") simp_all
  then show ?thesis
    using that [of ?g3 s3 "nf_add D1 D"] rr ab o(1) d(1) kj pl mc(1) by (simp add: Let_def)
qed

lemma del_many:
  fixes g :: "'x gtree" and s :: "'v store"
  assumes w: "writable t s g" and f: "follows g path" and ne: "path \<noteq> []"
    and n: "sub_at (map snd path) g = G n xn gs" and k: "2 \<le> length gs"
  obtains s' g' D where "do { (path', t, s) \<leftarrow> ownPath t path s;
        (p, idx) \<leftarrow> path_at path' (length path - 1);
        (_, t, s) \<leftarrow> ownValueless t (Some p) idx n s;
        Some (r, t, s) } = Some (r, t\<lparr>troot := Some (ad g')\<rparr>, s')"
    and "replaced (tepoch t) (tnf t) s {} g s' g' D {} {}"
    and "absh hf s' g' = amodn (map snd path) clear_val (absh hf s g)"
proof -
  let ?E = "tepoch t" and ?f = "tnf t" and ?q = "map snd path"
  note t = writableD(2) [OF w] and E = writableD(3) [OF w]
  obtain path' s1 g1 D1 where o: "ownPath t path s = Some (path', t\<lparr>troot := Some (ad g1)\<rparr>, s1)"
    "replaced ?E ?f s {} g s1 g1 D1 {} {}" "absh hf s1 g1 = absh hf s g" "follows g1 path'"
    "map snd path' = ?q" "owned_path ?E s1 path'" "sub_at ?q g1 = sub_at ?q g"
    by (rule ownPath_spec [where hf = hf, OF t writableD(1) [OF w] E f])
  let ?t1 = "t\<lparr>troot := Some (ad g1)\<rparr>"
  have same: "absh hf s1 (G n xn gs) = absh hf s (G n xn gs)"
    using sub_at_absh_eq [OF o(3) f o(4,5) o(7)] n by simp
  have pg: "sub_at (map snd path') g1 = G n xn gs" using o(5,7) n by simp
  note tr1 = replacedD(2) [OF o(2)]
  have ne': "path' \<noteq> []" using o(5) ne by auto
  obtain gp gidx where l: "last path' = (gp, gidx)" by (cases "last path'")
  have tn: "trep (tepoch ?t1) s1 (G n xn gs)" using trep_sub_at [OF tr1 o(4)] pg by simp
  have h: "at_hole ?t1 (Some gp) gidx s1 (G n xn gs)"
    using at_hole_path [of ?t1 s1 g1 path'] tr1 o(4,6) ne' l pg by simp
  have E1: "epoch_ok (tepoch ?t1)" using E by simp
  obtain c t2 s2 D where ov: "ownValueless ?t1 (Some gp) gidx n s1 = Some (c, t2, s2)"
    "plugged (Some gp) gidx ?t1 s1 c t2 s2"
    "replaced (tepoch ?t1) (tnf ?t1) s1 (hole (Some gp)) (G n xn gs) s2 (G c xn gs) D {} {}"
    "absh hf s2 (G c xn gs) = RT (prefix (nodes s1 n)) None (map (absh hf s1) gs)"
    by (rule ownValueless_spec [where hf = hf, OF tn h E1])
  note pl = plugged_SomeD [OF ov(2)]
  let ?u = "G c xn gs" and ?g2 = "put_at ?q (G c xn gs) g1"
  have r0: "replaced ?E ?f s1 (hole (end_of path')) (sub_at (map snd path') g1) s2 ?u D {} {}"
    using ov(3) l ne' pg by (simp add: end_of_def)
  have ek: "nodes s2 (fst (last path')) = (nodes s1 (fst (last path')))
      \<lparr>arr := (arr (nodes s1 (fst (last path'))))[snd (last path') := Some (ad ?u)]\<rparr>"
    using pl l by simp
  have lab: "lab_at s2 ?u = lab_at s1 (sub_at (map snd path') g1)"
    using arg_cong [OF ov(4), of seg] pg by (simp add: lab_at_def)
  have deep: "replaced ?E ?f s1 {} g1 s2 ?g2 D {} {}"
    "absh hf s2 ?g2 = aput ?q (absh hf s2 ?u) (absh hf s1 g1)"
    using replaced_deep [OF tr1 o(4,6) r0, of hf] ek lab o(5) by simp_all
  have rr: "replaced ?E ?f s {} g s2 ?g2 (nf_add D1 D) ({} \<union> {}) ({} \<union> {})"
    by (rule replaced_trans [OF t o(2) deep(1)]) simp_all
  have as: "asub ?q (absh hf s g) = absh hf s1 (G n xn gs)" unfolding same using asub_absh [OF f, of hf s] n by simp
  have cv: "clear_val (asub ?q (absh hf s g)) = absh hf s2 ?u" unfolding as ov(4) by (simp add: clear_val_def)
  have nk: "norm (clear_val (asub ?q (absh hf s g))) = Some (absh hf s2 ?u)"
    unfolding cv by (rule norm_id) (simp add: k)
  have qne: "?q \<noteq> []" using ne by simp
  have ab: "absh hf s2 ?g2 = amodn ?q clear_val (absh hf s g)"
    using amodn_aput [where f = clear_val, OF writableD(7) [OF w] apos_absh [OF f] qne nk] deep(2) o(3) by metis
  have lp: "length path' = length path" using arg_cong [OF o(5), of length] by simp
  have "path' ! (length path - 1) = (gp, gidx)" using l ne' lp by (simp add: last_conv_nth)
  then have pa: "path_at path' (length path - 1) = Some (gp, gidx)" using ne lp by (simp add: path_at_def)
  have "ad ?g2 = ad g1" using qne by (cases "?q") simp_all
  then show ?thesis using that [of ?g2 s2 "nf_add D1 D"] rr ab o(1) pa ov(1) pl by simp
qed

section \<open>The operations\<close>

text \<open>
  \<open>Delete\<close> on a transaction that is writable once begun: a missing key changes nothing at all, a
  present one is removed from the abstract tree.
\<close>

lemma Delete_spec:
  fixes g :: "'x gtree" and s :: "'v store"
  assumes b: "begin_txn t s = (t1, s1)" and w: "writable t1 s1 g"
  shows "if look (absn s g) k = None then Delete t k s = Some (no_value, t, s)
    else \<exists>s' g' D. Delete t k s = Some (found (look (absn s g) k), t1\<lparr>troot := Some (ad g')\<rparr>, s') \<and>
      replaced (tepoch t1) (tnf t1) s1 {} g s' g' D {} {} \<and> absh hf s' g' = del k (absh hf s g)"
proof -
  note bn = begin_txn_nodes [OF b]
  have r: "troot t = Some (ad g)" using writableD(1) [OF w] bn(3) by simp
  have rp: "rep s g" using writableD(2) [OF w] trepD(1) trep_nodes [OF bn(1,2)] by blast
  have wf: "wf_kids (map (absn s) (gk g))"
    using writableD(4) [OF w] by (simp add: absn_nodes [OF bn(1)] cong: map_cong)
  have ab: "absh hf s1 g = absh hf s g" by (rule absh_nodes [OF bn(1)])
  note ds = Delete_descend_spec [OF rp wf, of k "[]"] and lk = locate_look [of "absn s g" k, simplified, OF wf]
  show ?thesis
  proof (cases "locate k (absn s g)")
    case None
    then show ?thesis using ds lk r by (simp add: Delete_def)
  next
    case (Some "is")
    then obtain path where path: "Delete_descend s (ad g) k [] = Some (Some (ad (sub_at is g), path))"
      "follows g path" "map snd path = is"
      using ds by auto
    obtain n xn gs where n: "sub_at is g = G n xn gs" by (cases "sub_at is g")
    have lv: "look (absn s g) k = value_at (nodes s n)"
      using lk Some asub_absn [OF path(2), of s] path(3) n by simp
    show ?thesis
    proof (cases "hasValue (nodes s n)")
      case False
      then show ?thesis using lv r path(1) n by (simp add: Delete_def)
    next
      case True
      then have v1: "hasValue (nodes s1 n)" using bn(1) by simp
      have del: "del k (absh hf s g) = amodn is clear_val (absh hf s1 g)"
        using del_locate [of "absh hf s g" k] wf Some by (simp add: wf_kids_absh locate_absh ab)
      have tn: "rep s1 (sub_at is g)"
        using trepD(1) [OF trep_sub_at [OF writableD(2) [OF w] path(2)]] path(3) by simp
      have kc: "kidCount (nodes s1 n) = length gs" "childless (nodes s1 n) \<longleftrightarrow> gs = []"
        using rep_kidCount [OF tn] rep_childless [OF tn] n by simp_all
      have unf: "Delete t k s =
          (if path = [] then do {
             (_, t, s') \<leftarrow> ownValueless t1 None 0 n s1;
             Some ((val (nodes s n), True), t, s') }
           else if gs = [] then do {
             (t, s') \<leftarrow> unlink t1 path (dropWithLeaf t1 n s1);
             Some ((val (nodes s n), True), t, s') }
           else if length gs = 1 then do {
             (path', t, s') \<leftarrow> ownPath t1 path s1;
             let s' = dropWithLeaf t n s';
             (p, idx) \<leftarrow> path_at path' (length path - 1);
             c \<leftarrow> kid (nodes s' n) 0;
             s' \<leftarrow> mergeChild t p idx n c s';
             Some ((val (nodes s n), True), t, s') }
           else do {
             (path', t, s') \<leftarrow> ownPath t1 path s1;
             (p, idx) \<leftarrow> path_at path' (length path - 1);
             (_, t, s') \<leftarrow> ownValueless t (Some p) idx n s';
             Some ((val (nodes s n), True), t, s') })"
        using True r path(1) n b kc by (simp add: Delete_def Let_def)
      have fd: "look (absn s g) k \<noteq> None" "found (look (absn s g) k) = (val (nodes s n), True)"
        using lv True by (simp_all add: found_def)
      consider (root) "path = []" | (leaf) "path \<noteq> []" "gs = []" | (one) "path \<noteq> []" "length gs = 1"
        | (many) "path \<noteq> []" "2 \<le> length gs" by (cases gs; cases "tl gs") auto
      then show ?thesis
      proof cases
        case root
        then have g: "is = []" "n = ad g" using path(3) n by auto
        obtain s' g' D c where "ownValueless t1 None 0 (ad g) s1 = Some (c, t1\<lparr>troot := Some (ad g')\<rparr>, s')"
          "replaced (tepoch t1) (tnf t1) s1 {} g s' g' D {} {}" "absh hf s' g' = clear_val (absh hf s1 g)"
          by (rule del_root [where hf = hf, OF w])
        then show ?thesis using unf root fd g del by auto
      next
        case leaf
        obtain front pn i where p: "path = front @ [(pn, i)]" using leaf(1) by (metis rev_exhaust surj_pair)
        have f: "follows g (front @ [(pn, i)])" and sn: "sub_at (map snd front @ [i]) g = G n xn []"
          using path n leaf(2) p by auto
        obtain s' g' D where "unlink t1 (front @ [(pn, i)]) (dropWithLeaf t1 n s1) = Some (t1\<lparr>troot := Some (ad g')\<rparr>, s')"
          "replaced (tepoch t1) (tnf t1) s1 {} g s' g' D {} {}"
          "absh hf s' g' = amodn (map snd front @ [i]) clear_val (absh hf s1 g)"
          by (rule del_leaf [where hf = hf, OF w f sn v1])
        then show ?thesis using unf leaf fd del p path(3) by auto
      next
        case one
        then obtain k where "gs = [k]" by (cases gs; cases "tl gs") auto
        then have sn: "sub_at (map snd path) g = G n xn [k]" using n path(3) by simp
        show ?thesis
          by (rule del_one [where hf = hf and r = "(val (nodes s n), True)", OF w path(2) one(1) sn v1])
            (use unf one fd del path(3) in auto)
      next
        case many
        have sn: "sub_at (map snd path) g = G n xn gs" using n path(3) by simp
        have ng: "gs \<noteq> []" "length gs \<noteq> 1" using many(2) by auto
        show ?thesis
          by (rule del_many [where hf = hf and r = "(val (nodes s n), True)", OF w path(2) many(1) sn many(2)])
            (use unf many(1) ng fd del path(3) in auto)
      qed
    qed
  qed
qed

text \<open>The tree that replaces everything.\<close>

lemma fresh_root:
  fixes g :: "'x gtree" and s :: "'v store"
  assumes w: "writable t s g" and a: "alloc_node (zero_node\<lparr>epoch := tepoch t\<rparr>) s = (a, s')"
  shows "replaced (tepoch t) (tnf t) s {} g s' (G a y []) zero_notifier (set (addrs g)) {}"
    and "absh hf s' (G a y []) = RT [] None []"
proof -
  let ?n = "zero_node\<lparr>epoch := tepoch t\<rparr> :: 'v node"
  have nb: "\<not> hasValue ?n" "\<not> leafOwned ?n" "own_e (tepoch t) ?n" "nwatch ?n = None"
    using epoch_ok_bits [OF writableD(3) [OF w]] epoch_okD [OF writableD(3) [OF w]]
    by (simp_all add: hasValue_bit leafOwned_bit own_e_def zero_node_def)
  note e = eff_alloc [OF a nb(3,4)]
  have na: "a \<notin> set (addrs g)" using trep_bound [OF writableD(2) [OF w], of a] e(2) by auto
  have "trep (tepoch t) s' (G a y [])"
    using e(2,3,4) nb bm.enum_empty
    by (simp add: trep_G node_ok_def own_ok_def kidList_def zero_node_def)
  moreover have "vals (tepoch t) s g s' (G a y []) zero_notifier (set (addrs g)) {}"
    using e(3) nb(1) by (auto simp: vals_def dest: vnodes_addrs)
  ultimately show "replaced (tepoch t) (tnf t) s {} g s' (G a y []) zero_notifier (set (addrs g)) {}"
    using eff_weaken [OF e(1), of "{} \<union> set (addrs g)"] e(2) na
    by (auto simp: replaced_def unowned_def)
  show "absh hf s' (G a y []) = RT [] None []"
    using e(3) nb(1) by (simp add: value_at_def zero_node_def)
qed

lemma DeletePrefix_spec:
  fixes g :: "'x gtree" and s :: "'v store"
  assumes b: "begin_txn t s = (t1, s1)" and w: "writable t1 s1 g"
  shows "if locatep k (absn s g) = None then DeletePrefix t k s = Some (False, t, s)
    else \<exists>path s2 s' g' D. DeletePrefix t k s = Some (True, t1\<lparr>troot := Some (ad g')\<rparr>, s') \<and>
      follows g path \<and> DeletePrefix_descend s (ad g) k [] = Some (Some (ad (sub_at (map snd path) g), path)) \<and>
      eff (tepoch t1) (tnf t1) s1 {} (d_subtree (ad (sub_at (map snd path) g))) s2 \<and>
      nodes s2 = nodes s1 \<and> next_node s2 = next_node s1 \<and>
      replaced (tepoch t1) (tnf t1) s2 {} g s' g' D (set (addrs (sub_at (map snd path) g))) {} \<and>
      absh hf s' g' = delp k (absh hf s g)"
proof -
  note bn = begin_txn_nodes [OF b]
  have r: "troot t = Some (ad g)" using writableD(1) [OF w] bn(3) by simp
  have rp: "rep s g" using writableD(2) [OF w] trepD(1) trep_nodes [OF bn(1,2)] by blast
  have wf: "wf_kids (map (absn s) (gk g))"
    using writableD(4) [OF w] by (simp add: absn_nodes [OF bn(1)] cong: map_cong)
  note ds = DeletePrefix_descend_spec [OF rp wf, of k "[]"]
  show ?thesis
  proof (cases "locatep k (absn s g)")
    case None
    then show ?thesis using ds r by (simp add: DeletePrefix_def)
  next
    case (Some "is")
    then obtain path where path: "DeletePrefix_descend s (ad g) k [] = Some (Some (ad (sub_at is g), path))"
      "follows g path" "map snd path = is"
      using ds by auto
    let ?n = "ad (sub_at is g)"
    let ?s2 = "dropSubtree t1 ?n s1"
    have n2: "nodes ?s2 = nodes s1" "next_node ?s2 = next_node s1" by simp_all
    have e2: "eff (tepoch t1) (tnf t1) s1 {} (d_subtree ?n) ?s2" by (rule eff_drop)
    have ab: "absh hf ?s2 g = absh hf s g" using absh_nodes [of ?s2 s1 hf g] absh_nodes [OF bn(1)] by simp
    have t2: "trep (tepoch t1) ?s2 g" using writableD(2) [OF w] trep_nodes [OF n2] by blast
    have wf2: "wf_kids (map (absn ?s2) (gk g))" using writableD(4) [OF w] by (simp add: absn_nodes [OF n2(1)] cong: map_cong)
    have w2: "writable t1 ?s2 g" using w t2 wf2 by (simp add: writable_def)
    have dl: "delp k (absh hf s g) = (if k = [] then RT [] None [] else delp_kids k (absh hf s g))" by (simp add: delp_def)
    have dk: "delp_kids k (absh hf s g) = amodn (butlast is) (cut_kid (last is)) (absh hf s g)" if "is \<noteq> []"
      using delp_locatep [of "absh hf s g" k] wf Some that by (cases "is") (simp_all add: wf_kids_absh locatep_absh)
    show ?thesis
    proof (cases "path = []")
      case True
      then have g: "is = []" using path(3) by simp
      have k: "k = []"
        using Some g by (cases "absn s g") (auto simp: locatep.simps Let_def split: if_splits)
      obtain a s' where al: "alloc_node (zero_node\<lparr>epoch := tepoch t1\<rparr>) ?s2 = (a, s')"
        by (cases "alloc_node (zero_node\<lparr>epoch := tepoch t1\<rparr>) ?s2")
      have "DeletePrefix t k s = Some (True, t1\<lparr>troot := Some a\<rparr>, s')"
        using r path(1) True b al by (simp add: DeletePrefix_def cutRoot_def Let_def)
      then show ?thesis
        using fresh_root(1) [OF w2 al, where y = "tg g"] fresh_root(2) [OF w2 al, where y = "tg g" and hf = hf] dl k Some e2 True g path(1)
        by (intro exI [of _ "[]"] exI [of _ ?s2] exI [of _ s'] exI [of _ "G a (tg g) []"]
            exI [of _ zero_notifier] iffD2 [OF if_not_P]) simp_all
    next
      case False
      obtain front pn i where p: "path = front @ [(pn, i)]" using False by (metis rev_exhaust surj_pair)
      have f: "follows g (front @ [(pn, i)])" using path p by simp
      have isn: "is = map snd front @ [i]" using path(3) p by simp
      obtain s' g' D where u: "unlink t1 (front @ [(pn, i)]) ?s2 = Some (t1\<lparr>troot := Some (ad g')\<rparr>, s')"
        "replaced (tepoch t1) (tnf t1) ?s2 {} g s' g' D (set (addrs (sub_at (map snd front @ [i]) g))) {}"
        "absh hf s' g' = amodn (map snd front) (cut_kid i) (absh hf ?s2 g)"
        by (rule unlink_spec [where hf = hf, OF t2 writableD(1) [OF w] writableD(3) [OF w] f wf2])
      have "k \<noteq> []" using Some isn by auto
      then have "absh hf s' g' = delp k (absh hf s g)"
        using u(3) dl dk isn ab by simp
      moreover have "DeletePrefix t k s = Some (True, t1\<lparr>troot := Some (ad g')\<rparr>, s')"
        using r path(1) False p b u(1) by (simp add: DeletePrefix_def Let_def)
      ultimately show ?thesis
        using u(2) Some e2 path isn n2
        by (intro iffD2 [OF if_not_P] exI [of _ path] exI [of _ ?s2] exI [of _ s'] exI [of _ g'] exI [of _ D]) simp_all
    qed
  qed
qed

end
