(* ===== verification/Txn_Correct.thy ===== *)
theory Txn_Correct
  imports Delete_Ops
begin

text \<open>
  Transactions as a whole: epochs are never issued twice as long as the counter fits its 62 bits, a
  transaction's tree is well formed before and after every operation, each operation changes the
  contents as the map it implements, and nodes the transaction does not own stay as they are.
\<close>

section \<open>Epochs\<close>

definition epochs_ok :: "'v store \<Rightarrow> bool" where
  "epochs_ok s \<longleftrightarrow> epochCounter s \<le> epochMask \<and>
     (\<forall>a < next_node s. epoch (nodes s a) AND epochMask \<le> epochCounter s)"

lemma unat_epochMask: "unat epochMask = 2 ^ 62 - 1"
  by (simp add: epochMask_def valueBit_def push_bit_of_1)

lemma epoch_ok_le: assumes "E \<le> epochMask" shows "epoch_ok E"
proof -
  have l: "unat E < 2 ^ 62" using assms unfolding word_le_nat_alt unat_epochMask by simp
  have "i < 62" if "bit E i" for i
  proof (rule ccontr)
    assume "\<not> i < 62"
    then have "(2 :: nat) ^ 62 \<le> 2 ^ i" by (intro power_increasing) auto
    moreover have "odd (unat E div 2 ^ i)"
      using that by (simp add: bit_unsigned_iff flip: bit_iff_odd)
    then have "2 ^ i \<le> unat E" by (metis div_less even_zero linorder_not_less)
    ultimately show False using l by simp
  qed
  then show ?thesis
    unfolding epoch_ok_def by (intro u64_eqI) (auto simp: bit_and_iff bit_epochMask)
qed

lemma next_epoch:
  assumes "epochCounter s < epochMask"
  shows "epochCounter s < epochCounter s + 1" and "epochCounter s + 1 \<le> epochMask" and "epochCounter s + 1 \<noteq> 0"
proof -
  have "unat (epochCounter s + 1) = unat (epochCounter s) + 1"
    using assms unfolding word_less_nat_alt unat_epochMask by (simp add: unat_word_ariths)
  then show "epochCounter s < epochCounter s + 1" "epochCounter s + 1 \<le> epochMask" "epochCounter s + 1 \<noteq> 0"
    using assms unfolding word_less_nat_alt word_le_nat_alt by auto
qed

text \<open>Fresh nodes carry the writer's epoch, old ones keep theirs.\<close>

lemma eff_epochs:
  assumes e: "eff E f s X D s'" and s: "epochs_ok s" and E: "E \<le> epochCounter s"
  shows "epochs_ok s'"
proof -
  have c: "epochCounter s' = epochCounter s" using e by (simp add: eff_def quiet_def)
  have "epoch (nodes s' a) AND epochMask \<le> epochCounter s" if a: "a < next_node s'" for a
  proof (cases "a < next_node s")
    case True
    show ?thesis
    proof (cases "own_e E (nodes s a)")
      case False
      then have "epoch (nodes s' a) = epoch (nodes s a)" using eff_same [OF e True] by (simp add: same_node_def)
      then show ?thesis using s True by (simp add: epochs_ok_def)
    next
      case own: True
      then have "own_e E (nodes s' a)" using eff_own [OF e True] by simp
      then show ?thesis using E by (simp add: own_e_def)
    qed
  next
    case False
    then have "own_e E (nodes s' a)" using eff_fresh [OF e _ a] by simp
    then show ?thesis using E by (simp add: own_e_def)
  qed
  then show ?thesis using s c by (simp add: epochs_ok_def)
qed

section \<open>The invariant of a transaction\<close>

definition txn_ok :: "txn \<Rightarrow> 'v store \<Rightarrow> 'x gtree \<Rightarrow> bool" where
  "txn_ok t s g \<longleftrightarrow> troot t = Some (ad g) \<and> tree_ok s g \<and> tepoch t \<le> epochCounter s \<and>
     (tepoch t \<noteq> 0 \<longrightarrow> (\<forall>a \<in> set (addrs g). own_ok (tepoch t) (nodes s a)))"

lemma txn_okD:
  assumes "txn_ok t s g"
  shows "troot t = Some (ad g)" and "tree_ok s g" and "tepoch t \<le> epochCounter s"
    and "tepoch t \<noteq> 0 \<Longrightarrow> a \<in> set (addrs g) \<Longrightarrow> own_ok (tepoch t) (nodes s a)"
  using assms by (simp_all add: txn_ok_def)

lemma StartTxn_ok: "tree_ok s g \<Longrightarrow> txn_ok (StartTxn (Some (ad g)) nf) s g"
  by (simp add: txn_ok_def StartTxn_def)

lemma Freeze_ok: "txn_ok t s g \<Longrightarrow> txn_ok (Freeze t) s g"
  by (simp add: txn_ok_def Freeze_def)

text \<open>Where the epoch a write runs in comes from; no existing node carries a newly drawn one.\<close>

lemma begin_writable:
  fixes g :: "'x gtree" and s :: "'v store"
  assumes s: "epochs_ok s" and t: "txn_ok t s g" and room: "tepoch t = 0 \<Longrightarrow> epochCounter s < epochMask"
    and b: "begin_txn t s = (t1, s1)"
  shows "writable t1 s1 g" and "epochs_ok s1" and "tepoch t1 \<noteq> 0" and "tepoch t1 \<le> epochCounter s1"
    and "\<And>a. tepoch t = 0 \<Longrightarrow> a < next_node s \<Longrightarrow> \<not> own_e (tepoch t1) (nodes s a)"
    and "tepoch t \<noteq> 0 \<Longrightarrow> t1 = t \<and> s1 = s" and "tepoch t = 0 \<Longrightarrow> tepoch t1 = epochCounter s + 1"
    and "epochCounter s \<le> epochCounter s1"
proof -
  note n = begin_txn_nodes [OF b] and nx = next_epoch [OF room]
  have mono: "epochCounter s \<le> epochCounter s1" using b nx(1) by (auto simp: begin_txn_def split: if_splits)
  have new: "\<not> own_e (tepoch t1) (nodes s a)" if z: "tepoch t = 0" and a: "a < next_node s" for a
  proof -
    have "epoch (nodes s a) AND epochMask \<le> epochCounter s" using s a by (simp add: epochs_ok_def)
    then show ?thesis using b z nx(1) [OF z] by (auto simp: begin_txn_def own_e_def)
  qed
  have E: "tepoch t1 \<le> epochMask" "tepoch t1 \<noteq> 0" "tepoch t1 \<le> epochCounter s1"
    using b nx t s by (auto simp: begin_txn_def txn_ok_def epochs_ok_def split: if_splits)
  show "\<And>a. tepoch t = 0 \<Longrightarrow> a < next_node s \<Longrightarrow> \<not> own_e (tepoch t1) (nodes s a)" by (rule new)
  show "epochs_ok s1"
    using s b nx by (auto simp: begin_txn_def epochs_ok_def split: if_splits)
  have ok: "own_ok (tepoch t1) (nodes s a)" if a: "a \<in> set (addrs g)" for a
  proof (cases "tepoch t = 0")
    case True
    have "a < next_node s" using rep_bound [OF tree_okD(1) [OF txn_okD(2) [OF t]] a] .
    from new [OF True this] show ?thesis by (simp add: own_ok_def)
  next
    case False
    then have "t1 = t" using b by (simp add: begin_txn_def)
    with txn_okD(4) [OF t False a] show ?thesis by simp
  qed
  have "trep (tepoch t1) s g" using tree_okD [OF txn_okD(2) [OF t]] ok by (simp add: trep_def)
  then have "trep (tepoch t1) s1 g" using trep_nodes [OF n(1,2)] by blast
  moreover have "wf_kids (map (absn s1) (gk g))"
    using tree_okD(2) [OF txn_okD(2) [OF t]] by (simp add: absn_nodes [OF n(1)] cong: map_cong)
  ultimately show "writable t1 s1 g"
    using txn_okD(1) [OF t] n(3) epoch_ok_le [OF E(1)] by (simp add: writable_def)
  show "tepoch t1 \<noteq> 0" "tepoch t1 \<le> epochCounter s1" using E by simp_all
  show "tepoch t \<noteq> 0 \<Longrightarrow> t1 = t \<and> s1 = s" "tepoch t = 0 \<Longrightarrow> tepoch t1 = epochCounter s + 1"
    using b by (auto simp: begin_txn_def)
  show "epochCounter s \<le> epochCounter s1" by (rule mono)
qed

section \<open>The effect of an operation\<close>

text \<open>
  Nodes that epoch \<open>E\<close> does not own stay as they are, up to a leaf that is installed; owned nodes stay
  owned, and so are fresh ones.
\<close>

definition keeps :: "u64 \<Rightarrow> 'v store \<Rightarrow> 'v store \<Rightarrow> bool" where
  "keeps E s s' \<longleftrightarrow> next_node s \<le> next_node s' \<and> epochCounter s \<le> epochCounter s' \<and>
     (\<forall>a < next_node s. if own_e E (nodes s a) then own_e E (nodes s' a) else same_node (nodes s a) (nodes s' a)) \<and>
     (\<forall>a. next_node s \<le> a \<and> a < next_node s' \<longrightarrow> own_e E (nodes s' a))"

text \<open>
  What an operation appends to its notifier: no nil leaf, and as values only published nodes of the
  tree that hold one.
\<close>

definition log_ok :: "txn \<Rightarrow> 'v store \<Rightarrow> 'x gtree \<Rightarrow> u64 \<Rightarrow> 'v store \<Rightarrow> bool" where
  "log_ok t s g E s' \<longleftrightarrow> (\<exists>D. nf_log (tnf t) s D s' \<and> None \<notin> set (nf_leaves D) \<and>
     set (nf_values D) \<subseteq> {a \<in> set (addrs g). \<not> own_e E (nodes s a) \<and> hasValue (nodes s a)})"

lemma log_ok_refl: "log_ok t s g E s"
  unfolding log_ok_def by (rule exI [of _ zero_notifier]) (simp add: nf_log_def split: option.split)

definition op_ok :: "txn \<Rightarrow> 'v store \<Rightarrow> 'x gtree \<Rightarrow> txn \<Rightarrow> 'v store \<Rightarrow> 'x gtree \<Rightarrow> bool" where
  "op_ok t s g t' s' g' \<longleftrightarrow> txn_ok t' s' g' \<and> epochs_ok s' \<and> keeps (tepoch t') s s' \<and> tnf t' = tnf t \<and>
     (tepoch t' = tepoch t \<or> tepoch t = 0 \<and> tepoch t' = epochCounter s + 1 \<and> epochCounter s < epochMask) \<and>
     (tepoch t' = 0 \<longrightarrow> s' = s) \<and> log_ok t s g (tepoch t') s' \<and> set (addrs g') \<subseteq> set (addrs g) \<union> {next_node s..}"

lemma op_ok_refl: "epochs_ok s \<Longrightarrow> txn_ok t s g \<Longrightarrow> op_ok t s g t s g"
  by (auto simp: op_ok_def keeps_def log_ok_refl)

lemma keeps_agree:
  assumes "keeps E s s'" and "rep s g" and "\<forall>a \<in> set (addrs g). \<not> own_e E (nodes s a)"
  shows "agree (set (addrs g)) s s'"
  using assms rep_bound [OF assms(2)] by (auto simp: keeps_def agree_def)

lemma op_okI:
  fixes g :: "'x gtree" and s :: "'v store"
  assumes s: "epochs_ok s" and t: "txn_ok t s g" and room: "tepoch t = 0 \<Longrightarrow> epochCounter s < epochMask"
    and b: "begin_txn t s = (t1, s1)" and e: "eff (tepoch t1) (tnf t1) s1 X D s'" and r: "trep (tepoch t1) s' g'"
    and w: "wf_root (absn s' g')" and A: "set (addrs g') \<subseteq> set (addrs g) \<union> {next_node s1..}"
    and l: "None \<notin> set (nf_leaves D)" and v: "set (nf_values D) \<subseteq> {a \<in> unowned (tepoch t1) s1 g. hasValue (nodes s1 a)}"
  shows "op_ok t s g (t1\<lparr>troot := Some (ad g')\<rparr>) s' g'"
proof -
  note n = begin_txn_nodes [OF b] and bw = begin_writable [OF s t room b]
  have c: "epochCounter s' = epochCounter s1" using e by (simp add: eff_def quiet_def)
  have "txn_ok (t1\<lparr>troot := Some (ad g')\<rparr>) s' g'"
    using r w bw(4) c by (auto simp: txn_ok_def tree_ok_def trep_def)
  moreover have "keeps (tepoch t1) s s'"
    using eff_next [OF e] eff_same [OF e] eff_own [OF e] eff_fresh [OF e] n(1,2) bw(8) c by (simp add: keeps_def)
  moreover have "epochs_ok s'" using eff_epochs [OF e bw(2,4)] .
  moreover have "tepoch t1 = tepoch t \<or> tepoch t = 0 \<and> tepoch t1 = epochCounter s + 1" using bw(6,7) by auto
  moreover have "log_ok t s g (tepoch t1) s'"
    unfolding log_ok_def
  proof (intro exI [of _ D] conjI)
    show "nf_log (tnf t) s D s'"
      using e b n(4) by (auto simp: eff_def nf_log_def begin_txn_def split: option.splits if_splits)
  qed (use l v n(1) in \<open>auto simp: unowned_def\<close>)
  ultimately show ?thesis using n(2,4) A room bw(3) by (auto simp: op_ok_def)
qed

section \<open>The operations as map updates\<close>

lemma Insert_ok:
  fixes g :: "'x gtree" and s :: "'v store"
  assumes s: "epochs_ok s" and t: "txn_ok t s g" and room: "tepoch t = 0 \<Longrightarrow> epochCounter s < epochMask"
  obtains t' s' g' where "Insert t k v s = Some (found (map_of (contents s g) k), t', s')"
    and "op_ok t s g t' s' (g' :: 'x gtree)" and "map_of (contents s' g') = (map_of (contents s g))(k \<mapsto> v)"
proof -
  obtain t1 s1 where b: "begin_txn t s = (t1, s1)" by (cases "begin_txn t s")
  note n = begin_txn_nodes [OF b]
  have w: "writable t1 s1 g" using begin_writable(1) [OF s t room b] .
  have ab: "absn s1 g = absn s g" by (rule absn_nodes [OF n(1)])
  have wr: "wf_root (absn s g)" using txn_okD(2) [OF t] by (simp add: tree_ok_def)
  then have wk: "wf_kids (subs (absn s g))" by (simp add: wf_root_def)
  from Insert_loop_spec [where search = k and v = v and hf = "\<lambda>v x. v" and y = "tg g",
      OF writableD(2) [OF w] writableD(6) [OF w] writableD(3,4) [OF w]]
  obtain t' s' g' D where il: "Insert_loop t1 None 0 (ad g) k v s1 = Some (found (look (absn s1 g) k), t', s')"
    "plugged None 0 t1 s1 (ad g') t' s'" "replaced (tepoch t1) (tnf t1) s1 (hole None) g s' g' D {} {tg g}"
    "absn s' g' = ins k v (absn s1 g)"
    by (auto simp: absn_absh)
  have t': "t' = t1\<lparr>troot := Some (ad g')\<rparr>" using il(2) by (simp add: plugged_def)
  have "Insert t k v s = Some (found (map_of (contents s g) k), t', s')"
    using il(1) b writableD(1) [OF w] ab wk by (simp add: Insert_def contents_def look_below)
  moreover have "op_ok t s g t' s' g'"
    unfolding t' using op_okI [OF s t room b replacedD(1,2) [OF il(3)] _ replacedD(3,5,7) [OF il(3)]] il(4) ab wf_root_ins [OF wr] by simp
  moreover have "map_of (contents s' g') = (map_of (contents s g))(k \<mapsto> v)"
    using map_of_ins [OF wk] il(4) ab by (auto simp: contents_def fun_eq_iff)
  ultimately show ?thesis by (rule that)
qed

lemma filter_sorted_map_of:
  assumes "sorted_wrt (<) (map fst (xs :: (bytes \<times> 'a) list))"
  shows "map_of (filter (\<lambda>e. P (fst e)) xs) k = (if P k then map_of xs k else None)"
  using assms by (induction xs) auto

lemma Delete_ok:
  fixes g :: "'x gtree" and s :: "'v store"
  assumes s: "epochs_ok s" and t: "txn_ok t s g" and room: "tepoch t = 0 \<Longrightarrow> epochCounter s < epochMask"
  obtains t' s' g' where "Delete t k s = Some (found (map_of (contents s g) k), t', s')"
    and "op_ok t s g t' s' (g' :: 'x gtree)" and "map_of (contents s' g') = (map_of (contents s g))(k := None)"
    and "map_of (contents s g) k = None \<Longrightarrow> t' = t \<and> s' = s \<and> g' = g"
proof -
  obtain t1 s1 where b: "begin_txn t s = (t1, s1)" by (cases "begin_txn t s")
  have w: "writable t1 s1 g" using begin_writable(1) [OF s t room b] .
  have wr: "wf_root (absn s g)" using txn_okD(2) [OF t] by (simp add: tree_ok_def)
  then have wk: "wf_kids (subs (absn s g))" by (simp add: wf_root_def)
  have lk: "map_of (contents s g) k = look (absn s g) k" using wk by (simp add: contents_def look_below)
  note ds = Delete_spec [OF b w, of k "\<lambda>v x. v"]
  show ?thesis
  proof (cases "look (absn s g) k")
    case None
    then show ?thesis
      using that [of t s g] ds op_ok_refl [OF s t] lk by (auto simp: found_def fun_upd_idem)
  next
    case (Some v)
    with ds obtain s' g' D where d: "Delete t k s = Some (found (look (absn s g) k), t1\<lparr>troot := Some (ad g')\<rparr>, s')"
      "replaced (tepoch t1) (tnf t1) s1 {} g s' g' D {} {}" "absn s' g' = del k (absn s g)"
      by (auto simp: absn_absh)
    have "op_ok t s g (t1\<lparr>troot := Some (ad g')\<rparr>) s' g'"
      using op_okI [OF s t room b replacedD(1,2) [OF d(2)] _ replacedD(3,5,7) [OF d(2)]] d(3) wf_root_del [OF wr] by simp
    moreover have "map_of (contents s' g') = (map_of (contents s g))(k := None)"
      using del_spec [OF wk, of k] d(3) contents_sorted [OF txn_okD(2) [OF t]]
      by (auto simp: contents_def fun_eq_iff filter_sorted_map_of [where P = "\<lambda>x. x \<noteq> k"])
    ultimately show ?thesis using that d(1) lk Some by simp
  qed
qed

text \<open>The descent of \<open>DeletePrefix\<close> finds a node exactly when some key has the prefix.\<close>

lemma seek_locatep: "wf_kids (subs t) \<Longrightarrow> seek t k = None \<longleftrightarrow> locatep k t = None"
proof (induction k t rule: locatep.induct)
  case (1 k p ov ks)
  let ?i = "rank_of (map lab ks) (hd k)"
  have wf: "wf_kids ks" using "1.prems" by simp
  show ?case
  proof (cases "k = []")
    case True
    then show ?thesis by (simp add: locatep.simps)
  next
    case False
    from wf show ?thesis
    proof (cases rule: rank_cases [where b = "hd k"])
      case miss
      then show ?thesis using False by (auto simp: seek_step locatep.simps Let_def)
    next
      case (hit c)
      have ih: "seek c (drop (length (seg c)) k) = None \<longleftrightarrow> locatep (drop (length (seg c)) k) c = None"
        if "starts k (seg c)" "\<not> starts (seg c) k"
        using "1.IH" [OF False refl] hit wf_subD(2) [OF hit(5)] that by simp
      have same: "k = seg c" if "starts k (seg c)" "starts (seg c) k"
        using that starts_length [OF that(1)] starts_length [OF that(2)] by (simp add: starts_def)
      show ?thesis
        using hit False ih same by (auto simp: seek_step locatep.simps Let_def)
    qed
  qed
qed

lemma seek_wf: "wf_kids (subs t) \<Longrightarrow> seek t k = Some c \<Longrightarrow> k \<noteq> [] \<Longrightarrow> wf_sub c"
proof (induction t k rule: seek.induct)
  case (1 p ov ks k)
  show ?case
  proof (cases "child ks (hd k)")
    case None
    with "1.prems" show ?thesis by (simp add: seek_step)
  next
    case (Some d)
    have d: "wf_sub d" using child_SomeD [OF Some] "1.prems"(1) by (simp add: wf_kids_def)
    show ?thesis
    proof (cases "starts k (seg d)")
      case True
      then have r: "seek d (drop (length (seg d)) k) = Some c" using "1.prems" Some by (simp add: seek_step)
      show ?thesis
      proof (cases "drop (length (seg d)) k = []")
        case False
        from "1.IH" [OF "1.prems"(3) Some True wf_subD(2) [OF d] r this] show ?thesis .
      qed (use r d in simp)
    next
      case False
      then show ?thesis using "1.prems" Some d by (simp add: seek_step split: if_splits)
    qed
  qed
qed

lemma locatep_hit:
  assumes "wf_kids (subs t)"
  shows "locatep k t \<noteq> None \<longleftrightarrow> k = [] \<or> (\<exists>e \<in> set (below t). starts (fst e) k)"
proof (cases "k = []")
  case False
  have "(\<exists>e \<in> set (below t). starts (fst e) k) \<longleftrightarrow> map snd (filter (\<lambda>e. starts (fst e) k) (below t)) \<noteq> []"
    by (auto simp: filter_empty_conv)
  then show ?thesis
    using tvals_seek [OF assms, of k] seek_locatep [OF assms, of k] seek_wf [OF assms, of k] tvals_wf_sub False
    by (auto split: option.splits)
qed (cases t, simp add: locatep.simps)

lemma DeletePrefix_ok:
  fixes g :: "'x gtree" and s :: "'v store"
  assumes s: "epochs_ok s" and t: "txn_ok t s g" and room: "tepoch t = 0 \<Longrightarrow> epochCounter s < epochMask"
  obtains t' s' g' where
    "DeletePrefix t k s = Some (k = [] \<or> (\<exists>e \<in> set (contents s g). starts (fst e) k), t', s')"
    and "op_ok t s g t' s' (g' :: 'x gtree)" and "contents s' g' = filter (\<lambda>e. \<not> starts (fst e) k) (contents s g)"
proof -
  obtain t1 s1 where b: "begin_txn t s = (t1, s1)" by (cases "begin_txn t s")
  have w: "writable t1 s1 g" using begin_writable(1) [OF s t room b] .
  have wr: "wf_root (absn s g)" using txn_okD(2) [OF t] by (simp add: tree_ok_def)
  then have wk: "wf_kids (subs (absn s g))" by (simp add: wf_root_def)
  note hit = locatep_hit [OF wk, of k, folded contents_def]
  have "if locatep k (absn s g) = None then DeletePrefix t k s = Some (False, t, s)
    else \<exists>path s2 s' g' D. DeletePrefix t k s = Some (True, t1\<lparr>troot := Some (ad g')\<rparr>, s') \<and>
      follows g path \<and> DeletePrefix_descend s (ad g) k [] = Some (Some (ad (sub_at (map snd path) g), path)) \<and>
      eff (tepoch t1) (tnf t1) s1 {} (d_subtree (ad (sub_at (map snd path) g))) s2 \<and>
      nodes s2 = nodes s1 \<and> next_node s2 = next_node s1 \<and>
      replaced (tepoch t1) (tnf t1) s2 {} g s' g' D (set (addrs (sub_at (map snd path) g))) {} \<and>
      absn s' g' = delp k (absn s g)"
    unfolding absn_absh by (rule DeletePrefix_spec [OF b w, unfolded absn_absh])
  note ds = this
  show ?thesis
  proof (cases "locatep k (absn s g)")
    case None
    then have "\<not> (k = [] \<or> (\<exists>e \<in> set (contents s g). starts (fst e) k))" using hit by simp
    moreover from this have "filter (\<lambda>e. \<not> starts (fst e) k) (contents s g) = contents s g" by (simp add: filter_id_conv)
    ultimately show ?thesis using that [of t s g] ds op_ok_refl [OF s t] None by simp
  next
    case (Some "is")
    with ds obtain path s2 s' g' D where d: "DeletePrefix t k s = Some (True, t1\<lparr>troot := Some (ad g')\<rparr>, s')"
      "eff (tepoch t1) (tnf t1) s1 {} (d_subtree (ad (sub_at (map snd path) g))) s2"
      "replaced (tepoch t1) (tnf t1) s2 {} g s' g' D (set (addrs (sub_at (map snd path) g))) {}"
      "absn s' g' = delp k (absn s g)" "follows g path" "next_node s2 = next_node s1" "nodes s2 = nodes s1"
      using ds [unfolded Some] by (simp only: option.distinct if_False) blast
    have e: "eff (tepoch t1) (tnf t1) s1 (set (addrs g)) (nf_add (d_subtree (ad (sub_at (map snd path) g))) D) s'"
      by (rule eff_trans_weaken [OF d(2) replacedD(1) [OF d(3)]]) auto
    have A: "set (addrs g') \<subseteq> set (addrs g) \<union> {next_node s1..}"
      using replacedD(3) [OF d(3)] d(6) by simp
    have "op_ok t s g (t1\<lparr>troot := Some (ad g')\<rparr>) s' g'"
      using op_okI [OF s t room b e replacedD(2) [OF d(3)] _ A] replacedD(5,7) [OF d(3)] d(7) d(4) wf_root_delp [OF wr]
      by (simp add: unowned_def)
    moreover have "contents s' g' = filter (\<lambda>e. \<not> starts (fst e) k) (contents s g)"
      using below_delp [OF wr] d(4) by (simp add: contents_def)
    moreover have "k = [] \<or> (\<exists>e \<in> set (contents s g). starts (fst e) k)" using hit Some by simp
    ultimately show ?thesis using that d(1) by simp
  qed
qed

end
