(* ===== verification/Kv.thy ===== *)
theory Kv
  imports Prelude
begin

text \<open>
  The contract between a transaction and its client: an ordered map from byte strings to values,
  read and written through fallible operations.  \<open>run\<close> executes a list of operations against the
  contract, \<open>run_map\<close> executes it on a map; a provider that keeps the laws cannot be told from the map.
\<close>

datatype 'v kv_op = Put bytes "'v any" | Remove bytes | Cut bytes | Lookup bytes

datatype 'v kv_result = Value "'v any \<times> bool" | Flag bool

type_synonym 'v kv_map = "bytes \<Rightarrow> 'v any option"

definition hit :: "'v any option \<Rightarrow> 'v any \<times> bool" where
  "hit r = (case r of None \<Rightarrow> (None, False) | Some v \<Rightarrow> (v, True))"

lemma hit_case [simp]: "(case hit r of (v, True) \<Rightarrow> Some v | (v, False) \<Rightarrow> None) = r"
  by (cases r) (simp_all add: hit_def)

text \<open>The operations on a map; \<open>Cut\<close> reports whether there was anything to cut, and cutting everything always succeeds.\<close>

fun map_op :: "'v kv_op \<Rightarrow> 'v kv_map \<Rightarrow> 'v kv_result \<times> 'v kv_map" where
  "map_op (Put k v) m = (Value (hit (m k)), m(k \<mapsto> v))"
| "map_op (Remove k) m = (Value (hit (m k)), m(k := None))"
| "map_op (Cut p) m = (Flag (p = [] \<or> (\<exists>k \<in> dom m. starts k p)), (\<lambda>k. if starts k p then None else m k))"
| "map_op (Lookup k) m = (Value (hit (m k)), m)"

fun run_map :: "'v kv_op list \<Rightarrow> 'v kv_map \<Rightarrow> 'v kv_result list \<times> 'v kv_map" where
  "run_map [] m = ([], m)"
| "run_map (p # ps) m = (let (r, m) = map_op p m; (rs, m) = run_map ps m in (r # rs, m))"

fun run :: "('v kv_op \<Rightarrow> 's \<Rightarrow> ('v kv_result \<times> 's) option) \<Rightarrow> 'v kv_op list \<Rightarrow> 's \<Rightarrow>
    ('v kv_result list \<times> 's) option" where
  "run exec [] s = Some ([], s)"
| "run exec (p # ps) s = do { (r, s) \<leftarrow> exec p s; (rs, s) \<leftarrow> run exec ps s; Some (r # rs, s) }"

locale kv_store =
  fixes good :: "'s \<Rightarrow> bool"
    and view :: "'s \<Rightarrow> 'v kv_map"
    and exec :: "'v kv_op \<Rightarrow> 's \<Rightarrow> ('v kv_result \<times> 's) option"
  assumes exec_good: "good s \<Longrightarrow> \<exists>s'. exec p s = Some (fst (map_op p (view s)), s') \<and> good s' \<and>
      view s' = snd (map_op p (view s))"
begin

lemma run_good:
  "good s \<Longrightarrow> \<exists>s'. run exec ps s = Some (fst (run_map ps (view s)), s') \<and> good s' \<and>
     view s' = snd (run_map ps (view s))"
proof (induction ps arbitrary: s)
  case (Cons p ps)
  obtain s1 where s1: "exec p s = Some (fst (map_op p (view s)), s1)" "good s1" "view s1 = snd (map_op p (view s))"
    using exec_good [OF Cons.prems] by blast
  from Cons.IH [OF s1(2)] s1 show ?case by (auto simp: case_prod_unfold Let_def)
qed simp

lemma run_total: "good s \<Longrightarrow> run exec ps s \<noteq> None"
  using run_good [of s ps] by auto

lemma run_results:
  assumes "good s" and "run exec ps s = Some (rs, s')"
  shows "rs = fst (run_map ps (view s))" and "view s' = snd (run_map ps (view s))" and "good s'"
  using run_good [OF assms(1), of ps] assms(2) by auto

text \<open>Operations on other keys commute with a lookup.\<close>

lemma run_append: "run exec (ps @ qs) s = do { (rs, s) \<leftarrow> run exec ps s; (rs', s) \<leftarrow> run exec qs s; Some (rs @ rs', s) }"
  by (induction ps arbitrary: s) (auto simp: case_prod_unfold split: Option.bind_splits)

end

end
