(* ===== verification/Txn_Map.thy ===== *)
theory Txn_Map
  imports Txn_Correct Kv
begin

text \<open>
  A transaction keeps the contract of an ordered map: any sequence of insertions, deletions, prefix
  deletions and lookups returns what a map would, and never panics.
\<close>

fun txn_exec :: "'v kv_op \<Rightarrow> txn \<times> 'v store \<Rightarrow> ('v kv_result \<times> txn \<times> 'v store) option" where
  "txn_exec (Put k v) (t, s) = do { (r, t, s) \<leftarrow> Insert t k v s; Some (Value r, t, s) }"
| "txn_exec (Remove k) (t, s) = do { (r, t, s) \<leftarrow> Delete t k s; Some (Value r, t, s) }"
| "txn_exec (Cut p) (t, s) = do { (b, t, s) \<leftarrow> DeletePrefix t p s; Some (Flag b, t, s) }"
| "txn_exec (Lookup k) (t, s) = do { r \<leftarrow> Get s (TxnTree t) k; Some (Value r, t, s) }"

text \<open>The map a transaction shows to its reads.\<close>

fun txn_view :: "txn \<times> 'v store \<Rightarrow> 'v kv_map" where
  "txn_view (t, s) k = (case Get s (TxnTree t) k of Some (v, True) \<Rightarrow> Some v | _ \<Rightarrow> None)"

fun txn_good :: "txn \<times> 'v store \<Rightarrow> bool" where
  "txn_good (t, s) \<longleftrightarrow> epochs_ok s \<and> (tepoch t = 0 \<longrightarrow> epochCounter s < epochMask) \<and>
     (\<exists>g :: unit gtree. txn_ok t s g)"

lemma found_hit: "found r = hit r"
  by (simp add: found_def hit_def)

lemma txn_view_contents: "txn_ok t s g \<Longrightarrow> txn_view (t, s) = map_of (contents s g)"
  using Get_spec [OF txn_okD(2)] txn_okD(1)
  by (fastforce simp: fun_eq_iff TxnTree_def found_def split: option.splits)

lemma op_good:
  assumes "op_ok t s g t' s' (g' :: unit gtree)" and "tepoch t = 0 \<Longrightarrow> epochCounter s < epochMask"
  shows "txn_good (t', s')"
  using assms by (auto simp: op_ok_def intro: exI [of _ g'])

lemma starts_dom: "(\<exists>e \<in> set xs. starts (fst e) p) \<longleftrightarrow> (\<exists>k \<in> dom (map_of xs). starts k p)"
  by (auto simp: dom_map_of_conv_image_fst)

lemma txn_exec_good:
  assumes "txn_good \<sigma>"
  shows "\<exists>\<sigma>'. txn_exec p \<sigma> = Some (fst (map_op p (txn_view \<sigma>)), \<sigma>') \<and> txn_good \<sigma>' \<and>
     txn_view \<sigma>' = snd (map_op p (txn_view \<sigma>))"
proof -
  obtain t s where st: "\<sigma> = (t, s)" by (cases \<sigma>)
  obtain g :: "unit gtree" where s: "epochs_ok s" and room: "tepoch t = 0 \<Longrightarrow> epochCounter s < epochMask"
    and t: "txn_ok t s g" using assms st by auto
  note v = txn_view_contents [OF t]
  have v': "txn_view (t', s') = map_of (contents s' g')" if "op_ok t s g t' s' g'" for t' s' and g' :: "unit gtree"
    using that txn_view_contents by (auto simp: op_ok_def)
  show ?thesis
  proof (cases p)
    case (Put k x)
    obtain t' s' g' where "Insert t k x s = Some (found (map_of (contents s g) k), t', s')"
      "op_ok t s g t' s' g'" "map_of (contents s' g') = (map_of (contents s g))(k \<mapsto> x)"
      by (rule Insert_ok [OF s t room])
    then show ?thesis using Put st v v' op_good [OF _ room] by (auto simp: found_hit)
  next
    case (Remove k)
    obtain t' s' g' where "Delete t k s = Some (found (map_of (contents s g) k), t', s')"
      "op_ok t s g t' s' g'" "map_of (contents s' g') = (map_of (contents s g))(k := None)"
      by (rule Delete_ok [OF s t room])
    then show ?thesis using Remove st v v' op_good [OF _ room] by (auto simp: found_hit)
  next
    case (Cut q)
    obtain t' s' g' where d: "DeletePrefix t q s = Some (q = [] \<or> (\<exists>e \<in> set (contents s g). starts (fst e) q), t', s')"
      "op_ok t s g t' s' g'" "contents s' g' = filter (\<lambda>e. \<not> starts (fst e) q) (contents s g)"
      by (rule DeletePrefix_ok [OF s t room])
    have "map_of (contents s' g') k = (if starts k q then None else map_of (contents s g) k)" for k
      using d(3) filter_sorted_map_of [OF contents_sorted [OF txn_okD(2) [OF t]], of "\<lambda>k. \<not> starts k q"] by simp
    then have "txn_view (t', s') = (\<lambda>k. if starts k q then None else txn_view (t, s) k)"
      unfolding v v' [OF d(2)] by auto
    then show ?thesis using Cut st v d(1) op_good [OF d(2) room] by (auto simp: starts_dom)
  next
    case (Lookup k)
    then show ?thesis
      using Get_spec [OF txn_okD(2) [OF t], of k] txn_okD(1) [OF t] v st assms
      by (auto simp: TxnTree_def found_hit fun_eq_iff)
  qed
qed

interpretation kv_txn: kv_store txn_good txn_view txn_exec
  by unfold_locales (rule txn_exec_good)

end
