(* ===== verification/System.thy ===== *)
theory System
  imports Txn_Map
begin

text \<open>
  Many trees and many writers on one heap.  Trees are handed out by \<open>New\<close>, \<open>Commit\<close>, and \<open>Tree\<close> after
  \<open>Freeze\<close>; any number of transactions on any of them run interleaved, operation by operation, with
  notifications and with watchers asking for channels.  A reachable state satisfies an invariant that
  makes every operation return, and a tree that was handed out never changes.
\<close>

record 'v sys =
  heap :: "'v store"
  live :: "nat \<Rightarrow> txn option"
  shared :: "tree set"
  watches :: "watch set"

definition init_sys :: "build \<Rightarrow> 'v sys" where
  "init_sys b = \<lparr>heap = init_store b, live = (\<lambda>_. None), shared = {}, watches = {}\<rparr>"

text \<open>
  The steps.  A write needs room for a new epoch when it draws one: fewer than 2^62 are ever drawn.
  A watch is materialised at any time after it was handed out.
\<close>

inductive step :: "'v sys \<Rightarrow> 'v sys \<Rightarrow> bool" where
  s_new: "NewTree (heap y) = (t, h) \<Longrightarrow> step y (y\<lparr>heap := h, shared := insert t (shared y)\<rparr>)"
| s_start: "t \<in> shared y \<Longrightarrow> live y i = None \<Longrightarrow>
    step y (y\<lparr>live := (live y)(i \<mapsto> StartTxn t nf)\<rparr>)"
| s_write: "live y i = Some T \<Longrightarrow> tepoch T = 0 \<longrightarrow> epochCounter (heap y) < epochMask \<Longrightarrow>
    txn_exec p (T, heap y) = Some (r, T', h) \<Longrightarrow> step y (y\<lparr>heap := h, live := (live y)(i \<mapsto> T')\<rparr>)"
| s_freeze: "live y i = Some T \<Longrightarrow>
    step y (y\<lparr>live := (live y)(i \<mapsto> Freeze T), shared := insert (TxnTree T) (shared y)\<rparr>)"
| s_commit: "live y i = Some T \<Longrightarrow> Commit T = (t, T') \<Longrightarrow>
    step y (y\<lparr>live := (live y)(i := None), shared := insert t (shared y)\<rparr>)"
| s_abort: "live y i = Some T \<Longrightarrow> step y (y\<lparr>live := (live y)(i := None)\<rparr>)"
| s_watch: "t \<in> shared y \<Longrightarrow> GetWatch (heap y) t k = Some (w, r) \<Longrightarrow>
    step y (y\<lparr>watches := insert w (watches y)\<rparr>)"
| s_watch_prefix: "t \<in> shared y \<Longrightarrow> FirstPrefix (heap y) t k = Some (w, r) \<Longrightarrow>
    step y (y\<lparr>watches := insert w (watches y)\<rparr>)"
| s_chan: "w \<in> watches y \<Longrightarrow> watch_Chan w (heap y) = Some (c, h) \<Longrightarrow> step y (y\<lparr>heap := h\<rparr>)"
| s_notify: "Notify n (heap y) = Some h \<Longrightarrow> step y (y\<lparr>heap := h\<rparr>)"
| s_reset: "step y (y\<lparr>heap := ResetNotifier n (heap y)\<rparr>)"

inductive_cases stepE: "step y z"

definition steps :: "'v sys \<Rightarrow> 'v sys \<Rightarrow> bool" where
  "steps = step\<^sup>*\<^sup>*"

definition reachable :: "'v sys \<Rightarrow> bool" where
  "reachable y \<longleftrightarrow> (\<exists>b. steps (init_sys b) y)"

section \<open>What every step leaves alone\<close>

text \<open>Sealing and materialising change neither the shape nor the values of any node.\<close>

definition reads_same :: "'v store \<Rightarrow> 'v store \<Rightarrow> bool" where
  "reads_same s s' \<longleftrightarrow> next_node s' = next_node s \<and> epochCounter s' = epochCounter s \<and>
     (\<forall>a < next_node s. same_node (nodes s a) (nodes s' a))"

lemma reads_same_refl [simp]: "reads_same s s"
  by (simp add: reads_same_def)

lemma reads_same_trans: "reads_same s s' \<Longrightarrow> reads_same s' s'' \<Longrightarrow> reads_same s s''"
  unfolding reads_same_def by (metis same_node_trans)

lemma reads_same_keeps: "reads_same s s' \<Longrightarrow> keeps E s s'"
  using same_node_own by (auto simp: reads_same_def keeps_def)

lemma reads_same_upd:
  "same_node (nodes s a) (f (nodes s a)) \<Longrightarrow> nodes s' = nodes s \<Longrightarrow> next_node s' = next_node s \<Longrightarrow>
    epochCounter s' = epochCounter s \<Longrightarrow> reads_same s (upd_node a f s')"
  by (simp add: reads_same_def upd_node_def)

text \<open>Sealing also leaves the notifiers alone.\<close>

definition still :: "'v store \<Rightarrow> 'v store \<Rightarrow> bool" where
  "still s s' \<longleftrightarrow> reads_same s s' \<and> notifiers s' = notifiers s"

lemma still_refl [simp]: "still s s"
  by (simp add: still_def)

lemma still_trans: "still s s' \<Longrightarrow> still s' s'' \<Longrightarrow> still s s''"
  unfolding still_def using reads_same_trans by metis

lemma still_upd:
  "same_node (nodes s a) (f (nodes s a)) \<Longrightarrow> nodes s' = nodes s \<Longrightarrow> next_node s' = next_node s \<Longrightarrow>
    epochCounter s' = epochCounter s \<Longrightarrow> notifiers s' = notifiers s \<Longrightarrow> still s (upd_node a f s')"
  using reads_same_upd [of s a f s'] by (simp add: still_def upd_node_def)

lemma still_hasValue: "still s s' \<Longrightarrow> a < next_node s \<Longrightarrow> hasValue (nodes s' a) \<longleftrightarrow> hasValue (nodes s a)"
  by (auto simp: still_def reads_same_def dest: same_node_hasValue)

lemma still_fields:
  "nodes s' = nodes s \<Longrightarrow> next_node s' = next_node s \<Longrightarrow> epochCounter s' = epochCounter s \<Longrightarrow>
    notifiers s' = notifiers s \<Longrightarrow> still s s'"
  by (simp add: still_def reads_same_def)

lemma slot_Chan_frame:
  fixes s :: "'v store"
  assumes "slot_Chan p s = Some (c, q, s')"
  shows "nodes s' = nodes s" and "next_node s' = next_node s" and "epochCounter s' = epochCounter s"
    and "notifiers s' = notifiers s" and "leaves s' = leaves s" and "next_leaf s' = next_leaf s"
  using assms
  by (auto simp: slot_Chan_def make_chan_def new_cell_def cas_def Let_def split: option.splits if_splits)

lemma slot_Seal_frame:
  fixes s :: "'v store"
  assumes "slot_Seal p s = Some (q, s')"
  shows "nodes s' = nodes s" and "next_node s' = next_node s" and "epochCounter s' = epochCounter s"
    and "notifiers s' = notifiers s" and "leaves s' = leaves s" and "next_leaf s' = next_leaf s"
  using assms
  by (auto simp: slot_Seal_def close_chan_def split: option.splits if_splits Option.bind_splits)

lemma same_node_watch [simp]: "same_node n (n\<lparr>nwatch := p\<rparr>)"
  by (simp add: same_node_def hasValue_def)

lemma same_node_leaf: "hasValue n \<Longrightarrow> leafp n = None \<Longrightarrow> same_node n (n\<lparr>leafp := p\<rparr>)"
  by (simp add: same_node_def)

lemma node_Seal_still: "node_Seal a s = Some s' \<Longrightarrow> still s s'"
  by (auto simp: node_Seal_def split: Option.bind_splits intro!: still_upd dest: slot_Seal_frame)

lemma node_Chan_still: "node_Chan a s = Some (c, s') \<Longrightarrow> still s s'"
  by (auto simp: node_Chan_def split: Option.bind_splits intro!: still_upd dest: slot_Chan_frame)

lemma leaf_Seal_still: "leaf_Seal l s = Some s' \<Longrightarrow> still s s'"
  by (auto simp: leaf_Seal_def split: Option.bind_splits intro!: still_fields dest: slot_Seal_frame)

lemma leaf_Chan_still: "leaf_Chan l s = Some (c, s') \<Longrightarrow> still s s'"
  by (auto simp: leaf_Chan_def split: Option.bind_splits intro!: still_fields dest: slot_Chan_frame)

lemma sealValue_still:
  assumes "sealValue a s = Some s'" and "hasValue (nodes s a)"
  shows "still s s'"
proof (cases "leafp (nodes s a)")
  case None
  then show ?thesis
    using assms by (auto simp: sealValue_def cas_def intro!: still_upd same_node_leaf)
next
  case (Some l)
  then show ?thesis using assms leaf_Seal_still by (simp add: sealValue_def)
qed

lemma valueChan_still:
  assumes "valueChan a s = Some (c, s')" and "hasValue (nodes s a)"
  shows "still s s'"
proof (cases "leafp (nodes s a)")
  case None
  then show ?thesis
    using assms
    by (auto simp: valueChan_def cas_def new_cell_def new_leaf_def slot_Live_def make_chan_def Let_def
        intro!: still_upd same_node_leaf)
next
  case (Some l)
  then show ?thesis using assms leaf_Chan_still by (simp add: valueChan_def)
qed

lemma ofold_still:
  assumes "ofold f xs s = Some s'" and "\<And>x s s'. x \<in> set xs \<Longrightarrow> I s \<Longrightarrow> f x s = Some s' \<Longrightarrow> still s s'"
    and "\<And>s s'. I s \<Longrightarrow> still s s' \<Longrightarrow> I s'" and "I s"
  shows "still s s'"
  using assms
proof (induction xs arbitrary: s)
  case (Cons x xs)
  from Cons.prems(1) obtain s1 where s1: "f x s = Some s1" "ofold f xs s1 = Some s'"
    by (auto split: Option.bind_splits)
  have st: "still s s1" using Cons.prems(2) [of x s s1] s1(1) Cons.prems(4) by simp
  have "still s1 s'"
    by (rule Cons.IH [OF s1(2)]) (use Cons.prems(2,3) st Cons.prems(4) in auto)
  with st show ?case by (rule still_trans)
qed simp

lemma sealSubtree_still:
  assumes "sealSubtree n s = Some s'"
  shows "still s s'"
proof (rule sealSubtree.raw_induct [where P = "\<lambda>n s s'. still s s'", OF _ assms])
  fix f :: "addr \<Rightarrow> 'a store \<Rightarrow> 'a store option" and n s s'
  assume ih: "\<And>n s s'. f n s = Some s' \<Longrightarrow> still s s'"
    and body: "do { s \<leftarrow> node_Seal n s;
        s \<leftarrow> (if hasValue (nodes s n) then sealValue n s else Some s);
        ofold (\<lambda>k s. do { k \<leftarrow> k; f k s }) (kidList (nodes s n)) s } = Some s'"
  from body obtain s1 s2 where s1: "node_Seal n s = Some s1"
    and s2: "(if hasValue (nodes s1 n) then sealValue n s1 else Some s1) = Some s2"
    and s3: "ofold (\<lambda>k s. do { k \<leftarrow> k; f k s }) (kidList (nodes s2 n)) s2 = Some s'"
    by (auto split: Option.bind_splits)
  have 1: "still s s1" using node_Seal_still [OF s1] .
  have 2: "still s1 s2" using s2 sealValue_still by (auto split: if_splits)
  have 3: "still s2 s'"
    by (rule ofold_still [where I = "\<lambda>_. True", OF s3]) (auto split: Option.bind_splits intro: ih)
  show "still s s'" by (rule still_trans [OF still_trans [OF 1 2] 3])
qed

text \<open>Recorded values are on nodes that hold one.\<close>

definition values_ok :: "'v store \<Rightarrow> bool" where
  "values_ok s \<longleftrightarrow> (\<forall>i. \<forall>n \<in> set (nf_values (notifiers s i)). n < next_node s \<and> hasValue (nodes s n))"

lemma values_ok_still: "values_ok s \<Longrightarrow> still s s' \<Longrightarrow> values_ok s'"
  using still_hasValue [of s s'] by (auto simp: values_ok_def still_def reads_same_def)

lemma Notify_same:
  assumes n: "Notify i s = Some s'" and v: "values_ok s"
  shows "reads_same s s'" and "notifiers s' = (notifiers s)(i := zero_notifier)"
proof -
  let ?nf = "notifiers s i"
  obtain s1 s2 s3 s4 where s1: "ofold node_Seal (nf_nodes ?nf) s = Some s1"
    and s2: "ofold (\<lambda>l s. do { l \<leftarrow> l; leaf_Seal l s }) (nf_leaves ?nf) s1 = Some s2"
    and s3: "ofold sealValue (nf_values ?nf) s2 = Some s3"
    and s4: "ofold sealSubtree (nf_subtrees ?nf) s3 = Some s4"
    and s': "s' = s4\<lparr>notifiers := (notifiers s4)(i := zero_notifier)\<rparr>"
    using n by (auto simp: Notify_def Let_def split: Option.bind_splits)
  have 1: "still s s1"
    by (rule ofold_still [where I = "\<lambda>_. True", OF s1]) (auto intro: node_Seal_still)
  have 2: "still s1 s2"
    by (rule ofold_still [where I = "\<lambda>_. True", OF s2]) (auto split: Option.bind_splits intro: leaf_Seal_still)
  have v2: "still s s2" using 1 2 still_trans by blast
  have 3: "still s2 s3"
  proof (rule ofold_still [where I = "still s", OF s3])
    show "still t t'" if "x \<in> set (nf_values ?nf)" "still s t" "sealValue x t = Some t'" for x t t'
      using sealValue_still [OF that(3)] still_hasValue [OF that(2)] v that(1) by (auto simp: values_ok_def)
  qed (use v2 still_trans in auto)
  have 4: "still s3 s4"
    by (rule ofold_still [where I = "\<lambda>_. True", OF s4]) (auto intro: sealSubtree_still)
  have "still s s4" using v2 3 4 still_trans by blast
  then show "reads_same s s'" "notifiers s' = (notifiers s)(i := zero_notifier)"
    using s' by (simp_all add: still_def reads_same_def)
qed

section \<open>The invariant\<close>

definition free_of :: "txn \<Rightarrow> 'v store \<Rightarrow> addr set \<Rightarrow> bool" where
  "free_of T h A \<longleftrightarrow> (tepoch T \<noteq> 0 \<longrightarrow> (\<forall>a \<in> A. \<not> own_e (tepoch T) (nodes h a)))"

text \<open>Nodes that no running transaction may write to.\<close>

definition settled :: "'v sys \<Rightarrow> addr set \<Rightarrow> bool" where
  "settled y A \<longleftrightarrow> (\<forall>i T. live y i = Some T \<longrightarrow> free_of T (heap y) A)"

definition shared_ok :: "'v sys \<Rightarrow> tree \<Rightarrow> bool" where
  "shared_ok y t \<longleftrightarrow> (\<exists>g :: unit gtree. t = Some (ad g) \<and> tree_ok (heap y) g \<and> settled y (set (addrs g)))"

definition live_ok :: "'v sys \<Rightarrow> nat \<Rightarrow> txn \<Rightarrow> bool" where
  "live_ok y i T \<longleftrightarrow> (\<exists>g :: unit gtree. txn_ok T (heap y) g \<and>
     (\<forall>j U. j \<noteq> i \<longrightarrow> live y j = Some U \<longrightarrow>
        free_of U (heap y) (set (addrs g)) \<and> (tepoch T \<noteq> 0 \<longrightarrow> tepoch U \<noteq> tepoch T)))"

definition value_ok :: "'v sys \<Rightarrow> addr \<Rightarrow> bool" where
  "value_ok y n \<longleftrightarrow> n < next_node (heap y) \<and> hasValue (nodes (heap y) n) \<and> settled y {n}"

definition sys_inv :: "'v sys \<Rightarrow> bool" where
  "sys_inv y \<longleftrightarrow> epochs_ok (heap y) \<and> (\<forall>t \<in> shared y. shared_ok y t) \<and>
     (\<forall>i T. live y i = Some T \<longrightarrow> live_ok y i T) \<and>
     (\<forall>w \<in> watches y. \<forall>n. value_of w = Some n \<longrightarrow> value_ok y n) \<and>
     (\<forall>i. \<forall>n \<in> set (nf_values (notifiers (heap y) i)). value_ok y n)"

lemma sys_invD:
  assumes "sys_inv y"
  shows "epochs_ok (heap y)" and "t \<in> shared y \<Longrightarrow> shared_ok y t" and "live y i = Some T \<Longrightarrow> live_ok y i T"
    and "w \<in> watches y \<Longrightarrow> value_of w = Some n \<Longrightarrow> value_ok y n"
    and "n \<in> set (nf_values (notifiers (heap y) i)) \<Longrightarrow> value_ok y n" and "values_ok (heap y)"
  using assms by (auto simp: sys_inv_def value_ok_def values_ok_def)

lemma init_sys_inv: "sys_inv (init_sys b)"
  by (simp add: sys_inv_def init_sys_def init_store_def epochs_ok_def world.defs zero_notifier_def)

subsection \<open>Steps that change no tree\<close>

lemma own_ok_same: "same_node n m \<Longrightarrow> own_ok E n \<Longrightarrow> own_ok E m"
  by (auto simp: own_ok_def same_node_own same_node_hasValue) (auto simp: same_node_def leafOwned_def)

lemma txn_ok_agree:
  assumes "txn_ok T h g" and "agree (set (addrs g)) h h'" and "epochCounter h \<le> epochCounter h'"
  shows "txn_ok T h' g"
proof -
  have "own_ok (tepoch T) (nodes h' a)" if "tepoch T \<noteq> 0" "a \<in> set (addrs g)" for a
    using own_ok_same [OF _ txn_okD(4) [OF assms(1) that]] assms(2) that(2) by (simp add: agree_def)
  then show ?thesis
    using assms tree_ok_agree [OF txn_okD(2) [OF assms(1)] assms(2)] by (auto simp: txn_ok_def)
qed

lemma reads_same_agree: "reads_same h h' \<Longrightarrow> rep h g \<Longrightarrow> agree (set (addrs g)) h h'"
  using rep_bound [of h g] by (auto simp: reads_same_def agree_def)

lemma free_of_same:
  assumes "reads_same h h'" and "free_of T h A" and "A \<subseteq> {..<next_node h}"
  shows "free_of T h' A"
proof -
  have "own_e E (nodes h' a) \<longleftrightarrow> own_e E (nodes h a)" if "a \<in> A" for E a
    using assms(1,3) that by (intro same_node_own) (auto simp: reads_same_def)
  then show ?thesis using assms(2) by (simp add: free_of_def)
qed

lemma inv_reads_same:
  assumes y: "sys_inv y" and r: "reads_same (heap y) h'"
    and v: "\<And>i. set (nf_values (notifiers h' i)) \<subseteq> set (nf_values (notifiers (heap y) i))"
  shows "sys_inv (y\<lparr>heap := h'\<rparr>)" (is "sys_inv ?y")
proof -
  have "epochs_ok h'"
    using sys_invD(1) [OF y] r by (auto simp: epochs_ok_def reads_same_def same_node_def)
  moreover have se: "settled ?y A" if "settled y A" "A \<subseteq> {..<next_node (heap y)}" for A
    using that free_of_same [OF r] by (simp add: settled_def)
  have bnd: "set (addrs g) \<subseteq> {..<next_node (heap y)}" if "rep (heap y) g" for g :: "unit gtree"
    using rep_bound [OF that] by auto
  have "shared_ok ?y t" if tt: "t \<in> shared y" for t
  proof -
    obtain g :: "unit gtree" where g: "t = Some (ad g)" "tree_ok (heap y) g" "settled y (set (addrs g))"
      using sys_invD(2) [OF y tt] by (auto simp: shared_ok_def)
    note rp = tree_okD(1) [OF g(2)]
    show ?thesis
      using g(1) tree_ok_agree [OF g(2) reads_same_agree [OF r rp]] se [OF g(3) bnd [OF rp]]
      by (auto simp: shared_ok_def)
  qed
  moreover have "live_ok ?y i T" if li: "live y i = Some T" for i T
  proof -
    obtain g :: "unit gtree" where g: "txn_ok T (heap y) g" "\<And>j U. j \<noteq> i \<Longrightarrow> live y j = Some U \<Longrightarrow>
        free_of U (heap y) (set (addrs g)) \<and> (tepoch T \<noteq> 0 \<longrightarrow> tepoch U \<noteq> tepoch T)"
      using sys_invD(3) [OF y li] by (auto simp: live_ok_def)
    note rp = tree_okD(1) [OF txn_okD(2) [OF g(1)]]
    have "txn_ok T h' g"
      using txn_ok_agree [OF g(1) reads_same_agree [OF r rp]] r by (simp add: reads_same_def)
    then show ?thesis using g(2) free_of_same [OF r _ bnd [OF rp]] by (auto simp: live_ok_def)
  qed
  moreover have vk: "value_ok ?y n" if "value_ok y n" for n
    using that se [of "{n}"] r same_node_hasValue by (auto simp: value_ok_def reads_same_def)
  moreover have "value_ok ?y n" if "n \<in> set (nf_values (notifiers h' i))" for n i
    using vk sys_invD(5) [OF y] v that by blast
  ultimately show ?thesis using sys_invD(4) [OF y] vk by (auto simp: sys_inv_def)
qed

subsection \<open>Writes\<close>

text \<open>One write of transaction \<open>T\<close> seen from everything else.\<close>

lemma exec_op_ok:
  fixes g :: "unit gtree"
  assumes s: "epochs_ok h" and t: "txn_ok T h g" and room: "tepoch T = 0 \<longrightarrow> epochCounter h < epochMask"
    and x: "txn_exec p (T, h) = Some (r, T', h')"
  shows "\<exists>g'. op_ok T h g T' h' g'"
proof -
  have room': "tepoch T = 0 \<Longrightarrow> epochCounter h < epochMask" using room by simp
  show ?thesis
  proof (cases p)
    case (Put k v)
    show ?thesis by (rule Insert_ok [OF s t room', of k v]) (use x Put in auto)
  next
    case (Remove k)
    show ?thesis by (rule Delete_ok [OF s t room', of k]) (use x Remove in auto)
  next
    case (Cut k)
    show ?thesis by (rule DeletePrefix_ok [OF s t room', of k]) (use x Cut in auto)
  next
    case (Lookup k)
    then show ?thesis using x op_ok_refl [OF s t] by (auto split: Option.bind_splits)
  qed
qed

lemma op_ok_writer:
  assumes s: "epochs_ok h" and o: "op_ok T h g T' h' g'" and a: "a < next_node h" and f: "free_of T h {a}"
  shows "same_node (nodes h a) (nodes h' a)" and "free_of T' h' {a}"
proof -
  have k: "keeps (tepoch T') h h'" using o by (simp add: op_ok_def)
  have sn: "same_node (nodes h a) (nodes h' a) \<and> free_of T' h' {a}"
  proof (cases "tepoch T' = 0")
    case True
    then show ?thesis using o by (simp add: op_ok_def free_of_def)
  next
    case False
    have "\<not> own_e (tepoch T') (nodes h a)"
    proof (cases "tepoch T' = tepoch T")
      case True
      then show ?thesis using f False by (simp add: free_of_def)
    next
      case ne: False
      then have e: "tepoch T' = epochCounter h + 1" "epochCounter h < epochMask" using o by (auto simp: op_ok_def)
      have "epoch (nodes h a) AND epochMask \<le> epochCounter h" using s a by (simp add: epochs_ok_def)
      then show ?thesis using next_epoch(1) [OF e(2)] e(1) by (auto simp: own_e_def)
    qed
    moreover from this have sn: "same_node (nodes h a) (nodes h' a)" using k a by (simp add: keeps_def)
    ultimately show ?thesis using same_node_own [OF sn] by (simp add: free_of_def)
  qed
  then show "same_node (nodes h a) (nodes h' a)" "free_of T' h' {a}" by simp_all
qed

text \<open>Another writer owns after the write only what it owned before, and nothing of the new tree.\<close>

lemma op_ok_other:
  assumes o: "op_ok T h g T' h' g'" and U: "tepoch U \<noteq> 0" "tepoch U \<noteq> tepoch T'" and a: "a < next_node h'"
    and own: "own_e (tepoch U) (nodes h' a)"
  shows "a < next_node h \<and> own_e (tepoch U) (nodes h a)"
proof -
  have k: "keeps (tepoch T') h h'" using o by (simp add: op_ok_def)
  have n: "\<not> own_e (tepoch T') (nodes h' a)" using own U(2) by (simp add: own_e_def)
  then have l: "a < next_node h" using k a unfolding keeps_def by (meson not_less)
  then have "\<not> own_e (tepoch T') (nodes h a)" using k n by (auto simp: keeps_def)
  then have "same_node (nodes h a) (nodes h' a)" using k l by (simp add: keeps_def)
  then show ?thesis using l own same_node_own by blast
qed

lemma free_of_singletons: "free_of T h A \<longleftrightarrow> (\<forall>a \<in> A. free_of T h {a})"
  by (auto simp: free_of_def)

lemma op_ok_epoch_fresh:
  assumes "op_ok T h g T' h' g'" and "tepoch U \<le> epochCounter h" and "tepoch T \<noteq> 0 \<Longrightarrow> tepoch U \<noteq> tepoch T"
    and "tepoch T' \<noteq> 0"
  shows "tepoch U \<noteq> tepoch T'"
proof (cases "tepoch T' = tepoch T")
  case False
  then have "tepoch T' = epochCounter h + 1" "epochCounter h < epochMask" using assms(1) by (auto simp: op_ok_def)
  then show ?thesis using next_epoch(1) [of h] assms(2) by auto
qed (use assms(3,4) in simp)

lemma write_frame:
  assumes y: "sys_inv y" and i: "live y i = Some T" and room: "tepoch T = 0 \<longrightarrow> epochCounter (heap y) < epochMask"
    and x: "txn_exec p (T, heap y) = Some (r, T', h')"
  obtains g g' :: "unit gtree" where "op_ok T (heap y) g T' h' g'" and "txn_ok T (heap y) g"
    and "\<And>j U. j \<noteq> i \<Longrightarrow> live y j = Some U \<Longrightarrow> free_of U (heap y) (set (addrs g)) \<and> (tepoch T \<noteq> 0 \<longrightarrow> tepoch U \<noteq> tepoch T)"
    and "\<And>j U. j \<noteq> i \<Longrightarrow> live y j = Some U \<Longrightarrow> tepoch T' \<noteq> 0 \<longrightarrow> tepoch U \<noteq> tepoch T'"
    and "\<And>j U A. j \<noteq> i \<Longrightarrow> live y j = Some U \<Longrightarrow> free_of U (heap y) A \<Longrightarrow> A \<subseteq> {..<next_node (heap y)} \<Longrightarrow> free_of U h' A"
    and "\<And>A. settled y A \<Longrightarrow> A \<subseteq> {..<next_node (heap y)} \<Longrightarrow>
      settled (y\<lparr>heap := h', live := (live y)(i \<mapsto> T')\<rparr>) A \<and> (\<forall>a \<in> A. same_node (nodes (heap y) a) (nodes h' a))"
proof -
  let ?h = "heap y"
  note s = sys_invD(1) [OF y]
  obtain g :: "unit gtree" where g: "txn_ok T ?h g" "\<And>j U. j \<noteq> i \<Longrightarrow> live y j = Some U \<Longrightarrow>
      free_of U ?h (set (addrs g)) \<and> (tepoch T \<noteq> 0 \<longrightarrow> tepoch U \<noteq> tepoch T)"
    using sys_invD(3) [OF y i] by (auto simp: live_ok_def)
  obtain g' where o: "op_ok T ?h g T' h' g'" using exec_op_ok [OF s g(1) room x] by blast
  have k: "keeps (tepoch T') ?h h'" and ok': "txn_ok T' h' g'" and s': "epochs_ok h'" using o by (simp_all add: op_ok_def)
  have mono: "next_node ?h \<le> next_node h'" "epochCounter ?h \<le> epochCounter h'" using k by (simp_all add: keeps_def)
  have other: "tepoch T' \<noteq> 0 \<longrightarrow> tepoch U \<noteq> tepoch T'" "tepoch U \<le> epochCounter ?h"
    if j: "j \<noteq> i" "live y j = Some U" for j U
  proof -
    obtain gu :: "unit gtree" where "txn_ok U ?h gu" using sys_invD(3) [OF y j(2)] by (auto simp: live_ok_def)
    then show e: "tepoch U \<le> epochCounter ?h" by (rule txn_okD(3))
    show "tepoch T' \<noteq> 0 \<longrightarrow> tepoch U \<noteq> tepoch T'" using op_ok_epoch_fresh [OF o e] g(2) [OF j] by blast
  qed
  have fo: "free_of U h' A" if j: "j \<noteq> i" "live y j = Some U" and f: "free_of U ?h A" and A: "A \<subseteq> {..<next_node ?h}" for j U A
  proof (cases "tepoch U = 0 \<or> tepoch T' = 0")
    case True
    then show ?thesis using f o by (auto simp: free_of_def op_ok_def)
  next
    case False
    then show ?thesis
      using op_ok_other [OF o, of U] other(1) [OF j] f A mono(1) by (fastforce simp: free_of_def)
  qed
  have se: "settled (y\<lparr>heap := h', live := (live y)(i \<mapsto> T')\<rparr>) A \<and> (\<forall>a \<in> A. same_node (nodes ?h a) (nodes h' a))"
    if A: "settled y A" "A \<subseteq> {..<next_node ?h}" for A
  proof -
    have T: "free_of T ?h {a}" if "a \<in> A" for a using A(1) i that by (auto simp: settled_def free_of_def)
    have "free_of T' h' A" using op_ok_writer(2) [OF s o] T A(2) by (subst free_of_singletons) auto
    then show ?thesis
      using op_ok_writer(1) [OF s o] T A fo by (auto simp: settled_def)
  qed
  show thesis by (rule that [OF o g other(1) fo se])
qed

lemma inv_write:
  assumes y: "sys_inv y" and i: "live y i = Some T" and room: "tepoch T = 0 \<longrightarrow> epochCounter (heap y) < epochMask"
    and x: "txn_exec p (T, heap y) = Some (r, T', h')"
  shows "sys_inv (y\<lparr>heap := h', live := (live y)(i \<mapsto> T')\<rparr>)" (is "sys_inv ?y")
proof -
  let ?h = "heap y"
  note s = sys_invD(1) [OF y]
  obtain g g' :: "unit gtree" where o: "op_ok T ?h g T' h' g'" and g: "txn_ok T ?h g"
    "\<And>j U. j \<noteq> i \<Longrightarrow> live y j = Some U \<Longrightarrow> free_of U ?h (set (addrs g)) \<and> (tepoch T \<noteq> 0 \<longrightarrow> tepoch U \<noteq> tepoch T)"
    and other: "\<And>j U. j \<noteq> i \<Longrightarrow> live y j = Some U \<Longrightarrow> tepoch T' \<noteq> 0 \<longrightarrow> tepoch U \<noteq> tepoch T'"
    and fo: "\<And>j U A. j \<noteq> i \<Longrightarrow> live y j = Some U \<Longrightarrow> free_of U ?h A \<Longrightarrow> A \<subseteq> {..<next_node ?h} \<Longrightarrow> free_of U h' A"
    and se: "\<And>A. settled y A \<Longrightarrow> A \<subseteq> {..<next_node ?h} \<Longrightarrow>
      settled ?y A \<and> (\<forall>a \<in> A. same_node (nodes ?h a) (nodes h' a))"
    by (rule write_frame [OF y i room x]) blast
  have k: "keeps (tepoch T') ?h h'" and ok': "txn_ok T' h' g'" and s': "epochs_ok h'" using o by (simp_all add: op_ok_def)
  have mono: "next_node ?h \<le> next_node h'" "epochCounter ?h \<le> epochCounter h'" using k by (simp_all add: keeps_def)
  have bnd: "set (addrs c) \<subseteq> {..<next_node ?h}" if "rep ?h c" for c :: "unit gtree"
    using rep_bound [OF that] by auto
  have "shared_ok ?y t" if tt: "t \<in> shared y" for t
  proof -
    obtain c :: "unit gtree" where c: "t = Some (ad c)" "tree_ok ?h c" "settled y (set (addrs c))"
      using sys_invD(2) [OF y tt] by (auto simp: shared_ok_def)
    note q = se [OF c(3) bnd [OF tree_okD(1) [OF c(2)]]]
    then have "agree (set (addrs c)) ?h h'" using mono by (simp add: agree_def)
    then show ?thesis using c(1) tree_ok_agree [OF c(2)] q by (auto simp: shared_ok_def)
  qed
  moreover have "live_ok ?y j U" if lj: "live ?y j = Some U" for j U
  proof (cases "j = i")
    case True
    then have U: "U = T'" using lj by simp
    have "free_of V h' (set (addrs g')) \<and> (tepoch T' \<noteq> 0 \<longrightarrow> tepoch V \<noteq> tepoch T')"
      if "l \<noteq> i" "live y l = Some V" for l V
    proof -
      have "\<not> own_e (tepoch V) (nodes h' a)" if v: "tepoch V \<noteq> 0" and a: "a \<in> set (addrs g')" for a
      proof
        assume ow: "own_e (tepoch V) (nodes h' a)"
        have al: "a < next_node h'" using rep_bound [OF tree_okD(1) [OF txn_okD(2) [OF ok']] a] .
        have "a < next_node ?h \<and> own_e (tepoch V) (nodes ?h a)"
        proof (cases "tepoch T' = 0")
          case True
          then show ?thesis using o al ow by (simp add: op_ok_def)
        next
          case False
          then show ?thesis using op_ok_other [OF o v _ al ow] other [OF \<open>l \<noteq> i\<close> \<open>live y l = Some V\<close>] by blast
        qed
        moreover from this have "a \<in> set (addrs g)" using o a by (auto simp: op_ok_def)
        ultimately show False using g(2) [OF \<open>l \<noteq> i\<close> \<open>live y l = Some V\<close>] v by (simp add: free_of_def)
      qed
      then show ?thesis using other [OF that] by (simp add: free_of_def)
    qed
    then show ?thesis using U True ok' by (auto simp: live_ok_def)
  next
    case False
    then have j: "live y j = Some U" using lj by simp
    obtain c :: "unit gtree" where c: "txn_ok U ?h c" "\<And>l V. l \<noteq> j \<Longrightarrow> live y l = Some V \<Longrightarrow>
        free_of V ?h (set (addrs c)) \<and> (tepoch U \<noteq> 0 \<longrightarrow> tepoch V \<noteq> tepoch U)"
      using sys_invD(3) [OF y j] by (auto simp: live_ok_def)
    note b = bnd [OF tree_okD(1) [OF txn_okD(2) [OF c(1)]]]
    have fT: "free_of T ?h {a}" if "a \<in> set (addrs c)" for a
      using c(2) [OF _ i] False that by (auto simp: free_of_def)
    have "agree (set (addrs c)) ?h h'"
      using op_ok_writer(1) [OF s o] fT b mono by (auto simp: agree_def)
    then have "txn_ok U h' c" using txn_ok_agree [OF c(1) _ mono(2)] by blast
    moreover have "free_of T' h' (set (addrs c))"
      using op_ok_writer(2) [OF s o] fT b by (subst free_of_singletons) auto
    moreover have "tepoch U \<noteq> 0 \<longrightarrow> tepoch T' \<noteq> tepoch U" using other [OF False j] by metis
    moreover have "free_of V h' (set (addrs c))" if "l \<noteq> i" "l \<noteq> j" "live y l = Some V" for l V
      using fo [OF that(1,3) _ b] c(2) [OF that(2,3)] by blast
    ultimately show ?thesis using c(2) by (auto simp: live_ok_def split: if_splits)
  qed
  moreover have vk: "value_ok ?y n" if "value_ok y n" for n
    using that se [of "{n}"] mono same_node_hasValue [of "nodes ?h n" "nodes h' n"] by (auto simp: value_ok_def)
  moreover have "value_ok ?y n" if n: "n \<in> set (nf_values (notifiers h' l))" for n l
  proof -
    obtain D where D: "nf_log (tnf T) ?h D h'"
      "set (nf_values D) \<subseteq> {a \<in> set (addrs g). \<not> own_e (tepoch T') (nodes ?h a) \<and> hasValue (nodes ?h a)}"
      using o by (auto simp: op_ok_def log_ok_def)
    consider "n \<in> set (nf_values (notifiers ?h l))" | "n \<in> set (nf_values D)"
      using D(1) n by (auto simp: nf_log_def split: option.splits if_splits)
    then show ?thesis
    proof cases
      case 1
      then show ?thesis using vk sys_invD(5) [OF y] by blast
    next
      case 2
      then have a: "n \<in> set (addrs g)" "\<not> own_e (tepoch T') (nodes ?h n)" "hasValue (nodes ?h n)" using D(2) by auto
      have l: "n < next_node ?h" using rep_bound [OF tree_okD(1) [OF txn_okD(2) [OF g(1)]] a(1)] .
      have sn: "same_node (nodes ?h n) (nodes h' n)" using k a(2) l by (simp add: keeps_def)
      have "free_of U h' {n}" if "j \<noteq> i" "live y j = Some U" for j U
        using fo [OF that, of "{n}"] g(2) [OF that] a(1) l by (auto simp: free_of_def)
      moreover have "free_of T' h' {n}" using same_node_own [OF sn] a(2) by (simp add: free_of_def)
      ultimately show ?thesis
        using l mono(1) same_node_hasValue [OF sn] a(3) by (auto simp: value_ok_def settled_def)
    qed
  qed
  ultimately show ?thesis using s' sys_invD(4) [OF y] vk by (auto simp: sys_inv_def)
qed

subsection \<open>The other steps\<close>

lemma NewTree_ok:
  assumes "NewTree h = (t, h')"
  shows "t = Some (next_node h)" and "tree_ok h' (G (next_node h) x [])" and "contents h' (G (next_node h) x []) = []"
    and "keeps E h h' \<or> E \<noteq> 0" and "nodes h' = (nodes h)(next_node h := zero_node)"
    and "next_node h' = Suc (next_node h)" and "epochCounter h' = epochCounter h" and "notifiers h' = notifiers h"
proof -
  show n: "nodes h' = (nodes h)(next_node h := zero_node)" "t = Some (next_node h)" "next_node h' = Suc (next_node h)"
    "epochCounter h' = epochCounter h" "notifiers h' = notifiers h"
    using assms by (auto simp: NewTree_def alloc_node_def)
  have z: "\<not> hasValue zero_node" "epoch zero_node = 0" by (simp_all add: hasValue_def zero_node_def)
  show "tree_ok h' (G (next_node h) x [])"
    using n(1,3) z bm.enum_empty
    by (simp add: tree_ok_def node_ok_def kidList_def wf_root_def wf_kids_def leafOwned_def zero_node_def)
  show "contents h' (G (next_node h) x []) = []"
    using n(1) z by (simp add: contents_def below_def own_ents_def value_at_def)
  show "keeps E h h' \<or> E \<noteq> 0"
    using n same_node_refl z by (auto simp: keeps_def own_e_def less_Suc_eq zero_node_def)
qed

lemma inv_new:
  assumes y: "sys_inv y" and n: "NewTree (heap y) = (t, h')"
  shows "sys_inv (y\<lparr>heap := h', shared := insert t (shared y)\<rparr>)" (is "sys_inv ?y")
proof -
  let ?h = "heap y"
  note w = NewTree_ok [OF n]
  have same: "nodes h' a = nodes ?h a" if "a < next_node ?h" for a using w(5) that by simp
  have se: "settled ?y A" if "settled y A" "A \<subseteq> {..<next_node ?h}" for A
    using that same by (fastforce simp: settled_def free_of_def)
  have ag: "agree (set (addrs c)) ?h h'" if "rep ?h c" for c :: "unit gtree"
    using rep_bound [OF that] same w(6) by (auto simp: agree_def)
  have bnd: "set (addrs c) \<subseteq> {..<next_node ?h}" if "rep ?h c" for c :: "unit gtree"
    using rep_bound [OF that] by auto
  have "epochs_ok h'"
    using sys_invD(1) [OF y] w(5,6,7) by (auto simp: epochs_ok_def less_Suc_eq zero_node_def)
  moreover have "shared_ok ?y u" if u: "u \<in> shared ?y" for u
  proof (cases "u = t")
    case True
    have "settled ?y (set (addrs (G (next_node ?h) () [])))"
      using w(5) by (auto simp: settled_def free_of_def own_e_def zero_node_def)
    then show ?thesis using w(1) w(2) [of "()"] True by (auto simp: shared_ok_def intro!: exI [of _ "G (next_node ?h) () []"])
  next
    case False
    then obtain c :: "unit gtree" where c: "u = Some (ad c)" "tree_ok ?h c" "settled y (set (addrs c))"
      using sys_invD(2) [OF y] u by (auto simp: shared_ok_def)
    note rp = tree_okD(1) [OF c(2)]
    show ?thesis
      using c(1) tree_ok_agree [OF c(2) ag [OF rp]] se [OF c(3) bnd [OF rp]] by (auto simp: shared_ok_def)
  qed
  moreover have "live_ok ?y i T" if li: "live y i = Some T" for i T
  proof -
    obtain c :: "unit gtree" where c: "txn_ok T ?h c" "\<And>j U. j \<noteq> i \<Longrightarrow> live y j = Some U \<Longrightarrow>
        free_of U ?h (set (addrs c)) \<and> (tepoch T \<noteq> 0 \<longrightarrow> tepoch U \<noteq> tepoch T)"
      using sys_invD(3) [OF y li] by (auto simp: live_ok_def)
    note rp = tree_okD(1) [OF txn_okD(2) [OF c(1)]]
    have "txn_ok T h' c" using txn_ok_agree [OF c(1) ag [OF rp]] w(7) by simp
    moreover have "free_of U h' (set (addrs c))" if "free_of U ?h (set (addrs c))" for U
      using that same bnd [OF rp] by (fastforce simp: free_of_def)
    ultimately show ?thesis using c(2) by (auto simp: live_ok_def)
  qed
  moreover have "value_ok ?y m" if "value_ok y m" for m
    using that se [of "{m}"] same w(6) by (auto simp: value_ok_def)
  ultimately show ?thesis using y w(8) by (auto simp: sys_inv_def)
qed

text \<open>Starting, freezing, committing and aborting change only which epochs are in use.\<close>

lemma inv_live:
  assumes y: "sys_inv y" and T: "\<And>U. T = Some U \<Longrightarrow> tepoch U = 0 \<and> live_ok (y\<lparr>live := (live y)(i := T)\<rparr>) i U"
    and S: "\<And>t. t \<in> S \<Longrightarrow> shared_ok (y\<lparr>live := (live y)(i := T)\<rparr>) t"
  shows "sys_inv (y\<lparr>live := (live y)(i := T), shared := S \<union> shared y\<rparr>)" (is "sys_inv ?y")
proof -
  have fz: "free_of U h A" if "tepoch U = 0" for U h A using that by (simp add: free_of_def)
  have se: "settled ?y A" if "settled y A" for A
    using that T fz by (auto simp: settled_def split: if_splits)
  have "shared_ok ?y t" if t: "t \<in> S \<union> shared y" for t
  proof (cases "t \<in> S")
    case True
    then show ?thesis using S by (simp add: shared_ok_def settled_def)
  next
    case False
    then show ?thesis using sys_invD(2) [OF y, of t] t se by (auto simp: shared_ok_def)
  qed
  moreover have "live_ok ?y j U" if lj: "live ?y j = Some U" for j U
  proof (cases "j = i")
    case True
    then show ?thesis using lj T by (auto simp: live_ok_def)
  next
    case False
    then have "live y j = Some U" using lj by simp
    from sys_invD(3) [OF y this] obtain c :: "unit gtree" where c: "txn_ok U (heap y) c"
      "\<And>l V. l \<noteq> j \<Longrightarrow> live y l = Some V \<Longrightarrow>
        free_of V (heap y) (set (addrs c)) \<and> (tepoch U \<noteq> 0 \<longrightarrow> tepoch V \<noteq> tepoch U)"
      by (auto simp: live_ok_def)
    have "free_of V (heap y) (set (addrs c)) \<and> (tepoch U \<noteq> 0 \<longrightarrow> tepoch V \<noteq> tepoch U)"
      if "l \<noteq> j" "live ?y l = Some V" for l V
      using that c(2) [of l V] T [of V] fz [of V] by (cases "l = i") auto
    then show ?thesis unfolding live_ok_def using c(1) by (intro exI [of _ c]) simp
  qed
  moreover have "value_ok ?y m" if "value_ok y m" for m using that se by (auto simp: value_ok_def)
  ultimately show ?thesis using y by (simp add: sys_inv_def)
qed

text \<open>The tree of a transaction that has abandoned its epoch is settled.\<close>

lemma live_shared:
  assumes "live_ok y i T" and "live y i = Some T" and "\<And>U. T' = Some U \<Longrightarrow> tepoch U = 0"
  shows "shared_ok (y\<lparr>live := (live y)(i := T')\<rparr>) (troot T)"
proof -
  obtain g :: "unit gtree" where g: "txn_ok T (heap y) g" "\<And>j U. j \<noteq> i \<Longrightarrow> live y j = Some U \<Longrightarrow>
      free_of U (heap y) (set (addrs g))"
    using assms(1) by (auto simp: live_ok_def)
  have "free_of U (heap y) (set (addrs g))" if "((live y)(i := T')) j = Some U" for j U
    using that g(2) [of j U] assms(3) [of U] by (cases "j = i") (auto simp: free_of_def)
  then show ?thesis
    using txn_okD(1,2) [OF g(1)] unfolding shared_ok_def settled_def by (intro exI [of _ g]) simp
qed

lemma live_frozen: "live_ok y i T \<Longrightarrow> tepoch T' = 0 \<Longrightarrow> troot T' = troot T \<Longrightarrow> live_ok (y\<lparr>live := (live y)(i \<mapsto> T')\<rparr>) i T'"
  by (fastforce simp: live_ok_def txn_ok_def)

lemma inv_start:
  assumes y: "sys_inv y" and t: "t \<in> shared y" and i: "live y i = None"
  shows "sys_inv (y\<lparr>live := (live y)(i \<mapsto> StartTxn t nf)\<rparr>)"
proof -
  obtain g :: "unit gtree" where g: "t = Some (ad g)" "tree_ok (heap y) g" "settled y (set (addrs g))"
    using sys_invD(2) [OF y t] by (auto simp: shared_ok_def)
  have "live_ok (y\<lparr>live := (live y)(i \<mapsto> StartTxn t nf)\<rparr>) i (StartTxn t nf)"
    using g StartTxn_ok [OF g(2)] unfolding live_ok_def
    by (intro exI [of _ g]) (auto simp: settled_def StartTxn_def)
  then show ?thesis using inv_live [OF y, of "Some (StartTxn t nf)" i "{}"] by (simp add: StartTxn_def)
qed

lemma watch_value:
  assumes y: "sys_inv y" and t: "t \<in> shared y"
  shows "GetWatch (heap y) t k = Some (w, r) \<Longrightarrow> value_of w = Some n \<Longrightarrow> value_ok y n"
    and "FirstPrefix (heap y) t k = Some (w, r) \<Longrightarrow> value_of w = None"
proof -
  obtain g :: "unit gtree" where g: "t = Some (ad g)" "tree_ok (heap y) g" "settled y (set (addrs g))"
    using sys_invD(2) [OF y t] by (auto simp: shared_ok_def)
  note rp = tree_okD(1,2) [OF g(2)]
  from GetWatch_loop_spec [OF rp ad_in_addrs, of k]
  have "value_of w = Some n \<Longrightarrow> n \<in> set (addrs g) \<and> hasValue (nodes (heap y) n)" if "GetWatch (heap y) t k = Some (w, r)"
    using that g(1) by (auto simp: GetWatch_def value_at_def split: option.splits if_splits)
  then show "value_ok y n" if "GetWatch (heap y) t k = Some (w, r)" "value_of w = Some n"
    using that rep_bound [OF rp(1)] g(3) by (auto simp: value_ok_def settled_def free_of_def)
  show "FirstPrefix (heap y) t k = Some (w, r) \<Longrightarrow> value_of w = None"
    using prefix_lookup_spec [OF g(2), of k] g(1) by auto
qed

lemma inv_watch:
  "sys_inv y \<Longrightarrow> (\<And>n. value_of w = Some n \<Longrightarrow> value_ok y n) \<Longrightarrow> sys_inv (y\<lparr>watches := insert w (watches y)\<rparr>)"
  by (auto simp: sys_inv_def shared_ok_def live_ok_def value_ok_def settled_def)

lemma inv_chan:
  assumes y: "sys_inv y" and w: "w \<in> watches y" and c: "watch_Chan w (heap y) = Some (c, h)"
  shows "sys_inv (y\<lparr>heap := h\<rparr>)"
proof -
  have "still (heap y) h"
  proof (cases "value_of w")
    case (Some n)
    then have "hasValue (nodes (heap y) n)" using sys_invD(4) [OF y w] by (simp add: value_ok_def)
    with c Some valueChan_still show ?thesis by (simp add: watch_Chan_def)
  next
    case None
    with c node_Chan_still show ?thesis by (auto simp: watch_Chan_def split: option.splits)
  qed
  then show ?thesis by (intro inv_reads_same [OF y]) (auto simp: still_def)
qed

theorem inv_step: "step y z \<Longrightarrow> sys_inv y \<Longrightarrow> sys_inv z"
proof (induction rule: step.induct)
  case (s_new y t h)
  then show ?case using inv_new by blast
next
  case (s_start t y i nf)
  then show ?case using inv_start by blast
next
  case (s_write y i T p r T' h)
  then show ?case using inv_write by blast
next
  case (s_freeze y i T)
  have l: "live_ok y i T" using sys_invD(3) s_freeze by blast
  have "shared_ok (y\<lparr>live := (live y)(i \<mapsto> Freeze T)\<rparr>) (TxnTree T)"
    using live_shared [OF l s_freeze(1), of "Some (Freeze T)"] by (simp add: Freeze_def TxnTree_def)
  moreover have "live_ok (y\<lparr>live := (live y)(i \<mapsto> Freeze T)\<rparr>) i (Freeze T)"
    using live_frozen [OF l] by (simp add: Freeze_def)
  ultimately show ?case
    using inv_live [OF s_freeze(2), of "Some (Freeze T)" i "{TxnTree T}"] by (simp add: Freeze_def)
next
  case (s_commit y i T t T')
  have l: "live_ok y i T" using sys_invD(3) s_commit by blast
  have "shared_ok (y\<lparr>live := (live y)(i := None)\<rparr>) t"
    using live_shared [OF l s_commit(1), of None] s_commit(2) by (simp add: Commit_def)
  then show ?case using inv_live [OF s_commit(3), of None i "{t}"] by simp
next
  case (s_abort y i T)
  then show ?case using inv_live [of y None i "{}"] by simp
next
  case (s_watch t y k w r)
  then show ?case using inv_watch watch_value(1) by blast
next
  case (s_watch_prefix t y k w r)
  then show ?case using inv_watch [of y w] watch_value(2) [of y t k w r] by simp
next
  case (s_chan w y c h)
  then show ?case using inv_chan by blast
next
  case (s_notify n y h)
  then show ?case
    using Notify_same [OF s_notify(1) sys_invD(6) [OF s_notify(2)]]
    by (intro inv_reads_same) (auto simp: zero_notifier_def)
next
  case (s_reset y n)
  then show ?case
    by (intro inv_reads_same) (auto simp: ResetNotifier_def reads_same_def zero_notifier_def)
qed

lemma steps_inv: "steps y z \<Longrightarrow> sys_inv y \<Longrightarrow> sys_inv z"
  unfolding steps_def by (induction rule: rtranclp_induct) (auto intro: inv_step)

lemma reachable_inv: "reachable y \<Longrightarrow> sys_inv y"
  unfolding reachable_def using steps_inv init_sys_inv by blast

section \<open>Persistence\<close>

text \<open>Settled nodes stay settled, and stay what they are, whatever happens next.\<close>

lemma step_settled:
  assumes "step y z" and "sys_inv y" and "settled y A" and "A \<subseteq> {..<next_node (heap y)}"
  shows "settled z A \<and> agree A (heap y) (heap z)"
  using assms
proof (induction rule: step.induct)
  case (s_new y t h)
  note w = NewTree_ok [OF s_new(1)]
  have "nodes h a = nodes (heap y) a" if "a \<in> A" for a using w(5) s_new(4) that by auto
  then show ?case using s_new(3) w(6) by (auto simp: settled_def free_of_def agree_def)
next
  case (s_write y i T p r T' h)
  obtain g g' :: "unit gtree" where o: "op_ok T (heap y) g T' h g'"
    and se: "\<And>A. settled y A \<Longrightarrow> A \<subseteq> {..<next_node (heap y)} \<Longrightarrow>
      settled (y\<lparr>heap := h, live := (live y)(i \<mapsto> T')\<rparr>) A \<and> (\<forall>a \<in> A. same_node (nodes (heap y) a) (nodes h a))"
    by (rule write_frame [OF s_write(4,1,2,3)]) blast
  then show ?case using se [OF s_write(5,6)] by (simp add: agree_def op_ok_def keeps_def)
next
  case (s_chan w y c h)
  have "still (heap y) h"
  proof (cases "value_of w")
    case (Some n)
    then have "hasValue (nodes (heap y) n)" using sys_invD(4) [OF s_chan(3,1)] by (simp add: value_ok_def)
    with s_chan(2) Some valueChan_still show ?thesis by (simp add: watch_Chan_def)
  next
    case None
    with s_chan(2) node_Chan_still show ?thesis by (auto simp: watch_Chan_def split: option.splits)
  qed
  then have r: "reads_same (heap y) h" by (simp add: still_def)
  then show ?case using s_chan(4,5) free_of_same [OF r] by (auto simp: settled_def reads_same_def agree_def)
next
  case (s_notify n y h)
  note r = Notify_same(1) [OF s_notify(1) sys_invD(6) [OF s_notify(2)]]
  then show ?case using s_notify(3,4) free_of_same [OF r] by (auto simp: settled_def reads_same_def agree_def)
qed (auto simp: settled_def free_of_def agree_def ResetNotifier_def StartTxn_def Freeze_def Commit_def)

lemma steps_settled:
  "steps y z \<Longrightarrow> sys_inv y \<Longrightarrow> settled y A \<Longrightarrow> A \<subseteq> {..<next_node (heap y)} \<Longrightarrow>
    settled z A \<and> agree A (heap y) (heap z)"
  unfolding steps_def
proof (induction rule: rtranclp_induct)
  case (step z w)
  then have z: "settled z A" "agree A (heap y) (heap z)" by simp_all
  have "sys_inv z" using steps_inv [of y z] step by (simp add: steps_def)
  moreover have "A \<subseteq> {..<next_node (heap z)}" using z(2) step by (auto simp: agree_def)
  ultimately show ?case using step_settled [OF step(2)] z agree_trans by blast
qed (simp add: agree_def)

text \<open>A tree that was handed out shows the same contents for ever.\<close>

lemma shared_persists:
  assumes "sys_inv y" and "steps y z" and "t \<in> shared y"
  obtains g :: "unit gtree" where "t = Some (ad g)" and "tree_ok (heap y) g" and "tree_ok (heap z) g"
    and "contents (heap z) g = contents (heap y) g" and "agree (set (addrs g)) (heap y) (heap z)"
proof -
  obtain g :: "unit gtree" where g: "t = Some (ad g)" "tree_ok (heap y) g" "settled y (set (addrs g))"
    using sys_invD(2) [OF assms(1,3)] by (auto simp: shared_ok_def)
  have "set (addrs g) \<subseteq> {..<next_node (heap y)}" using rep_bound [OF tree_okD(1) [OF g(2)]] by auto
  then have ag: "agree (set (addrs g)) (heap y) (heap z)" using steps_settled [OF assms(2,1) g(3)] by blast
  show ?thesis using that [OF g(1,2)] tree_ok_agree [OF g(2) ag] ag by blast
qed

text \<open>Every operation of a running transaction returns.\<close>

lemma write_returns:
  assumes y: "sys_inv y" and i: "live y i = Some T" and room: "tepoch T = 0 \<longrightarrow> epochCounter (heap y) < epochMask"
  shows "txn_exec p (T, heap y) \<noteq> None"
proof -
  obtain g :: "unit gtree" where g: "txn_ok T (heap y) g" using sys_invD(3) [OF y i] by (auto simp: live_ok_def)
  then have "txn_good (T, heap y)" using sys_invD(1) [OF y] room by auto
  from txn_exec_good [OF this, of p] show ?thesis by auto
qed

end
