(* ===== verification/Iter.thy ===== *)
theory Iter
  imports Lookup
begin

text \<open>
  The iterators of \<^verbatim>\<open>internal/radix/iter.go\<close>: an explicit traversal stack with eight inline frames
  that spills to a slice, forward and reverse iterators, and their seeks.  Positions are 16-bit
  signed numbers as in the code.
\<close>

section \<open>The traversal stack\<close>

type_synonym i16 = "16 word"

definition inlineFrames :: nat where
  "inlineFrames = 8"

text \<open>The inline frames are two arrays of eight; frames of greater depth are in \<open>spill\<close>.\<close>

record stack =
  depth :: nat
  snodes :: "addr option list"
  spos :: "i16 list"
  spill :: "(addr \<times> i16) list"

definition zero_stack :: stack where
  "zero_stack = \<lparr>depth = 0, snodes = replicate inlineFrames None, spos = replicate inlineFrames 0, spill = []\<rparr>"

text \<open>
  \<open>push\<close>.  Re-slicing \<open>spill\<close> beyond its length would expose stale frames; the model takes that for a
  panic, and no use of the stack does it.
\<close>

definition push :: "addr \<Rightarrow> int \<Rightarrow> stack \<Rightarrow> stack option" where
  "push n i st =
     (if depth st < inlineFrames
      then Some (st\<lparr>snodes := (snodes st)[depth st := Some n], spos := (spos st)[depth st := word_of_int i],
                    depth := depth st + 1\<rparr>)
      else if depth st - inlineFrames \<le> length (spill st)
      then Some (st\<lparr>spill := take (depth st - inlineFrames) (spill st) @ [(n, word_of_int i)],
                    depth := depth st + 1\<rparr>)
      else None)"

text \<open>\<open>top\<close> returns the node and the position; writing through the position's pointer is \<open>set_top\<close>.\<close>

definition top_frame :: "stack \<Rightarrow> (addr \<times> i16) option" where
  "top_frame st =
     (if depth st = 0 then None
      else if depth st \<le> inlineFrames
      then do { n \<leftarrow> snodes st ! (depth st - 1); Some (n, spos st ! (depth st - 1)) }
      else if depth st - 1 - inlineFrames < length (spill st) then Some (spill st ! (depth st - 1 - inlineFrames))
      else None)"

definition set_top :: "i16 \<Rightarrow> stack \<Rightarrow> stack" where
  "set_top i st =
     (if depth st \<le> inlineFrames
      then st\<lparr>spos := (spos st)[depth st - 1 := i]\<rparr>
      else st\<lparr>spill := (spill st)[depth st - 1 - inlineFrames := (fst (spill st ! (depth st - 1 - inlineFrames)), i)]\<rparr>)"

definition pop :: "stack \<Rightarrow> stack" where
  "pop st = st\<lparr>depth := depth st - 1\<rparr>"

definition reset :: "stack \<Rightarrow> stack" where
  "reset st = st\<lparr>depth := 0, spill := []\<rparr>"

section \<open>The interface of the stack\<close>

text \<open>
  What the iterators rely on: the stack is a list of frames, top first; \<open>set_top\<close> replaces the position
  of the first.
\<close>

locale frame_stack =
  fixes ok :: "'s \<Rightarrow> bool"
    and frames :: "'s \<Rightarrow> ('n \<times> 'p) list"
    and conv :: "int \<Rightarrow> 'p"
    and push :: "'n \<Rightarrow> int \<Rightarrow> 's \<Rightarrow> 's option"
    and top :: "'s \<Rightarrow> ('n \<times> 'p) option"
    and set_top :: "'p \<Rightarrow> 's \<Rightarrow> 's"
    and pop :: "'s \<Rightarrow> 's"
    and reset :: "'s \<Rightarrow> 's"
    and height :: "'s \<Rightarrow> nat"
  assumes push_law: "ok st \<Longrightarrow> \<exists>st'. push n i st = Some st' \<and> ok st' \<and> frames st' = (n, conv i) # frames st"
    and top_law: "ok st \<Longrightarrow> frames st = f # fs \<Longrightarrow> top st = Some f"
    and set_top_law: "ok st \<Longrightarrow> frames st = (n, p) # fs \<Longrightarrow> ok (set_top q st) \<and> frames (set_top q st) = (n, q) # fs"
    and pop_law: "ok st \<Longrightarrow> frames st = f # fs \<Longrightarrow> ok (pop st) \<and> frames (pop st) = fs"
    and reset_law: "ok st \<Longrightarrow> ok (reset st) \<and> frames (reset st) = []"
    and height_law: "ok st \<Longrightarrow> height st = length (frames st)"
begin

lemma pushE:
  assumes "ok st"
  obtains st' where "push n i st = Some st'" and "ok st'" and "frames st' = (n, conv i) # frames st"
  using push_law [OF assms] by blast

lemma push_total: "ok st \<Longrightarrow> push n i st \<noteq> None"
  using push_law by fastforce

lemma top_push: "ok st \<Longrightarrow> push n i st = Some st' \<Longrightarrow> top st' = Some (n, conv i)"
  using push_law [of st n i] top_law [of st'] by auto

lemma pop_push: "ok st \<Longrightarrow> push n i st = Some st' \<Longrightarrow> ok (pop st') \<and> frames (pop st') = frames st"
  using push_law [of st n i] pop_law [of st'] by auto

lemma nonempty: "ok st \<Longrightarrow> height st > 0 \<longleftrightarrow> frames st \<noteq> []"
  by (simp add: height_law)

end

definition stack_ok :: "stack \<Rightarrow> bool" where
  "stack_ok st \<longleftrightarrow> length (snodes st) = inlineFrames \<and> length (spos st) = inlineFrames \<and>
     depth st - inlineFrames \<le> length (spill st) \<and> (\<forall>d < depth st. d < inlineFrames \<longrightarrow> snodes st ! d \<noteq> None)"

definition frame_at :: "stack \<Rightarrow> nat \<Rightarrow> addr \<times> i16" where
  "frame_at st d = (if d < inlineFrames then (the (snodes st ! d), spos st ! d) else spill st ! (d - inlineFrames))"

definition frames :: "stack \<Rightarrow> (addr \<times> i16) list" where
  "frames st = map (frame_at st) (rev [0..<depth st])"

lemma frames_Suc: "depth st = Suc d \<Longrightarrow> frames st = frame_at st d # map (frame_at st) (rev [0..<d])"
  by (simp add: frames_def)

lemma frames_ConsE:
  assumes "frames st = f # fs"
  obtains d where "depth st = Suc d" and "f = frame_at st d" and "fs = map (frame_at st) (rev [0..<d])"
proof (cases "depth st")
  case (Suc d)
  with assms that [of d] show ?thesis by (simp add: frames_Suc)
qed (use assms in \<open>simp add: frames_def\<close>)

lemma push_frames:
  assumes "stack_ok st"
  shows "\<exists>st'. push n i st = Some st' \<and> stack_ok st' \<and> frames st' = (n, word_of_int i) # frames st"
proof (cases "depth st < inlineFrames")
  case True
  let ?st = "st\<lparr>snodes := (snodes st)[depth st := Some n], spos := (spos st)[depth st := word_of_int i],
    depth := depth st + 1\<rparr>"
  have "stack_ok ?st" using assms True by (auto simp: stack_ok_def nth_list_update less_Suc_eq)
  moreover have "frame_at ?st d = frame_at st d" if "d < depth st" for d
    using that by (simp add: frame_at_def)
  then have "frames ?st = (n, word_of_int i) # frames st"
    using assms True by (auto simp: frames_Suc [of ?st "depth st"] frames_def frame_at_def stack_ok_def)
  ultimately show ?thesis using True by (simp add: push_def)
next
  case False
  let ?k = "depth st - inlineFrames"
  let ?st = "st\<lparr>spill := take ?k (spill st) @ [(n, word_of_int i)], depth := depth st + 1\<rparr>"
  have k: "?k \<le> length (spill st)" using assms by (simp add: stack_ok_def)
  have "stack_ok ?st" using assms False k by (auto simp: stack_ok_def min_absorb2)
  moreover have "frame_at ?st d = frame_at st d" if "d < depth st" for d
    using that k False by (auto simp: frame_at_def nth_append min_absorb2)
  then have "frames ?st = (n, word_of_int i) # frames st"
    using False k by (auto simp: frames_Suc [of ?st "depth st"] frames_def frame_at_def nth_append min_absorb2)
  ultimately show ?thesis using False k by (simp add: push_def)
qed

lemma set_top_frames:
  assumes "stack_ok st" and "frames st = (n, p) # fs"
  shows "stack_ok (set_top q st) \<and> frames (set_top q st) = (n, q) # fs"
proof -
  obtain d where d: "depth st = Suc d" "(n, p) = frame_at st d" "fs = map (frame_at st) (rev [0..<d])"
    using assms(2) by (rule frames_ConsE)
  have dd: "depth (set_top q st) = Suc d" using d(1) by (simp add: set_top_def)
  have "frame_at (set_top q st) e = frame_at st e" if "e < d" for e
    using that d(1) by (auto simp: frame_at_def set_top_def)
  moreover have "frame_at (set_top q st) d = (n, q)"
    using d(1,2) assms(1) by (auto simp: frame_at_def set_top_def stack_ok_def prod_eq_iff)
  moreover have "stack_ok (set_top q st)" using assms(1) by (auto simp: stack_ok_def set_top_def)
  ultimately show ?thesis using d(3) by (simp add: frames_Suc [OF dd])
qed

interpretation stk: frame_stack stack_ok frames word_of_int push top_frame set_top pop reset depth
proof unfold_locales
  show "\<exists>st'. push n i st = Some st' \<and> stack_ok st' \<and> frames st' = (n, word_of_int i) # frames st"
    if "stack_ok st" for st n i using push_frames [OF that] .
  show "top_frame st = Some f" if "stack_ok st" "frames st = f # fs" for st f fs
    using that(2)
  proof (rule frames_ConsE)
    fix d assume d: "depth st = Suc d" "f = frame_at st d"
    with that(1) show ?thesis
      by (auto simp: top_frame_def frame_at_def stack_ok_def)
  qed
  show "stack_ok (set_top q st) \<and> frames (set_top q st) = (n, q) # fs"
    if "stack_ok st" "frames st = (n, p) # fs" for st n p fs q using set_top_frames [OF that] .
  show "stack_ok (pop st) \<and> frames (pop st) = fs" if "stack_ok st" "frames st = f # fs" for st f fs
    using that(2)
  proof (rule frames_ConsE)
    fix d assume "depth st = Suc d" "fs = map (frame_at st) (rev [0..<d])"
    with that(1) show ?thesis
      by (auto simp: pop_def stack_ok_def frames_def frame_at_def)
  qed
  show "stack_ok (reset st) \<and> frames (reset st) = []" if "stack_ok st" for st
    using that by (simp add: stack_ok_def reset_def frames_def)
  show "depth st = length (frames st)" if "stack_ok st" for st
    by (simp add: frames_def)
qed

lemma zero_stack_ok: "stack_ok zero_stack" "frames zero_stack = []"
  by (simp_all add: stack_ok_def zero_stack_def frames_def)

section \<open>The forward iterator\<close>

definition leafOnly :: i16 where
  "leafOnly = - 2"

definition pushSubtree :: "'v store \<Rightarrow> addr \<Rightarrow> stack \<Rightarrow> stack option" where
  "pushSubtree s n st =
     (if \<not> childless (nodes s n) then push n (- 1) st
      else if hasValue (nodes s n) then push n (- 2) st
      else Some st)"

definition SeekPrefixWatch :: "'v store \<Rightarrow> tree \<Rightarrow> bytes \<Rightarrow> stack \<Rightarrow> (watch \<times> stack) option" where
  "SeekPrefixWatch s t p st =
     do { let st = reset st;
          (n, w) \<leftarrow> seekPrefix s t p;
          st \<leftarrow> (case n of Some n \<Rightarrow> pushSubtree s n st | None \<Rightarrow> Some st);
          Some (\<lparr>slot_of = Some w, value_of = None\<rparr>, st) }"

partial_function (option) SeekLowerBound_loop :: "'v store \<Rightarrow> addr \<Rightarrow> bytes \<Rightarrow> stack \<Rightarrow> stack option" where
  "SeekLowerBound_loop s n search st =
     (let common = commonPrefixLen search (prefix (nodes s n)) in
      if common < length (prefix (nodes s n)) then
        (if common = length search \<or> prefix (nodes s n) ! common > search ! common
         then pushSubtree s n st else Some st)
      else do {
        search \<leftarrow> slice_from search common;
        if search = [] then pushSubtree s n st
        else (case node_rank (nodes s n) (hd search) of (idx, ok) \<Rightarrow>
          if \<not> ok then (if idx < kidCount (nodes s n) then push n (int idx) st else Some st)
          else do {
            st \<leftarrow> push n (int idx + 1) st;
            n \<leftarrow> kid (nodes s n) idx;
            SeekLowerBound_loop s n search st }) })"

definition SeekLowerBound :: "'v store \<Rightarrow> tree \<Rightarrow> bytes \<Rightarrow> stack \<Rightarrow> stack option" where
  "SeekLowerBound s t key st = do { let st = reset st; n \<leftarrow> t; SeekLowerBound_loop s n key st }"

partial_function (option) Next :: "'v store \<Rightarrow> stack \<Rightarrow> (('v any \<times> bool) \<times> stack) option" where
  "Next s st =
     (if depth st > 0 then do {
        (n, i) \<leftarrow> top_frame st;
        if i <s 0 \<and> i = leafOnly then Some ((val (nodes s n), True), pop st)
        else let first = i <s 0;
                 i = (if first then 0 else i);
                 st = (if first then set_top i st else st)
          in if first \<and> hasValue (nodes s n) then Some ((val (nodes s n), True), st)
             else if sint i \<ge> int (frameKids (nodes s n)) then Next s (pop st)
             else do {
               c \<leftarrow> kid (nodes s n) (nat (sint i));
               let st = set_top (i + 1) st;
               if childless (nodes s c) then Some ((val (nodes s c), True), st)
               else do { st \<leftarrow> push c (- 1) st; Next s st } } }
      else Some (no_value, st))"

section \<open>The reverse iterator\<close>

definition ReverseSeekPrefixWatch :: "'v store \<Rightarrow> tree \<Rightarrow> bytes \<Rightarrow> stack \<Rightarrow> (watch \<times> stack) option" where
  "ReverseSeekPrefixWatch s t p st =
     do { let st = reset st;
          (n, w) \<leftarrow> seekPrefix s t p;
          st \<leftarrow> (case n of Some n \<Rightarrow> push n (int (kidCount (nodes s n)) - 1) st | None \<Rightarrow> Some st);
          Some (\<lparr>slot_of = Some w, value_of = None\<rparr>, st) }"

partial_function (option) SeekReverseLowerBound_loop :: "'v store \<Rightarrow> addr \<Rightarrow> bytes \<Rightarrow> stack \<Rightarrow> stack option" where
  "SeekReverseLowerBound_loop s n search st =
     (let common = commonPrefixLen search (prefix (nodes s n)) in
      if common < length (prefix (nodes s n)) then
        (if common < length search \<and> prefix (nodes s n) ! common < search ! common
         then push n (int (kidCount (nodes s n)) - 1) st else Some st)
      else do {
        search \<leftarrow> slice_from search common;
        if search = [] then push n (- 1) st
        else (case node_rank (nodes s n) (hd search) of (idx, ok) \<Rightarrow>
          do {
            st \<leftarrow> push n (int idx - 1) st;
            if \<not> ok then Some st
            else do { n \<leftarrow> kid (nodes s n) idx; SeekReverseLowerBound_loop s n search st } }) })"

definition SeekReverseLowerBound :: "'v store \<Rightarrow> tree \<Rightarrow> bytes \<Rightarrow> stack \<Rightarrow> stack option" where
  "SeekReverseLowerBound s t key st = do { let st = reset st; n \<leftarrow> t; SeekReverseLowerBound_loop s n key st }"

partial_function (option) Previous :: "'v store \<Rightarrow> stack \<Rightarrow> (('v any \<times> bool) \<times> stack) option" where
  "Previous s st =
     (if depth st > 0 then do {
        (n, i) \<leftarrow> top_frame st;
        if i <s 0 then
          let st = pop st in
          if hasValue (nodes s n) then Some ((val (nodes s n), True), st) else Previous s st
        else do {
          c \<leftarrow> kid (nodes s n) (nat (sint i));
          let st = set_top (i - 1) st;
          if childless (nodes s c) then Some ((val (nodes s c), True), st)
          else do { st \<leftarrow> push c (int (frameKids (nodes s c)) - 1) st; Previous s st } } }
      else Some (no_value, st))"

end
