(* ===== verification/Iter_Spec.thy ===== *)
theory Iter_Spec
  imports Iter Cow_Ops
begin

text \<open>
  What the iterators yield.  A stack of frames denotes the list of values still to come; every seek
  sets it to the values of the selected keys, every \<open>Next\<close> or \<open>Previous\<close> takes the first.
\<close>

section \<open>Positions\<close>

lemma sint_position: "- 2 \<le> i \<Longrightarrow> i \<le> 256 \<Longrightarrow> sint (word_of_int i :: i16) = i"
  by (simp add: sint_sbintrunc' signed_take_bit_int_eq_self)

lemma position_neg: "- 2 \<le> i \<Longrightarrow> i \<le> 256 \<Longrightarrow> (word_of_int i :: i16) <s 0 \<longleftrightarrow> i < 0"
  by (simp add: word_sless_alt sint_position)

lemma position_leafOnly: "- 2 \<le> i \<Longrightarrow> i \<le> 256 \<Longrightarrow> (word_of_int i :: i16) = leafOnly \<longleftrightarrow> i = - 2"
  using sint_position [of i] sint_position [of "- 2"] by (auto simp: leafOnly_def)

lemma position_step:
  "(word_of_int i :: i16) + 1 = word_of_int (i + 1)" "(word_of_int i :: i16) - 1 = word_of_int (i - 1)"
  by simp_all

section \<open>Stacks of tree frames\<close>

type_synonym gframe = "unit gtree \<times> int"

definition raw :: "gframe \<Rightarrow> addr \<times> i16" where
  "raw f = (case f of (g, i) \<Rightarrow> (ad g, word_of_int i))"

definition on_stack :: "(gframe \<Rightarrow> bool) \<Rightarrow> stack \<Rightarrow> gframe list \<Rightarrow> bool" where
  "on_stack P st fs \<longleftrightarrow> stack_ok st \<and> frames st = map raw fs \<and> (\<forall>f \<in> set fs. P f)"

lemma on_Cons:
  assumes "on_stack P st ((g, i) # fs)"
  shows "stack_ok st" and "frames st = (ad g, word_of_int i) # map raw fs" and "P (g, i)"
    and "\<forall>f \<in> set fs. P f" and "depth st > 0" and "top_frame st = Some (ad g, word_of_int i)"
proof -
  show st: "stack_ok st" "frames st = (ad g, word_of_int i) # map raw fs" "P (g, i)" "\<forall>f \<in> set fs. P f"
    using assms by (simp_all add: on_stack_def raw_def)
  show "depth st > 0" using stk.height_law [OF st(1)] st(2) by simp
  show "top_frame st = Some (ad g, word_of_int i)" by (rule stk.top_law [OF st(1,2)])
qed

lemma on_Nil: "on_stack P st [] \<Longrightarrow> depth st = 0"
  using stk.height_law [of st] by (simp add: on_stack_def)

lemma on_set_top:
  assumes "on_stack P st ((g, i) # fs)" and "P (g, j)"
  shows "on_stack P (set_top (word_of_int j) st) ((g, j) # fs)"
  using stk.set_top_law [OF on_Cons(1,2) [OF assms(1)]] on_Cons(4) [OF assms(1)] assms(2)
  by (simp add: on_stack_def raw_def)

lemma on_pop: "on_stack P st ((g, i) # fs) \<Longrightarrow> on_stack P (pop st) fs"
  using stk.pop_law [OF on_Cons(1,2)] on_Cons(4) by (auto simp: on_stack_def raw_def)

lemma on_push:
  assumes "on_stack P st fs" and "P (g, i)"
  obtains st' where "push (ad g) i st = Some st'" and "on_stack P st' ((g, i) # fs)"
proof -
  have st: "stack_ok st" "frames st = map raw fs" using assms(1) by (simp_all add: on_stack_def)
  obtain st' where "push (ad g) i st = Some st'" "stack_ok st'" "frames st' = (ad g, word_of_int i) # frames st"
    using stk.push_law [OF st(1)] by blast
  then show ?thesis using that [of st'] assms st(2) by (simp add: on_stack_def raw_def)
qed

lemma on_reset: "stack_ok st \<Longrightarrow> on_stack P (reset st) []"
  using stk.reset_law by (simp add: on_stack_def)

lemma on_zero: "on_stack P zero_stack []"
  using zero_stack_ok by (simp add: on_stack_def)

lemma on_stack_frame:
  assumes "\<And>f. P f \<Longrightarrow> Q f" and "\<And>f. P f \<Longrightarrow> r' f = r f" and "on_stack P st fs"
  shows "on_stack Q st fs" and "concat (map r' fs) = concat (map r fs)"
proof -
  show "on_stack Q st fs" using assms(1,3) by (simp add: on_stack_def)
  have "map r' fs = map r fs" using assms(2,3) by (simp add: on_stack_def)
  then show "concat (map r' fs) = concat (map r fs)" by (rule arg_cong)
qed

lemma tvals_node: "tvals (absn s g) = (if hasValue (nodes s (ad g)) then [val (nodes s (ad g))] else []) @
    concat (map (\<lambda>c. tvals (absn s c)) (gk g))"
  by (subst tvals_sel) (simp add: value_at_def own_ents_def comp_def)

lemma kid_wf:
  assumes "rep s g" and "wf_kids (map (absn s) (gk g))" and "i < length (gk g)"
  shows "rep s (gk g ! i)" and "wf_sub (absn s (gk g ! i))" and "wf_kids (map (absn s) (gk (gk g ! i)))"
    and "childless (nodes s (ad (gk g ! i))) \<longleftrightarrow> gk (gk g ! i) = []"
    and "gk (gk g ! i) = [] \<Longrightarrow> hasValue (nodes s (ad (gk g ! i)))"
    and "set (addrs (gk g ! i)) \<subseteq> set (addrs g)"
proof -
  show "set (addrs (gk g ! i)) \<subseteq> set (addrs g)" using assms(3) by (cases g) (auto dest: nth_mem)
  show r: "rep s (gk g ! i)" using repD(4) [OF assms(1)] assms(3) by simp
  show w: "wf_sub (absn s (gk g ! i))" using assms(2,3) by (simp add: wf_kids_def)
  show "wf_kids (map (absn s) (gk (gk g ! i)))" using wf_subD(2) [OF w] by simp
  show "childless (nodes s (ad (gk g ! i))) \<longleftrightarrow> gk (gk g ! i) = []" by (rule rep_childless [OF r])
  show "gk (gk g ! i) = [] \<Longrightarrow> hasValue (nodes s (ad (gk g ! i)))"
    using w by (auto simp: wf_sub_iff value_at_def split: if_splits)
qed

lemma node_agree:
  assumes "rep s (g :: unit gtree)" and "agree A s s'" and "set (addrs g) \<subseteq> A"
  shows "rep s' g" and "absn s' g = absn s g" and "c \<in> set (gk g) \<Longrightarrow> absn s' c = absn s c"
    and "value_at (nodes s' (ad g)) = value_at (nodes s (ad g))"
    and "hasValue (nodes s' (ad g)) \<longleftrightarrow> hasValue (nodes s (ad g))"
proof -
  have ag: "agree (set (addrs g)) s s'" by (rule agree_mono [OF assms(2,3)])
  show "rep s' g" "absn s' g = absn s g" using frame_rep [OF ag assms(1)] by simp_all
  show "absn s' c = absn s c" if "c \<in> set (gk g)"
  proof -
    have "rep s c" "set (addrs c) \<subseteq> set (addrs g)" using that repD(4) [OF assms(1)] by (simp, cases g, auto)
    then show ?thesis using frame_rep [OF agree_mono [OF ag]] by blast
  qed
  have sn: "same_node (nodes s (ad g)) (nodes s' (ad g))" using ag by (simp add: agree_def)
  show "hasValue (nodes s' (ad g)) \<longleftrightarrow> hasValue (nodes s (ad g))" using same_node_hasValue [OF sn] by simp
  then show "value_at (nodes s' (ad g)) = value_at (nodes s (ad g))"
    using sn by (simp add: value_at_def same_node_def)
qed

fun weight :: "unit gtree \<Rightarrow> nat" where
  "weight (G a x gs) = 2 + sum_list (map weight gs)"

lemma weight_sel: "weight g = 2 + sum_list (map weight (gk g))"
  by (cases g) simp

section \<open>The forward iterator\<close>

definition fframe_ok :: "addr set \<Rightarrow> 'v store \<Rightarrow> gframe \<Rightarrow> bool" where
  "fframe_ok A s f = (case f of (g, i) \<Rightarrow>
     rep s g \<and> wf_kids (map (absn s) (gk g)) \<and> set (addrs g) \<subseteq> A \<and>
     (i = - 2 \<and> gk g = [] \<and> hasValue (nodes s (ad g)) \<or> i = - 1 \<and> gk g \<noteq> [] \<or> 0 \<le> i \<and> i \<le> int (length (gk g))))"

definition frest :: "'v store \<Rightarrow> gframe \<Rightarrow> 'v any list" where
  "frest s f = (case f of (g, i) \<Rightarrow>
     if i < 0 then tvals (absn s g) else concat (map (\<lambda>c. tvals (absn s c)) (drop (nat i) (gk g))))"

lemma frest_kids: "0 \<le> i \<Longrightarrow> frest s (g, i) = concat (map (\<lambda>c. tvals (absn s c)) (drop (nat i) (gk g)))"
  by (simp add: frest_def)

abbreviation fwd :: "addr set \<Rightarrow> 'v store \<Rightarrow> stack \<Rightarrow> gframe list \<Rightarrow> bool" where
  "fwd A s \<equiv> on_stack (fframe_ok A s)"

text \<open>The values a forward iterator still has to return.\<close>

definition yields :: "addr set \<Rightarrow> 'v store \<Rightarrow> stack \<Rightarrow> 'v any list \<Rightarrow> bool" where
  "yields A s st vs \<longleftrightarrow> (\<exists>fs. fwd A s st fs \<and> vs = concat (map (frest s) fs))"

lemma yieldsI: "fwd A s st fs \<Longrightarrow> concat (map (frest s) fs) = vs \<Longrightarrow> yields A s st vs"
  by (auto simp: yields_def)

definition fwork :: "gframe \<Rightarrow> nat" where
  "fwork f = (case f of (g, i) \<Rightarrow> 1 + sum_list (map weight (drop (nat i) (gk g))))"

lemma fwd_position: "fframe_ok A s (g, i) \<Longrightarrow> - 2 \<le> i \<and> i \<le> 256"
  using kids_256 [of s g] by (auto simp: fframe_ok_def)

lemma fwd_Cons:
  assumes "fwd A s st ((g, i) # fs)"
  shows "rep s g" and "wf_kids (map (absn s) (gk g))" and "- 2 \<le> i" and "i \<le> 256"
    and "set (addrs g) \<subseteq> A"
  using on_Cons(3) [OF assms] fwd_position [OF on_Cons(3) [OF assms]] by (simp_all add: fframe_ok_def)

lemma frest_agree:
  assumes "fframe_ok A s f" and "agree A s s'"
  shows "fframe_ok A s' f" and "frest s' f = frest s f"
proof -
  obtain g i where f: "f = (g, i)" by (cases f)
  have ok: "rep s g" "set (addrs g) \<subseteq> A" using assms(1) f by (simp_all add: fframe_ok_def)
  note ag = node_agree [OF ok(1) assms(2) ok(2)]
  show "fframe_ok A s' f" using assms(1) f ag(1,3,5) by (simp add: fframe_ok_def cong: map_cong)
  show "frest s' f = frest s f"
    using f ag(2,3) by (auto simp: frest_def dest!: in_set_dropD intro!: arg_cong [where f = concat])
qed

lemma yields_agree: "yields A s st vs \<Longrightarrow> agree A s s' \<Longrightarrow> yields A s' st vs"
  using on_stack_frame [where P = "fframe_ok A s" and Q = "fframe_ok A s'" and r = "frest s" and r' = "frest s'"]
    frest_agree [of A s _ s'] unfolding yields_def by metis

lemma Next_spec:
  "fwd A s st fs \<Longrightarrow> \<exists>st' fs'. Next s st = Some (hd_or (concat (map (frest s) fs)), st') \<and> fwd A s st' fs' \<and>
     concat (map (frest s) fs') = tl (concat (map (frest s) fs))"
proof (induction "sum_list (map fwork fs)" arbitrary: st fs rule: less_induct)
  case less
  note ih = less.hyps
  show ?case
  proof (cases fs)
    case Nil
    then have "depth st = 0" using less.prems on_Nil by metis
    then have "Next s st = Some (no_value, st)" by (subst Next.simps) simp
    then show ?thesis using less.prems Nil by (intro exI [of _ st] exI [of _ "[]"]) (simp add: hd_or_def)
  next
    case (Cons f rest)
    obtain g i where f: "f = (g, i)" by (cases f)
    note fw = less.prems [unfolded Cons f]
    note fd = on_Cons [OF fw] fwd_Cons [OF fw]
    let ?n = "ad g"
    text \<open>Descending into child \<open>j\<close>.\<close>
    have kid: "\<exists>st' fs'. do {
          c \<leftarrow> kid (nodes s ?n) (nat (sint (word_of_int (int j) :: i16)));
          let st = set_top (word_of_int (int j) + 1) st1;
          if childless (nodes s c) then Some ((val (nodes s c), True), st)
          else do { st \<leftarrow> push c (- 1) st; Next s st } }
        = Some (hd_or (concat (map (frest s) ((g, int j) # rest))), st') \<and> fwd A s st' fs' \<and>
        concat (map (frest s) fs') = tl (concat (map (frest s) ((g, int j) # rest)))"
      if st1: "fwd A s st1 ((g, int j) # rest)" and j: "j < length (gk g)"
        and wk: "sum_list (map fwork ((g, int j) # rest)) \<le> sum_list (map fwork fs)" for st1 j
    proof -
      let ?c = "gk g ! j"
      note k = kid_wf [OF fd(7,8) j]
      have j256: "int j \<le> 256" using fwd_Cons(4) [OF st1] .
      have pos: "nat (sint (word_of_int (int j) :: i16)) = j" using sint_position [of "int j"] j256 by simp
      have kd: "kid (nodes s ?n) j = Some (ad ?c)" by (rule rep_kid [OF fd(7) j])
      have dr: "drop j (gk g) = ?c # drop (Suc j) (gk g)" using j by (rule Cons_nth_drop_Suc [symmetric])
      have ok1: "fframe_ok A s (g, int j + 1)" using fd(7,8,11) j by (simp add: fframe_ok_def)
      have st2: "fwd A s (set_top (word_of_int (int j + 1)) st1) ((g, int j + 1) # rest)" by (rule on_set_top [OF st1 ok1])
      have nj: "nat (int j + 1) = Suc j" by simp
      have rest: "concat (map (frest s) ((g, int j) # rest)) =
          tvals (absn s ?c) @ concat (map (frest s) ((g, int j + 1) # rest))"
        using dr by (simp add: frest_def nj)
      show ?thesis
      proof (cases "gk ?c = []")
        case True
        then have "tvals (absn s ?c) = [val (nodes s (ad ?c))]" using k(5) by (simp add: tvals_node [of s ?c])
        then show ?thesis
          using st2 rest kd pos k(4) True
          by (intro exI [of _ "set_top (word_of_int (int j + 1)) st1"] exI [of _ "(g, int j + 1) # rest"])
            (simp add: hd_or_def Let_def position_step)
      next
        case False
        have "fframe_ok A s (?c, - 1)" using k(1,3,6) fd(11) False by (simp add: fframe_ok_def)
        from on_push [OF st2 this] obtain st3 where st3: "push (ad ?c) (- 1) (set_top (word_of_int (int j + 1)) st1) = Some st3"
          "fwd A s st3 ((?c, - 1) # (g, int j + 1) # rest)" by metis
        have "sum_list (map fwork ((?c, - 1) # (g, int j + 1) # rest)) < sum_list (map fwork fs)"
          using wk dr by (simp add: fwork_def nj weight_sel [of ?c])
        from ih [OF this st3(2)] obtain st' fs' where
          "Next s st3 = Some (hd_or (concat (map (frest s) ((?c, - 1) # (g, int j + 1) # rest))), st')" "fwd A s st' fs'"
          "concat (map (frest s) fs') = tl (concat (map (frest s) ((?c, - 1) # (g, int j + 1) # rest)))" by blast
        moreover have "concat (map (frest s) ((?c, - 1) # (g, int j + 1) # rest)) = concat (map (frest s) ((g, int j) # rest))"
          unfolding rest by (simp add: frest_def)
        ultimately show ?thesis
          using st3(1) kd pos k(4) False
          by (intro exI [of _ st'] exI [of _ fs']) (simp add: Let_def position_step del: concat.simps list.map)
      qed
    qed
    consider (leaf) "i = - 2" "gk g = []" "hasValue (nodes s ?n)" | (all) "i = - 1" "gk g \<noteq> []"
      | (kids) "0 \<le> i" "i \<le> int (length (gk g))"
      using fd(3) by (auto simp: fframe_ok_def)
    then show ?thesis
    proof cases
      case leaf
      have "Next s st = Some ((val (nodes s ?n), True), pop st)"
        using fd(5,6) leaf position_neg [of i] position_leafOnly [of i] by (subst Next.simps) simp
      moreover have "frest s f = [val (nodes s ?n)]" using leaf f by (simp add: frest_def tvals_node [of s g])
      ultimately show ?thesis using on_pop [OF fw] Cons by (auto simp: hd_or_def)
    next
      case all
      have ok0: "fframe_ok A s (g, 0)" using fd(7,8,11) by (simp add: fframe_ok_def)
      note st1 = on_set_top [OF fw ok0]
      have neg: "(word_of_int i :: i16) <s 0" "(word_of_int i :: i16) \<noteq> leafOnly"
        using all position_neg [of i] position_leafOnly [of i] by simp_all
      show ?thesis
      proof (cases "hasValue (nodes s ?n)")
        case True
        have "Next s st = Some ((val (nodes s ?n), True), set_top 0 st)"
          using fd(5,6) neg True by (subst Next.simps) simp
        moreover have "frest s f = val (nodes s ?n) # frest s (g, 0)"
          using all f True by (simp add: frest_def tvals_node [of s g])
        ultimately show ?thesis using st1 Cons
          by (intro exI [of _ "set_top 0 st"] exI [of _ "(g, 0) # rest"]) (simp add: hd_or_def)
      next
        case False
        have "frest s f = frest s (g, 0)" using all f False by (simp add: frest_def tvals_node [of s g])
        moreover have "Next s st = do {
            c \<leftarrow> kid (nodes s ?n) (nat (sint (word_of_int (int 0) :: i16)));
            let st = set_top (word_of_int (int 0) + 1) (set_top 0 st);
            if childless (nodes s c) then Some ((val (nodes s c), True), st)
            else do { st \<leftarrow> push c (- 1) st; Next s st } }"
          using fd(5,6) neg False all(2) rep_nkids [OF fd(7)]
          by (subst Next.simps) (simp add: frameKids_def Let_def)
        moreover have "sum_list (map fwork ((g, int 0) # rest)) \<le> sum_list (map fwork fs)"
          using Cons f all(1) by (simp add: fwork_def)
        ultimately show ?thesis using kid [of "set_top 0 st" 0] st1 all(2) Cons f by simp
      qed
    next
      case kids
      define j where "j = nat i"
      have i: "i = int j" using kids(1) by (simp add: j_def)
      have pos: "sint (word_of_int i :: i16) = i" using sint_position fd(9,10) by blast
      have nn: "\<not> (word_of_int i :: i16) <s 0" using position_neg [of i] fd(9,10) kids(1) by simp
      show ?thesis
      proof (cases "j < length (gk g)")
        case True
        have "Next s st = do {
            c \<leftarrow> kid (nodes s ?n) (nat (sint (word_of_int (int j) :: i16)));
            let st = set_top (word_of_int (int j) + 1) st;
            if childless (nodes s c) then Some ((val (nodes s c), True), st)
            else do { st \<leftarrow> push c (- 1) st; Next s st } }"
          using fd(5,6) nn True pos i rep_nkids [OF fd(7)]
          by (subst Next.simps) (simp add: frameKids_def Let_def)
        then show ?thesis using kid [of st j] fw True i Cons f by simp
      next
        case False
        then have e: "frest s f = []" using i f by (simp add: frest_def)
        have "Next s st = Next s (pop st)"
          using fd(5,6) nn False pos i rep_nkids [OF fd(7)] by (subst Next.simps) (simp add: frameKids_def Let_def)
        moreover have "sum_list (map fwork rest) < sum_list (map fwork fs)" using Cons f by (simp add: fwork_def)
        ultimately show ?thesis using ih [OF _ on_pop [OF fw]] Cons e by simp
      qed
    qed
  qed
qed

lemma Next_yields:
  assumes "yields A s st vs"
  obtains st' where "Next s st = Some (hd_or vs, st')" and "yields A s st' (tl vs)"
  using assms Next_spec unfolding yields_def by metis

section \<open>Keys above and below a bound\<close>

text \<open>A key that leaves a segment compares with everything below it in the same way.\<close>

lemma lcp_le_iff:
  assumes "lcp k p < length p"
  shows "k \<le> p @ x \<longleftrightarrow> lcp k p = length k \<or> k ! lcp k p < p ! lcp k p"
    and "p @ x \<le> k \<longleftrightarrow> lcp k p < length k \<and> p ! lcp k p < k ! lcp k p"
proof -
  let ?c = "lcp k p"
  have k: "k = take ?c p @ drop ?c k" using lcp_take [of k p] by (metis append_take_drop_id)
  have p: "p @ x = take ?c p @ (drop ?c p @ x)" by simp
  have dp: "drop ?c p \<noteq> []" "hd (drop ?c p @ x) = p ! ?c" using assms by (simp_all add: hd_drop_conv_nth)
  have "(k \<le> p @ x \<longleftrightarrow> ?c = length k \<or> k ! ?c < p ! ?c) \<and> (p @ x \<le> k \<longleftrightarrow> ?c < length k \<and> p ! ?c < k ! ?c)"
  proof (cases "?c = length k")
    case True
    then have "drop ?c k = []" by simp
    moreover have "[] < drop ?c p @ x" using dp(1) by (intro lex_Nil_less) simp
    ultimately show ?thesis using True k p by (metis append_Nil2 less_irrefl less_le_not_le lex_append_le)
  next
    case False
    then have l: "?c < length k" using lcp_le(1) [of k p] by simp
    then have dk: "drop ?c k \<noteq> []" "hd (drop ?c k) = k ! ?c" by (simp_all add: hd_drop_conv_nth)
    have ne: "k ! ?c \<noteq> p ! ?c" using lcp_nth [OF l assms] .
    have cmp: "k \<le> p @ x \<longleftrightarrow> drop ?c k \<le> drop ?c p @ x" "p @ x \<le> k \<longleftrightarrow> drop ?c p @ x \<le> drop ?c k"
      using k p by (metis lex_append_le)+
    from ne consider "k ! ?c < p ! ?c" | "p ! ?c < k ! ?c" by (meson neqE)
    then show ?thesis
    proof cases
      case 1
      then have "drop ?c k < drop ?c p @ x" using lex_hd_less [of "drop ?c k" "drop ?c p @ x"] dk dp by simp
      then show ?thesis using cmp 1 l by auto
    next
      case 2
      then have "drop ?c p @ x < drop ?c k" using lex_hd_less [of "drop ?c p @ x" "drop ?c k"] dk dp by simp
      then show ?thesis using cmp 2 l by auto
    qed
  qed
  then show "k \<le> p @ x \<longleftrightarrow> ?c = length k \<or> k ! ?c < p ! ?c" "p @ x \<le> k \<longleftrightarrow> ?c < length k \<and> p ! ?c < k ! ?c"
    by blast+
qed

lemma ents_cmp:
  assumes "wf_sub c" and "e \<in> set (ents c)" and "r \<noteq> []"
  shows "lab c < hd r \<Longrightarrow> fst e < r" and "hd r < lab c \<Longrightarrow> r < fst e"
proof -
  have "fst e \<noteq> []" "hd (fst e) = lab c" using ents_hd [OF assms(2) wf_subD(1) [OF assms(1)]] by simp_all
  then show "lab c < hd r \<Longrightarrow> fst e < r" "hd r < lab c \<Longrightarrow> r < fst e"
    using lex_hd_less assms(3) by metis+
qed

lemma filter_kids:
  assumes wf: "wf_kids ks" and r: "r \<noteq> []" and i: "i = rank_of (map lab ks) (hd r)"
    and h: "h = (i < length ks \<and> lab (ks ! i) = hd r)"
  shows "filter (\<lambda>e. r \<le> fst e) (concat (map ents ks)) =
      (if h then filter (\<lambda>e. r \<le> fst e) (ents (ks ! i)) else []) @
      concat (map ents (drop (if h then Suc i else i) ks))"
    and "filter (\<lambda>e. fst e \<le> r) (concat (map ents ks)) =
      concat (map ents (take i ks)) @ (if h then filter (\<lambda>e. fst e \<le> r) (ents (ks ! i)) else [])"
proof -
  note so = wf_kids_sorted [OF wf]
  have lo: "lab c < hd r" if "c \<in> set (take i ks)" for c
    using rank_of_take_less [OF so, of "hd r"] that i by (auto simp: take_map)
  have hi: "hd r < lab c" if cin: "c \<in> set (drop (if h then Suc i else i) ks)" for c
  proof (cases h)
    case True
    then have il: "i < length ks" "lab (ks ! i) = hd r" using h by auto
    obtain j where j: "c = ks ! j" "Suc i \<le> j" "j < length ks"
      using cin True by (auto simp: in_set_conv_nth)
    have "lab (ks ! i) < lab (ks ! j)" using sorted_wrt_nth_less [OF so, of i j] j by simp
    then show ?thesis using j(1) il(2) by simp
  next
    case False
    have "hd r \<notin> lab ` set ks"
    proof
      assume "hd r \<in> lab ` set ks"
      then obtain j where "j < length ks" "lab (ks ! j) = hd r" by (auto simp: in_set_conv_nth)
      then have "i = j" using rank_of_index [OF so, of j] i by simp
      with \<open>j < length ks\<close> \<open>lab (ks ! j) = hd r\<close> False h show False by simp
    qed
    then show ?thesis using rank_of_drop_gr [OF so, of "hd r"] cin i False by (auto simp: drop_map)
  qed
  have w: "wf_sub c" if "c \<in> set ks" for c using wf_kids_sub [OF wf that] .
  have sp: "ks = take i ks @ (if h then [ks ! i] else []) @ drop (if h then Suc i else i) ks"
    using h by (cases h) (auto simp: id_take_nth_drop)
  have w1: "c \<in> set (take i ks) \<Longrightarrow> wf_sub c" "c \<in> set (drop (if h then Suc i else i) ks) \<Longrightarrow> wf_sub c" for c
    using w by (meson in_set_takeD in_set_dropD)+
  have f1: "filter (\<lambda>e. r \<le> fst e) (concat (map ents (take i ks))) = []"
    "filter (\<lambda>e. fst e \<le> r) (concat (map ents (take i ks))) = concat (map ents (take i ks))"
    using ents_cmp(1) [OF w1(1) _ r lo] by (fastforce simp: filter_empty_conv filter_id_conv)+
  have f2: "filter (\<lambda>e. r \<le> fst e) (concat (map ents (drop (if h then Suc i else i) ks))) =
      concat (map ents (drop (if h then Suc i else i) ks))"
    "filter (\<lambda>e. fst e \<le> r) (concat (map ents (drop (if h then Suc i else i) ks))) = []"
    using ents_cmp(2) [OF w1(2) _ r hi] by (fastforce simp: filter_empty_conv filter_id_conv)+
  have cc: "concat (map ents ks) = concat (map ents (take i ks)) @ (if h then ents (ks ! i) else []) @
      concat (map ents (drop (if h then Suc i else i) ks))"
    by (subst sp) (simp split: if_split)
  show "filter (\<lambda>e. r \<le> fst e) (concat (map ents ks)) =
      (if h then filter (\<lambda>e. r \<le> fst e) (ents (ks ! i)) else []) @
      concat (map ents (drop (if h then Suc i else i) ks))"
    "filter (\<lambda>e. fst e \<le> r) (concat (map ents ks)) =
      concat (map ents (take i ks)) @ (if h then filter (\<lambda>e. fst e \<le> r) (ents (ks ! i)) else [])"
    unfolding cc using f1 f2 by simp_all
qed

text \<open>The entries of a tree relative to a bound.\<close>

lemma ents_ge_away:
  assumes "lcp k (seg t) < length (seg t)"
  shows "filter (\<lambda>e. k \<le> fst e) (ents t) =
      (if lcp k (seg t) = length k \<or> k ! lcp k (seg t) < seg t ! lcp k (seg t) then ents t else [])"
    and "filter (\<lambda>e. fst e \<le> k) (ents t) =
      (if lcp k (seg t) < length k \<and> seg t ! lcp k (seg t) < k ! lcp k (seg t) then ents t else [])"
  using lcp_le_iff [OF assms] by (auto simp: ents_below [of t] filter_empty_conv filter_id_conv)

lemma ents_at:
  assumes "lcp k (seg t) = length (seg t)"
  shows "map snd (filter (\<lambda>e. k \<le> fst e) (ents t)) =
      map snd (filter (\<lambda>e. drop (length (seg t)) k \<le> fst e) (below t))"
    and "map snd (filter (\<lambda>e. fst e \<le> k) (ents t)) =
      map snd (filter (\<lambda>e. fst e \<le> drop (length (seg t)) k) (below t))"
proof -
  have k: "k = seg t @ drop (length (seg t)) k" using assms by (simp add: lcp_starts starts_iff)
  have "k \<le> seg t @ x \<longleftrightarrow> drop (length (seg t)) k \<le> x" "seg t @ x \<le> k \<longleftrightarrow> x \<le> drop (length (seg t)) k" for x
    by (subst k, simp)+
  then show "map snd (filter (\<lambda>e. k \<le> fst e) (ents t)) =
      map snd (filter (\<lambda>e. drop (length (seg t)) k \<le> fst e) (below t))"
    "map snd (filter (\<lambda>e. fst e \<le> k) (ents t)) =
      map snd (filter (\<lambda>e. fst e \<le> drop (length (seg t)) k) (below t))"
    unfolding ents_below [of t] by (simp_all add: filter_map comp_def case_prod_unfold)
qed

section \<open>Seeks of the forward iterator\<close>

lemma pushSubtree_spec:
  assumes "fwd A s st fs" and "rep s (g :: unit gtree)" and "wf_kids (map (absn s) (gk g))"
    and "set (addrs g) \<subseteq> A"
  obtains st' fs' where "pushSubtree s (ad g) st = Some st'" and "fwd A s st' fs'"
    and "concat (map (frest s) fs') = tvals (absn s g) @ concat (map (frest s) fs)"
proof (cases "gk g = []")
  case False
  then have "fframe_ok A s (g, - 1)" using assms(2-4) by (simp add: fframe_ok_def)
  then obtain st' where "push (ad g) (- 1) st = Some st'" "fwd A s st' ((g, - 1) # fs)" using on_push [OF assms(1)] by metis
  then show ?thesis
    using that [of st' "(g, - 1) # fs"] rep_childless [OF assms(2)] False by (simp add: pushSubtree_def frest_def)
next
  case True
  show ?thesis
  proof (cases "hasValue (nodes s (ad g))")
    case False
    then show ?thesis
      using that [OF _ assms(1)] rep_childless [OF assms(2)] True by (simp add: pushSubtree_def tvals_node [of s g])
  next
    case hv: True
    then have "fframe_ok A s (g, - 2)" using assms(2-4) True by (simp add: fframe_ok_def)
    then obtain st' where "push (ad g) (- 2) st = Some st'" "fwd A s st' ((g, - 2) # fs)" using on_push [OF assms(1)] by metis
    then show ?thesis
      using that [of st' "(g, - 2) # fs"] rep_childless [OF assms(2)] True hv by (simp add: pushSubtree_def frest_def)
  qed
qed

lemma prefix_vals:
  assumes "tree_ok s g"
  shows "map snd (filter (\<lambda>e. starts (fst e) p) (contents s g)) =
    (case seek (absn s g) p of None \<Rightarrow> [] | Some c \<Rightarrow> tvals c)"
  using tvals_seek [of "absn s g" p] tree_okD(2) [OF assms] by (simp add: contents_def)

lemma seekPrefix_spec:
  assumes "tree_ok s (g :: unit gtree)"
  obtains r w where "seekPrefix s (Some (ad g)) p = Some (r, w)" and "w \<in> set (addrs g)"
    and "case r of None \<Rightarrow> map snd (filter (\<lambda>e. starts (fst e) p) (contents s g)) = []
      | Some n \<Rightarrow> (\<exists>c :: unit gtree. n = ad c \<and> rep s c \<and> wf_kids (map (absn s) (gk c)) \<and>
          map snd (filter (\<lambda>e. starts (fst e) p) (contents s g)) = tvals (absn s c) \<and>
          set (addrs c) \<subseteq> set (addrs g))"
proof -
  obtain r w where r: "seekPrefix_loop s (ad g) (ad g) p = Some (r, w)" "w \<in> set (addrs g)"
    "case seek (absn s g) p of None \<Rightarrow> r = None
      | Some t \<Rightarrow> (\<exists>c. r = Some (ad c) \<and> t = absn s c \<and> rep s c \<and> wf_kids (map (absn s) (gk c))
                     \<and> set (addrs c) \<subseteq> set (addrs g) \<and> (c = g \<or> wf_sub (absn s c)))"
    using seekPrefix_loop_spec [OF tree_okD(1,2) [OF assms] ad_in_addrs, of p] by blast
  show ?thesis
  proof (rule that [of r w])
    show "seekPrefix s (Some (ad g)) p = Some (r, w)" "w \<in> set (addrs g)" using r(1,2) by (simp_all add: seekPrefix_def)
    show "case r of None \<Rightarrow> map snd (filter (\<lambda>e. starts (fst e) p) (contents s g)) = []
      | Some n \<Rightarrow> (\<exists>c :: unit gtree. n = ad c \<and> rep s c \<and> wf_kids (map (absn s) (gk c)) \<and>
          map snd (filter (\<lambda>e. starts (fst e) p) (contents s g)) = tvals (absn s c) \<and>
          set (addrs c) \<subseteq> set (addrs g))"
    proof (cases "seek (absn s g) p")
      case None
      then show ?thesis using r(3) prefix_vals [OF assms, of p] by simp
    next
      case (Some t)
      then obtain c :: "unit gtree" where "r = Some (ad c)" "t = absn s c" "rep s c" "wf_kids (map (absn s) (gk c))"
        "set (addrs c) \<subseteq> set (addrs g)" using r(3) by fastforce
      then show ?thesis using Some prefix_vals [OF assms, of p] by (simp add: exI [of _ c])
    qed
  qed
qed

lemma SeekPrefixWatch_spec:
  assumes t: "tree_ok s (g :: unit gtree)" and st: "stack_ok st"
  obtains w st' where "SeekPrefixWatch s (Some (ad g)) p st = Some (\<lparr>slot_of = Some w, value_of = None\<rparr>, st')"
    and "w \<in> set (addrs g)" and "yields (set (addrs g)) s st' (map snd (filter (\<lambda>e. starts (fst e) p) (contents s g)))"
proof -
  obtain r w where r: "seekPrefix s (Some (ad g)) p = Some (r, w)" "w \<in> set (addrs g)"
    "case r of None \<Rightarrow> map snd (filter (\<lambda>e. starts (fst e) p) (contents s g)) = []
      | Some n \<Rightarrow> (\<exists>c :: unit gtree. n = ad c \<and> rep s c \<and> wf_kids (map (absn s) (gk c)) \<and>
          map snd (filter (\<lambda>e. starts (fst e) p) (contents s g)) = tvals (absn s c) \<and>
          set (addrs c) \<subseteq> set (addrs g))"
    by (rule seekPrefix_spec [OF t])
  show ?thesis
  proof (cases r)
    case None
    then show ?thesis
      using r on_reset [OF st, of "fframe_ok (set (addrs g)) s"]
      by (intro that [of w "reset st"]) (auto simp: SeekPrefixWatch_def yields_def intro!: exI [of _ "[]"])
  next
    case (Some n)
    then obtain c :: "unit gtree" where c: "n = ad c" "rep s c" "wf_kids (map (absn s) (gk c))"
      "map snd (filter (\<lambda>e. starts (fst e) p) (contents s g)) = tvals (absn s c)"
      "set (addrs c) \<subseteq> set (addrs g)" using r(3) by auto
    obtain st' fs' where "pushSubtree s (ad c) (reset st) = Some st'" "fwd (set (addrs g)) s st' fs'"
      "concat (map (frest s) fs') = tvals (absn s c) @ concat (map (frest s) [])"
      by (rule pushSubtree_spec [OF on_reset [OF st] c(2,3,5)])
    then show ?thesis
      using that [of w st'] r(1,2) Some c by (auto simp: SeekPrefixWatch_def intro: yieldsI)
  qed
qed

lemma tvals_kids: "map snd (concat (map ents (map (absn s) cs))) = concat (map (\<lambda>c. tvals (absn s c)) cs)"
  by (simp add: map_concat comp_def tvals_ents)

lemma below_absn: "below (absn s g) = own_ents (value_at (nodes s (ad g))) @ concat (map ents (map (absn s) (gk g)))"
  by (cases g) (simp add: below_RT)

lemma SeekLowerBound_loop_spec:
  "rep s (g :: unit gtree) \<Longrightarrow> wf_kids (map (absn s) (gk g)) \<Longrightarrow> set (addrs g) \<subseteq> A \<Longrightarrow> fwd A s st fs \<Longrightarrow>
    \<exists>st' fs'. SeekLowerBound_loop s (ad g) k st = Some st' \<and> fwd A s st' fs' \<and>
      concat (map (frest s) fs') = map snd (filter (\<lambda>e. k \<le> fst e) (ents (absn s g))) @ concat (map (frest s) fs)"
proof (induction g arbitrary: k st fs rule: gtree.induct)
  case (G a xt gs)
  let ?g = "G a xt gs" and ?p = "prefix (nodes s a)"
  let ?c = "commonPrefixLen k (prefix (nodes s a))"
  note rp = G.prems(1) and wf = G.prems(2) and sub = G.prems(3) and st = G.prems(4)
  have seg: "seg (absn s ?g) = ?p" by simp
  show ?case
  proof (cases "?c < length ?p")
    case True
    then have l: "lcp k (seg (absn s ?g)) < length (seg (absn s ?g))" by (simp add: commonPrefixLen_lcp)
    let ?b = "?c = length k \<or> ?p ! ?c > k ! ?c"
    have f: "filter (\<lambda>e. k \<le> fst e) (ents (absn s ?g)) = (if ?b then ents (absn s ?g) else [])"
      using ents_ge_away(1) [OF l] by (simp add: commonPrefixLen_lcp)
    have un: "SeekLowerBound_loop s a k st = (if ?b then pushSubtree s a st else Some st)"
      using True by (subst SeekLowerBound_loop.simps) (simp add: Let_def)
    show ?thesis
    proof (cases ?b)
      case True
      obtain st' fs' where "pushSubtree s (ad ?g) st = Some st'" "fwd A s st' fs'"
        "concat (map (frest s) fs') = tvals (absn s ?g) @ concat (map (frest s) fs)"
        by (rule pushSubtree_spec [OF st rp wf sub])
      then show ?thesis using un True f tvals_ents [of "absn s ?g"] by (intro exI [of _ st'] exI [of _ fs']) simp
    next
      case False
      then show ?thesis using un f st by (intro exI [of _ st] exI [of _ fs]) simp
    qed
  next
    case False
    then have e: "?c = length ?p" "lcp k (seg (absn s ?g)) = length (seg (absn s ?g))"
      using lcp_le(2) [of k ?p] by (simp_all add: commonPrefixLen_lcp)
    let ?r = "drop (length ?p) k"
    have len: "length ?p \<le> length k" using e(1) lcp_le(1) [of k ?p] by (simp add: commonPrefixLen_lcp)
    have fe: "map snd (filter (\<lambda>e. k \<le> fst e) (ents (absn s ?g))) =
        map snd (filter (\<lambda>e. ?r \<le> fst e) (below (absn s ?g)))"
      using ents_at(1) [OF e(2)] unfolding seg .
    show ?thesis
    proof (cases "?r = []")
      case True
      obtain st' fs' where "pushSubtree s (ad ?g) st = Some st'" "fwd A s st' fs'"
        "concat (map (frest s) fs') = tvals (absn s ?g) @ concat (map (frest s) fs)"
        by (rule pushSubtree_spec [OF st rp wf sub])
      moreover have "filter (\<lambda>e. ?r \<le> fst e) (below (absn s ?g)) = below (absn s ?g)"
        unfolding True by (simp add: filter_id_conv)
      moreover have "SeekLowerBound_loop s a k st = pushSubtree s a st"
        using e(1) len True by (subst SeekLowerBound_loop.simps) simp
      ultimately show ?thesis unfolding fe by (intro exI [of _ st'] exI [of _ fs']) (simp add: tvals_def del: absn.simps)
    next
      case rne: False
      let ?i = "rank_of (map (lab_at s) gs) (hd ?r)"
      have wfk: "wf_kids (map (absn s) gs)" using wf by simp
      have i: "?i = rank_of (map lab (map (absn s) gs)) (hd ?r)" by simp
      have own: "filter (\<lambda>e. ?r \<le> fst e) (own_ents (value_at (nodes s a))) = []"
        using lex_Nil_less [OF rne] by (auto simp: own_ents_def split: option.split)
      have bl: "below (absn s ?g) = own_ents (value_at (nodes s a)) @ concat (map ents (map (absn s) gs))"
        using below_absn [of s ?g] by simp
      from rp wf show ?thesis
      proof (cases rule: rep_step [where b = "hd ?r"])
        case miss
        then have nh: "\<not> (?i < length (map (absn s) gs) \<and> lab (map (absn s) gs ! ?i) = hd ?r)"
          by (auto simp: child_None_iff intro: rev_image_eqI [OF nth_mem])
        have kids: "map snd (filter (\<lambda>e. ?r \<le> fst e) (below (absn s ?g))) = concat (map (\<lambda>c. tvals (absn s c)) (drop ?i gs))"
          using own filter_kids(1) [OF wfk rne i refl] unfolding if_not_P [OF nh] bl by (simp add: drop_map tvals_kids del: map_map)
        have un: "SeekLowerBound_loop s a k st = (if ?i < length gs then push a (int ?i) st else Some st)"
          using e(1) len rne miss(1) rep_kidCount [OF rp] by (subst SeekLowerBound_loop.simps) simp
        show ?thesis
        proof (cases "?i < length gs")
          case True
          then have "fframe_ok A s (?g, int ?i)" using rp wf sub by (simp add: fframe_ok_def)
          then obtain st' where "push (ad ?g) (int ?i) st = Some st'" "fwd A s st' ((?g, int ?i) # fs)" using on_push [OF st] by metis
          then show ?thesis using un True unfolding fe kids
            by (intro exI [of _ st'] exI [of _ "(?g, int ?i) # fs"]) (simp add: frest_def)
        next
          case False
          then show ?thesis using un st unfolding fe kids by (intro exI [of _ st] exI [of _ fs]) simp
        qed
      next
        case (hit j c)
        have j: "j = ?i" "j < length gs" "gs ! j = c" "lab_at s c = hd ?r" using hit by (auto simp: lab_at_def)
        have hh: "?i < length (map (absn s) gs) \<and> lab (map (absn s) gs ! ?i) = hd ?r" using j by simp
        have kids: "map snd (filter (\<lambda>e. ?r \<le> fst e) (below (absn s ?g))) =
            map snd (filter (\<lambda>e. ?r \<le> fst e) (ents (absn s c))) @ concat (map (\<lambda>c. tvals (absn s c)) (drop (Suc j) gs))"
          using own filter_kids(1) [OF wfk rne i refl] j unfolding if_P [OF hh] bl by (simp add: drop_map tvals_kids del: map_map)
        have "fframe_ok A s (?g, int j + 1)" using rp wf sub j by (simp add: fframe_ok_def)
        then obtain st1 where st1: "push (ad ?g) (int j + 1) st = Some st1" "fwd A s st1 ((?g, int j + 1) # fs)" using on_push [OF st] by metis
        have cin: "c \<in> set gs" using j by auto
        then have csub: "set (addrs c) \<subseteq> A" using sub by auto
        from G.IH [OF cin hit(7,11) csub st1(2), of ?r] obtain st' fs' where
          r: "SeekLowerBound_loop s (ad c) ?r st1 = Some st'" "fwd A s st' fs'"
          "concat (map (frest s) fs') = map snd (filter (\<lambda>e. ?r \<le> fst e) (ents (absn s c))) @
            concat (map (frest s) ((?g, int j + 1) # fs))" by blast
        have "SeekLowerBound_loop s a k st = SeekLowerBound_loop s (ad c) ?r st1"
          using e(1) len rne hit(1,5) st1(1) by (subst SeekLowerBound_loop.simps) simp
        moreover have "nat (int j + 1) = Suc j" by simp
        ultimately show ?thesis using r unfolding fe kids by (intro exI [of _ st'] exI [of _ fs']) (simp add: frest_kids)
      qed
    qed
  qed
qed

lemma SeekLowerBound_spec:
  assumes t: "tree_ok s (g :: unit gtree)" and st: "stack_ok st"
  obtains st' where "SeekLowerBound s (Some (ad g)) k st = Some st'"
    and "yields (set (addrs g)) s st' (map snd (filter (\<lambda>e. k \<le> fst e) (contents s g)))"
proof -
  have "ents (absn s g) = contents s g" unfolding contents_def
    using t by (intro wf_root_below) (simp add: tree_ok_def)
  then show ?thesis
    using SeekLowerBound_loop_spec [OF tree_okD(1,2) [OF t] subset_refl on_reset [OF st], of k] that
    by (auto simp: SeekLowerBound_def intro: yieldsI)
qed

end
