(* ===== verification/Iter_Reverse.thy ===== *)
theory Iter_Reverse
  imports Iter_Spec
begin

text \<open>
  What the reverse iterator yields: the values of the selected keys in descending order.  A frame at
  position \<open>i \<ge> 0\<close> still has its children up to \<open>i\<close> and then the node's own value; a negative
  position has the own value only.
\<close>

section \<open>Previous\<close>

definition rframe_ok :: "addr set \<Rightarrow> 'v store \<Rightarrow> gframe \<Rightarrow> bool" where
  "rframe_ok A s f = (case f of (g, i) \<Rightarrow>
     rep s g \<and> wf_kids (map (absn s) (gk g)) \<and> set (addrs g) \<subseteq> A \<and> - 1 \<le> i \<and> i < int (length (gk g)))"

definition upto :: "'v store \<Rightarrow> gframe \<Rightarrow> 'v any list" where
  "upto s f = (case f of (g, i) \<Rightarrow>
     map snd (own_ents (value_at (nodes s (ad g)))) @ concat (map (\<lambda>c. tvals (absn s c)) (take (nat (i + 1)) (gk g))))"

definition rrest :: "'v store \<Rightarrow> gframe \<Rightarrow> 'v any list" where
  "rrest s f = rev (upto s f)"

abbreviation bwd :: "addr set \<Rightarrow> 'v store \<Rightarrow> stack \<Rightarrow> gframe list \<Rightarrow> bool" where
  "bwd A s \<equiv> on_stack (rframe_ok A s)"

text \<open>The values a reverse iterator still has to return.\<close>

definition ryields :: "addr set \<Rightarrow> 'v store \<Rightarrow> stack \<Rightarrow> 'v any list \<Rightarrow> bool" where
  "ryields A s st vs \<longleftrightarrow> (\<exists>fs. bwd A s st fs \<and> vs = concat (map (rrest s) fs))"

lemma ryieldsI: "bwd A s st fs \<Longrightarrow> concat (map (rrest s) fs) = vs \<Longrightarrow> ryields A s st vs"
  by (auto simp: ryields_def)

definition rwork :: "gframe \<Rightarrow> nat" where
  "rwork f = (case f of (g, i) \<Rightarrow> 1 + sum_list (map weight (take (nat (i + 1)) (gk g))))"

lemma upto_all: "upto s (g, int (length (gk g)) - 1) = tvals (absn s g)"
  by (simp add: upto_def tvals_node [of s g] value_at_def own_ents_def)

lemma bwd_Cons:
  assumes "bwd A s st ((g, i) # fs)"
  shows "rep s g" and "wf_kids (map (absn s) (gk g))" and "- 1 \<le> i" and "i < int (length (gk g))" and "i < 256"
    and "set (addrs g) \<subseteq> A"
  using on_Cons(3) [OF assms] kids_256 [of s g] by (auto simp: rframe_ok_def)

lemma rrest_agree:
  assumes "rframe_ok A s f" and "agree A s s'"
  shows "rframe_ok A s' f" and "rrest s' f = rrest s f"
proof -
  obtain g i where f: "f = (g, i)" by (cases f)
  have ok: "rep s g" "set (addrs g) \<subseteq> A" using assms(1) f by (simp_all add: rframe_ok_def)
  note ag = node_agree [OF ok(1) assms(2) ok(2)]
  show "rframe_ok A s' f" using assms(1) f ag(1,3) by (simp add: rframe_ok_def cong: map_cong)
  show "rrest s' f = rrest s f"
    using f ag(3,4) by (auto simp: rrest_def upto_def dest!: in_set_takeD intro!: arg_cong [where f = concat])
qed

lemma ryields_agree: "ryields A s st vs \<Longrightarrow> agree A s s' \<Longrightarrow> ryields A s' st vs"
  using on_stack_frame [where P = "rframe_ok A s" and Q = "rframe_ok A s'" and r = "rrest s" and r' = "rrest s'"]
    rrest_agree [of A s _ s'] unfolding ryields_def by metis

lemma Previous_spec:
  "bwd A s st fs \<Longrightarrow> \<exists>st' fs'. Previous s st = Some (hd_or (concat (map (rrest s) fs)), st') \<and> bwd A s st' fs' \<and>
     concat (map (rrest s) fs') = tl (concat (map (rrest s) fs))"
proof (induction "sum_list (map rwork fs)" arbitrary: st fs rule: less_induct)
  case less
  note ih = less.hyps
  show ?case
  proof (cases fs)
    case Nil
    then have "depth st = 0" using less.prems on_Nil by metis
    then have "Previous s st = Some (no_value, st)" by (subst Previous.simps) simp
    then show ?thesis using less.prems Nil by (intro exI [of _ st] exI [of _ "[]"]) (simp add: hd_or_def)
  next
    case (Cons f rest)
    obtain g i where f: "f = (g, i)" by (cases f)
    note fw = less.prems [unfolded Cons f]
    note fd = on_Cons [OF fw] bwd_Cons [OF fw]
    let ?n = "ad g"
    show ?thesis
    proof (cases "i < 0")
      case True
      then have i: "i = - 1" using fd(9) by simp
      have neg: "(word_of_int i :: i16) <s 0" using position_neg [of i] i by simp
      have un: "Previous s st = (if hasValue (nodes s ?n) then Some ((val (nodes s ?n), True), pop st) else Previous s (pop st))"
        using fd(5,6) neg by (subst Previous.simps) simp
      have rr: "rrest s f = (if hasValue (nodes s ?n) then [val (nodes s ?n)] else [])"
        using f i by (simp add: rrest_def upto_def value_at_def own_ents_def)
      show ?thesis
      proof (cases "hasValue (nodes s ?n)")
        case True
        then show ?thesis using un rr on_pop [OF fw] Cons by (intro exI [of _ "pop st"] exI [of _ rest]) (simp add: hd_or_def)
      next
        case False
        have "sum_list (map rwork rest) < sum_list (map rwork fs)" using Cons f by (simp add: rwork_def)
        then show ?thesis using ih [OF _ on_pop [OF fw]] un rr False Cons by simp
      qed
    next
      case False
      define j where "j = nat i"
      have i: "i = int j" and j: "j < length (gk g)" using False fd(10) by (simp_all add: j_def)
      let ?c = "gk g ! j"
      note k = kid_wf [OF fd(7,8) j]
      have nn: "\<not> (word_of_int i :: i16) <s 0" using position_neg [of i] fd(9,11) False by simp
      have pos: "nat (sint (word_of_int i :: i16)) = j" using sint_position [of i] fd(9,11) i by simp
      have kd: "kid (nodes s ?n) j = Some (ad ?c)" by (rule rep_kid [OF fd(7) j])
      have tk: "take (Suc j) (gk g) = take j (gk g) @ [?c]" using j by (rule take_Suc_conv_app_nth)
      have nj: "nat (i + 1) = Suc j" "nat (i - 1 + 1) = j" "nat i = j" using i by simp_all
      have ok1: "rframe_ok A s (g, i - 1)" using fd(7,8,12) i j by (simp add: rframe_ok_def)
      have st2: "bwd A s (set_top (word_of_int (i - 1)) st) ((g, i - 1) # rest)" by (rule on_set_top [OF fw ok1])
      have un: "Previous s st = (let st = set_top (word_of_int (i - 1)) st in
          if childless (nodes s (ad ?c)) then Some ((val (nodes s (ad ?c)), True), st)
          else do { st \<leftarrow> push (ad ?c) (int (frameKids (nodes s (ad ?c))) - 1) st; Previous s st })"
        using fd(5,6) nn pos kd by (subst Previous.simps) (simp add: Let_def)
      have rr: "concat (map (rrest s) ((g, i) # rest)) = rev (tvals (absn s ?c)) @ concat (map (rrest s) ((g, i - 1) # rest))"
        using tk by (simp add: rrest_def upto_def nj)
      show ?thesis
      proof (cases "gk ?c = []")
        case True
        then have "tvals (absn s ?c) = [val (nodes s (ad ?c))]" using k(5) by (simp add: tvals_node [of s ?c])
        then show ?thesis
          using st2 rr un k(4) True Cons f
          by (intro exI [of _ "set_top (word_of_int (i - 1)) st"] exI [of _ "(g, i - 1) # rest"]) (simp add: hd_or_def Let_def)
      next
        case False
        have fk: "frameKids (nodes s (ad ?c)) = length (gk ?c)"
          using rep_nkids [OF k(1)] by (simp add: frameKids_def)
        have "rframe_ok A s (?c, int (length (gk ?c)) - 1)" using k(1,3,6) fd(12) by (simp add: rframe_ok_def)
        from on_push [where P = "rframe_ok A s", OF st2 this] obtain st3 where
          st3: "push (ad ?c) (int (length (gk ?c)) - 1) (set_top (word_of_int (i - 1)) st) = Some st3"
            "bwd A s st3 ((?c, int (length (gk ?c)) - 1) # (g, i - 1) # rest)" by metis
        have "sum_list (map rwork ((?c, int (length (gk ?c)) - 1) # (g, i - 1) # rest)) < sum_list (map rwork fs)"
          using Cons f tk by (simp add: rwork_def nj weight_sel [of ?c])
        from ih [OF this st3(2)] obtain st' fs' where
          "Previous s st3 = Some (hd_or (concat (map (rrest s) ((?c, int (length (gk ?c)) - 1) # (g, i - 1) # rest))), st')"
          "bwd A s st' fs'"
          "concat (map (rrest s) fs') = tl (concat (map (rrest s) ((?c, int (length (gk ?c)) - 1) # (g, i - 1) # rest)))" by blast
        moreover have "concat (map (rrest s) ((?c, int (length (gk ?c)) - 1) # (g, i - 1) # rest)) = concat (map (rrest s) ((g, i) # rest))"
          unfolding rr by (simp add: rrest_def upto_all)
        ultimately show ?thesis
          using st3(1) un k(4) False fk Cons f
          by (intro exI [of _ st'] exI [of _ fs']) (simp add: Let_def del: concat.simps list.map)
      qed
    qed
  qed
qed

lemma Previous_yields:
  assumes "ryields A s st vs"
  obtains st' where "Previous s st = Some (hd_or vs, st')" and "ryields A s st' (tl vs)"
  using assms Previous_spec unfolding ryields_def by metis

section \<open>Seeks\<close>

lemma push_all:
  assumes "bwd A s st fs" and "rep s (g :: unit gtree)" and "wf_kids (map (absn s) (gk g))"
    and "set (addrs g) \<subseteq> A"
  obtains st' where "push (ad g) (int (kidCount (nodes s (ad g))) - 1) st = Some st'"
    and "bwd A s st' ((g, int (length (gk g)) - 1) # fs)"
    and "rrest s (g, int (length (gk g)) - 1) = rev (tvals (absn s g))"
proof -
  have "rframe_ok A s (g, int (length (gk g)) - 1)" using assms(2-4) by (simp add: rframe_ok_def)
  then obtain st' where "push (ad g) (int (length (gk g)) - 1) st = Some st'" "bwd A s st' ((g, int (length (gk g)) - 1) # fs)"
    using on_push [where P = "rframe_ok A s", OF assms(1)] by metis
  then show ?thesis using that [of st'] rep_kidCount [OF assms(2)] by (simp add: rrest_def upto_all)
qed

lemma ReverseSeekPrefixWatch_spec:
  assumes t: "tree_ok s (g :: unit gtree)" and st: "stack_ok st"
  obtains w st' where "ReverseSeekPrefixWatch s (Some (ad g)) p st = Some (\<lparr>slot_of = Some w, value_of = None\<rparr>, st')"
    and "w \<in> set (addrs g)" and "ryields (set (addrs g)) s st' (rev (map snd (filter (\<lambda>e. starts (fst e) p) (contents s g))))"
proof -
  obtain r w where r: "seekPrefix s (Some (ad g)) p = Some (r, w)" "w \<in> set (addrs g)"
    "case r of None \<Rightarrow> map snd (filter (\<lambda>e. starts (fst e) p) (contents s g)) = []
      | Some n \<Rightarrow> (\<exists>c :: unit gtree. n = ad c \<and> rep s c \<and> wf_kids (map (absn s) (gk c)) \<and>
          map snd (filter (\<lambda>e. starts (fst e) p) (contents s g)) = tvals (absn s c) \<and>
          set (addrs c) \<subseteq> set (addrs g))"
    by (rule seekPrefix_spec [OF t])
  show ?thesis
  proof (cases r)
    case None
    then show ?thesis
      using r on_reset [OF st, of "rframe_ok (set (addrs g)) s"]
      by (intro that [of w "reset st"]) (auto simp: ReverseSeekPrefixWatch_def ryields_def intro!: exI [of _ "[]"])
  next
    case (Some n)
    then obtain c :: "unit gtree" where c: "n = ad c" "rep s c" "wf_kids (map (absn s) (gk c))"
      "map snd (filter (\<lambda>e. starts (fst e) p) (contents s g)) = tvals (absn s c)"
      "set (addrs c) \<subseteq> set (addrs g)" using r(3) by auto
    obtain st' where "push (ad c) (int (kidCount (nodes s (ad c))) - 1) (reset st) = Some st'"
      "bwd (set (addrs g)) s st' [(c, int (length (gk c)) - 1)]" "rrest s (c, int (length (gk c)) - 1) = rev (tvals (absn s c))"
      by (rule push_all [OF on_reset [OF st] c(2,3,5)])
    then show ?thesis
      using that [of w st'] r(1,2) Some c ryieldsI [of "set (addrs g)" s st' "[(c, int (length (gk c)) - 1)]"]
      by (simp add: ReverseSeekPrefixWatch_def)
  qed
qed

lemma SeekReverseLowerBound_loop_spec:
  "rep s (g :: unit gtree) \<Longrightarrow> wf_kids (map (absn s) (gk g)) \<Longrightarrow> set (addrs g) \<subseteq> A \<Longrightarrow> bwd A s st fs \<Longrightarrow>
    \<exists>st' fs'. SeekReverseLowerBound_loop s (ad g) k st = Some st' \<and> bwd A s st' fs' \<and>
      concat (map (rrest s) fs') =
        rev (map snd (filter (\<lambda>e. fst e \<le> k) (ents (absn s g)))) @ concat (map (rrest s) fs)"
proof (induction g arbitrary: k st fs rule: gtree.induct)
  case (G a xt gs)
  let ?g = "G a xt gs" and ?p = "prefix (nodes s a)"
  let ?c = "commonPrefixLen k (prefix (nodes s a))"
  note rp = G.prems(1) and wf = G.prems(2) and sub = G.prems(3) and st = G.prems(4)
  have seg: "seg (absn s ?g) = ?p" by simp
  show ?case
  proof (cases "?c < length ?p")
    case True
    then have l: "lcp k (seg (absn s ?g)) < length (seg (absn s ?g))" by (simp add: commonPrefixLen_lcp)
    let ?b = "?c < length k \<and> ?p ! ?c < k ! ?c"
    have f: "filter (\<lambda>e. fst e \<le> k) (ents (absn s ?g)) = (if ?b then ents (absn s ?g) else [])"
      using ents_ge_away(2) [OF l] by (simp add: commonPrefixLen_lcp)
    have un: "SeekReverseLowerBound_loop s a k st = (if ?b then push a (int (kidCount (nodes s a)) - 1) st else Some st)"
      using True by (subst SeekReverseLowerBound_loop.simps) (simp add: Let_def)
    show ?thesis
    proof (cases ?b)
      case True
      obtain st' where "push (ad ?g) (int (kidCount (nodes s (ad ?g))) - 1) st = Some st'"
        "bwd A s st' ((?g, int (length (gk ?g)) - 1) # fs)" "rrest s (?g, int (length (gk ?g)) - 1) = rev (tvals (absn s ?g))"
        by (rule push_all [OF st rp wf sub])
      then show ?thesis using un True f tvals_ents [of "absn s ?g"]
        by (intro exI [of _ st'] exI [of _ "(?g, int (length (gk ?g)) - 1) # fs"]) simp
    next
      case False
      then show ?thesis using un f st unfolding if_not_P [OF False] by (intro exI [of _ st] exI [of _ fs]) (simp del: absn.simps)
    qed
  next
    case False
    then have e: "?c = length ?p" "lcp k (seg (absn s ?g)) = length (seg (absn s ?g))"
      using lcp_le(2) [of k ?p] by (simp_all add: commonPrefixLen_lcp)
    let ?r = "drop (length ?p) k"
    let ?own = "own_ents (value_at (nodes s a))"
    have len: "length ?p \<le> length k" using e(1) lcp_le(1) [of k ?p] by (simp add: commonPrefixLen_lcp)
    have fe: "map snd (filter (\<lambda>e. fst e \<le> k) (ents (absn s ?g))) =
        map snd (filter (\<lambda>e. fst e \<le> ?r) (below (absn s ?g)))"
      using ents_at(2) [OF e(2)] unfolding seg .
    have bl: "below (absn s ?g) = ?own @ concat (map ents (map (absn s) gs))"
      using below_absn [of s ?g] by simp
    have own: "filter (\<lambda>e. fst e \<le> ?r) ?own = ?own"
      by (auto simp: own_ents_def split: option.split)
    show ?thesis
    proof (cases "?r = []")
      case True
      have ok: "rframe_ok A s (?g, - 1)" using rp wf sub by (simp add: rframe_ok_def)
      obtain st' where "push (ad ?g) (- 1) st = Some st'" "bwd A s st' ((?g, - 1) # fs)" by (rule on_push [OF st ok])
      moreover have "filter (\<lambda>e. fst e \<le> ?r) (concat (map ents (map (absn s) gs))) = []"
      proof -
        have "fst x \<noteq> []" if "x \<in> set (ents (absn s c))" "c \<in> set gs" for x c
          using ents_hd [OF that(1)] wf_subD(1) [OF wf_kids_sub [OF wf, of "absn s c"]] that(2) by simp
        then show ?thesis unfolding True by (fastforce simp: filter_empty_conv)
      qed
      moreover have "SeekReverseLowerBound_loop s a k st = push a (- 1) st"
        using e(1) len True by (subst SeekReverseLowerBound_loop.simps) simp
      ultimately show ?thesis unfolding fe bl
        by (intro exI [of _ st'] exI [of _ "(?g, - 1) # fs"]) (simp add: own rrest_def upto_def)
    next
      case rne: False
      let ?i = "rank_of (map (lab_at s) gs) (hd ?r)"
      have wfk: "wf_kids (map (absn s) gs)" using wf by simp
      have i: "?i = rank_of (map lab (map (absn s) gs)) (hd ?r)" by simp
      have il: "?i \<le> length gs" using rank_of_le [of "map (lab_at s) gs" "hd ?r"] by simp
      have ok: "rframe_ok A s (?g, int ?i - 1)" using rp wf sub il by (simp add: rframe_ok_def)
      obtain st1 where st1: "push (ad ?g) (int ?i - 1) st = Some st1" "bwd A s st1 ((?g, int ?i - 1) # fs)" by (rule on_push [OF st ok])
      have rr: "rrest s (?g, int ?i - 1) = rev (map snd ?own @ concat (map (\<lambda>c. tvals (absn s c)) (take ?i gs)))"
        by (simp add: rrest_def upto_def)
      from rp wf show ?thesis
      proof (cases rule: rep_step [where b = "hd ?r"])
        case miss
        then have nh: "\<not> (?i < length (map (absn s) gs) \<and> lab (map (absn s) gs ! ?i) = hd ?r)"
          by (auto simp: child_None_iff intro: rev_image_eqI [OF nth_mem])
        have kids: "map snd (filter (\<lambda>e. fst e \<le> ?r) (below (absn s ?g))) = map snd ?own @ concat (map (\<lambda>c. tvals (absn s c)) (take ?i gs))"
          using own filter_kids(2) [OF wfk rne i refl] unfolding if_not_P [OF nh] bl by (simp add: take_map tvals_kids del: map_map)
        have un: "SeekReverseLowerBound_loop s a k st = push a (int ?i - 1) st"
          using e(1) len rne miss(1) by (subst SeekReverseLowerBound_loop.simps) simp
        then show ?thesis using st1 rr unfolding fe kids
          by (intro exI [of _ st1] exI [of _ "(?g, int ?i - 1) # fs"]) simp
      next
        case (hit j c)
        have j: "j = ?i" "j < length gs" "gs ! j = c" "lab_at s c = hd ?r" using hit by (auto simp: lab_at_def)
        have hh: "?i < length (map (absn s) gs) \<and> lab (map (absn s) gs ! ?i) = hd ?r" using j by simp
        have kids: "map snd (filter (\<lambda>e. fst e \<le> ?r) (below (absn s ?g))) =
            (map snd ?own @ concat (map (\<lambda>c. tvals (absn s c)) (take ?i gs))) @ map snd (filter (\<lambda>e. fst e \<le> ?r) (ents (absn s c)))"
          using own filter_kids(2) [OF wfk rne i refl] j unfolding if_P [OF hh] bl by (simp add: take_map tvals_kids del: map_map)
        have cin: "c \<in> set gs" using j by auto
        then have csub: "set (addrs c) \<subseteq> A" using sub by auto
        from G.IH [OF cin hit(7,11) csub st1(2), of ?r] obtain st' fs' where
          r: "SeekReverseLowerBound_loop s (ad c) ?r st1 = Some st'" "bwd A s st' fs'"
          "concat (map (rrest s) fs') = rev (map snd (filter (\<lambda>e. fst e \<le> ?r) (ents (absn s c)))) @
            concat (map (rrest s) ((?g, int ?i - 1) # fs))" by blast
        have "SeekReverseLowerBound_loop s a k st = SeekReverseLowerBound_loop s (ad c) ?r st1"
          using e(1) len rne hit(1,5) st1(1) j(1) by (subst SeekReverseLowerBound_loop.simps) simp
        then show ?thesis using r rr unfolding fe kids by (intro exI [of _ st'] exI [of _ fs']) simp
      qed
    qed
  qed
qed

lemma SeekReverseLowerBound_spec:
  assumes t: "tree_ok s (g :: unit gtree)" and st: "stack_ok st"
  obtains st' where "SeekReverseLowerBound s (Some (ad g)) k st = Some st'"
    and "ryields (set (addrs g)) s st' (rev (map snd (filter (\<lambda>e. fst e \<le> k) (contents s g))))"
proof -
  have "ents (absn s g) = contents s g" unfolding contents_def
    using t by (intro wf_root_below) (simp add: tree_ok_def)
  then show ?thesis
    using SeekReverseLowerBound_loop_spec [OF tree_okD(1,2) [OF t] subset_refl on_reset [OF st], of k] that
    by (auto simp: SeekReverseLowerBound_def intro: ryieldsI)
qed

end
