(* ===== verification/Ordered.thy ===== *)
theory Ordered
  imports Kv
begin

text \<open>
  The contract of a read-only snapshot: what the queries of a tree return, in terms of the sorted list
  of its entries.  The client lemmas relate the queries to each other without looking at the tree.
\<close>

definition first_or :: "'v any list \<Rightarrow> 'v any \<times> bool" where
  "first_or vs = (case vs of [] \<Rightarrow> (None, False) | v # _ \<Rightarrow> (v, True))"

definition final_or :: "'v any list \<Rightarrow> 'v any \<times> bool" where
  "final_or vs = first_or (rev vs)"

lemma first_or_False: "first_or vs = (v, False) \<longleftrightarrow> vs = [] \<and> v = None"
  by (auto simp: first_or_def split: list.split)

lemma first_or_in: "first_or vs = (v, True) \<Longrightarrow> v \<in> set vs"
  by (auto simp: first_or_def split: list.splits)

lemma final_or_last: "vs \<noteq> [] \<Longrightarrow> final_or vs = (last vs, True)"
  by (cases vs rule: rev_cases) (simp_all add: final_or_def first_or_def)

lemma sorted_keys_unique:
  assumes "sorted_wrt (<) (map fst (es :: (bytes \<times> 'a) list))" and "e \<in> set es" and "e' \<in> set es" and "fst e = fst e'"
  shows "e = e'"
  using assms by (induction es) auto

lemma map_of_sorted:
  assumes "sorted_wrt (<) (map fst (es :: (bytes \<times> 'a) list))"
  shows "map_of es k = Some v \<longleftrightarrow> (k, v) \<in> set es"
proof
  show "map_of es k = Some v \<Longrightarrow> (k, v) \<in> set es" by (rule map_of_SomeD)
  show "map_of es k = Some v" if kv: "(k, v) \<in> set es"
  proof (cases "map_of es k")
    case None
    with kv show ?thesis by (auto simp: map_of_eq_None_iff image_iff)
  next
    case (Some w)
    then show ?thesis using sorted_keys_unique [OF assms kv, of "(k, w)"] map_of_SomeD [OF Some] by auto
  qed
qed

locale ordered_reads =
  fixes holds :: "'s \<Rightarrow> 'r \<Rightarrow> (bytes \<times> 'v any) list \<Rightarrow> bool"
    and get :: "'s \<Rightarrow> 'r \<Rightarrow> bytes \<Rightarrow> ('v any \<times> bool) option"
    and longest :: "'s \<Rightarrow> 'r \<Rightarrow> bytes \<Rightarrow> ('v any \<times> bool) option"
    and fst_prefix :: "'s \<Rightarrow> 'r \<Rightarrow> bytes \<Rightarrow> ('w \<times> 'v any \<times> bool) option"
    and lst_prefix :: "'s \<Rightarrow> 'r \<Rightarrow> bytes \<Rightarrow> ('w \<times> 'v any \<times> bool) option"
    and len :: "'s \<Rightarrow> 'r \<Rightarrow> nat option"
  assumes sorted_law: "holds s r es \<Longrightarrow> sorted_wrt (<) (map fst es)"
    and get_law: "holds s r es \<Longrightarrow> get s r k = Some (hit (map_of es k))"
    and longest_law: "holds s r es \<Longrightarrow> longest s r k = Some (final_or (map snd (filter (\<lambda>e. starts k (fst e)) es)))"
    and fst_law: "holds s r es \<Longrightarrow> \<exists>w. fst_prefix s r p = Some (w, first_or (map snd (filter (\<lambda>e. starts (fst e) p) es)))"
    and lst_law: "holds s r es \<Longrightarrow> \<exists>w. lst_prefix s r p = Some (w, final_or (map snd (filter (\<lambda>e. starts (fst e) p) es)))"
    and len_law: "holds s r es \<Longrightarrow> len s r = Some (length es)"
begin

text \<open>A stored key is its own longest prefix.\<close>

lemma longest_exact:
  assumes h: "holds s r es" and g: "get s r k = Some (v, True)"
  shows "longest s r k = Some (v, True)"
proof -
  have "map_of es k = Some v" using get_law [OF h, of k] g by (auto simp: hit_def split: option.splits)
  then have kv: "(k, v) \<in> set (filter (\<lambda>e. starts k (fst e)) es)" by (auto dest: map_of_SomeD)
  let ?fs = "filter (\<lambda>e. starts k (fst e)) es"
  have so: "sorted_wrt (<) (map fst ?fs)" using sorted_law [OF h] by (simp add: sorted_wrt_map sorted_wrt_filter)
  have ne: "?fs \<noteq> []" using kv by (metis length_greater_0_conv length_pos_if_in_set)
  have "starts k (fst (last ?fs))" using last_in_set [OF ne] by simp
  then have "fst (last ?fs) \<le> k" by (metis lex_prefix_le starts_iff)
  moreover have "k \<le> fst (last ?fs)"
  proof -
    obtain i where i: "i < length ?fs" "?fs ! i = (k, v)" using kv by (meson in_set_conv_nth)
    show ?thesis
    proof (cases "i = length ?fs - 1")
      case True
      then show ?thesis using i ne by (simp add: last_conv_nth)
    next
      case False
      then have "map fst ?fs ! i < map fst ?fs ! (length ?fs - 1)"
        using i(1) by (intro sorted_wrt_nth_less [OF so]) auto
      then show ?thesis using i ne by (simp add: last_conv_nth)
    qed
  qed
  ultimately have "last ?fs = (k, v)"
    using sorted_keys_unique [OF so last_in_set [OF ne] kv] by simp
  then have "final_or (map snd ?fs) = (v, True)"
    using ne by (simp add: final_or_last last_map del: filter.simps)
  then show ?thesis using longest_law [OF h, of k] by simp
qed

text \<open>There is a first key with a prefix exactly if there is a last, and if the key itself is stored.\<close>

lemma prefix_agree:
  assumes h: "holds s r es"
  shows "(\<exists>w v. fst_prefix s r p = Some (w, v, True)) \<longleftrightarrow> (\<exists>w v. lst_prefix s r p = Some (w, v, True))"
proof -
  let ?vs = "map snd (filter (\<lambda>e. starts (fst e) p) es)"
  obtain w w' where "fst_prefix s r p = Some (w, first_or ?vs)" "lst_prefix s r p = Some (w', final_or ?vs)"
    using fst_law [OF h] lst_law [OF h] by blast
  moreover have "(\<exists>v. first_or ?vs = (v, True)) \<longleftrightarrow> ?vs \<noteq> []" "(\<exists>v. final_or ?vs = (v, True)) \<longleftrightarrow> ?vs \<noteq> []"
    unfolding final_or_def by (auto simp: first_or_def split: list.split)
  ultimately show ?thesis by simp
qed

lemma get_first_prefix:
  assumes h: "holds s r es" and g: "get s r k = Some (v, True)"
  obtains w u where "fst_prefix s r k = Some (w, u, True)"
proof -
  have "map_of es k = Some v" using get_law [OF h, of k] g by (auto simp: hit_def split: option.splits)
  then have kv: "(k, v) \<in> set (filter (\<lambda>e. starts (fst e) k) es)" by (auto dest: map_of_SomeD)
  then have "map snd (filter (\<lambda>e. starts (fst e) k) es) \<noteq> []" by (metis length_greater_0_conv length_map length_pos_if_in_set)
  then obtain x xs where "map snd (filter (\<lambda>e. starts (fst e) k) es) = x # xs" by (meson neq_Nil_conv)
  then show ?thesis using that fst_law [OF h, of k] by (auto simp: first_or_def)
qed

text \<open>The number of entries is the number of keys that \<open>get\<close> finds.\<close>

lemma len_found:
  assumes h: "holds s r es"
  shows "len s r = Some (card {k. \<exists>v. get s r k = Some (v, True)})"
proof -
  have "{k. \<exists>v. get s r k = Some (v, True)} = fst ` set es"
    using get_law [OF h] by (force simp: hit_def dom_map_of_conv_image_fst [symmetric] split: option.splits)
  moreover have "distinct (map fst es)" using sorted_law [OF h] by (simp add: strict_sorted_iff)
  ultimately show ?thesis using len_law [OF h] distinct_card [of "map fst es"] by simp
qed

end

end
