(* ===== verification/Api.thy ===== *)
theory Api
  imports System Iter_Reverse Ordered
begin

text \<open>
  The exported package \<^verbatim>\<open>juuri\<close> (\<^verbatim>\<open>tree.go\<close>, \<^verbatim>\<open>iter.go\<close>, \<^verbatim>\<open>txn.go\<close>): each type wraps the one of
  \<^verbatim>\<open>internal/radix\<close>, each method forwards to it.  A pointer to a notifier or an iterator is its identity
  or its value passed through.
\<close>

section \<open>Trees and watches\<close>

record api_tree =
  rtree_of :: tree

record api_watch =
  w_of :: watch

definition api_New :: "'v store \<Rightarrow> api_tree \<times> 'v store" where
  "api_New s = (let (t, s) = NewTree s in (\<lparr>rtree_of = t\<rparr>, s))"

definition api_Chan :: "api_watch \<Rightarrow> 'v store \<Rightarrow> (chan \<times> 'v store) option" where
  "api_Chan w s = watch_Chan (w_of w) s"

definition api_Get :: "'v store \<Rightarrow> api_tree \<Rightarrow> bytes \<Rightarrow> ('v any \<times> bool) option" where
  "api_Get s t k = Get s (rtree_of t) k"

definition api_GetWatch :: "'v store \<Rightarrow> api_tree \<Rightarrow> bytes \<Rightarrow> (api_watch \<times> 'v any \<times> bool) option" where
  "api_GetWatch s t k = do { (w, v, ok) \<leftarrow> GetWatch s (rtree_of t) k; Some (\<lparr>w_of = w\<rparr>, v, ok) }"

definition api_LongestPrefix :: "'v store \<Rightarrow> api_tree \<Rightarrow> bytes \<Rightarrow> ('v any \<times> bool) option" where
  "api_LongestPrefix s t k = LongestPrefix s (rtree_of t) k"

definition api_FirstPrefix :: "'v store \<Rightarrow> api_tree \<Rightarrow> bytes \<Rightarrow> (api_watch \<times> 'v any \<times> bool) option" where
  "api_FirstPrefix s t p = do { (w, v, ok) \<leftarrow> FirstPrefix s (rtree_of t) p; Some (\<lparr>w_of = w\<rparr>, v, ok) }"

definition api_LastPrefix :: "'v store \<Rightarrow> api_tree \<Rightarrow> bytes \<Rightarrow> (api_watch \<times> 'v any \<times> bool) option" where
  "api_LastPrefix s t p = do { (w, v, ok) \<leftarrow> LastPrefix s (rtree_of t) p; Some (\<lparr>w_of = w\<rparr>, v, ok) }"

definition api_Len :: "'v store \<Rightarrow> api_tree \<Rightarrow> nat option" where
  "api_Len s t = Len s (rtree_of t)"

section \<open>Iterators\<close>

record api_iter =
  iter_of :: stack

definition zero_iter :: api_iter where
  "zero_iter = \<lparr>iter_of = zero_stack\<rparr>"

definition api_SeekPrefixWatch :: "'v store \<Rightarrow> api_iter \<Rightarrow> api_tree \<Rightarrow> bytes \<Rightarrow> (api_watch \<times> api_iter) option" where
  "api_SeekPrefixWatch s it t p =
     do { (w, st) \<leftarrow> SeekPrefixWatch s (rtree_of t) p (iter_of it); Some (\<lparr>w_of = w\<rparr>, it\<lparr>iter_of := st\<rparr>) }"

definition api_SeekLowerBound :: "'v store \<Rightarrow> api_iter \<Rightarrow> api_tree \<Rightarrow> bytes \<Rightarrow> api_iter option" where
  "api_SeekLowerBound s it t k =
     do { st \<leftarrow> SeekLowerBound s (rtree_of t) k (iter_of it); Some (it\<lparr>iter_of := st\<rparr>) }"

definition api_Next :: "'v store \<Rightarrow> api_iter \<Rightarrow> (('v any \<times> bool) \<times> api_iter) option" where
  "api_Next s it = do { (r, st) \<leftarrow> Next s (iter_of it); Some (r, it\<lparr>iter_of := st\<rparr>) }"

record api_riter =
  riter_of :: stack

definition zero_riter :: api_riter where
  "zero_riter = \<lparr>riter_of = zero_stack\<rparr>"

definition api_ReverseSeekPrefixWatch :: "'v store \<Rightarrow> api_riter \<Rightarrow> api_tree \<Rightarrow> bytes \<Rightarrow> (api_watch \<times> api_riter) option" where
  "api_ReverseSeekPrefixWatch s it t p =
     do { (w, st) \<leftarrow> ReverseSeekPrefixWatch s (rtree_of t) p (riter_of it); Some (\<lparr>w_of = w\<rparr>, it\<lparr>riter_of := st\<rparr>) }"

definition api_SeekReverseLowerBound :: "'v store \<Rightarrow> api_riter \<Rightarrow> api_tree \<Rightarrow> bytes \<Rightarrow> api_riter option" where
  "api_SeekReverseLowerBound s it t k =
     do { st \<leftarrow> SeekReverseLowerBound s (rtree_of t) k (riter_of it); Some (it\<lparr>riter_of := st\<rparr>) }"

definition api_Previous :: "'v store \<Rightarrow> api_riter \<Rightarrow> (('v any \<times> bool) \<times> api_riter) option" where
  "api_Previous s it = do { (r, st) \<leftarrow> Previous s (riter_of it); Some (r, it\<lparr>riter_of := st\<rparr>) }"

section \<open>Notifiers and transactions\<close>

record api_notifier =
  n_of :: nat

definition api_Notify :: "api_notifier \<Rightarrow> 'v store \<Rightarrow> 'v store option" where
  "api_Notify nf s = Notify (n_of nf) s"

definition api_Reset :: "api_notifier \<Rightarrow> 'v store \<Rightarrow> 'v store" where
  "api_Reset nf s = ResetNotifier (n_of nf) s"

record api_txn =
  txn_of :: txn

text \<open>The zero \<open>Txn\<close>, and the one of a tree; a nil notifier stays nil.\<close>

definition zero_txn :: api_txn where
  "zero_txn = \<lparr>txn_of = \<lparr>troot = None, tepoch = 0, tnf = None\<rparr>\<rparr>"

definition api_Txn :: "api_tree \<Rightarrow> api_notifier option \<Rightarrow> api_txn" where
  "api_Txn t nf = (let n = (case nf of None \<Rightarrow> None | Some nf \<Rightarrow> Some (n_of nf)) in \<lparr>txn_of = StartTxn (rtree_of t) n\<rparr>)"

definition api_Started :: "api_txn \<Rightarrow> bool" where
  "api_Started t = Started (txn_of t)"

definition api_Tree :: "api_txn \<Rightarrow> api_tree" where
  "api_Tree t = \<lparr>rtree_of = TxnTree (txn_of t)\<rparr>"

definition api_Freeze :: "api_txn \<Rightarrow> api_txn" where
  "api_Freeze t = t\<lparr>txn_of := Freeze (txn_of t)\<rparr>"

definition api_Commit :: "api_txn \<Rightarrow> api_tree \<times> api_txn" where
  "api_Commit t = (let (r, t') = Commit (txn_of t) in (\<lparr>rtree_of = r\<rparr>, t\<lparr>txn_of := t'\<rparr>))"

definition api_Insert :: "api_txn \<Rightarrow> bytes \<Rightarrow> 'v any \<Rightarrow> 'v store \<Rightarrow> (('v any \<times> bool) \<times> api_txn \<times> 'v store) option" where
  "api_Insert t k v s = do { (r, t', s) \<leftarrow> Insert (txn_of t) k v s; Some (r, t\<lparr>txn_of := t'\<rparr>, s) }"

definition api_Delete :: "api_txn \<Rightarrow> bytes \<Rightarrow> 'v store \<Rightarrow> (('v any \<times> bool) \<times> api_txn \<times> 'v store) option" where
  "api_Delete t k s = do { (r, t', s) \<leftarrow> Delete (txn_of t) k s; Some (r, t\<lparr>txn_of := t'\<rparr>, s) }"

definition api_DeletePrefix :: "api_txn \<Rightarrow> bytes \<Rightarrow> 'v store \<Rightarrow> (bool \<times> api_txn \<times> 'v store) option" where
  "api_DeletePrefix t p s = do { (r, t', s) \<leftarrow> DeletePrefix (txn_of t) p s; Some (r, t\<lparr>txn_of := t'\<rparr>, s) }"

section \<open>Snapshots keep the contract of ordered reads\<close>

definition holds :: "'v store \<Rightarrow> api_tree \<Rightarrow> (bytes \<times> 'v any) list \<Rightarrow> bool" where
  "holds s t es \<longleftrightarrow> (\<exists>g :: unit gtree. rtree_of t = Some (ad g) \<and> tree_ok s g \<and> contents s g = es)"

lemma holdsE:
  assumes "holds s t es"
  obtains g :: "unit gtree" where "rtree_of t = Some (ad g)" and "tree_ok s g" and "contents s g = es"
  using assms by (auto simp: holds_def)

lemma last_or_final: "last_or vs no_value = final_or vs"
  by (cases vs rule: rev_cases) (auto simp: last_or_def final_or_def first_or_def)

lemma hd_or_first: "hd_or vs = first_or vs"
  by (simp add: hd_or_def first_or_def split: list.split)

interpretation snap: ordered_reads holds api_Get api_LongestPrefix api_FirstPrefix api_LastPrefix api_Len
proof unfold_locales
  show "sorted_wrt (<) (map fst es)" if "holds s r es" for s :: "'v store" and r es
    using holdsE [OF that] contents_sorted by metis
  show "api_Get s r k = Some (hit (map_of es k))" if "holds s r es" for s :: "'v store" and r es k
    using holdsE [OF that] Get_spec by (metis api_Get_def found_hit)
  show "api_LongestPrefix s r k = Some (final_or (map snd (filter (\<lambda>e. starts k (fst e)) es)))"
    if "holds s r es" for s :: "'v store" and r es k
    using holdsE [OF that] LongestPrefix_spec by (metis api_LongestPrefix_def last_or_final)
  show "\<exists>w. api_FirstPrefix s r p = Some (w, first_or (map snd (filter (\<lambda>e. starts (fst e) p) es)))"
    if "holds s r es" for s :: "'v store" and r es p
    using that by (rule holdsE) (use prefix_lookup_spec [of s _ p] in \<open>fastforce simp: api_FirstPrefix_def hd_or_first\<close>)
  show "\<exists>w. api_LastPrefix s r p = Some (w, final_or (map snd (filter (\<lambda>e. starts (fst e) p) es)))"
    if "holds s r es" for s :: "'v store" and r es p
    using that by (rule holdsE) (use prefix_lookup_spec [of s _ p] in \<open>fastforce simp: api_LastPrefix_def last_or_final\<close>)
  show "api_Len s r = Some (length es)" if "holds s r es" for s :: "'v store" and r es
    using holdsE [OF that] Len_spec by (metis api_Len_def)
qed

section \<open>Transactions keep the contract of a map\<close>

fun api_exec :: "'v kv_op \<Rightarrow> api_txn \<times> 'v store \<Rightarrow> ('v kv_result \<times> api_txn \<times> 'v store) option" where
  "api_exec (Put k v) (t, s) = do { (r, t, s) \<leftarrow> api_Insert t k v s; Some (Value r, t, s) }"
| "api_exec (Remove k) (t, s) = do { (r, t, s) \<leftarrow> api_Delete t k s; Some (Value r, t, s) }"
| "api_exec (Cut p) (t, s) = do { (b, t, s) \<leftarrow> api_DeletePrefix t p s; Some (Flag b, t, s) }"
| "api_exec (Lookup k) (t, s) = do { r \<leftarrow> api_Get s (api_Tree t) k; Some (Value r, t, s) }"

fun api_view :: "api_txn \<times> 'v store \<Rightarrow> 'v kv_map" where
  "api_view (t, s) k = (case api_Get s (api_Tree t) k of Some (v, True) \<Rightarrow> Some v | _ \<Rightarrow> None)"

fun api_good :: "api_txn \<times> 'v store \<Rightarrow> bool" where
  "api_good (t, s) \<longleftrightarrow> txn_good (txn_of t, s)"

lemma api_exec_txn:
  "api_exec p (t, s) = map_option (\<lambda>(r, t', s'). (r, t\<lparr>txn_of := t'\<rparr>, s')) (txn_exec p (txn_of t, s))"
  by (cases p) (auto simp: api_Insert_def api_Delete_def api_DeletePrefix_def api_Get_def api_Tree_def
      split: Option.bind_split)

lemma api_view_txn: "api_view (t, s) = txn_view (txn_of t, s)"
  by (simp add: fun_eq_iff api_Get_def api_Tree_def)

interpretation kv_api: kv_store api_good api_view api_exec
proof unfold_locales
  show "\<exists>s'. api_exec p s = Some (fst (map_op p (api_view s)), s') \<and> api_good s' \<and> api_view s' = snd (map_op p (api_view s))"
    if good: "api_good s" for s :: "api_txn \<times> 'v store" and p
  proof -
    obtain t h where s: "s = (t, h)" by (cases s)
    obtain t' h' where "txn_exec p (txn_of t, h) = Some (fst (map_op p (txn_view (txn_of t, h))), t', h')"
      "txn_good (t', h')" "txn_view (t', h') = snd (map_op p (txn_view (txn_of t, h)))"
      using txn_exec_good [of "(txn_of t, h)" p] good s by (auto simp del: txn_good.simps txn_view.simps)
    then show ?thesis
      unfolding s api_exec_txn api_view_txn
      by (intro exI [of _ "(t\<lparr>txn_of := t'\<rparr>, h')"]) (simp add: api_view_txn del: txn_view.simps txn_good.simps api_view.simps)
  qed
qed

end
