(* ===== verification/Snapshot.thy ===== *)
theory Snapshot
  imports Api
begin

text \<open>
  Clients of an iterator: the loop that calls \<open>Next\<close> or \<open>Previous\<close> until it reports the end, also when
  other goroutines write, commit and notify between the calls.  An iterator over a tree that was handed
  out returns that tree's values, in order, and stops.
\<close>

section \<open>Loops over an iterator\<close>

text \<open>
  Call \<open>next\<close> until it reports the end; the \<open>i\<close>-th call runs on the \<open>i\<close>-th store.  The result is
  \<open>None\<close> when a call panics, or when the stores run out before the end is reported.
\<close>

fun collect :: "('v store \<Rightarrow> 'i \<Rightarrow> (('v any \<times> bool) \<times> 'i) option) \<Rightarrow> 'v store list \<Rightarrow> 'i \<Rightarrow> 'v any list option" where
  "collect next [] it = None"
| "collect next (s # ss) it =
     (case next s it of
        None \<Rightarrow> None
      | Some ((v, ok), it) \<Rightarrow> if ok then map_option ((#) v) (collect next ss it) else Some [])"

text \<open>A general loop lemma: \<open>rest s it vs\<close> says that \<open>vs\<close> is still to come, and each call on a store takes the first.\<close>

lemma collect_rest:
  assumes step: "\<And>s it vs. s \<in> set ss \<Longrightarrow> rest s it vs \<Longrightarrow> \<exists>it'. next s it = Some (hd_or vs, it') \<and> rest s it' (tl vs)"
    and frame: "\<And>i it vs. Suc i < length ss \<Longrightarrow> rest (ss ! i) it vs \<Longrightarrow> rest (ss ! Suc i) it vs"
    and "ss \<noteq> []" and "rest (hd ss) it vs" and "length vs < length ss"
  shows "collect next ss it = Some vs"
  using assms
proof (induction ss arbitrary: it vs)
  case (Cons s ss)
  obtain it' where n: "next s it = Some (hd_or vs, it')" "rest s it' (tl vs)"
    using Cons.prems(1) [of s it vs] Cons.prems(4) by auto
  show ?case
  proof (cases vs)
    case Nil
    then show ?thesis using n by (simp add: hd_or_def)
  next
    case (Cons v ws)
    then have ss: "ss \<noteq> []" using \<open>length vs < length (s # ss)\<close> by auto
    have "rest (hd ss) it' ws" using n(2) Cons Cons.prems(2) [of 0 it' ws] ss by (simp add: hd_conv_nth)
    moreover have "rest (ss ! Suc i) it'' us" if "Suc i < length ss" "rest (ss ! i) it'' us" for i it'' us
      using Cons.prems(2) [of "Suc i" it'' us] that by simp
    ultimately have "collect next ss it' = Some ws"
      using Cons.IH [of it' ws] Cons.prems(1,5) ss Cons by simp
    then show ?thesis using n(1) Cons by (simp add: hd_or_def)
  qed
qed simp

section \<open>Iterators over a tree that nobody changes\<close>

abbreviation all_of :: "(bytes \<Rightarrow> bool) \<Rightarrow> (bytes \<times> 'v any) list \<Rightarrow> 'v any list" where
  "all_of P es \<equiv> map snd (filter (\<lambda>e. P (fst e)) es)"

text \<open>What a seek leaves to be returned, and that it survives every change that keeps the tree's nodes.\<close>

definition fiter :: "addr set \<Rightarrow> 'v store \<Rightarrow> api_iter \<Rightarrow> 'v any list \<Rightarrow> bool" where
  "fiter A s it vs = yields A s (iter_of it) vs"

definition riter :: "addr set \<Rightarrow> 'v store \<Rightarrow> api_riter \<Rightarrow> 'v any list \<Rightarrow> bool" where
  "riter A s it vs = ryields A s (riter_of it) vs"

lemma fiter_step: "fiter A s it vs \<Longrightarrow> \<exists>it'. api_Next s it = Some (hd_or vs, it') \<and> fiter A s it' (tl vs)"
  unfolding fiter_def api_Next_def using Next_yields [of A s "iter_of it" vs] by fastforce

lemma riter_step: "riter A s it vs \<Longrightarrow> \<exists>it'. api_Previous s it = Some (hd_or vs, it') \<and> riter A s it' (tl vs)"
  unfolding riter_def api_Previous_def using Previous_yields [of A s "riter_of it" vs] by fastforce

lemma collect_next:
  assumes "fiter A (hd ss) it vs" and "length vs < length ss"
    and "\<And>i. Suc i < length ss \<Longrightarrow> agree A (ss ! i) (ss ! Suc i)"
  shows "collect api_Next ss it = Some vs"
proof (rule collect_rest [where rest = "fiter A"])
  show "fiter A (ss ! Suc i) it vs" if "Suc i < length ss" "fiter A (ss ! i) it vs" for i it vs
    using yields_agree [OF that(2) [unfolded fiter_def] assms(3) [OF that(1)]] by (simp add: fiter_def)
qed (use assms fiter_step in auto)

lemma collect_previous:
  assumes "riter A (hd ss) it vs" and "length vs < length ss"
    and "\<And>i. Suc i < length ss \<Longrightarrow> agree A (ss ! i) (ss ! Suc i)"
  shows "collect api_Previous ss it = Some vs"
proof (rule collect_rest [where rest = "riter A"])
  show "riter A (ss ! Suc i) it vs" if "Suc i < length ss" "riter A (ss ! i) it vs" for i it vs
    using ryields_agree [OF that(2) [unfolded riter_def] assms(3) [OF that(1)]] by (simp add: riter_def)
qed (use assms riter_step in auto)

section \<open>Seeks\<close>

text \<open>An iterator in any state may be positioned: its stack only has to be one that its methods built.\<close>

definition iter_ok :: "api_iter \<Rightarrow> bool" where
  "iter_ok it \<longleftrightarrow> stack_ok (iter_of it)"

definition riter_ok :: "api_riter \<Rightarrow> bool" where
  "riter_ok it \<longleftrightarrow> stack_ok (riter_of it)"

lemma zero_iter_ok [simp]: "iter_ok zero_iter" "riter_ok zero_riter"
  by (simp_all add: iter_ok_def riter_ok_def zero_iter_def zero_riter_def zero_stack_ok)

lemma fiter_ok: "fiter A s it vs \<Longrightarrow> iter_ok it" "riter A s rit vs \<Longrightarrow> riter_ok rit"
  by (auto simp: fiter_def riter_def yields_def ryields_def on_stack_def iter_ok_def riter_ok_def)

lemma seek_prefix:
  assumes "tree_ok s (g :: unit gtree)" and "rtree_of t = Some (ad g)" and "iter_ok it"
  obtains w it' where "api_SeekPrefixWatch s it t p = Some (w, it')"
    and "fiter (set (addrs g)) s it' (all_of (\<lambda>k. starts k p) (contents s g))"
proof -
  obtain w st' where "SeekPrefixWatch s (Some (ad g)) p (iter_of it) = Some (\<lparr>slot_of = Some w, value_of = None\<rparr>, st')"
    "yields (set (addrs g)) s st' (all_of (\<lambda>k. starts k p) (contents s g))"
    using SeekPrefixWatch_spec [OF assms(1) assms(3) [unfolded iter_ok_def], of p] by metis
  then show ?thesis
    using assms(2) that [of "\<lparr>w_of = \<lparr>slot_of = Some w, value_of = None\<rparr>\<rparr>" "it\<lparr>iter_of := st'\<rparr>"]
    by (simp add: api_SeekPrefixWatch_def fiter_def)
qed

lemma seek_lower:
  assumes "tree_ok s (g :: unit gtree)" and "rtree_of t = Some (ad g)" and "iter_ok it"
  obtains it' where "api_SeekLowerBound s it t k = Some it'"
    and "fiter (set (addrs g)) s it' (all_of (\<lambda>x. k \<le> x) (contents s g))"
proof -
  obtain st' where "SeekLowerBound s (Some (ad g)) k (iter_of it) = Some st'"
    "yields (set (addrs g)) s st' (all_of (\<lambda>x. k \<le> x) (contents s g))"
    using SeekLowerBound_spec [OF assms(1) assms(3) [unfolded iter_ok_def], of k] by metis
  then show ?thesis
    using assms(2) that [of "it\<lparr>iter_of := st'\<rparr>"] by (simp add: api_SeekLowerBound_def fiter_def)
qed

lemma rseek_prefix:
  assumes "tree_ok s (g :: unit gtree)" and "rtree_of t = Some (ad g)" and "riter_ok it"
  obtains w it' where "api_ReverseSeekPrefixWatch s it t p = Some (w, it')"
    and "riter (set (addrs g)) s it' (rev (all_of (\<lambda>k. starts k p) (contents s g)))"
proof -
  obtain w st' where "ReverseSeekPrefixWatch s (Some (ad g)) p (riter_of it) = Some (\<lparr>slot_of = Some w, value_of = None\<rparr>, st')"
    "ryields (set (addrs g)) s st' (rev (all_of (\<lambda>k. starts k p) (contents s g)))"
    using ReverseSeekPrefixWatch_spec [OF assms(1) assms(3) [unfolded riter_ok_def], of p] by metis
  then show ?thesis
    using assms(2) that [of "\<lparr>w_of = \<lparr>slot_of = Some w, value_of = None\<rparr>\<rparr>" "it\<lparr>riter_of := st'\<rparr>"]
    by (simp add: api_ReverseSeekPrefixWatch_def riter_def)
qed

lemma rseek_lower:
  assumes "tree_ok s (g :: unit gtree)" and "rtree_of t = Some (ad g)" and "riter_ok it"
  obtains it' where "api_SeekReverseLowerBound s it t k = Some it'"
    and "riter (set (addrs g)) s it' (rev (all_of (\<lambda>x. x \<le> k) (contents s g)))"
proof -
  obtain st' where "SeekReverseLowerBound s (Some (ad g)) k (riter_of it) = Some st'"
    "ryields (set (addrs g)) s st' (rev (all_of (\<lambda>x. x \<le> k) (contents s g)))"
    using SeekReverseLowerBound_spec [OF assms(1) assms(3) [unfolded riter_ok_def], of k] by metis
  then show ?thesis
    using assms(2) that [of "it\<lparr>riter_of := st'\<rparr>"] by (simp add: api_SeekReverseLowerBound_def riter_def)
qed

section \<open>Interleaved with writers\<close>

text \<open>States that follow one another, with any number of steps in between.\<close>

fun chain :: "'v sys list \<Rightarrow> bool" where
  "chain [] \<longleftrightarrow> True"
| "chain [y] \<longleftrightarrow> True"
| "chain (y # z # ys) \<longleftrightarrow> steps y z \<and> chain (z # ys)"

lemma chain_nth: "chain ys \<Longrightarrow> Suc i < length ys \<Longrightarrow> steps (ys ! i) (ys ! Suc i)"
proof (induction ys arbitrary: i rule: chain.induct)
  case (3 y z ys)
  then show ?case by (cases i) simp_all
qed simp_all

lemma steps_trans: "steps x y \<Longrightarrow> steps y z \<Longrightarrow> steps x z"
  by (simp add: steps_def)

lemma chain_from: "chain (y # ys) \<Longrightarrow> z \<in> set (y # ys) \<Longrightarrow> steps y z"
proof (induction "y # ys" arbitrary: y ys rule: chain.induct)
  case (2 y)
  then show ?case by (simp add: steps_def)
next
  case (3 y x ys)
  then show ?case using steps_trans [of y x z] by (auto simp: steps_def)
qed

lemma chain_agree:
  assumes y: "sys_inv y" and t: "t \<in> shared y" and c: "chain (y # ys)"
  obtains g :: "unit gtree" where "t = Some (ad g)" and "tree_ok (heap y) g"
    and "\<And>i. Suc i < length (y # ys) \<Longrightarrow> agree (set (addrs g)) (heap ((y # ys) ! i)) (heap ((y # ys) ! Suc i))"
proof -
  obtain g :: "unit gtree" where g: "t = Some (ad g)" "tree_ok (heap y) g" "settled y (set (addrs g))"
    using sys_invD(2) [OF y t] by (auto simp: shared_ok_def)
  have b: "set (addrs g) \<subseteq> {..<next_node (heap y)}" using rep_bound [OF tree_okD(1) [OF g(2)]] by auto
  have "agree (set (addrs g)) (heap ((y # ys) ! i)) (heap ((y # ys) ! Suc i))" if i: "Suc i < length (y # ys)" for i
  proof -
    let ?z = "(y # ys) ! i"
    have yz: "steps y ?z" using chain_from [OF c nth_mem] i by simp
    have z: "settled ?z (set (addrs g))" "agree (set (addrs g)) (heap y) (heap ?z)"
      using steps_settled [OF yz y g(3) b] by simp_all
    have "set (addrs g) \<subseteq> {..<next_node (heap ?z)}" using b z(2) by (auto simp: agree_def)
    then show ?thesis using steps_settled [OF chain_nth [OF c i] steps_inv [OF yz y] z(1)] by simp
  qed
  then show ?thesis using that g by blast
qed

section \<open>Whole transactions as steps\<close>

lemma steps_step: "step x y \<Longrightarrow> steps y z \<Longrightarrow> steps x z"
  by (simp add: steps_def converse_rtranclp_into_rtranclp)

lemma steps_refl [simp]: "steps y y"
  by (simp add: steps_def)

lemma steps_run:
  "run txn_exec ps (T, heap y) = Some (rs, T', h) \<Longrightarrow> live y i = Some T \<Longrightarrow> txn_good (T, heap y) \<Longrightarrow>
    steps y (y\<lparr>heap := h, live := (live y)(i \<mapsto> T')\<rparr>)"
proof (induction ps arbitrary: T y rs)
  case Nil
  then have "y\<lparr>heap := h, live := (live y)(i \<mapsto> T')\<rparr> = y" by (simp add: fun_upd_idem)
  then show ?case using steps_refl by metis
next
  case (Cons p ps)
  obtain r T1 h1 where p: "txn_exec p (T, heap y) = Some (r, T1, h1)" and ps: "run txn_exec ps (T1, h1) = Some (tl rs, T', h)"
    using Cons.prems(1) by (auto split: Option.bind_splits)
  let ?z = "y\<lparr>heap := h1, live := (live y)(i \<mapsto> T1)\<rparr>"
  have "step y ?z" using Cons.prems(2,3) p by (intro s_write) auto
  moreover have "txn_good (T1, h1)" using txn_exec_good [OF Cons.prems(3), of p] p by (auto simp del: txn_good.simps txn_view.simps)
  then have "steps ?z (?z\<lparr>heap := h, live := (live ?z)(i \<mapsto> T')\<rparr>)" using ps by (intro Cons.IH) (simp_all del: txn_good.simps)
  moreover have "?z\<lparr>heap := h, live := (live ?z)(i \<mapsto> T')\<rparr> = y\<lparr>heap := h, live := (live y)(i \<mapsto> T')\<rparr>" by simp
  ultimately show ?case using steps_step [of y ?z] by metis
qed

text \<open>A transaction on a tree that was handed out, from its start to its commit.\<close>

lemma steps_txn:
  assumes t: "t \<in> shared y" and l: "live y = (\<lambda>_. None)"
    and r: "run txn_exec ps (StartTxn t nf, heap y) = Some (rs, T, h)" and g: "txn_good (StartTxn t nf, heap y)"
  shows "steps y (y\<lparr>heap := h, shared := insert (fst (Commit T)) (shared y)\<rparr>)"
proof -
  let ?y1 = "y\<lparr>live := (live y)(0 \<mapsto> StartTxn t nf)\<rparr>"
  let ?y2 = "?y1\<lparr>heap := h, live := (live ?y1)(0 \<mapsto> T)\<rparr>"
  have "step y ?y1" using t l by (intro s_start) simp_all
  moreover have "steps ?y1 ?y2" using r g by (intro steps_run) (simp_all del: txn_good.simps)
  moreover have "step ?y2 (?y2\<lparr>live := (live ?y2)(0 := None), shared := insert (fst (Commit T)) (shared ?y2)\<rparr>)"
    by (rule s_commit [where T = T]) (simp_all add: Commit_def)
  moreover have "?y2\<lparr>live := (live ?y2)(0 := None), shared := insert (fst (Commit T)) (shared ?y2)\<rparr> =
      y\<lparr>heap := h, shared := insert (fst (Commit T)) (shared y)\<rparr>"
    using l by (simp add: fun_eq_iff)
  ultimately have "steps ?y2 (y\<lparr>heap := h, shared := insert (fst (Commit T)) (shared y)\<rparr>)"
    using steps_step [OF _ steps_refl] by metis
  then show ?thesis using \<open>step y ?y1\<close> \<open>steps ?y1 ?y2\<close> steps_step steps_trans by blast
qed

end
