(* ===== verification/Exec.thy ===== *)
theory Exec
  imports Snapshot
begin

text \<open>
  The definitions run: code equations for the loops, and a small index on which the properties are
  exercised: three keys inserted, one of them a prefix of the others, in a tree with a notifier.
\<close>

declare Get_loop.simps [code] GetWatch_loop.simps [code] LongestPrefix_loop.simps [code]
  seekPrefix_loop.simps [code] countLeaves.simps [code] minNode.simps [code] maxNode.simps [code]
  Insert_loop.simps [code] Delete_descend.simps [code] DeletePrefix_descend.simps [code] sealSubtree.simps [code]
  SeekLowerBound_loop.simps [code] SeekReverseLowerBound_loop.simps [code] Next.simps [code] Previous.simps [code]

definition demo_new :: "api_tree \<times> nat store" where
  "demo_new = api_New (init_store DefaultBuild)"

definition demo_ops :: "nat kv_op list" where
  "demo_ops = [Put [1, 2] (Some 7), Put [1, 3] (Some 8), Put [1] (Some 9)]"

definition demo_txn :: api_txn where
  "demo_txn = api_Txn (fst demo_new) (Some \<lparr>n_of = 0\<rparr>)"

definition demo :: "api_txn \<times> nat store" where
  "demo = snd (the (run api_exec demo_ops (demo_txn, snd demo_new)))"

abbreviation demo_tree :: api_tree where
  "demo_tree \<equiv> fst (api_Commit (fst demo))"

abbreviation demo_es :: "(bytes \<times> nat any) list" where
  "demo_es \<equiv> [([1], Some 9), ([1, 2], Some 7), ([1, 3], Some 8)]"

lemma api_New_ok:
  assumes "epochs_ok h" and "api_New h = (t, s)"
  shows "holds s t []" and "epochs_ok s" and "epochCounter s = epochCounter h"
proof -
  obtain r where r: "NewTree h = (r, s)" "t = \<lparr>rtree_of = r\<rparr>"
    using assms(2) by (auto simp: api_New_def split: prod.splits)
  note n = NewTree_ok [OF r(1)]
  show "holds s t []" unfolding holds_def
    using n(1) n(2,3) [of "()"] r(2) by (intro exI [of _ "G (next_node h) () []"]) simp
  show "epochs_ok s" using assms(1) n(5-7) by (auto simp: epochs_ok_def less_Suc_eq zero_node_def)
  show "epochCounter s = epochCounter h" by (rule n(7))
qed

lemma holds_good:
  assumes "holds s t es" and "epochs_ok s" and "epochCounter s < epochMask"
  shows "api_good (api_Txn t nf, s)"
proof -
  obtain g :: "unit gtree" where g: "rtree_of t = Some (ad g)" "tree_ok s g" using holdsE [OF assms(1)] .
  then show ?thesis using assms StartTxn_ok [OF g(2)] by (auto simp: api_Txn_def)
qed

lemma good_holds:
  assumes "api_good (t, s)"
  obtains es where "holds s (api_Tree t) es" and "holds s (fst (api_Commit t)) es" and "map_of es = api_view (t, s)"
proof -
  obtain g :: "unit gtree" where g: "txn_ok (txn_of t) s g" using assms by auto
  have "holds s (api_Tree t) (contents s g)" "holds s (fst (api_Commit t)) (contents s g)"
    using txn_okD(1,2) [OF g] by (auto simp: holds_def api_Tree_def api_Commit_def TxnTree_def Commit_def)
  then show ?thesis using that txn_view_contents [OF g] by (metis api_view_txn)
qed

lemma map_of_inject:
  assumes "sorted_wrt (<) (map fst xs)" and "sorted_wrt (<) (map fst (ys :: (bytes \<times> 'a) list))" and "map_of xs = map_of ys"
  shows "xs = ys"
proof -
  have s: "set xs = set ys" using map_of_sorted [OF assms(1)] map_of_sorted [OF assms(2)] assms(3) by auto
  then have k: "map fst xs = map fst ys" using assms(1,2) by (intro strict_sorted_equal) auto
  show ?thesis
  proof (rule nth_equalityI)
    show "length xs = length ys" using arg_cong [OF k, of length] by simp
    show "xs ! i = ys ! i" if i: "i < length xs" for i
      using sorted_keys_unique [OF assms(2), of "xs ! i" "ys ! i"] s i k \<open>length xs = length ys\<close>
      by (metis nth_map nth_mem)
  qed
qed

lemma holds_unique: "holds s t es \<Longrightarrow> sorted_wrt (<) (map fst xs) \<Longrightarrow> map_of es = map_of xs \<Longrightarrow> es = xs"
  using map_of_inject [OF snap.sorted_law] by blast

section \<open>The example index\<close>

lemma demo_new_ok: "holds (snd demo_new) (fst demo_new) []" "epochs_ok (snd demo_new)" "epochCounter (snd demo_new) = 0"
proof -
  have "epochs_ok (init_store DefaultBuild :: nat store)" by (simp add: epochs_ok_def init_store_def world.defs)
  then show "holds (snd demo_new) (fst demo_new) []" "epochs_ok (snd demo_new)" "epochCounter (snd demo_new) = 0"
    using api_New_ok [of "init_store DefaultBuild" "fst demo_new" "snd demo_new"]
    by (simp_all add: demo_new_def init_store_def world.defs)
qed

lemma demo_start: "api_good (demo_txn, snd demo_new)"
  unfolding demo_txn_def
  by (rule holds_good [OF demo_new_ok(1,2)]) (simp add: demo_new_ok(3) epochMask_def valueBit_def)

lemma demo_view_start: "api_view (demo_txn, snd demo_new) = Map.empty"
proof -
  obtain es where "holds (snd demo_new) (api_Tree demo_txn) es" "map_of es = api_view (demo_txn, snd demo_new)"
    using good_holds [OF demo_start] by metis
  moreover have "rtree_of (api_Tree demo_txn) = rtree_of (fst demo_new)"
    by (simp add: api_Tree_def demo_txn_def api_Txn_def StartTxn_def TxnTree_def)
  ultimately show ?thesis using snap.get_law [OF demo_new_ok(1)]
    by (simp add: fun_eq_iff api_Get_def hit_def)
qed

lemma demo_run: "run api_exec demo_ops (demo_txn, snd demo_new) = Some (fst (run_map demo_ops Map.empty), demo)"
  and demo_good: "api_good demo" and demo_view: "api_view demo = map_of demo_es"
proof -
  obtain \<sigma> where r: "run api_exec demo_ops (demo_txn, snd demo_new) = Some (fst (run_map demo_ops Map.empty), \<sigma>)"
    "api_good \<sigma>" "api_view \<sigma> = snd (run_map demo_ops Map.empty)"
    using kv_api.run_good [OF demo_start, of demo_ops] unfolding demo_view_start by blast
  then have d: "demo = \<sigma>" by (simp add: demo_def)
  then show "run api_exec demo_ops (demo_txn, snd demo_new) = Some (fst (run_map demo_ops Map.empty), demo)" "api_good demo"
    using r by simp_all
  have "(snd (run_map demo_ops Map.empty) :: nat kv_map) = map_of demo_es"
    by (auto simp: demo_ops_def fun_eq_iff)
  then show "api_view demo = map_of demo_es" using r d by simp
qed

lemma demo_holds: "holds (snd demo) demo_tree demo_es"
proof -
  obtain es where "holds (snd demo) demo_tree es" "map_of es = api_view demo"
    using good_holds [of "fst demo" "snd demo"] demo_good by auto
  moreover from this have "es = demo_es"
    by (intro holds_unique) (simp_all add: demo_view)
  ultimately show ?thesis by simp
qed

section \<open>The example as a system\<close>

text \<open>The example committed, and then a transaction that cuts the keys below \<open>[1]\<close>, committed too.\<close>

definition demo_sys :: "nat sys" where
  "demo_sys = \<lparr>heap = snd demo, live = (\<lambda>_. None), shared = {rtree_of (fst demo_new), rtree_of demo_tree}, watches = {}\<rparr>"

definition demo_cut :: "nat kv_result list \<times> txn \<times> nat store" where
  "demo_cut = the (run txn_exec [Cut [1]] (StartTxn (rtree_of demo_tree) (Some 0), snd demo))"

definition demo_later :: "nat sys" where
  "demo_later = demo_sys\<lparr>heap := snd (snd demo_cut), shared := insert (fst (Commit (fst (snd demo_cut)))) (shared demo_sys)\<rparr>"

lemma run_api: "run api_exec ps (t, s) = map_option (\<lambda>(rs, t', s'). (rs, t\<lparr>txn_of := t'\<rparr>, s')) (run txn_exec ps (txn_of t, s))"
proof (induction ps arbitrary: t s)
  case (Cons p ps)
  show ?case
  proof (cases "txn_exec p (txn_of t, s)")
    case None
    then show ?thesis by (simp add: api_exec_txn)
  next
    case (Some x)
    then obtain r t' s' where x: "txn_exec p (txn_of t, s) = Some (r, t', s')" by (cases x) auto
    then show ?thesis
      using Cons.IH [of "t\<lparr>txn_of := t'\<rparr>" s'] by (cases "run txn_exec ps (t', s')") (auto simp: api_exec_txn)
  qed
qed simp

lemma demo_reachable: "reachable demo_sys" and demo_shared: "rtree_of demo_tree \<in> shared demo_sys"
proof -
  let ?y0 = "init_sys DefaultBuild :: nat sys"
  let ?y1 = "?y0\<lparr>heap := snd demo_new, shared := insert (rtree_of (fst demo_new)) (shared ?y0)\<rparr>"
  have "NewTree (heap ?y0) = (rtree_of (fst demo_new), snd demo_new)"
    by (simp add: demo_new_def api_New_def init_sys_def split: prod.split)
  then have 1: "step ?y0 ?y1" by (rule s_new)
  have st: "txn_of demo_txn = StartTxn (rtree_of (fst demo_new)) (Some 0)" by (simp add: demo_txn_def api_Txn_def)
  have r: "run txn_exec demo_ops (txn_of demo_txn, snd demo_new) =
      Some (fst (run_map demo_ops Map.empty), txn_of (fst demo), snd demo)"
  proof -
    obtain aa ba where a: "run txn_exec demo_ops (txn_of demo_txn, snd demo_new) = Some (fst (run_map demo_ops Map.empty), aa, ba)"
      "demo = (demo_txn\<lparr>txn_of := aa\<rparr>, ba)"
      using demo_run unfolding run_api by auto
    show ?thesis unfolding a(1) by (subst a(2), subst a(2)) simp
  qed
  have "steps ?y1 (?y1\<lparr>heap := snd demo, shared := insert (fst (Commit (txn_of (fst demo)))) (shared ?y1)\<rparr>)"
  proof (rule steps_txn [where t = "rtree_of (fst demo_new)" and nf = "Some 0"])
    show "txn_good (StartTxn (rtree_of (fst demo_new)) (Some 0), heap ?y1)"
      using demo_start unfolding api_good.simps st by simp
    show "run txn_exec demo_ops (StartTxn (rtree_of (fst demo_new)) (Some 0), heap ?y1) =
        Some (fst (run_map demo_ops Map.empty), txn_of (fst demo), snd demo)"
      using r unfolding st by simp
  qed (simp_all add: init_sys_def)
  moreover have "?y1\<lparr>heap := snd demo, shared := insert (fst (Commit (txn_of (fst demo)))) (shared ?y1)\<rparr> = demo_sys"
    by (auto simp: demo_sys_def init_sys_def api_Commit_def split: prod.split)
  ultimately show "reachable demo_sys" using 1 steps_step unfolding reachable_def by metis
  show "rtree_of demo_tree \<in> shared demo_sys" by (simp add: demo_sys_def)
qed

lemma demo_epoch: "epochCounter (snd demo) = 1"
  by code_simp

lemma demo_later_steps: "steps demo_sys demo_later"
proof -
  have e: "epochs_ok (snd demo)" using sys_invD(1) [OF reachable_inv [OF demo_reachable]] by (simp add: demo_sys_def)
  have "api_good (api_Txn demo_tree (Some \<lparr>n_of = 0\<rparr>), snd demo)"
    by (rule holds_good [OF demo_holds e]) (simp add: demo_epoch epochMask_def valueBit_def)
  then have g: "txn_good (StartTxn (rtree_of demo_tree) (Some 0), snd demo)" by (simp add: api_Txn_def)
  obtain rs T h where r: "run txn_exec [Cut [1]] (StartTxn (rtree_of demo_tree) (Some 0), snd demo) = Some (rs, T, h)"
    using kv_txn.run_total [OF g, of "[Cut [1]]"] by (cases "run txn_exec [Cut [1]] (StartTxn (rtree_of demo_tree) (Some 0), snd demo)") auto
  have "steps demo_sys (demo_sys\<lparr>heap := h, shared := insert (fst (Commit T)) (shared demo_sys)\<rparr>)"
    by (rule steps_txn [OF demo_shared]) (use r g in \<open>simp_all add: demo_sys_def del: txn_good.simps run.simps\<close>)
  then show ?thesis using r by (simp add: demo_later_def demo_cut_def)
qed

end
