(* ===== verification/Bounds.thy ===== *)
theory Bounds
  imports Exec
begin

text \<open>
  Sizes and boundaries: a tree has at most twice as many nodes as keys, size classes above four waste
  less than half of their room, the searches return extremal keys, an iterator at its end stays there,
  and a transaction changes nothing of the trees it does not own.
\<close>

section \<open>Path compression bounds the number of nodes\<close>

fun tree_size :: "'v rtree \<Rightarrow> nat" where
  "tree_size (RT p ov ks) = 1 + sum_list (map tree_size ks)"

lemma absn_tree_size: "tree_size (absn s g) = length (addrs g)"
  by (induction g rule: gtree.induct) (simp add: length_concat comp_def cong: map_cong)

lemma sum_list_ge_twice:
  assumes "\<And>c. c \<in> set ks \<Longrightarrow> f c + 1 \<le> 2 * g c"
  shows "sum_list (map f ks) + length ks \<le> 2 * sum_list (map (g :: 'a \<Rightarrow> nat) ks)"
  using assms
proof (induction ks)
  case (Cons c ks)
  then have "f c + 1 \<le> 2 * g c" "sum_list (map f ks) + length ks \<le> 2 * sum_list (map g ks)" by simp_all
  then show ?case by simp
qed simp

lemma length_ents_RT: "length (ents (RT p ov ks)) = (if ov = None then 0 else 1) + sum_list (map (\<lambda>c. length (ents c)) ks)"
  by (cases ov) (simp_all add: ents.simps own_ents_def length_concat comp_def)

lemma wf_sub_size: "wf_sub t \<Longrightarrow> tree_size t + 1 \<le> 2 * length (ents t)"
proof (induction t rule: rtree_induct)
  case (RT p ov ks)
  have k: "wf_sub c" if "c \<in> set ks" for c using wf_kids_sub [OF wf_subD(2) [OF RT.prems]] that by simp
  have "sum_list (map tree_size ks) + length ks \<le> 2 * sum_list (map (\<lambda>c. length (ents c)) ks)"
    by (rule sum_list_ge_twice) (use RT.IH k in auto)
  moreover have "ov = None \<Longrightarrow> 2 \<le> length ks" using wf_subD(3) [OF RT.prems] by simp
  ultimately show ?case unfolding length_ents_RT by (cases ov) auto
qed

lemma nodes_le_keys:
  assumes "tree_ok s g"
  shows "length (addrs g) \<le> (if contents s g = [] then 1 else 2 * length (contents s g))"
proof -
  obtain p ov ks where t: "absn s g = RT p ov ks" by (cases "absn s g")
  have w: "wf_root (RT p ov ks)" using assms by (simp add: tree_ok_def t)
  then have "sum_list (map tree_size ks) + length ks \<le> 2 * sum_list (map (\<lambda>c. length (ents c)) ks)"
    by (intro sum_list_ge_twice wf_sub_size) (auto simp: wf_root_def wf_kids_def)
  moreover have "contents s g = ents (RT p ov ks)" using wf_root_below [OF w] by (simp add: contents_def t)
  moreover have "ents c \<noteq> []" if "c \<in> set ks" for c
    using wf_sub_size [of c] wf_kids_sub [of ks c] that w by (fastforce simp: wf_root_def)
  then have "ks \<noteq> [] \<Longrightarrow> ents (RT p ov ks) \<noteq> []" by (cases ks) (auto simp: ents.simps)
  ultimately show ?thesis
    using absn_tree_size [of s g] length_ents_RT [of p ov ks] unfolding t
    by (cases ks; cases ov) (auto simp del: ents.simps)
qed

text \<open>The nodes of a tree: what the child pointers lead to from its root.\<close>

definition kid_of :: "'v store \<Rightarrow> addr \<Rightarrow> addr \<Rightarrow> bool" where
  "kid_of s a b \<longleftrightarrow> (\<exists>i < kidCount (nodes s a). kid (nodes s a) i = Some b)"

definition tree_nodes :: "'v store \<Rightarrow> tree \<Rightarrow> addr set" where
  "tree_nodes s t = {b. \<exists>r. t = Some r \<and> (kid_of s)\<^sup>*\<^sup>* r b}"

lemma rep_kid_of: "rep s g \<Longrightarrow> kid_of s (ad g) b \<longleftrightarrow> (\<exists>c \<in> set (gk g). b = ad c)"
  using rep_kid [of s g] unfolding kid_of_def rep_kidCount set_conv_nth by fastforce

lemma kid_of_addrs: "rep s g \<Longrightarrow> a \<in> set (addrs g) \<Longrightarrow> kid_of s a b \<Longrightarrow> b \<in> set (addrs g)"
proof (induction g)
  case (G r x gs)
  show ?case
  proof (cases "a = r")
    case True
    then obtain c where c: "c \<in> set gs" "b = ad c" using rep_kid_of [OF G.prems(1), of b] G.prems(3) by auto
    then have "\<exists>c \<in> set gs. b \<in> set (addrs c)" by (intro bexI [of _ c]) simp_all
    then show ?thesis by simp
  next
    case False
    then obtain c where "c \<in> set gs" "a \<in> set (addrs c)" using G.prems(2) by auto
    then show ?thesis using G.IH [of c] G.prems(1,3) by auto
  qed
qed

lemma addrs_kid_of: "rep s g \<Longrightarrow> b \<in> set (addrs g) \<Longrightarrow> (kid_of s)\<^sup>*\<^sup>* (ad g) b"
proof (induction g)
  case (G r x gs)
  show ?case
  proof (cases "b = r")
    case False
    then obtain c where c: "c \<in> set gs" "b \<in> set (addrs c)" using G.prems(2) by auto
    then have "kid_of s r (ad c)" using rep_kid_of [OF G.prems(1), of "ad c"] by auto
    moreover have "(kid_of s)\<^sup>*\<^sup>* (ad c) b" using G.IH [OF c(1)] G.prems(1) c by auto
    ultimately show ?thesis by (simp add: converse_rtranclp_into_rtranclp)
  qed simp
qed

lemma tree_nodes_addrs:
  assumes "rep s g"
  shows "tree_nodes s (Some (ad g)) = set (addrs g)"
proof -
  have "b \<in> set (addrs g)" if "(kid_of s)\<^sup>*\<^sup>* (ad g) b" for b
    using that by (induction rule: rtranclp_induct) (auto intro: kid_of_addrs [OF assms])
  then show ?thesis using addrs_kid_of [OF assms] by (auto simp: tree_nodes_def)
qed

lemma tree_nodes_le:
  assumes "tree_ok s (g :: unit gtree)"
  shows "Len s (Some (ad g)) = Some (length (contents s g)) \<and> finite (tree_nodes s (Some (ad g))) \<and>
    card (tree_nodes s (Some (ad g))) \<le> (if contents s g = [] then 1 else 2 * length (contents s g))"
  using nodes_le_keys [OF assms] tree_nodes_addrs [OF tree_okD(1) [OF assms]] Len_spec [OF assms]
    card_length [of "addrs g"] by (auto split: if_splits)

section \<open>Size classes\<close>

lemma size_class_bounds:
  assumes "n \<le> 256"
  shows "n \<le> size_class b n" and "size_class b n \<le> 256" and "4 < n \<Longrightarrow> size_class b n < 2 * n" and "size_class b n = 0 \<longleftrightarrow> n = 0"
    and "n \<le> 4 \<Longrightarrow> size_class b n \<le> 4"
  using assms by (auto simp: size_classes)

lemma copies_rounded_up: "kidCap (newNode b 5) = 8"
  by (simp add: kidCap_def newNode_def size_classes)

section \<open>The end of an iteration\<close>

text \<open>Only an empty stack reports the end, and an empty stack reports nothing else.\<close>

lemma Next_empty: "depth st = 0 \<Longrightarrow> Next s st = Some (no_value, st)"
  by (subst Next.simps) simp

lemma Previous_empty: "depth st = 0 \<Longrightarrow> Previous s st = Some (no_value, st)"
  by (subst Previous.simps) simp

definition ended :: "('v any \<times> bool) \<times> stack \<Rightarrow> bool" where
  "ended r \<longleftrightarrow> snd (fst r) \<or> fst r = no_value \<and> depth (snd r) = 0"

lemma ended_True: "ended ((v, True), st)"
  by (simp add: ended_def)

lemma Next_end:
  assumes "Next s st = Some r"
  shows "ended r"
proof (rule Next.raw_induct [where P = "\<lambda>s st r. ended r", OF _ assms])
  fix f :: "'a store \<Rightarrow> stack \<Rightarrow> (('a any \<times> bool) \<times> stack) option" and s st r
  assume ih: "\<And>s st r. f s st = Some r \<Longrightarrow> ended r"
    and body: "(if depth st > 0 then do {
        (n, i) \<leftarrow> top_frame st;
        if i <s 0 \<and> i = leafOnly then Some ((val (nodes s n), True), pop st)
        else let first = i <s 0;
                 i = (if first then 0 else i);
                 st = (if first then set_top i st else st)
          in if first \<and> hasValue (nodes s n) then Some ((val (nodes s n), True), st)
             else if sint i \<ge> int (frameKids (nodes s n)) then f s (pop st)
             else do {
               c \<leftarrow> kid (nodes s n) (nat (sint i));
               let st = set_top (i + 1) st;
               if childless (nodes s c) then Some ((val (nodes s c), True), st)
               else do { st \<leftarrow> push c (- 1) st; f s st } } }
      else Some (no_value, st)) = Some r"
  show "ended r"
  proof (cases "depth st > 0")
    case False
    then show ?thesis using body by (auto simp: ended_def)
  next
    case True
    then show ?thesis
      using body by (auto simp: Let_def ended_True split: Option.bind_splits if_splits intro: ih)
  qed
qed

lemma Previous_end:
  assumes "Previous s st = Some r"
  shows "ended r"
proof (rule Previous.raw_induct [where P = "\<lambda>s st r. ended r", OF _ assms])
  fix f :: "'a store \<Rightarrow> stack \<Rightarrow> (('a any \<times> bool) \<times> stack) option" and s st r
  assume ih: "\<And>s st r. f s st = Some r \<Longrightarrow> ended r"
    and body: "(if depth st > 0 then do {
        (n, i) \<leftarrow> top_frame st;
        if i <s 0 then
          let st = pop st in
          if hasValue (nodes s n) then Some ((val (nodes s n), True), st) else f s st
        else do {
          c \<leftarrow> kid (nodes s n) (nat (sint i));
          let st = set_top (i - 1) st;
          if childless (nodes s c) then Some ((val (nodes s c), True), st)
          else do { st \<leftarrow> push c (int (frameKids (nodes s c)) - 1) st; f s st } } }
      else Some (no_value, st)) = Some r"
  show "ended r"
  proof (cases "depth st > 0")
    case False
    then show ?thesis using body by (auto simp: ended_def)
  next
    case True
    then show ?thesis
      using body by (auto simp: Let_def ended_True split: Option.bind_splits if_splits intro: ih)
  qed
qed

section \<open>Extremal keys\<close>

lemma prefixes_ordered: "starts k p \<Longrightarrow> starts k q \<Longrightarrow> p \<le> q \<longleftrightarrow> length p \<le> length q"
  using starts_linear [of k p q] starts_linear [of k q p] lex_prefix_le
  by (metis antisym nle_le order_refl starts_iff starts_length)

lemma sorted_last_max:
  assumes "sorted_wrt (<) (map fst (es :: (bytes \<times> 'a) list))" and "e \<in> set es"
  shows "fst e \<le> fst (last es)"
  using assms by (induction es rule: rev_induct) (auto simp: sorted_wrt_append intro: less_imp_le)

lemma sorted_hd_min:
  assumes "sorted_wrt (<) (map fst (es :: (bytes \<times> 'a) list))" and "e \<in> set es"
  shows "fst (hd es) \<le> fst e"
  using assms by (induction es) (auto intro: less_imp_le)

lemma sorted_filter_keys: "sorted_wrt (<) (map fst es) \<Longrightarrow> sorted_wrt (<) (map fst (filter P es))"
  by (simp add: sorted_wrt_map sorted_wrt_filter)

lemma final_or_max:
  assumes "sorted_wrt (<) (map fst (es :: (bytes \<times> 'v any) list))" and "filter (\<lambda>e. P (fst e)) es \<noteq> []"
  shows "\<exists>k v. final_or (map snd (filter (\<lambda>e. P (fst e)) es)) = (v, True) \<and> (k, v) \<in> set es \<and> P k \<and>
    (\<forall>e \<in> set es. P (fst e) \<longrightarrow> fst e \<le> k)"
proof -
  let ?fs = "filter (\<lambda>e. P (fst e)) es"
  have "last ?fs \<in> set ?fs" using assms(2) by (rule last_in_set)
  moreover have "final_or (map snd ?fs) = (snd (last ?fs), True)" using assms(2) by (simp add: final_or_last last_map)
  ultimately show ?thesis using sorted_last_max [OF sorted_filter_keys [OF assms(1)], of _ "\<lambda>e. P (fst e)"]
    by (intro exI [of _ "fst (last ?fs)"] exI [of _ "snd (last ?fs)"]) auto
qed

lemma first_or_min:
  assumes "sorted_wrt (<) (map fst (es :: (bytes \<times> 'v any) list))" and "filter (\<lambda>e. P (fst e)) es \<noteq> []"
  shows "\<exists>k v. first_or (map snd (filter (\<lambda>e. P (fst e)) es)) = (v, True) \<and> (k, v) \<in> set es \<and> P k \<and>
    (\<forall>e \<in> set es. P (fst e) \<longrightarrow> k \<le> fst e)"
proof -
  let ?fs = "filter (\<lambda>e. P (fst e)) es"
  have "hd ?fs \<in> set ?fs" using assms(2) by (rule hd_in_set)
  moreover have "first_or (map snd ?fs) = (snd (hd ?fs), True)" using assms(2) by (cases ?fs) (simp_all add: first_or_def)
  ultimately show ?thesis using sorted_hd_min [OF sorted_filter_keys [OF assms(1)], of _ "\<lambda>e. P (fst e)"]
    by (intro exI [of _ "fst (hd ?fs)"] exI [of _ "snd (hd ?fs)"]) auto
qed

lemma none_left: "filter P es = [] \<Longrightarrow> e \<in> set es \<Longrightarrow> \<not> P e"
  by (auto simp: filter_empty_conv)

section \<open>Watches and misses\<close>

lemma GetWatch_spec:
  fixes g :: "unit gtree"
  assumes "tree_ok s g"
  shows "\<exists>w. GetWatch s (Some (ad g)) k = Some (w, hit (map_of (contents s g) k)) \<and>
    (case map_of (contents s g) k of
       None \<Rightarrow> \<exists>n \<in> set (addrs g). w = \<lparr>slot_of = Some n, value_of = None\<rparr>
     | Some v \<Rightarrow> \<exists>n \<in> set (addrs g). w = \<lparr>slot_of = None, value_of = Some n\<rparr> \<and> value_at (nodes s n) = Some v)"
  using GetWatch_loop_spec [OF tree_okD(1,2) [OF assms] ad_in_addrs, of k] tree_okD(2) [OF assms]
  by (auto simp: GetWatch_def contents_def look_below found_hit split: option.splits)

lemma value_at_Some: "value_at n = Some v \<longleftrightarrow> hasValue n \<and> val n = v"
  by (simp add: value_at_def)

lemma txn_misses:
  assumes "txn_good (t, s)"
  shows "txn_view (t, s) p = None \<Longrightarrow> Delete t p s = Some ((None, False), t, s)"
    and "p \<noteq> [] \<Longrightarrow> (\<And>k. starts k p \<Longrightarrow> txn_view (t, s) k = None) \<Longrightarrow> DeletePrefix t p s = Some (False, t, s)"
proof -
  obtain g :: "unit gtree" where s: "epochs_ok s" and room: "tepoch t = 0 \<Longrightarrow> epochCounter s < epochMask" and t: "txn_ok t s g"
    using assms(1) by auto
  note v = txn_view_contents [OF t]
  show "Delete t p s = Some ((None, False), t, s)" if "txn_view (t, s) p = None"
    using Delete_ok [OF s t room, of p] that v by (fastforce simp: found_hit hit_def)
  assume ne: "p \<noteq> []" and miss: "\<And>k. starts k p \<Longrightarrow> txn_view (t, s) k = None"
  have none: "map_of (contents s g) k = None" if "starts k p" for k using miss [OF that] v by simp
  obtain t1 s1 where b: "begin_txn t s = (t1, s1)" by (cases "begin_txn t s")
  have "\<not> (p = [] \<or> (\<exists>e \<in> set (contents s g). starts (fst e) p))"
    using none ne by (auto simp: map_of_eq_None_iff)
  moreover have wk: "wf_kids (subs (absn s g))" using txn_okD(2) [OF t] by (simp add: tree_ok_def wf_root_def)
  ultimately have "locatep p (absn s g) = None" using locatep_hit [OF wk, of p] by (simp add: contents_def)
  then show "DeletePrefix t p s = Some (False, t, s)"
    using DeletePrefix_spec [OF b begin_writable(1) [OF s t room b], of p "\<lambda>v x. v"] by (simp only: if_True)
qed

section \<open>A handed-out tree along a run\<close>

lemma holds_contents:
  assumes "holds s t es" and "rtree_of t = Some (ad g)" and "tree_ok s (g :: unit gtree)"
  shows "contents s g = es"
proof -
  have h: "holds s t (contents s g)" using assms(2,3) by (auto simp: holds_def)
  have "map_of (contents s g) k = map_of es k" for k
    using snap.get_law [OF assms(1), of k] snap.get_law [OF h, of k] by (metis hit_case option.inject)
  then show ?thesis by (intro map_of_inject snap.sorted_law [OF assms(1)] snap.sorted_law [OF h]) auto
qed

lemma shared_chain:
  assumes "reachable y" and "rtree_of t \<in> shared y" and "holds (heap y) t es" and "chain (y # ys)"
  obtains g :: "unit gtree" where "rtree_of t = Some (ad g)" and "tree_ok (heap y) g" and "contents (heap y) g = es"
    and "\<And>i. Suc i < length (y # ys) \<Longrightarrow> agree (set (addrs g)) (heap ((y # ys) ! i)) (heap ((y # ys) ! Suc i))"
  using chain_agree [OF reachable_inv [OF assms(1)] assms(2,4)] holds_contents [OF assms(3)] by metis

lemma collect_on_chain:
  assumes "\<And>i. Suc i < length (y # ys) \<Longrightarrow> agree A (heap ((y # ys) ! i)) (heap ((y # ys) ! Suc i))" and "length vs \<le> length ys"
  shows "fiter A (heap y) it vs \<Longrightarrow> collect api_Next (map heap (y # ys)) it = Some vs"
    and "riter A (heap y) rit vs \<Longrightarrow> collect api_Previous (map heap (y # ys)) rit = Some vs"
proof -
  have ag: "agree A (map heap (y # ys) ! i) (map heap (y # ys) ! Suc i)" if "Suc i < length (map heap (y # ys))" for i
    using assms(1) [of i] that by (simp only: nth_map length_map Suc_lessD)
  show "collect api_Next (map heap (y # ys)) it = Some vs" if "fiter A (heap y) it vs"
    by (rule collect_next [where A = A, OF _ _ ag]) (use that assms(2) in simp_all)
  show "collect api_Previous (map heap (y # ys)) rit = Some vs" if "riter A (heap y) rit vs"
    by (rule collect_previous [where A = A, OF _ _ ag]) (use that assms(2) in simp_all)
qed

section \<open>A transaction leaves what it does not own\<close>

lemma exec_frame:
  assumes "txn_good (T, h)" and "txn_exec p (T, h) = Some (r, T', h')" and "A \<subseteq> {..<next_node h}" and "free_of T h A"
  shows "agree A h h' \<and> free_of T' h' A \<and> A \<subseteq> {..<next_node h'} \<and> txn_good (T', h') \<and> epochCounter h \<le> epochCounter h'"
proof -
  obtain g :: "unit gtree" where s: "epochs_ok h" and t: "txn_ok T h g" and room: "tepoch T = 0 \<longrightarrow> epochCounter h < epochMask"
    using assms(1) by auto
  obtain g' where o: "op_ok T h g T' h' g'" using exec_op_ok [OF s t room assms(2)] by blast
  have w: "same_node (nodes h a) (nodes h' a) \<and> free_of T' h' {a}" if "a \<in> A" for a
    using op_ok_writer [OF s o, of a] that assms(3,4) free_of_singletons [of T h A] by auto
  moreover have "next_node h \<le> next_node h'" "epochCounter h \<le> epochCounter h'" using o by (simp_all add: op_ok_def keeps_def)
  moreover have "txn_good (T', h')"
    using txn_exec_good [OF assms(1), of p] assms(2) by (auto simp del: txn_good.simps txn_view.simps)
  ultimately show ?thesis using free_of_singletons [of T' h' A] assms(3) by (auto simp: agree_def)
qed

lemma run_frame:
  "txn_good (T, h) \<Longrightarrow> run txn_exec ps (T, h) = Some (rs, T', h') \<Longrightarrow> A \<subseteq> {..<next_node h} \<Longrightarrow> free_of T h A \<Longrightarrow>
    agree A h h' \<and> epochCounter h \<le> epochCounter h' \<and> txn_good (T', h')"
proof (induction ps arbitrary: T h rs)
  case (Cons p ps)
  obtain r T1 h1 where p: "txn_exec p (T, h) = Some (r, T1, h1)" and ps: "run txn_exec ps (T1, h1) = Some (tl rs, T', h')"
    using Cons.prems(2) by (auto split: Option.bind_splits)
  note f = exec_frame [OF Cons.prems(1) p Cons.prems(3,4)]
  have "agree A h1 h' \<and> epochCounter h1 \<le> epochCounter h' \<and> txn_good (T', h')" using Cons.IH [OF _ ps] f by blast
  then show ?case using f agree_trans order_trans by blast
qed simp

text \<open>The tree of another transaction is among what a run does not own.\<close>

lemma run_other:
  assumes y: "sys_inv y" and i: "live y i = Some T" and j: "live y j = Some U" and ij: "i \<noteq> j"
    and room: "tepoch U = 0 \<longrightarrow> epochCounter (heap y) < epochMask" and r: "run txn_exec ps (U, heap y) = Some (rs, U', h)"
  obtains g :: "unit gtree" where "txn_ok T (heap y) g" and "txn_ok T h g" and "epochs_ok h"
    and "contents h g = contents (heap y) g" and "epochCounter (heap y) \<le> epochCounter h"
proof -
  obtain gu :: "unit gtree" where "txn_ok U (heap y) gu" using sys_invD(3) [OF y j] by (auto simp: live_ok_def)
  then have gd: "txn_good (U, heap y)" using room sys_invD(1) [OF y] by auto
  obtain g :: "unit gtree" where g: "txn_ok T (heap y) g" and f: "free_of U (heap y) (set (addrs g))"
    using sys_invD(3) [OF y i] j ij unfolding live_ok_def by metis
  have "set (addrs g) \<subseteq> {..<next_node (heap y)}" using rep_bound [OF tree_okD(1) [OF txn_okD(2) [OF g]]] by auto
  note a = run_frame [OF gd r this f]
  then have "txn_ok T h g" "contents h g = contents (heap y) g"
    using txn_ok_agree [OF g] tree_ok_agree [OF txn_okD(2) [OF g]] by blast+
  then show ?thesis using that [OF g] a by simp
qed

lemma frozen_keeps:
  assumes "txn_good (T, h)" and "tepoch T = 0" and "run txn_exec ps (T, h) = Some (rs, T', h')" and "holds h t es"
  shows "holds h' t es"
proof -
  obtain g :: "unit gtree" where g: "rtree_of t = Some (ad g)" "tree_ok h g" "contents h g = es" using holdsE [OF assms(4)] .
  have "set (addrs g) \<subseteq> {..<next_node h}" using rep_bound [OF tree_okD(1) [OF g(2)]] by auto
  then have "agree (set (addrs g)) h h'" using run_frame [OF assms(1,3), of "set (addrs g)"] assms(2) by (simp add: free_of_def)
  then show ?thesis using tree_ok_agree [OF g(2)] g by (auto simp: holds_def)
qed

lemma reads_same_holds:
  assumes "reads_same h h'" and "holds h t es"
  shows "holds h' t es"
proof -
  obtain g :: "unit gtree" where g: "rtree_of t = Some (ad g)" "tree_ok h g" "contents h g = es" using holdsE [OF assms(2)] .
  then show ?thesis using tree_ok_agree [OF g(2) reads_same_agree [OF assms(1) tree_okD(1) [OF g(2)]]] by (auto simp: holds_def)
qed

section \<open>Facts of the example\<close>

lemma demo_at_sys: "holds (heap demo_sys) demo_tree demo_es"
  using demo_holds by (simp add: demo_sys_def)

lemma demo_epochs_ok: "epochs_ok (snd demo)"
  using sys_invD(1) [OF reachable_inv [OF demo_reachable]] by (simp add: demo_sys_def)

lemma demo_frozen_good: "api_good (api_Freeze (fst demo), snd demo)"
proof -
  have "api_good (fst demo, snd demo)" using demo_good by simp
  then obtain g :: "unit gtree" where t: "txn_ok (txn_of (fst demo)) (snd demo) g" unfolding api_good.simps txn_good.simps by blast
  show ?thesis
    using demo_epochs_ok Freeze_ok [OF t] by (auto simp: api_Freeze_def demo_epoch epochMask_def valueBit_def)
qed

text \<open>An iterator run to its end.\<close>

lemma demo_end:
  obtains it it1 it2 where "api_SeekLowerBound (snd demo) zero_iter demo_tree [1, 3] = Some it"
    and "api_Next (snd demo) it = Some ((Some 8, True), it1)" and "api_Next (snd demo) it1 = Some ((None, False), it2)"
proof -
  obtain g :: "unit gtree" where g: "rtree_of demo_tree = Some (ad g)" "tree_ok (snd demo) g" "contents (snd demo) g = demo_es"
    by (rule holdsE [OF demo_holds])
  obtain it where it: "api_SeekLowerBound (snd demo) zero_iter demo_tree [1, 3] = Some it"
    "fiter (set (addrs g)) (snd demo) it (all_of (\<lambda>x. [1, 3] \<le> x) demo_es)"
    using seek_lower [OF g(2,1) zero_iter_ok(1), of "[1, 3]"] g(3) by metis
  moreover have "all_of (\<lambda>x. [1, 3] \<le> x) demo_es = [Some 8]" by simp
  ultimately have "collect api_Next [snd demo, snd demo] it = Some [Some 8]"
    using collect_on_chain(1) [where y = demo_sys and ys = "[demo_sys]" and A = "set (addrs g)" and it = it and vs = "[Some 8]"]
    by (simp add: demo_sys_def agree_def)
  then obtain it1 v it2 where n: "api_Next (snd demo) it = Some ((Some 8, True), it1)" "api_Next (snd demo) it1 = Some ((v, False), it2)"
    by (auto split: option.splits prod.splits if_splits)
  obtain st where "Next (snd demo) (iter_of it1) = Some ((v, False), st)"
    using n(2) by (auto simp: api_Next_def split: Option.bind_splits)
  then have "v = None" using Next_end by (fastforce simp: ended_def)
  then show ?thesis using that it(1) n by blast
qed

lemma demo_notify: obtains h where "api_Notify \<lparr>n_of = 0\<rparr> (heap demo_sys) = Some h"
proof -
  have "\<not> Option.is_none (api_Notify \<lparr>n_of = 0\<rparr> (snd demo))" by code_simp
  then show ?thesis using that by (cases "api_Notify \<lparr>n_of = 0\<rparr> (snd demo)") (auto simp: demo_sys_def)
qed

end
