(* ===== verification/Layout.thy ===== *)
theory Layout
  imports Lookup
begin

text \<open>
  The node of the default build (\<^verbatim>\<open>internal/radix/node_unsafe.go\<close> and \<^verbatim>\<open>segment_unsafe.go\<close>): a header
  whose 34 bytes after the value are a union.  In a node that may have children they are the label
  bitmap and the child count; in a compact leaf they are the path segment.  The model keeps those
  bytes as bytes, in the byte order and with the pointer size of the target, strings as references
  into an allocation, and the child array as what follows the header.  \<open>uview\<close> reads the node of
  the pure-safe build off it, and every accessor is shown to agree with that build's.
\<close>

section \<open>Targets, allocations and strings\<close>

record arch =
  ptrSize :: nat
  bigEndian :: bool

text \<open>
  What a string's data pointer may point into: nothing, an entry of the table of one-byte strings,
  a byte buffer on the heap, or the allocation of a node.
\<close>

datatype base = NilPtr | OneByte byte | Buf nat | Obj addr

record gostr =
  sbase :: base
  soff :: nat
  slen :: nat

definition empty_str :: gostr where
  "empty_str = \<lparr>sbase = NilPtr, soff = 0, slen = 0\<rparr>"

text \<open>
  \<open>area\<close> is the union; \<open>uarr\<close> the child array of a size-classed node and \<open>useg\<close> the trailing
  segment of \<open>leaf48\<close> and \<open>leaf64\<close>, both directly after the header and empty in a bare one.
\<close>

record 'v unode =
  uprefix :: gostr
  uval :: "'v any"
  area :: bytes
  uckids :: "16 word"
  uleaf :: "laddr option"
  uwatch :: slot
  uepoch :: u64
  uarr :: "addr option list"
  useg :: bytes

record 'v umem =
  unodes :: "addr \<Rightarrow> 'v unode"
  unext :: nat
  bufs :: "nat \<Rightarrow> bytes"
  next_buf :: nat

section \<open>Offsets\<close>

text \<open>
  The sizes of the header's fields in order: two-word string, two-word interface, bitmap, the two
  counters, padding, leaf and watch pointers, epoch.  All of them are multiples of the alignment of
  the next one.
\<close>

definition field_sizes :: "arch \<Rightarrow> nat list" where
  "field_sizes k = [2 * ptrSize k, 2 * ptrSize k, 4 * 8, 2, 2, 4, ptrSize k, ptrSize k, 8]"

definition offset_of :: "arch \<Rightarrow> nat \<Rightarrow> nat" where
  "offset_of k i = sum_list (take i (field_sizes k))"

definition kidsOffset :: "arch \<Rightarrow> nat" where
  "kidsOffset k = sum_list (field_sizes k)"

definition segOffset :: "arch \<Rightarrow> nat" where
  "segOffset k = offset_of k 2"

definition segMax :: "arch \<Rightarrow> nat" where
  "segMax k = offset_of k 4 - segOffset k"

lemma segMax_34 [simp]: "segMax k = 34"
  by (simp add: segMax_def segOffset_def offset_of_def field_sizes_def)

lemma offsets: "segOffset k = 4 * ptrSize k" "kidsOffset k = 6 * ptrSize k + 48"
  by (simp_all add: segOffset_def kidsOffset_def offset_of_def field_sizes_def)

lemma seg_below_kids [simp]: "segOffset k < kidsOffset k"
  by (simp add: offsets)

section \<open>Integers in memory\<close>

definition dec_le :: "bytes \<Rightarrow> 'a :: len word" where
  "dec_le bs = foldr (\<lambda>b w. push_bit 8 w OR ucast b) bs 0"

definition enc_le :: "nat \<Rightarrow> 'a :: len word \<Rightarrow> bytes" where
  "enc_le n x = map (\<lambda>i. ucast (drop_bit (8 * i) x)) [0..<n]"

definition dec_word :: "arch \<Rightarrow> bytes \<Rightarrow> 'a :: len word" where
  "dec_word k bs = dec_le (if bigEndian k then rev bs else bs)"

definition enc_word :: "arch \<Rightarrow> nat \<Rightarrow> 'a :: len word \<Rightarrow> bytes" where
  "enc_word k n x = (if bigEndian k then rev (enc_le n x) else enc_le n x)"

lemma length_enc_word [simp]: "length (enc_word k n x) = n"
  by (simp add: enc_word_def enc_le_def)

lemma bit_dec_le:
  "bit (dec_le bs :: 'a :: len word) i \<longleftrightarrow>
     i < LENGTH('a) \<and> i div 8 < length bs \<and> bit (bs ! (i div 8)) (i mod 8)"
proof (induction bs arbitrary: i)
  case Nil
  then show ?case by (simp add: dec_le_def)
next
  case (Cons b bs)
  show ?case
  proof (cases "i < 8")
    case True
    then show ?thesis by (auto simp: dec_le_def bit_or_iff bit_push_bit_iff bit_ucast_iff)
  next
    case False
    then have d: "i div 8 = Suc ((i - 8) div 8)" "(i - 8) mod 8 = i mod 8" by (simp_all add: le_div_geq le_mod_geq)
    have nb: "\<not> bit b i" using False bit_imp_le_length [of b i] by auto
    have "bit (dec_le (b # bs) :: 'a word) i \<longleftrightarrow> i < LENGTH('a) \<and> bit (dec_le bs :: 'a word) (i - 8)"
      using False nb by (auto simp: dec_le_def bit_or_iff bit_push_bit_iff bit_ucast_iff dest: bit_imp_le_length)
    then show ?thesis using d by (auto simp: Cons.IH)
  qed
qed

lemma dec_enc_le:
  assumes "LENGTH('a) = 8 * n"
  shows "dec_le (enc_le n x) = (x :: 'a :: len word)"
proof (rule bit_word_eqI)
  fix i assume "i < LENGTH('a)"
  then have i: "i div 8 < n" using assms by simp
  have "8 * (i div 8) + i mod 8 = i" by simp
  then have "bit (x :: 'a word) (i mod 8 + 8 * (i div 8)) = bit x i" by (simp add: add.commute)
  moreover have "i mod 8 < Suc (Suc (Suc (Suc (Suc (Suc (Suc (Suc 0)))))))"
    using mod_less_divisor [of 8 i] by linarith
  ultimately show "bit (dec_le (enc_le n x) :: 'a word) i = bit x i" using i \<open>i < LENGTH('a)\<close>
    by (simp add: bit_dec_le enc_le_def bit_ucast_iff bit_drop_bit_eq add.commute)
qed

lemma dec_enc_word [simp]:
  "LENGTH('a) = 8 * n \<Longrightarrow> dec_word k (enc_word k n x) = (x :: 'a :: len word)"
  by (simp add: dec_word_def enc_word_def dec_enc_le)

lemma dec_word_zero [simp]: "dec_word k (replicate n 0) = 0"
proof -
  have "dec_le (replicate n 0) = (0 :: 'a word)" by (induction n) (simp_all add: dec_le_def)
  then show ?thesis by (simp add: dec_word_def)
qed

section \<open>The union\<close>

definition ubitmap :: "arch \<Rightarrow> 'v unode \<Rightarrow> bitmap" where
  "ubitmap k n =
     Bitmap (dec_word k (take 8 (area n))) (dec_word k (take 8 (drop 8 (area n))))
       (dec_word k (take 8 (drop 16 (area n)))) (dec_word k (take 8 (drop 24 (area n))))"

definition unkids :: "arch \<Rightarrow> 'v unode \<Rightarrow> 16 word" where
  "unkids k n = dec_word k (take 2 (drop 32 (area n)))"

definition set_ubitmap :: "arch \<Rightarrow> bitmap \<Rightarrow> 'v unode \<Rightarrow> 'v unode" where
  "set_ubitmap k bm n = n\<lparr>area := concat (map (enc_word k 8) (bm_words bm)) @ drop 32 (area n)\<rparr>"

definition set_unkids :: "arch \<Rightarrow> 16 word \<Rightarrow> 'v unode \<Rightarrow> 'v unode" where
  "set_unkids k c n = n\<lparr>area := take 32 (area n) @ enc_word k 2 c\<rparr>"

lemma union_length [simp]:
  "length (area n) = 34 \<Longrightarrow> length (area (set_ubitmap k bm n)) = 34"
  "length (area n) = 34 \<Longrightarrow> length (area (set_unkids k c n)) = 34"
  by (cases bm, simp_all add: set_ubitmap_def set_unkids_def)

lemma union_read [simp]:
  "ubitmap k (set_ubitmap k bm n) = bm"
  "length (area n) = 34 \<Longrightarrow> unkids k (set_ubitmap k bm n) = unkids k n"
  "length (area n) = 34 \<Longrightarrow> unkids k (set_unkids k c n) = c"
  "length (area n) = 34 \<Longrightarrow> ubitmap k (set_unkids k c n) = ubitmap k n"
  by ((cases bm, simp add: ubitmap_def set_ubitmap_def unkids_def set_unkids_def drop_take min_def)+)

end
