(* ===== verification/Layout_Node.thy ===== *)
theory Layout_Node
  imports Layout
begin

text \<open>
  The accessors of the default build's node, the pure-safe node they present, and the interface both
  builds implement: whatever is written against the accessors computes the same in either build.
\<close>

section \<open>Strings\<close>

definition str_bytes :: "arch \<Rightarrow> 'v umem \<Rightarrow> gostr \<Rightarrow> bytes" where
  "str_bytes k m s =
     (case sbase s of
        NilPtr \<Rightarrow> []
      | OneByte b \<Rightarrow> take (slen s) (drop (soff s) [b])
      | Buf i \<Rightarrow> take (slen s) (drop (soff s) (bufs m i))
      | Obj a \<Rightarrow>
          (if soff s < kidsOffset k
           then take (slen s) (drop (soff s - segOffset k) (area (unodes m a)))
           else take (slen s) (drop (soff s - kidsOffset k) (useg (unodes m a)))))"

text \<open>A string stays within what it points into.\<close>

definition str_ok :: "arch \<Rightarrow> 'v umem \<Rightarrow> gostr \<Rightarrow> bool" where
  "str_ok k m s \<longleftrightarrow>
     (case sbase s of
        NilPtr \<Rightarrow> slen s = 0
      | OneByte b \<Rightarrow> soff s + slen s \<le> 1
      | Buf i \<Rightarrow> i < next_buf m \<and> soff s + slen s \<le> length (bufs m i)
      | Obj a \<Rightarrow> a < unext m \<and>
          (if soff s < kidsOffset k
           then segOffset k \<le> soff s \<and> soff s - segOffset k + slen s \<le> length (area (unodes m a))
           else soff s - kidsOffset k + slen s \<le> length (useg (unodes m a))))"

lemma length_str_bytes: "str_ok k m s \<Longrightarrow> length (str_bytes k m s) = slen s"
  by (auto simp: str_ok_def str_bytes_def min_def split: base.splits if_splits)

section \<open>Accessors\<close>

definition u_compact :: "arch \<Rightarrow> 'v umem \<Rightarrow> addr \<Rightarrow> bool" where
  "u_compact k m a \<longleftrightarrow>
     sbase (uprefix (unodes m a)) = Obj a \<and> soff (uprefix (unodes m a)) = segOffset k"

definition u_segment :: "arch \<Rightarrow> 'v umem \<Rightarrow> addr \<Rightarrow> bytes" where
  "u_segment k m a = take (segMax k) (area (unodes m a))"

definition u_kidCount :: "arch \<Rightarrow> 'v umem \<Rightarrow> addr \<Rightarrow> nat" where
  "u_kidCount k m a = unat (min (unkids k (unodes m a)) (uckids (unodes m a)))"

definition u_kidCap :: "'v umem \<Rightarrow> addr \<Rightarrow> nat" where
  "u_kidCap m a = unat (uckids (unodes m a))"

definition u_frameKids :: "arch \<Rightarrow> 'v umem \<Rightarrow> addr \<Rightarrow> nat" where
  "u_frameKids k m a = unat (unkids k (unodes m a))"

definition u_childless :: "arch \<Rightarrow> 'v umem \<Rightarrow> addr \<Rightarrow> bool" where
  "u_childless k m a \<longleftrightarrow>
     u_compact k m a \<or>
     (let bm = ubitmap k (unodes m a) in bm_get bm 0 OR bm_get bm 1 OR bm_get bm 2 OR bm_get bm 3) = 0"

text \<open>
  The address of a child slot: \<open>slot_index\<close> is the element of the array that starts \<open>off\<close> bytes into
  the allocation, if there is one; an access elsewhere is outside of the allocation or between two
  elements, and has no result.
\<close>

definition slot_index :: "arch \<Rightarrow> 'v unode \<Rightarrow> nat \<Rightarrow> nat option" where
  "slot_index k n off =
     (if kidsOffset k \<le> off \<and> (off - kidsOffset k) mod ptrSize k = 0 \<and>
         (off - kidsOffset k) div ptrSize k < length (uarr n)
      then Some ((off - kidsOffset k) div ptrSize k) else None)"

definition u_kid :: "arch \<Rightarrow> 'v umem \<Rightarrow> addr \<Rightarrow> nat \<Rightarrow> addr option" where
  "u_kid k m a i =
     do { j \<leftarrow> slot_index k (unodes m a) (kidsOffset k + i * ptrSize k); uarr (unodes m a) ! j }"

definition u_upd :: "addr \<Rightarrow> ('v unode \<Rightarrow> 'v unode) \<Rightarrow> 'v umem \<Rightarrow> 'v umem" where
  "u_upd a f m = m\<lparr>unodes := (unodes m)(a := f (unodes m a))\<rparr>"

definition u_setKid :: "arch \<Rightarrow> addr \<Rightarrow> nat \<Rightarrow> addr option \<Rightarrow> 'v umem \<Rightarrow> 'v umem option" where
  "u_setKid k a i c m =
     do { j \<leftarrow> slot_index k (unodes m a) (kidsOffset k + i * ptrSize k);
          Some (u_upd a (\<lambda>n. n\<lparr>uarr := (uarr n)[j := c]\<rparr>) m) }"

text \<open>Slicing \<open>[:n.nkids]\<close> panics beyond the capacity.\<close>

definition u_kidList :: "arch \<Rightarrow> 'v umem \<Rightarrow> addr \<Rightarrow> addr option list option" where
  "u_kidList k m a =
     (let n = unodes m a in
      if uckids n = 0 then Some []
      else if unat (unkids k n) \<le> unat (uckids n)
      then Some (take (unat (unkids k n)) (take (unat (uckids n)) (uarr n)))
      else None)"

definition u_setKidCount :: "arch \<Rightarrow> addr \<Rightarrow> nat \<Rightarrow> 'v umem \<Rightarrow> 'v umem option" where
  "u_setKidCount k a count m =
     (if count > unat (uckids (unodes m a)) then None
      else Some (u_upd a (set_unkids k (of_nat count)) m))"

definition u_rank :: "arch \<Rightarrow> 'v umem \<Rightarrow> addr \<Rightarrow> byte \<Rightarrow> nat \<times> bool" where
  "u_rank k m a label =
     (if u_compact k m a then (0, False) else bm_rank (ubitmap k (unodes m a)) label)"

section \<open>Well-formed nodes and the node they present\<close>

text \<open>
  What \<open>newNode\<close> and \<open>newLeafNode\<close> establish: the array has \<open>ckids\<close> elements; a prefix inside a node's
  allocation is inside its own, either the union or the trailing segment, and that node has no child
  array; and unless the union holds a segment, it holds a bitmap and the number of its labels.
\<close>

definition u_ok :: "arch \<Rightarrow> 'v umem \<Rightarrow> addr \<Rightarrow> bool" where
  "u_ok k m a \<longleftrightarrow>
     a < unext m \<and> length (area (unodes m a)) = 34 \<and>
     length (uarr (unodes m a)) = unat (uckids (unodes m a)) \<and>
     str_ok k m (uprefix (unodes m a)) \<and>
     (\<forall>b. sbase (uprefix (unodes m a)) = Obj b \<longrightarrow>
        b = a \<and> uckids (unodes m a) = 0 \<and> 0 < slen (uprefix (unodes m a)) \<and>
        (soff (uprefix (unodes m a)) < kidsOffset k \<longrightarrow> soff (uprefix (unodes m a)) = segOffset k)) \<and>
     (\<not> u_compact k m a \<longrightarrow>
        unkids k (unodes m a) \<le> uckids (unodes m a) \<and>
        card (bm_labels (ubitmap k (unodes m a))) = unat (unkids k (unodes m a)))"

definition uview :: "arch \<Rightarrow> 'v umem \<Rightarrow> addr \<Rightarrow> 'v node" where
  "uview k m a =
     (let n = unodes m a in
      \<lparr>prefix = str_bytes k m (uprefix n), arr = uarr n,
       nkids = (if u_compact k m a then 0 else unat (unkids k n)),
       bitmap = (if u_compact k m a then bm_zero else ubitmap k n),
       val = uval n, leafp = uleaf n, nwatch = uwatch n, epoch = uepoch n\<rparr>)"

lemma uview_sel [simp]:
  "prefix (uview k m a) = str_bytes k m (uprefix (unodes m a))" "arr (uview k m a) = uarr (unodes m a)"
  "val (uview k m a) = uval (unodes m a)" "leafp (uview k m a) = uleaf (unodes m a)"
  "nwatch (uview k m a) = uwatch (unodes m a)" "epoch (uview k m a) = uepoch (unodes m a)"
  "nkids (uview k m a) = (if u_compact k m a then 0 else unat (unkids k (unodes m a)))"
  "bitmap (uview k m a) = (if u_compact k m a then bm_zero else ubitmap k (unodes m a))"
  by (simp_all add: uview_def Let_def)

lemma u_okD:
  assumes "u_ok k m a"
  shows "a < unext m" and "length (area (unodes m a)) = 34"
    and "length (uarr (unodes m a)) = unat (uckids (unodes m a))"
    and "str_ok k m (uprefix (unodes m a))"
    and "sbase (uprefix (unodes m a)) = Obj b \<Longrightarrow> b = a"
    and "sbase (uprefix (unodes m a)) = Obj b \<Longrightarrow> uckids (unodes m a) = 0"
    and "sbase (uprefix (unodes m a)) = Obj b \<Longrightarrow> 0 < slen (uprefix (unodes m a))"
    and "\<not> u_compact k m a \<Longrightarrow> unkids k (unodes m a) \<le> uckids (unodes m a)"
    and "\<not> u_compact k m a \<Longrightarrow> card (bm_labels (ubitmap k (unodes m a))) = unat (unkids k (unodes m a))"
  using assms unfolding u_ok_def by blast+

lemma u_compact_cap: "u_ok k m a \<Longrightarrow> u_compact k m a \<Longrightarrow> uckids (unodes m a) = 0"
  using u_okD(6) u_compact_def by metis

lemma u_compact_iff_obj:
  "u_ok k m a \<Longrightarrow> u_compact k m a \<longleftrightarrow>
     sbase (uprefix (unodes m a)) = Obj a \<and> soff (uprefix (unodes m a)) < kidsOffset k"
  unfolding u_ok_def u_compact_def by auto

section \<open>Agreement with the pure-safe accessors\<close>

lemma bm_words_zero_iff:
  "bm_get bm 0 OR bm_get bm 1 OR bm_get bm 2 OR bm_get bm 3 = 0 \<longleftrightarrow> bm_labels bm = {}" (is "?l = 0 \<longleftrightarrow> _")
proof
  assume z: "?l = 0"
  have "bm_get bm 0 = 0" "bm_get bm 1 = 0" "bm_get bm 2 = 0" "bm_get bm 3 = 0"
    using z by (auto simp: bit_eq_iff bit_or_iff)
  then have "bm = bm_zero" by (cases bm) (simp add: bm_get_def bm_zero_def)
  then show "bm_labels bm = {}" by simp
next
  assume e: "bm_labels bm = {}"
  have z: "bm_get bm w = 0" if w: "unat w < 4" for w
  proof (rule bit_word_eqI)
    fix i assume "i < LENGTH(64)"
    then have i: "i < 64" by simp
    define j where "j = unat w * 64 + i"
    define l :: byte where "l = of_nat j"
    have "j < 256" using w i by (simp add: j_def)
    then have "unat l = unat w * 64 + i" by (simp add: l_def unat_of_nat j_def [symmetric])
    then have "unat (drop_bit 6 l) = unat w" "unat l mod 64 = i" using i by (simp_all add: byte_word_index)
    then have "drop_bit 6 l = w" "unat l mod 64 = i" by (simp_all add: word_unat_eq_iff)
    then show "bit (bm_get bm w) i = bit 0 i" using e bm_labels_get [of l bm] by simp
  qed
  show "?l = 0" using z [of 0] z [of 1] z [of 2] z [of 3] by simp
qed

lemma u_kidCount_view: "u_ok k m a \<Longrightarrow> u_kidCount k m a = kidCount (uview k m a)"
  using u_okD(8) [of k m a] u_compact_cap [of k m a]
  by (auto simp: u_kidCount_def kidCount_def min_def word_le_nat_alt)

lemma u_kidCap_view: "u_ok k m a \<Longrightarrow> u_kidCap m a = kidCap (uview k m a)"
  by (simp add: u_kidCap_def kidCap_def u_okD(3))

lemma u_frameKids_view: "u_ok k m a \<Longrightarrow> 0 < u_kidCount k m a \<Longrightarrow> u_frameKids k m a = frameKids (uview k m a)"
  using u_kidCount_view [of k m a] by (auto simp: u_frameKids_def frameKids_def kidCount_def split: if_splits)

lemma u_childless_view: "u_ok k m a \<Longrightarrow> u_childless k m a \<longleftrightarrow> childless (uview k m a)"
  using u_okD(9) [of k m a] by (auto simp: u_childless_def childless_def bm_words_zero_iff Let_def)

lemma slot_index_at: "0 < ptrSize k \<Longrightarrow> slot_index k n (kidsOffset k + i * ptrSize k) = (if i < length (uarr n) then Some i else None)"
  by (simp add: slot_index_def)

lemma u_kid_view:
  assumes "u_ok k m a" and "0 < ptrSize k" and "i < u_kidCount k m a"
  shows "u_kid k m a i = kid (uview k m a) i"
proof -
  have "i < nkids (uview k m a)" "nkids (uview k m a) \<le> length (uarr (unodes m a))"
    using assms(3) u_kidCount_view [OF assms(1)] u_okD(3,8) [OF assms(1)]
    by (auto simp: kidCount_def word_le_nat_alt split: if_splits)
  then show ?thesis using assms(2) by (simp add: u_kid_def slot_index_at kid_def)
qed

lemma u_kidList_view: "u_ok k m a \<Longrightarrow> u_kidList k m a = Some (kidList (uview k m a))"
  using u_okD(3) [of k m a] u_okD(8) [of k m a] u_compact_cap [of k m a]
  by (auto simp: u_kidList_def kidList_def Let_def word_le_nat_alt)

lemma u_rank_view: "u_rank k m a l = node_rank (uview k m a) l"
proof -
  have "bm_rank bm_zero l = (0, False)" by (simp add: bm_rank_exact)
  then show ?thesis by (simp add: u_rank_def)
qed

end
