(* ===== verification/Layout_Ops.thy ===== *)
theory Layout_Ops
  imports Layout_Node Txn
begin

text \<open>
  What the default build does to its nodes: allocation by size class, leaves with their segment in
  the header, in a trailing array or on the heap, trimming a segment in place, children added and
  removed in place, and the copy of a node (\<^verbatim>\<open>node_unsafe.go\<close>, \<^verbatim>\<open>segment_unsafe.go\<close>, and \<open>addKid\<close>,
  \<open>delKid\<close>, \<open>cloneSegment\<close>, \<open>copyShape\<close>, \<open>leafNode\<close> compiled against them).  Each is simulated by
  the pure-safe operation on the store the memory presents.
\<close>

section \<open>Allocation\<close>

definition u_zero :: "'v unode" where
  "u_zero = \<lparr>uprefix = empty_str, uval = None, area = replicate 34 0, uckids = 0, uleaf = None,
             uwatch = None, uepoch = 0, uarr = [], useg = []\<rparr>"

definition u_alloc :: "'v unode \<Rightarrow> 'v umem \<Rightarrow> addr \<times> 'v umem" where
  "u_alloc n m = (unext m, m\<lparr>unodes := (unodes m)(unext m := n), unext := Suc (unext m)\<rparr>)"

definition u_sized :: "nat \<Rightarrow> 'v unode" where
  "u_sized c = u_zero\<lparr>uckids := of_nat c, uarr := replicate c None\<rparr>"

definition u_newNode :: "nat \<Rightarrow> 'v umem \<Rightarrow> addr \<times> 'v umem" where
  "u_newNode capacity m =
     (if capacity \<le> 0 then u_alloc u_zero m
      else if capacity \<le> 4 then u_alloc (u_sized 4) m
      else if capacity \<le> 8 then u_alloc (u_sized 8) m
      else if capacity \<le> 16 then u_alloc (u_sized 16) m
      else if capacity \<le> 32 then u_alloc (u_sized 32) m
      else if capacity \<le> 64 then u_alloc (u_sized 64) m
      else if capacity \<le> 128 then u_alloc (u_sized 128) m
      else u_alloc (u_sized 256) m)"

definition u_buffer :: "bytes \<Rightarrow> 'v umem \<Rightarrow> gostr \<times> 'v umem" where
  "u_buffer bs m =
     (\<lparr>sbase = Buf (next_buf m), soff = 0, slen = length bs\<rparr>,
      m\<lparr>bufs := (bufs m)(next_buf m := bs), next_buf := Suc (next_buf m)\<rparr>)"

text \<open>\<open>copy(seg[copy(seg, a):], b)\<close>\<close>

definition copy_two :: "bytes \<Rightarrow> bytes \<Rightarrow> bytes \<Rightarrow> bytes" where
  "copy_two dst a b = go_copy (go_copy dst 0 a) (min (length dst) (length a)) b"

definition u_newLeafNode :: "arch \<Rightarrow> gostr \<Rightarrow> gostr \<Rightarrow> 'v umem \<Rightarrow> addr \<times> 'v umem" where
  "u_newLeafNode k a b m =
     (let n = slen a + slen b; x = unext m; p = str_bytes k m a; q = str_bytes k m b in
      if n = 0 then u_alloc u_zero m
      else if n \<le> segMax k
      then u_alloc (u_zero\<lparr>area := copy_two (area (u_zero :: 'v unode)) p q,
                           uprefix := \<lparr>sbase = Obj x, soff = segOffset k, slen = n\<rparr>\<rparr>) m
      else if n \<le> 48
      then u_alloc (u_zero\<lparr>useg := copy_two (replicate 48 0) p q,
                           uprefix := \<lparr>sbase = Obj x, soff = kidsOffset k, slen = n\<rparr>\<rparr>) m
      else if n \<le> 64
      then u_alloc (u_zero\<lparr>useg := copy_two (replicate 64 0) p q,
                           uprefix := \<lparr>sbase = Obj x, soff = kidsOffset k, slen = n\<rparr>\<rparr>) m
      else let (s, m) = u_buffer (p @ q) m in u_alloc (u_zero\<lparr>uprefix := s\<rparr>) m)"

definition u_cloneSegment :: "arch \<Rightarrow> gostr \<Rightarrow> 'v umem \<Rightarrow> gostr \<times> 'v umem" where
  "u_cloneSegment k s m =
     (if slen s = 1 then (\<lparr>sbase = OneByte (str_bytes k m s ! 0), soff = 0, slen = 1\<rparr>, m)
      else if slen s = 0 then (empty_str, m)
      else u_buffer (str_bytes k m s) m)"

section \<open>Changes in place\<close>

definition u_trimPrefix :: "arch \<Rightarrow> addr \<Rightarrow> nat \<Rightarrow> 'v umem \<Rightarrow> 'v umem option" where
  "u_trimPrefix k a j m =
     (let p = uprefix (unodes m a) in
      if u_compact k m a
      then (let sg = u_segment k m a; l = slen p - j in
            if j \<le> slen p \<and> slen p \<le> length sg
            then Some (u_upd a (\<lambda>n. n\<lparr>area := go_copy (area n) 0 (take l (drop j sg)),
                                     uprefix := \<lparr>sbase = Obj a, soff = segOffset k, slen = l\<rparr>\<rparr>) m)
            else None)
      else if j \<le> slen p
      then Some (u_upd a (\<lambda>n. n\<lparr>uprefix := p\<lparr>soff := soff p + j, slen := slen p - j\<rparr>\<rparr>) m)
      else None)"

text \<open>Write back the elements of the slice \<open>n.kidList()\<close>.\<close>

definition u_set_kidList :: "addr \<Rightarrow> addr option list \<Rightarrow> 'v umem \<Rightarrow> 'v umem" where
  "u_set_kidList a ks m = u_upd a (\<lambda>n. n\<lparr>uarr := ks @ drop (length ks) (uarr n)\<rparr>) m"

definition u_addKid :: "arch \<Rightarrow> addr \<Rightarrow> nat \<Rightarrow> addr \<Rightarrow> 'v umem \<Rightarrow> 'v umem option" where
  "u_addKid k a idx c m =
     do { label \<leftarrow> byte0 (str_bytes k m (uprefix (unodes m c)));
          let count = u_kidCount k m a;
          m \<leftarrow> u_setKidCount k a (count + 1) m;
          kids \<leftarrow> u_kidList k m a;
          if idx \<le> count
          then do {
            let kids = go_copy kids (idx + 1) (drop idx (take count kids));
            let kids = kids[idx := Some c];
            let m = u_set_kidList a kids m;
            Some (u_upd a (\<lambda>n. set_ubitmap k (bm_add (ubitmap k n) label) n) m) }
          else None }"

definition u_delKid :: "arch \<Rightarrow> addr \<Rightarrow> nat \<Rightarrow> 'v umem \<Rightarrow> 'v umem option" where
  "u_delKid k a idx m =
     do { kids \<leftarrow> u_kidList k m a;
          c \<leftarrow> (if idx < length kids then kids ! idx else None);
          label \<leftarrow> byte0 (str_bytes k m (uprefix (unodes m c)));
          let last = length kids - 1;
          let kids = go_copy kids idx (drop (idx + 1) kids);
          let kids = kids[last := None];
          m \<leftarrow> u_setKidCount k a last (u_set_kidList a kids m);
          Some (u_upd a (\<lambda>n. set_ubitmap k (bm_del (ubitmap k n) label) n) m) }"

section \<open>Copies\<close>

definition u_copyShape :: "arch \<Rightarrow> txn \<Rightarrow> addr \<Rightarrow> nat \<Rightarrow> 'v umem \<Rightarrow> (addr \<times> 'v umem) option" where
  "u_copyShape k t a extra m =
     (let n = unodes m a; count = u_kidCount k m a in
      do { (c, m) \<leftarrow>
             (if count + extra = 0 then Some (u_newLeafNode k (uprefix n) empty_str m)
              else if u_kidCap m a = 0
              then (let (c, m) = u_newNode extra m; (p, m) = u_cloneSegment k (uprefix n) m
                    in Some (c, u_upd c (\<lambda>x. x\<lparr>uprefix := p\<rparr>) m))
              else do {
                let (c, m) = u_newNode (count + extra) m;
                let m = u_upd c (\<lambda>x. set_ubitmap k (ubitmap k n) (x\<lparr>uprefix := uprefix n\<rparr>)) m;
                m \<leftarrow> u_setKidCount k c count m;
                dst \<leftarrow> u_kidList k m c;
                src \<leftarrow> u_kidList k m a;
                Some (c, u_set_kidList c (go_copy dst 0 src) m) });
           Some (c, u_upd c (\<lambda>x. x\<lparr>uepoch := tepoch t\<rparr>) m) })"

text \<open>\<open>leafNode\<close> is given a view of the caller's key; \<open>bytesToString\<close> only reinterprets its slice header.\<close>

definition u_bytesToString :: "gostr \<Rightarrow> gostr" where
  "u_bytesToString b = b"

definition u_leafNode :: "arch \<Rightarrow> txn \<Rightarrow> gostr \<Rightarrow> 'v any \<Rightarrow> 'v umem \<Rightarrow> addr \<times> 'v umem" where
  "u_leafNode k t p v m =
     (let (c, m) = u_newLeafNode k (u_bytesToString p) empty_str m
      in (c, u_upd c (\<lambda>x. x\<lparr>uepoch := tepoch t OR (valueBit OR leafOwnedBit), uval := v\<rparr>) m))"

section \<open>What the memory presents\<close>

definition presents :: "arch \<Rightarrow> 'v umem \<Rightarrow> 'v store \<Rightarrow> bool" where
  "presents k m s \<longleftrightarrow>
     0 < ptrSize k \<and> build s = DefaultBuild \<and> next_node s = unext m \<and>
     (\<forall>a < unext m. u_ok k m a \<and> nodes s a = uview k m a)"

text \<open>Memory only grows: a string keeps its bytes unless the node it points into is written.\<close>

definition u_grows :: "'v umem \<Rightarrow> 'v umem \<Rightarrow> bool" where
  "u_grows m m' \<longleftrightarrow> unext m \<le> unext m' \<and> next_buf m \<le> next_buf m' \<and> (\<forall>i < next_buf m. bufs m' i = bufs m i)"

lemma u_growsD:
  assumes "u_grows m m'"
  shows "unext m \<le> unext m'" and "next_buf m \<le> next_buf m'" and "i < next_buf m \<Longrightarrow> bufs m' i = bufs m i"
  using assms by (auto simp: u_grows_def)

lemma u_grows_refl [simp]: "u_grows m m"
  by (simp add: u_grows_def)

lemma u_grows_trans: "u_grows m m' \<Longrightarrow> u_grows m' m'' \<Longrightarrow> u_grows m m''"
  by (auto simp: u_grows_def)

lemma u_grows_ops [simp]:
  "u_grows m (u_upd a f m)" "u_grows m (snd (u_alloc n m))" "u_grows m (snd (u_buffer bs m))"
  by (simp_all add: u_grows_def u_upd_def u_alloc_def u_buffer_def)

lemma presentsD:
  assumes "presents k m s"
  shows "0 < ptrSize k" and "build s = DefaultBuild" and "next_node s = unext m"
    and "a < unext m \<Longrightarrow> u_ok k m a" and "a < unext m \<Longrightarrow> nodes s a = uview k m a"
  using assms by (simp_all add: presents_def)

lemma str_frame:
  assumes "str_ok k m p" and "u_grows m m'" and "\<And>b. sbase p = Obj b \<Longrightarrow> unodes m' b = unodes m b"
  shows "str_ok k m' p" and "str_bytes k m' p = str_bytes k m p"
  using assms u_growsD(1,2,3) [OF assms(2)]
  by (cases "sbase p"; auto simp: str_ok_def str_bytes_def; fail)+

lemma u_frame:
  assumes "u_ok k m a" and "u_grows m m'" and "unodes m' a = unodes m a"
  shows "u_ok k m' a" and "uview k m' a = uview k m a"
proof -
  have str: "str_ok k m' (uprefix (unodes m a))" "str_bytes k m' (uprefix (unodes m a)) = str_bytes k m (uprefix (unodes m a))"
    using str_frame [OF u_okD(4) [OF assms(1)] assms(2)] u_okD(5) [OF assms(1)] assms(3) by blast+
  have c: "u_compact k m' a = u_compact k m a" by (simp add: u_compact_def assms(3))
  show "uview k m' a = uview k m a" using str c by (simp add: uview_def assms(3))
  show "u_ok k m' a" using assms(1) str(1) c u_growsD(1) [OF assms(2)]
    by (simp add: u_ok_def assms(3))
qed

end
