(* ===== verification/Layout_Sim.thy ===== *)
theory Layout_Sim
  imports Layout_Ops
begin

text \<open>
  The operations of the default build simulate those of the pure-safe build: on a memory that
  presents a store they compute a memory that presents the resulting store.
\<close>

section \<open>Presenting a changed store\<close>

lemma presents_upd:
  assumes "presents k m s" and "a < unext m" and "u_grows m m'" and "unext m' = unext m"
    and "\<And>b. b \<noteq> a \<Longrightarrow> unodes m' b = unodes m b" and "u_ok k m' a"
  shows "presents k m' (put_node a (uview k m' a) s)"
proof -
  have "u_ok k m' b \<and> nodes (put_node a (uview k m' a) s) b = uview k m' b" if "b < unext m" for b
    using that presentsD(4,5) [OF assms(1) that] u_frame [OF _ assms(3) assms(5), of k b] assms(6)
    by (cases "b = a") (auto simp: put_node_def upd_node_def)
  then show ?thesis using assms(1,4) by (simp add: presents_def put_node_def upd_node_def)
qed

text \<open>A freshly allocated node that presents \<open>n\<close>.\<close>

definition u_fresh :: "arch \<Rightarrow> 'v umem \<Rightarrow> 'v umem \<Rightarrow> 'v node \<Rightarrow> bool" where
  "u_fresh k m m' n \<longleftrightarrow>
     u_grows m m' \<and> unext m' = Suc (unext m) \<and> (\<forall>b. b \<noteq> unext m \<longrightarrow> unodes m' b = unodes m b) \<and>
     u_ok k m' (unext m) \<and> uview k m' (unext m) = n"

lemma u_freshD:
  assumes "u_fresh k m m' n"
  shows "u_grows m m'" and "unext m' = Suc (unext m)" and "b \<noteq> unext m \<Longrightarrow> unodes m' b = unodes m b"
    and "u_ok k m' (unext m)" and "uview k m' (unext m) = n"
  using assms by (auto simp: u_fresh_def)

lemma presents_alloc:
  assumes "presents k m s" and "u_fresh k m m' n"
  shows "presents k m' (snd (alloc_node n s))" and "fst (alloc_node n s) = unext m"
proof -
  note f = u_freshD [OF assms(2)]
  let ?s = "snd (alloc_node n s)"
  have "u_ok k m' b \<and> nodes ?s b = uview k m' b" if "b < unext m'" for b
    using that f(2,4,5) presentsD(3,4,5) [OF assms(1)] u_frame [OF _ f(1) f(3), of k b]
    by (cases "b = unext m") (auto simp: alloc_node_def)
  then show "presents k m' ?s" using assms(1) f(2) by (simp add: presents_def alloc_node_def)
  show "fst (alloc_node n s) = unext m" using presentsD(3) [OF assms(1)] by (simp add: alloc_node_def)
qed

section \<open>Field updates of the union\<close>

lemma set_union_sel [simp]:
  "uprefix (set_ubitmap k bm n) = uprefix n" "uval (set_ubitmap k bm n) = uval n"
  "uckids (set_ubitmap k bm n) = uckids n" "uleaf (set_ubitmap k bm n) = uleaf n"
  "uwatch (set_ubitmap k bm n) = uwatch n" "uepoch (set_ubitmap k bm n) = uepoch n"
  "uarr (set_ubitmap k bm n) = uarr n" "useg (set_ubitmap k bm n) = useg n"
  "uprefix (set_unkids k c n) = uprefix n" "uval (set_unkids k c n) = uval n"
  "uckids (set_unkids k c n) = uckids n" "uleaf (set_unkids k c n) = uleaf n"
  "uwatch (set_unkids k c n) = uwatch n" "uepoch (set_unkids k c n) = uepoch n"
  "uarr (set_unkids k c n) = uarr n" "useg (set_unkids k c n) = useg n"
  by (simp_all add: set_ubitmap_def set_unkids_def)

lemma u_upd_sel [simp]:
  "unodes (u_upd a f m) a = f (unodes m a)" "b \<noteq> a \<Longrightarrow> unodes (u_upd a f m) b = unodes m b"
  "unext (u_upd a f m) = unext m" "bufs (u_upd a f m) = bufs m" "next_buf (u_upd a f m) = next_buf m"
  by (simp_all add: u_upd_def)

lemma u_upd_upd [simp]: "u_upd a f (u_upd a g m) = u_upd a (\<lambda>n. f (g n)) m"
  by (simp add: u_upd_def)

lemma u_read_area [simp]:
  "ubitmap k (n\<lparr>uprefix := p\<rparr>) = ubitmap k n" "unkids k (n\<lparr>uprefix := p\<rparr>) = unkids k n"
  "ubitmap k (n\<lparr>uepoch := e\<rparr>) = ubitmap k n" "unkids k (n\<lparr>uepoch := e\<rparr>) = unkids k n"
  "ubitmap k (n\<lparr>uval := v\<rparr>) = ubitmap k n" "unkids k (n\<lparr>uval := v\<rparr>) = unkids k n"
  "ubitmap k (n\<lparr>uarr := ks\<rparr>) = ubitmap k n" "unkids k (n\<lparr>uarr := ks\<rparr>) = unkids k n"
  "ubitmap k (n\<lparr>uckids := c\<rparr>) = ubitmap k n" "unkids k (n\<lparr>uckids := c\<rparr>) = unkids k n"
  "ubitmap k (n\<lparr>useg := g\<rparr>) = ubitmap k n" "unkids k (n\<lparr>useg := g\<rparr>) = unkids k n"
  by (simp_all add: ubitmap_def unkids_def)

lemma u_zero_sel [simp]:
  "uprefix u_zero = empty_str" "uval u_zero = None" "area u_zero = replicate 34 0" "uckids u_zero = 0"
  "uleaf u_zero = None" "uwatch u_zero = None" "uepoch u_zero = 0" "uarr u_zero = []" "useg u_zero = []"
  by (simp_all add: u_zero_def)

lemma u_zero_union [simp]: "ubitmap k u_zero = bm_zero" "unkids k u_zero = 0"
  by (simp_all add: ubitmap_def unkids_def bm_zero_def drop_replicate take_replicate)

lemma empty_str_sel [simp]: "sbase empty_str = NilPtr" "soff empty_str = 0" "slen empty_str = 0"
  by (simp_all add: empty_str_def)

lemma empty_str_bytes [simp]: "str_ok k m empty_str" "str_bytes k m empty_str = []"
  by (simp_all add: str_ok_def str_bytes_def)

section \<open>Allocation\<close>

lemma u_fresh_sized:
  assumes "c \<le> 256"
  shows "u_fresh k m (snd (u_alloc (u_sized c) m)) (zero_node\<lparr>arr := replicate c None\<rparr>)"
  using assms by (simp add: u_fresh_def u_alloc_def u_sized_def u_ok_def u_compact_def uview_def Let_def
      zero_node_def u_grows_def unat_of_nat str_ok_def str_bytes_def)

lemma u_zero_sized: "u_zero = u_sized 0"
  by (simp add: u_sized_def u_zero_def)

lemma u_newNode_class: "u_newNode c m = u_alloc (u_sized (size_class DefaultBuild c)) m"
  by (simp add: u_newNode_def size_classes u_zero_sized)

lemma u_newNode_fresh:
  "u_newNode c m = (unext m, snd (u_newNode c m))"
  "u_fresh k m (snd (u_newNode c m)) (newNode DefaultBuild c)"
  using u_fresh_sized [of "size_class DefaultBuild c" k m]
  by (simp_all add: u_newNode_class newNode_def size_classes) (simp add: u_alloc_def)

lemma go_copy_start: "length src \<le> length dst \<Longrightarrow> go_copy dst 0 src = src @ drop (length src) dst"
  by (simp add: go_copy_def Let_def min_def)

lemma copy_two_fit:
  assumes "length a + length b \<le> length dst"
  shows "copy_two dst a b = a @ b @ drop (length (a @ b)) dst"
proof -
  have "min (length dst) (length a) = length a" "min (length dst - length a) (length b) = length b"
    using assms by simp_all
  then show ?thesis by (simp add: copy_two_def go_copy_def Let_def add.commute)
qed

lemmas u_fresh_defs = u_fresh_def u_alloc_def u_buffer_def u_ok_def u_compact_def u_grows_def
  str_ok_def str_bytes_def uview_def zero_node_def Let_def

lemma u_fresh_area:
  assumes "0 < length p" and "length p \<le> 34"
  shows "u_fresh k m (snd (u_alloc (u_zero\<lparr>area := p @ drop (length p) (replicate 34 0),
      uprefix := \<lparr>sbase = Obj (unext m), soff = segOffset k, slen = length p\<rparr>\<rparr>) m)) (zero_node\<lparr>prefix := p\<rparr>)"
  using assms by (simp add: u_fresh_defs)

lemma u_fresh_seg:
  assumes "0 < length p" and "length p \<le> length d"
  shows "u_fresh k m (snd (u_alloc (u_zero\<lparr>useg := p @ drop (length p) d,
      uprefix := \<lparr>sbase = Obj (unext m), soff = kidsOffset k, slen = length p\<rparr>\<rparr>) m)) (zero_node\<lparr>prefix := p\<rparr>)"
  using assms by (simp add: u_fresh_defs)

lemma u_fresh_buf:
  "u_fresh k m (snd (let (s, m) = u_buffer p m in u_alloc (u_zero\<lparr>uprefix := s\<rparr>) m)) (zero_node\<lparr>prefix := p\<rparr>)"
  by (simp add: u_fresh_defs)

lemma newLeafNode_prefix: "newLeafNode a b = zero_node\<lparr>prefix := a @ b\<rparr>"
proof -
  have "length x = Suc 0 \<Longrightarrow> [x ! 0] = x" for x :: bytes by (cases x) auto
  then show ?thesis by (cases a; cases b) (auto simp: newLeafNode_def)
qed

lemma u_newLeafNode_fresh:
  assumes "str_ok k m a" and "str_ok k m b"
  shows "u_newLeafNode k a b m = (unext m, snd (u_newLeafNode k a b m))"
    and "u_fresh k m (snd (u_newLeafNode k a b m)) (newLeafNode (str_bytes k m a) (str_bytes k m b))"
proof -
  let ?p = "str_bytes k m a" and ?q = "str_bytes k m b"
  have l: "length ?p = slen a" "length ?q = slen b" using assms by (simp_all add: length_str_bytes)
  show "u_newLeafNode k a b m = (unext m, snd (u_newLeafNode k a b m))"
    by (simp add: u_newLeafNode_def Let_def u_alloc_def u_buffer_def)
  have n: "slen a + slen b = length (?p @ ?q)" by (simp add: l)
  have fit: "copy_two d ?p ?q = (?p @ ?q) @ drop (length (?p @ ?q)) d" if "slen a + slen b \<le> length d" for d
    using that by (simp add: copy_two_fit l)
  consider "slen a + slen b = 0" | "0 < slen a + slen b" "slen a + slen b \<le> 34"
    | "34 < slen a + slen b" "slen a + slen b \<le> 48" | "48 < slen a + slen b" "slen a + slen b \<le> 64"
    | "64 < slen a + slen b" by linarith
  then show "u_fresh k m (snd (u_newLeafNode k a b m)) (newLeafNode ?p ?q)"
  proof cases
    case 1
    then show ?thesis using u_fresh_sized [of 0 k m] l
      by (simp add: u_newLeafNode_def newLeafNode_prefix u_zero_sized zero_node_def)
  next
    case 2
    then show ?thesis using u_fresh_area [of "?p @ ?q" k m] fit [of "replicate 34 0"] n
      by (auto simp: u_newLeafNode_def newLeafNode_prefix Let_def)
  next
    case 3
    then show ?thesis using u_fresh_seg [of "?p @ ?q" "replicate 48 0" k m] fit [of "replicate 48 0"] n
      by (auto simp: u_newLeafNode_def newLeafNode_prefix Let_def)
  next
    case 4
    then show ?thesis using u_fresh_seg [of "?p @ ?q" "replicate 64 0" k m] fit [of "replicate 64 0"] n
      by (auto simp: u_newLeafNode_def newLeafNode_prefix Let_def)
  next
    case 5
    then show ?thesis using u_fresh_buf [of k m "?p @ ?q"]
      by (auto simp: u_newLeafNode_def newLeafNode_prefix Let_def)
  qed
qed

text \<open>The segment of a new leaf shares no memory with the strings it was made from.\<close>

lemma u_newLeafNode_private:
  assumes "str_ok k m a" and "str_ok k m b" and "m' = snd (u_newLeafNode k a b m)"
  shows "case sbase (uprefix (unodes m' (unext m))) of
      NilPtr \<Rightarrow> True | OneByte x \<Rightarrow> False | Buf i \<Rightarrow> next_buf m \<le> i | Obj c \<Rightarrow> c = unext m"
  using assms by (simp add: u_newLeafNode_def u_alloc_def u_buffer_def Let_def)

end
