(* ===== verification/Layout_Refine.thy ===== *)
theory Layout_Refine
  imports Layout_Sim
begin

text \<open>
  The default build refines the pure-safe one: trimming a segment, adding and removing a child,
  copying a node and making a leaf, on a memory that presents a store, do what the pure-safe
  operations do on that store.
\<close>

section \<open>Trimming\<close>

lemma trimPrefix_sim:
  assumes "presents k m s" and "a < unext m" and "j < length (prefix (nodes s a))"
  shows "\<exists>m'. u_trimPrefix k a j m = Some m' \<and> presents k m' (put_node a (trimPrefix (nodes s a) j) s)"
proof -
  have ok: "u_ok k m a" and nd: "nodes s a = uview k m a" using presentsD(4,5) [OF assms(1,2)] by simp_all
  let ?n = "unodes m a" and ?p = "uprefix (unodes m a)"
  note o = u_okD [OF ok]
  have len: "length (prefix (nodes s a)) = slen ?p" using length_str_bytes [OF o(4)] nd by simp
  have j: "j < slen ?p" using assms(3) len by simp
  show ?thesis
  proof (cases "u_compact k m a")
    case True
    then have b: "sbase ?p = Obj a" "soff ?p = segOffset k" by (simp_all add: u_compact_def)
    have l34: "slen ?p \<le> 34" using o(2,4) b by (simp add: str_ok_def)
    let ?l = "slen ?p - j"
    let ?f = "\<lambda>n. n\<lparr>area := go_copy (area n) 0 (take ?l (drop j (u_segment k m a))),
        uprefix := \<lparr>sbase = Obj a, soff = segOffset k, slen = ?l\<rparr>\<rparr>"
    let ?m = "u_upd a ?f m"
    have run: "u_trimPrefix k a j m = Some ?m"
      using True j l34 o(2) by (simp add: u_trimPrefix_def Let_def u_segment_def)
    have sg: "take ?l (drop j (u_segment k m a)) = take ?l (drop j (area ?n))"
      using o(2) by (simp add: u_segment_def)
    have ar: "area (unodes ?m a) = take ?l (drop j (area ?n)) @ drop ?l (area ?n)"
      using o(2) j l34 go_copy_start [of "take ?l (drop j (area ?n))" "area ?n"] by (simp add: sg)
    have c: "u_compact k ?m a" by (simp add: u_compact_def)
    have ok': "u_ok k ?m a" using ok c ar j l34 o(2,6) b(1) unfolding u_ok_def
      by (simp add: str_ok_def sg)
    have "str_bytes k ?m (uprefix (unodes ?m a)) = drop j (str_bytes k m ?p)"
      using ar b o(2) l34 j by (simp add: str_bytes_def drop_take)
    then have v: "uview k ?m a = trimPrefix (nodes s a) j"
      using True c by (simp add: nd uview_def trimPrefix_def Let_def)
    show ?thesis using presents_upd [OF assms(1,2) _ _ _ ok'] run v by auto
  next
    case False
    let ?f = "\<lambda>n. n\<lparr>uprefix := ?p\<lparr>soff := soff ?p + j, slen := slen ?p - j\<rparr>\<rparr>"
    let ?m = "u_upd a ?f m"
    have run: "u_trimPrefix k a j m = Some ?m" using False j by (simp add: u_trimPrefix_def Let_def)
    have own: "sbase ?p = Obj b \<Longrightarrow> b = a \<and> kidsOffset k \<le> soff ?p" for b
      using False u_compact_iff_obj [OF ok] o(5) by auto
    have c: "\<not> u_compact k ?m a" using own by (auto simp: u_compact_def offsets)
    have so: "str_ok k ?m (uprefix (unodes ?m a))"
      using o(4) own j by (cases "sbase ?p") (auto simp: str_ok_def)
    have ok': "u_ok k ?m a" using ok c so own j False unfolding u_ok_def by auto
    have "str_bytes k ?m (uprefix (unodes ?m a)) = drop j (str_bytes k m ?p)"
      using own o(4) j by (cases "sbase ?p") (auto simp: str_bytes_def drop_take add.commute str_ok_def)
    then have v: "uview k ?m a = trimPrefix (nodes s a) j"
      using False c by (simp add: nd uview_def trimPrefix_def Let_def)
    show ?thesis using presents_upd [OF assms(1,2) _ _ _ ok'] run v by auto
  qed
qed

section \<open>Children in place\<close>

text \<open>A node with room for children holds no segment, and rewriting its children keeps it well-formed.\<close>

lemma u_capD:
  assumes "u_ok k m a" and "uckids (unodes m a) \<noteq> 0"
  shows "\<not> u_compact k m a" and "sbase (uprefix (unodes m a)) \<noteq> Obj b"
    and "unkids k (unodes m a) \<le> uckids (unodes m a)"
    and "card (bm_labels (ubitmap k (unodes m a))) = unat (unkids k (unodes m a))"
proof -
  show "sbase (uprefix (unodes m a)) \<noteq> Obj b" using u_okD(6) [OF assms(1)] assms(2) by blast
  show "\<not> u_compact k m a" using u_compact_cap [OF assms(1)] assms(2) by blast
  then show "unkids k (unodes m a) \<le> uckids (unodes m a)"
    "card (bm_labels (ubitmap k (unodes m a))) = unat (unkids k (unodes m a))"
    using u_okD(8,9) [OF assms(1)] by blast+
qed

lemma u_rewrite_kids:
  assumes "presents k m s" and a: "a < unext m" and cap: "uckids (unodes m a) \<noteq> 0"
    and "length ks \<le> length (uarr (unodes m a))" and cnt: "c \<le> unat (uckids (unodes m a))"
    and lab: "card (bm_labels bm) = c"
    and m': "m' = u_upd a (\<lambda>n. set_ubitmap k bm ((set_unkids k (of_nat c) n)\<lparr>uarr := ks @ drop (length ks) (uarr n)\<rparr>)) m"
  shows "presents k m' (put_node a ((nodes s a)\<lparr>nkids := c, arr := ks @ drop (length ks) (arr (nodes s a)), bitmap := bm\<rparr>) s)"
proof -
  have ok: "u_ok k m a" and nd: "nodes s a = uview k m a" using presentsD(4,5) [OF assms(1) a] by simp_all
  note o = u_okD [OF ok] and cd = u_capD [OF ok cap]
  have c: "\<not> u_compact k m' a" using cd(2) by (simp add: u_compact_def m')
  have un: "unat (word_of_nat c :: 16 word) = c"
    using cnt unsigned_less [of "uckids (unodes m a)", where 'a = nat] by (simp add: unat_of_nat)
  have str: "str_ok k m' (uprefix (unodes m' a))" "str_bytes k m' (uprefix (unodes m' a)) = str_bytes k m (uprefix (unodes m a))"
    using str_frame [OF o(4), of m'] cd(2) by (simp_all add: m')
  have ok': "u_ok k m' a"
    using ok c str(1) cd(2) assms(4) cnt lab un o(2,3) unfolding u_ok_def
    by (simp add: m' word_le_nat_alt)
  have v: "uview k m' a = (nodes s a)\<lparr>nkids := c, arr := ks @ drop (length ks) (arr (nodes s a)), bitmap := bm\<rparr>"
    using c cd(1) str(2) un o(2) by (simp add: nd uview_def Let_def m')
  show ?thesis using presents_upd [OF assms(1) a _ _ _ ok'] v by (simp add: m')
qed

lemma addKid_sim:
  assumes "presents k m s" and "a < unext m" and "c < unext m" and "addKid a idx c s = Some s'"
    and "hd (prefix (nodes s c)) \<notin> bm_labels (bitmap (nodes s a))"
  shows "\<exists>m'. u_addKid k a idx c m = Some m' \<and> presents k m' s'"
proof -
  have ok: "u_ok k m a" and nd: "nodes s a = uview k m a" and ndc: "nodes s c = uview k m c"
    using presentsD(4,5) [OF assms(1)] assms(2,3) by simp_all
  let ?n = "unodes m a"
  note o = u_okD [OF ok]
  obtain label where lb: "byte0 (prefix (nodes s c)) = Some label"
    using assms(4) by (auto simp: addKid_def split: bind_splits)
  let ?count = "nkids (nodes s a)"
  have room: "?count + 1 \<le> length (uarr ?n)" and idx: "idx \<le> ?count"
    using assms(4) lb by (auto simp: addKid_def kidCount_def setKidCount_def nd Let_def split: if_splits bind_splits)
  have cap: "uckids ?n \<noteq> 0" using room o(3) by auto
  note cd = u_capD [OF ok cap]
  have cnt: "u_kidCount k m a = ?count" using u_kidCount_view [OF ok] nd by (simp add: kidCount_def)
  have nk: "?count = unat (unkids k ?n)" using cd(1) nd by simp
  let ?old = "take (?count + 1) (uarr ?n)"
  let ?ks = "(go_copy ?old (idx + 1) (drop idx (take ?count ?old)))[idx := Some c]"
  have lk: "length ?ks = ?count + 1" using room idx by simp
  have un: "unat (word_of_nat (?count + 1) :: 16 word) = ?count + 1"
    using room o(3) unsigned_less [of "uckids ?n", where 'a = nat] by (simp add: unat_of_nat del: of_nat_Suc)
  have s': "s' = put_node a ((nodes s a)\<lparr>nkids := ?count + 1, arr := ?ks @ drop (length ?ks) (arr (nodes s a)),
      bitmap := bm_add (bitmap (nodes s a)) label\<rparr>) s"
    using assms(4) lb room idx
    by (simp add: addKid_def kidCount_def setKidCount_def kidList_def set_kidList_def Let_def nd)
  let ?m = "u_upd a (\<lambda>n. set_ubitmap k (bm_add (ubitmap k ?n) label)
      ((set_unkids k (of_nat (?count + 1)) n)\<lparr>uarr := ?ks @ drop (length ?ks) (uarr n)\<rparr>)) m"
  have run: "u_addKid k a idx c m = Some ?m"
    using lb room idx un cnt o(2,3) cap
    by (simp add: u_addKid_def ndc u_setKidCount_def u_kidList_def u_set_kidList_def Let_def u_upd_def fun_upd_def cong: if_cong del: of_nat_Suc)
  have "label = hd (prefix (nodes s c))" using lb by (auto simp: byte0_def split: list.splits)
  then have lab: "card (bm_labels (bm_add (ubitmap k ?n) label)) = ?count + 1"
    using assms(5) cd(1,4) nk nd by (simp add: card_insert_if)
  show ?thesis
    using u_rewrite_kids [OF assms(1,2) cap _ _ lab refl, of ?ks] run s' lk room o(3) cd(1) nd by simp
qed

lemma u_upd_cong: "f (unodes m a) = g (unodes m a) \<Longrightarrow> u_upd a f m = u_upd a g m"
  by (simp add: u_upd_def)

lemma set_unkids_uarr: "set_unkids k c (n\<lparr>uarr := ks\<rparr>) = (set_unkids k c n)\<lparr>uarr := ks\<rparr>"
  by (simp add: set_unkids_def)

lemma node_kids_order: "n\<lparr>arr := ks, nkids := c\<rparr> = n\<lparr>nkids := c, arr := ks\<rparr>"
  by simp

lemma delKid_sim:
  assumes "presents k m s" and "a < unext m" and "kid (nodes s a) idx = Some c" and "c < unext m"
    and "delKid a idx s = Some s'" and "hd (prefix (nodes s c)) \<in> bm_labels (bitmap (nodes s a))"
  shows "\<exists>m'. u_delKid k a idx m = Some m' \<and> presents k m' s'"
proof -
  have ok: "u_ok k m a" and nd: "nodes s a = uview k m a" and ndc: "nodes s c = uview k m c"
    using presentsD(4,5) [OF assms(1)] assms(2,4) by simp_all
  let ?n = "unodes m a" and ?count = "nkids (nodes s a)"
  note o = u_okD [OF ok]
  have idx: "idx < ?count" and kc: "arr (nodes s a) ! idx = Some c"
    using assms(3) by (auto simp: kid_def split: if_splits)
  have nc: "\<not> u_compact k m a" using idx nd by (auto split: if_splits)
  have nk: "?count = unat (unkids k ?n)" using nc nd by simp
  have room: "?count \<le> length (uarr ?n)" using u_okD(8) [OF ok nc] nk o(3) by (simp add: word_le_nat_alt)
  have cap: "uckids ?n \<noteq> 0" using room idx o(3) by auto
  have ar: "arr (nodes s a) = uarr ?n" using nd by simp
  note cd = u_capD [OF ok cap]
  obtain label where lb: "byte0 (prefix (nodes s c)) = Some label"
    using assms(3,5) by (auto simp: delKid_def Let_def split: bind_splits)
  let ?old = "take ?count (uarr ?n)"
  let ?ks = "(go_copy ?old idx (drop (idx + 1) ?old))[?count - 1 := None]"
  have lks: "length ?old = ?count" using room by simp
  have lk: "length ?ks = ?count" using length_go_copy [of idx ?old "drop (idx + 1) ?old"] lks less_imp_le [OF idx] by simp
  have s': "s' = put_node a ((nodes s a)\<lparr>nkids := ?count - 1, arr := ?ks @ drop (length ?ks) (arr (nodes s a)),
      bitmap := bm_del (bitmap (nodes s a)) label\<rparr>) s"
    using assms(3,5) lb room ar less_imp_le [OF idx] le_trans [OF diff_le_self [of ?count 1] room]
    by (simp add: delKid_def kidCount_def setKidCount_def kidList_def set_kidList_def Let_def min_absorb2 node_kids_order
        del: One_nat_def)
  let ?m = "u_upd a (\<lambda>n. set_ubitmap k (bm_del (ubitmap k ?n) label)
      ((set_unkids k (of_nat (?count - 1)) n)\<lparr>uarr := ?ks @ drop (length ?ks) (uarr n)\<rparr>)) m"
  have kl: "u_kidList k m a = Some ?old"
    using nk room o(3) cap by (simp add: u_kidList_def Let_def)
  have sk: "u_setKidCount k a (?count - 1) (u_set_kidList a ?ks m) =
      Some (u_upd a (\<lambda>n. set_unkids k (of_nat (?count - 1)) (n\<lparr>uarr := ?ks @ drop (length ?ks) (uarr n)\<rparr>)) m)"
    using room o(3) by (simp add: u_setKidCount_def u_set_kidList_def del: One_nat_def)
  have "u_delKid k a idx m = Some (u_upd a (\<lambda>n. set_ubitmap k (bm_del (ubitmap k (set_unkids k (of_nat (?count - 1))
      (n\<lparr>uarr := ?ks @ drop (length ?ks) (uarr n)\<rparr>))) label)
      (set_unkids k (of_nat (?count - 1)) (n\<lparr>uarr := ?ks @ drop (length ?ks) (uarr n)\<rparr>))) m)"
    using lb idx kc room ndc ar sk lks by (simp add: u_delKid_def kl Let_def del: One_nat_def)
  also have "\<dots> = Some ?m"
    by (simp add: set_unkids_uarr o(2) cong: u_upd_cong del: One_nat_def)
  finally have run: "u_delKid k a idx m = Some ?m" .
  have "label = hd (prefix (nodes s c))" using lb by (auto simp: byte0_def split: list.splits)
  then have lab: "card (bm_labels (bm_del (ubitmap k ?n) label)) = ?count - 1"
    using assms(6) cd(1,4) nk nd by simp
  show ?thesis
    using u_rewrite_kids [OF assms(1,2) cap _ _ lab refl, of ?ks] run s' lk room o(3) cd(1) nd by simp
qed

section \<open>Copies\<close>

lemma u_cloneSegment_ok:
  assumes "str_ok k m p" and "u_cloneSegment k p m = (q, m')"
  shows "u_grows m m'" and "unext m' = unext m" and "unodes m' = unodes m" and "str_ok k m' q"
    and "str_bytes k m' q = cloneSegment (str_bytes k m p)" and "sbase q \<noteq> Obj b"
proof -
  have l: "length (str_bytes k m p) = slen p" by (rule length_str_bytes [OF assms(1)])
  have "str_bytes k m' q = cloneSegment (str_bytes k m p) \<and> u_grows m m' \<and> unext m' = unext m \<and>
      unodes m' = unodes m \<and> str_ok k m' q \<and> sbase q \<noteq> Obj b"
    using assms(2) l
    by (auto simp: u_cloneSegment_def u_buffer_def cloneSegment_def str_ok_def u_grows_def empty_str_def
        str_bytes_def [of k _ "\<lparr>sbase = _, soff = _, slen = _\<rparr>"] split: if_splits)
  then show "u_grows m m'" "unext m' = unext m" "unodes m' = unodes m" "str_ok k m' q"
    "str_bytes k m' q = cloneSegment (str_bytes k m p)" "sbase q \<noteq> Obj b" by blast+
qed

text \<open>The fields that are not part of the layout may be set on a fresh node.\<close>

lemma u_fresh_upd:
  assumes "u_fresh k m m' n"
  shows "u_fresh k m (u_upd (unext m) (\<lambda>x. x\<lparr>uepoch := e\<rparr>) m') (n\<lparr>epoch := e\<rparr>)"
    and "u_fresh k m (u_upd (unext m) (\<lambda>x. x\<lparr>uepoch := e, uval := v\<rparr>) m') (n\<lparr>epoch := e, val := v\<rparr>)"
proof -
  note f = u_freshD [OF assms]
  have *: "u_fresh k m (u_upd (unext m) h m') (h' n)"
    if h: "\<And>x. area (h x) = area x \<and> uarr (h x) = uarr x \<and> uckids (h x) = uckids x \<and> uprefix (h x) = uprefix x \<and> useg (h x) = useg x"
      and v: "uview k (u_upd (unext m) h m') (unext m) = h' (uview k m' (unext m))" for h h'
  proof -
    let ?m = "u_upd (unext m) h m'"
    have "u_ok k ?m (unext m)"
      using f(4) h unfolding u_ok_def
      by (auto simp: str_ok_def u_compact_def ubitmap_def unkids_def split: base.splits if_splits)
    then show ?thesis using f(1,2,3) v f(5) u_grows_trans [OF f(1)] by (auto simp: u_fresh_def)
  qed
  have b: "str_bytes k (u_upd (unext m) h m') p = str_bytes k m' p"
    if h: "\<And>x. area (h x) = area x \<and> useg (h x) = useg x" for h p
    using h by (auto simp: str_bytes_def u_upd_def split: base.splits)
  show "u_fresh k m (u_upd (unext m) (\<lambda>x. x\<lparr>uepoch := e\<rparr>) m') (n\<lparr>epoch := e\<rparr>)"
    by (rule *) (simp_all add: uview_def Let_def b u_compact_def)
  show "u_fresh k m (u_upd (unext m) (\<lambda>x. x\<lparr>uepoch := e, uval := v\<rparr>) m') (n\<lparr>epoch := e, val := v\<rparr>)"
    by (rule * [where h' = "\<lambda>n. n\<lparr>epoch := e, val := v\<rparr>"]) (simp_all add: uview_def Let_def b u_compact_def)
qed

lemma leafNode_sim:
  assumes "presents k m s" and "str_ok k m p"
  shows "\<exists>m'. u_leafNode k t p v m = (unext m, m') \<and> leafNode t (str_bytes k m p) v s = (unext m, snd (leafNode t (str_bytes k m p) v s)) \<and>
    presents k m' (snd (leafNode t (str_bytes k m p) v s))"
proof -
  let ?m = "snd (u_newLeafNode k p empty_str m)"
  note f = u_newLeafNode_fresh [OF assms(2) empty_str_bytes(1)]
  have "u_leafNode k t p v m = (unext m, u_upd (unext m) (\<lambda>x. x\<lparr>uepoch := tepoch t OR (valueBit OR leafOwnedBit), uval := v\<rparr>) ?m)"
    using f(1) by (cases "u_newLeafNode k p empty_str m") (simp add: u_leafNode_def u_bytesToString_def)
  then show ?thesis
    using presents_alloc [OF assms(1) u_fresh_upd(2) [OF f(2)]] f(1)
    by (simp add: leafNode_def) (metis prod.collapse)
qed

lemma copy_finish:
  assumes "presents k m s" and "u_fresh k m m1 n"
    and "u_copyShape k t a extra m = Some (unext m, u_upd (unext m) (\<lambda>x. x\<lparr>uepoch := tepoch t\<rparr>) m1)"
    and "copyShape t a extra s = Some (alloc_node (n\<lparr>epoch := tepoch t\<rparr>) s)"
  shows "\<exists>c m' s'. copyShape t a extra s = Some (c, s') \<and> u_copyShape k t a extra m = Some (c, m') \<and> presents k m' s'"
  using presents_alloc [OF assms(1) u_fresh_upd(1) [OF assms(2), of "tepoch t"]] assms(3,4)
  by (metis prod.collapse)

lemma copyShape_leaf_sim:
  assumes pr: "presents k m s" and a: "a < unext m" and z: "kidCount (nodes s a) + extra = 0"
  shows "\<exists>c m' s'. copyShape t a extra s = Some (c, s') \<and> u_copyShape k t a extra m = Some (c, m') \<and> presents k m' s'"
proof -
  have ok: "u_ok k m a" and nd: "nodes s a = uview k m a" using presentsD(4,5) [OF pr a] by simp_all
  let ?n = "unodes m a"
  obtain m1 where m1: "u_newLeafNode k (uprefix ?n) empty_str m = (unext m, m1)"
    and f: "u_fresh k m m1 (newLeafNode (str_bytes k m (uprefix ?n)) (str_bytes k m empty_str))"
    using u_newLeafNode_fresh [OF u_okD(4) [OF ok] empty_str_bytes(1)] by blast
  show ?thesis
    using u_kidCount_view [OF ok] nd z m1
    by (intro copy_finish [OF pr f]) (simp_all add: u_copyShape_def copyShape_def Let_def)
qed

text \<open>A childless node gets a class of its own, with a private copy of its segment.\<close>

lemma copyShape_bare_sim:
  assumes pr: "presents k m s" and a: "a < unext m" and z: "kidCount (nodes s a) + extra \<noteq> 0" "kidCap (nodes s a) = 0"
  shows "\<exists>c m' s'. copyShape t a extra s = Some (c, s') \<and> u_copyShape k t a extra m = Some (c, m') \<and> presents k m' s'"
proof -
  have ok: "u_ok k m a" and nd: "nodes s a = uview k m a" using presentsD(4,5) [OF pr a] by simp_all
  let ?n = "unodes m a" and ?x = "unext m"
  have b: "build s = DefaultBuild" using presentsD(2) [OF pr] .
  have na: "a \<noteq> ?x" using a by simp
  obtain m1 where m1: "u_newNode extra m = (?x, m1)" and f: "u_fresh k m m1 (newNode DefaultBuild extra)"
    using u_newNode_fresh by blast
  obtain q m2 where q: "u_cloneSegment k (uprefix ?n) m1 = (q, m2)" by force
  note g = u_freshD [OF f]
  have so: "str_ok k m1 (uprefix ?n)" "str_bytes k m1 (uprefix ?n) = str_bytes k m (uprefix ?n)"
    using str_frame [OF u_okD(4) [OF ok] g(1)] u_okD(5) [OF ok] g(3) [OF na] by blast+
  note c = u_cloneSegment_ok [OF so(1) q]
  let ?m3 = "u_upd ?x (\<lambda>x. x\<lparr>uprefix := q\<rparr>) m2"
  have gr: "u_grows m2 ?m3" by simp
  have sq: "str_ok k ?m3 q" "str_bytes k ?m3 q = str_bytes k m2 q" using str_frame [OF c(4) gr] c(6) by blast+
  have nc: "\<not> u_compact k ?m3 ?x" using c(6) by (simp add: u_compact_def)
  have "unodes m1 ?x = u_sized (size_class DefaultBuild extra)" using m1 by (auto simp: u_newNode_class u_alloc_def)
  then have nc1: "\<not> u_compact k m1 ?x" by (simp add: u_compact_def u_sized_def)
  have "u_ok k ?m3 ?x" using g(4) nc nc1 sq c(2,3,6) unfolding u_ok_def by simp
  moreover have "uview k ?m3 ?x = (newNode (build s) extra)\<lparr>prefix := cloneSegment (prefix (nodes s a))\<rparr>"
    using g(5) nc nc1 sq(2) c(2,3,5) so(2) b nd by (simp add: uview_def Let_def) (metis node.update_convs(1))
  ultimately have fr: "u_fresh k m ?m3 ((newNode (build s) extra)\<lparr>prefix := cloneSegment (prefix (nodes s a))\<rparr>)"
    using g(1,2,3) c(1,2,3) u_grows_trans [OF u_grows_trans [OF g(1) c(1)] gr] by (simp add: u_fresh_def)
  show ?thesis
    using u_kidCount_view [OF ok] u_kidCap_view [OF ok] nd z m1 q
    by (intro copy_finish [OF pr fr]) (auto simp: u_copyShape_def copyShape_def Let_def)
qed

text \<open>A node with children: the copy shares the segment, which is not inside the node.\<close>

definition kids_copy :: "build \<Rightarrow> 'v node \<Rightarrow> nat \<Rightarrow> 'v node" where
  "kids_copy b n c =
     (newNode b c)\<lparr>prefix := prefix n, bitmap := bitmap n, nkids := kidCount n,
        arr := take (kidCount n) (arr n) @ drop (kidCount n) (arr (newNode b c :: 'v node))\<rparr>"

lemma copyShape_kids:
  assumes c: "c = kidCount (nodes s a) + extra" "c \<noteq> 0" and cap: "kidCap (nodes s a) \<noteq> 0"
    and room: "kidCount (nodes s a) \<le> length (arr (nodes s a))" and fits: "kidCount (nodes s a) \<le> size_class (build s) c"
  shows "copyShape t a extra s = Some (alloc_node ((kids_copy (build s) (nodes s a) c)\<lparr>epoch := tepoch t\<rparr>) s)"
proof -
  let ?n = "nodes s a" and ?count = "kidCount (nodes s a)"
  let ?c0 = "(newNode (build s) c :: 'a node)\<lparr>prefix := prefix ?n, bitmap := bitmap ?n\<rparr>"
  have sk: "setKidCount ?c0 ?count = Some (?c0\<lparr>nkids := ?count\<rparr>)" using fits by (simp add: setKidCount_def newNode_def)
  have "kidList (?c0\<lparr>nkids := ?count\<rparr>) = replicate ?count None" "kidList ?n = take ?count (arr ?n)"
    using fits by (simp add: kidList_def newNode_def min_absorb1) (simp add: kidList_def kidCount_def)
  then have "go_copy (kidList (?c0\<lparr>nkids := ?count\<rparr>)) 0 (kidList ?n) = take ?count (arr ?n)"
    using room by (simp add: go_copy_start)
  then have "set_kidList (?c0\<lparr>nkids := ?count\<rparr>) (go_copy (kidList (?c0\<lparr>nkids := ?count\<rparr>)) 0 (kidList ?n)) = kids_copy (build s) ?n c"
    using room by (simp add: set_kidList_def kids_copy_def min_absorb2)
  then show ?thesis using sk c cap by (auto simp: copyShape_def Let_def)
qed

lemma size_class_pos: "0 < c \<Longrightarrow> 0 < size_class b c" "size_class b c \<le> 256"
  by (auto simp: size_classes)

text \<open>What \<open>copyShape\<close> makes of the new node's memory.\<close>

definition u_kids_copy :: "arch \<Rightarrow> 'v unode \<Rightarrow> nat \<Rightarrow> 'v unode \<Rightarrow> 'v unode" where
  "u_kids_copy k n count x =
     (set_unkids k (of_nat count) (set_ubitmap k (ubitmap k n) (x\<lparr>uprefix := uprefix n\<rparr>)))
       \<lparr>uarr := take count (uarr n) @ drop count (uarr x)\<rparr>"

lemma u_copyShape_kids:
  assumes ok: "u_ok k m a" and cap: "uckids (unodes m a) \<noteq> 0" and count: "count = unat (unkids k (unodes m a))"
    and z: "z = size_class DefaultBuild (count + extra)" "count + extra \<noteq> 0" "count \<le> z"
    and m1: "u_newNode (count + extra) m = (unext m, m1)"
  shows "u_copyShape k t a extra m =
      Some (unext m, u_upd (unext m) (\<lambda>x. x\<lparr>uepoch := tepoch t\<rparr>) (u_upd (unext m) (u_kids_copy k (unodes m a) count) m1))"
proof -
  let ?n = "unodes m a" and ?x = "unext m"
  have x1: "unodes m1 ?x = u_sized z" "a \<noteq> ?x" "unodes m1 a = ?n"
    using m1 u_okD(1) [OF ok] by (auto simp: u_newNode_class u_alloc_def z(1))
  have z0: "unat (of_nat z :: 16 word) = z" "(of_nat z :: 16 word) \<noteq> 0"
    using size_class_pos(1) [of "count + extra" DefaultBuild] size_class_pos(2) [of DefaultBuild "count + extra"] z(1,2) by (auto simp: unat_of_nat dest: arg_cong [of _ _ unat])
  note cd = u_capD [OF ok cap] and l = u_okD(3) [OF ok]
  have cl: "count \<le> length (uarr ?n)" using cd(3) l count by (simp add: word_le_nat_alt)
  have uc: "unat (of_nat count :: 16 word) = count" using count by simp
  let ?b = "\<lambda>x. set_ubitmap k (ubitmap k ?n) (x\<lparr>uprefix := uprefix ?n\<rparr>)"
  let ?m2 = "u_upd ?x (\<lambda>x. set_unkids k (of_nat count) (?b x)) m1"
  have s1: "u_setKidCount k ?x count (u_upd ?x ?b m1) = Some ?m2"
    using x1(1) z0(1) z(3) by (simp add: u_setKidCount_def u_sized_def)
  have s2: "u_kidList k ?m2 ?x = Some (replicate count None)"
    using x1(1) z0 z(3) uc by (simp add: u_kidList_def u_sized_def Let_def min_absorb1 min_absorb2)
  have s3: "u_kidList k ?m2 a = Some (take count (uarr ?n))"
    using cap x1(2,3) cl l count by (simp add: u_kidList_def Let_def)
  have "u_kidCount k m a = count" "u_kidCap m a \<noteq> 0"
    using cd(3) count cap by (auto simp: u_kidCount_def u_kidCap_def min_def unat_eq_0)
  then have "u_copyShape k t a extra m = Some (?x, u_upd ?x (\<lambda>x. x\<lparr>uepoch := tepoch t\<rparr>)
      (u_set_kidList ?x (go_copy (replicate count None) 0 (take count (uarr ?n))) ?m2))"
    using z(2) m1 s1 s2 s3 by (auto simp: u_copyShape_def Let_def)
  also have "u_set_kidList ?x (go_copy (replicate count None) 0 (take count (uarr ?n))) ?m2 = u_upd ?x (u_kids_copy k ?n count) m1"
    using cl by (simp add: u_set_kidList_def u_kids_copy_def [abs_def] go_copy_start min_absorb2)
  finally show ?thesis .
qed

lemma u_kids_copy_fresh:
  assumes pr: "presents k m s" and a: "a < unext m" and cap: "uckids (unodes m a) \<noteq> 0"
    and count: "count = unat (unkids k (unodes m a))"
    and z: "count \<le> size_class DefaultBuild c" and m1: "u_newNode c m = (unext m, m1)"
  shows "u_fresh k m (u_upd (unext m) (u_kids_copy k (unodes m a) count) m1) (kids_copy DefaultBuild (nodes s a) c)"
proof -
  have ok: "u_ok k m a" and nd: "nodes s a = uview k m a" using presentsD(4,5) [OF pr a] by simp_all
  let ?n = "unodes m a" and ?x = "unext m" and ?z = "size_class DefaultBuild c"
  let ?m3 = "u_upd ?x (u_kids_copy k ?n count) m1"
  have g: "u_grows m m1" "unext m1 = Suc ?x" "\<And>b. b \<noteq> ?x \<Longrightarrow> unodes m1 b = unodes m b"
    using u_freshD [OF u_newNode_fresh(2) [of k m c]] m1 by simp_all
  have x1: "unodes m1 ?x = u_sized ?z" using m1 by (auto simp: u_newNode_class u_alloc_def)
  have zz: "unat (of_nat ?z :: 16 word) = ?z" using size_class_pos(2) [of DefaultBuild c] by (simp add: unat_of_nat)
  note o = u_okD [OF ok] and cd = u_capD [OF ok cap]
  have cnt: "kidCount (nodes s a) = count" "count \<le> length (uarr ?n)"
    using cd(1,3) nd o(3) count by (simp_all add: kidCount_def word_le_nat_alt)
  have gr: "u_grows m ?m3" using u_grows_trans [OF g(1)] by simp
  have str: "str_ok k ?m3 (uprefix ?n)" "str_bytes k ?m3 (uprefix ?n) = str_bytes k m (uprefix ?n)"
    using str_frame [OF o(4) gr] cd(2) by blast+
  have x3: "uprefix (unodes ?m3 ?x) = uprefix ?n" "uckids (unodes ?m3 ?x) = of_nat ?z"
    "uarr (unodes ?m3 ?x) = take count (uarr ?n) @ replicate (?z - count) None"
    "ubitmap k (unodes ?m3 ?x) = ubitmap k ?n" "unkids k (unodes ?m3 ?x) = unkids k ?n" "length (area (unodes ?m3 ?x)) = 34"
    "uval (unodes ?m3 ?x) = None" "uleaf (unodes ?m3 ?x) = None" "uwatch (unodes ?m3 ?x) = None" "uepoch (unodes ?m3 ?x) = 0"
    using count by (simp_all add: u_kids_copy_def x1 u_sized_def)
  have nc: "\<not> u_compact k ?m3 ?x" using cd(2) x3(1) by (simp add: u_compact_def)
  have "u_ok k ?m3 ?x" using nc str(1) cd(2,4) x3 zz g(2) z cnt(2) count unfolding u_ok_def
    by (simp add: word_le_nat_alt)
  moreover have "uview k ?m3 ?x = kids_copy DefaultBuild (nodes s a) c"
    using nc str(2) x3 cd(1) cnt count
    by (simp add: uview_def Let_def nd newNode_def zero_node_def kids_copy_def)
  ultimately show ?thesis using g gr by (simp add: u_fresh_def)
qed

lemma copyShape_sim:
  assumes pr: "presents k m s" and a: "a < unext m"
    and fits: "kidCount (nodes s a) + extra \<le> 256"
  shows "\<exists>c m' s'. copyShape t a extra s = Some (c, s') \<and> u_copyShape k t a extra m = Some (c, m') \<and> presents k m' s'"
proof -
  have ok: "u_ok k m a" and nd: "nodes s a = uview k m a" and b: "build s = DefaultBuild"
    using presentsD(2,4,5) [OF pr] a by simp_all
  let ?n = "unodes m a" and ?count = "kidCount (nodes s a)"
  consider "?count + extra = 0" | "?count + extra \<noteq> 0" "kidCap (nodes s a) = 0"
    | "?count + extra \<noteq> 0" "kidCap (nodes s a) \<noteq> 0" by blast
  then show ?thesis
  proof cases
    case 1
    then show ?thesis by (rule copyShape_leaf_sim [OF pr a])
  next
    case 2
    then show ?thesis by (rule copyShape_bare_sim [OF pr a])
  next
    case 3
    have cap: "uckids ?n \<noteq> 0" using 3(2) nd u_okD(3) [OF ok] by (auto simp: kidCap_def)
    note cd = u_capD [OF ok cap]
    have count: "?count = unat (unkids k ?n)" and room: "?count \<le> length (arr (nodes s a))"
      using cd(1,3) nd u_okD(3) [OF ok] by (simp_all add: kidCount_def word_le_nat_alt)
    have z: "?count \<le> size_class DefaultBuild (?count + extra)" using fits by (auto simp: size_classes)
    obtain m1 where m1: "u_newNode (?count + extra) m = (unext m, m1)" using u_newNode_fresh(1) by blast
    show ?thesis
      using copyShape_kids [OF refl 3 room, of t] u_copyShape_kids [OF ok cap count refl 3(1) z m1, of t] z b
      by (intro copy_finish [OF pr u_kids_copy_fresh [OF pr a cap count z m1]]) simp_all
  qed
qed

end
