(* ===== verification/Layout_Get.thy ===== *)
theory Layout_Get
  imports Layout_Refine
begin

text \<open>
  The interface between the two builds and the rest of the package: a build supplies the accessors of
  a node, and everything else reaches nodes through them.  Both builds meet the same contract, so a
  lookup compiled against either returns the same.
\<close>

section \<open>A lookup over the accessors\<close>

text \<open>
  \<open>Tree.Get\<close> with the accessors as parameters: \<open>rank\<close>, \<open>kid\<close>, the bytes of \<open>prefix\<close>, and the value
  if there is one.
\<close>

partial_function (option) Get_via ::
  "('m \<Rightarrow> addr \<Rightarrow> byte \<Rightarrow> nat \<times> bool) \<Rightarrow> ('m \<Rightarrow> addr \<Rightarrow> nat \<Rightarrow> addr option) \<Rightarrow> ('m \<Rightarrow> addr \<Rightarrow> bytes) \<Rightarrow>
   ('m \<Rightarrow> addr \<Rightarrow> 'v any \<times> bool) \<Rightarrow> 'm \<Rightarrow> addr \<Rightarrow> bytes \<Rightarrow> ('v any \<times> bool) option" where
  "Get_via rk kd sg vl m n search =
     (if search \<noteq> [] then
        (case rk m n (hd search) of (idx, ok) \<Rightarrow>
           if \<not> ok then Some no_value
           else do {
             n \<leftarrow> kd m n idx;
             hp \<leftarrow> hasPrefix ((zero_node :: 'v node)\<lparr>prefix := sg m n\<rparr>) search;
             if \<not> hp then Some no_value
             else do {
               search \<leftarrow> slice_from search (length (sg m n));
               Get_via rk kd sg vl m n search } })
      else Some (vl m n))"

definition node_value :: "'v node \<Rightarrow> 'v any \<times> bool" where
  "node_value n = (if \<not> hasValue n then no_value else (val n, True))"

lemma hasPrefix_only: "hasPrefix ((zero_node :: 'v node)\<lparr>prefix := prefix n\<rparr>) search = hasPrefix n search"
  by (simp add: hasPrefix_def zero_node_def Let_def)

section \<open>The contract of a build\<close>

locale node_build =
  fixes ok :: "'m \<Rightarrow> addr \<Rightarrow> bool"
    and view :: "'m \<Rightarrow> addr \<Rightarrow> 'v node"
    and rank :: "'m \<Rightarrow> addr \<Rightarrow> byte \<Rightarrow> nat \<times> bool"
    and kid_at :: "'m \<Rightarrow> addr \<Rightarrow> nat \<Rightarrow> addr option"
    and count :: "'m \<Rightarrow> addr \<Rightarrow> nat"
    and cap :: "'m \<Rightarrow> addr \<Rightarrow> nat"
    and leafless :: "'m \<Rightarrow> addr \<Rightarrow> bool"
    and kids :: "'m \<Rightarrow> addr \<Rightarrow> addr option list option"
    and sg :: "'m \<Rightarrow> addr \<Rightarrow> bytes"
    and vl :: "'m \<Rightarrow> addr \<Rightarrow> 'v any \<times> bool"
  assumes rank_view: "ok m a \<Longrightarrow> rank m a b = node_rank (view m a) b"
    and kid_view: "ok m a \<Longrightarrow> i < kidCount (view m a) \<Longrightarrow> kid_at m a i = kid (view m a) i"
    and count_view: "ok m a \<Longrightarrow> count m a = kidCount (view m a)"
    and cap_view: "ok m a \<Longrightarrow> cap m a = kidCap (view m a)"
    and childless_view: "ok m a \<Longrightarrow> leafless m a = childless (view m a)"
    and kids_view: "ok m a \<Longrightarrow> kids m a = Some (kidList (view m a))"
    and segment_view: "ok m a \<Longrightarrow> sg m a = prefix (view m a)"
    and value_view: "ok m a \<Longrightarrow> vl m a = node_value (view m a)"
begin

lemma leaf_has_no_kids: "ok m a \<Longrightarrow> leafless m a \<longleftrightarrow> count m a = 0"
  by (simp add: childless_view count_view childless_def kidCount_def)

lemma kids_length: "ok m a \<Longrightarrow> nkids (view m a) \<le> length (arr (view m a)) \<Longrightarrow> map_option length (kids m a) = Some (count m a)"
  by (simp add: kids_view count_view kidList_def kidCount_def)

text \<open>On a tree whose nodes the memory presents, the lookup is that of the pure-safe build.\<close>

lemma Get_via_loop:
  assumes "rep s g" and "wf_kids (map (absn s) (gk g))"
    and "\<And>a. a \<in> set (addrs g) \<Longrightarrow> ok m a \<and> view m a = nodes s a"
  shows "Get_via rank kid_at sg vl m (ad g) search = Get_loop s (ad g) search"
  using assms
proof (induction "length search" arbitrary: g search rule: less_induct)
  case less
  have here: "ok m (ad g)" "view m (ad g) = nodes s (ad g)" using less.prems(3) by simp_all
  show ?case
  proof (cases search)
    case Nil
    then show ?thesis
      using here by (simp add: Get_via.simps [of _ _ _ _ m] Get_loop.simps [of s] value_view node_value_def)
  next
    case (Cons b rest)
    show ?thesis
    using less.prems(1,2)
    proof (cases rule: rep_step [where b = b])
      case miss
      then show ?thesis using here Cons
        by (simp add: Get_via.simps [of _ _ _ _ m] Get_loop.simps [of s] rank_view)
    next
      case (hit i c)
      have "c \<in> set (gk g)" using hit(3,4) by auto
      then have sub: "\<And>a. a \<in> set (addrs c) \<Longrightarrow> ok m a \<and> view m a = nodes s a"
        using less.prems(3) addrs_kid by blast
      then have c: "ok m (ad c)" "view m (ad c) = nodes s (ad c)" by simp_all
      have k: "kid_at m (ad g) i = Some (ad c)"
        using kid_view [OF here(1)] here(2) hit(3,5) rep_kidCount [OF less.prems(1)] by simp
      have rec: "Get_via rank kid_at sg vl m (ad c) (drop (length (prefix (nodes s (ad c)))) search) =
          Get_loop s (ad c) (drop (length (prefix (nodes s (ad c)))) search)"
        using less.hyps [of "drop (length (prefix (nodes s (ad c)))) search" c] hit(7,9,11) sub Cons by simp
      have hp: "hasPrefix (nodes s (ad c)) search = Some (starts search (prefix (nodes s (ad c))))"
        using hasPrefix_starts [OF hit(9), of search] hit(10) Cons by simp
      have sl: "starts search (prefix (nodes s (ad c))) \<Longrightarrow>
          slice_from search (length (prefix (nodes s (ad c)))) = Some (drop (length (prefix (nodes s (ad c)))) search)"
        using starts_length by simp
      show ?thesis
        using here c k hit(1,5) hp sl rec Cons
        by (subst Get_via.simps, subst Get_loop.simps) (simp add: rank_view segment_view hasPrefix_only)
    qed
  qed
qed

end

section \<open>The two builds\<close>

definition u_seg :: "arch \<Rightarrow> 'v umem \<Rightarrow> addr \<Rightarrow> bytes" where
  "u_seg k m a = str_bytes k m (uprefix (unodes m a))"

definition u_value :: "'v umem \<Rightarrow> addr \<Rightarrow> 'v any \<times> bool" where
  "u_value m a = (if uepoch (unodes m a) AND valueBit = 0 then no_value else (uval (unodes m a), True))"

definition u_Get :: "arch \<Rightarrow> 'v umem \<Rightarrow> tree \<Rightarrow> bytes \<Rightarrow> ('v any \<times> bool) option" where
  "u_Get k m t key = do { n \<leftarrow> t; Get_via (u_rank k) (u_kid k) (u_seg k) u_value m n key }"

interpretation safe_build: node_build "\<lambda>s a. True" "nodes" "\<lambda>s a. node_rank (nodes s a)" "\<lambda>s a. kid (nodes s a)"
  "\<lambda>s a. kidCount (nodes s a)" "\<lambda>s a. kidCap (nodes s a)" "\<lambda>s a. childless (nodes s a)"
  "\<lambda>s a. Some (kidList (nodes s a))" "\<lambda>s a. prefix (nodes s a)" "\<lambda>s a. node_value (nodes s a)"
  by unfold_locales simp_all

interpretation default_build: node_build "\<lambda>m a. 0 < ptrSize k \<and> u_ok k m a" "uview k" "u_rank k" "u_kid k"
  "u_kidCount k" u_kidCap "u_childless k" "u_kidList k" "u_seg k" u_value for k
  by unfold_locales
    (simp_all add: u_rank_view u_kid_view u_kidCount_view u_kidCap_view u_childless_view u_kidList_view
      u_seg_def u_value_def node_value_def hasValue_def)

lemma u_Get_Get:
  assumes "presents k m s" and "rep s g" and "wf_kids (map (absn s) (gk g))"
  shows "u_Get k m (Some (ad g)) key = Get s (Some (ad g)) key"
proof -
  have "0 < ptrSize k \<and> u_ok k m a \<and> uview k m a = nodes s a" if "a \<in> set (addrs g)" for a
    using presentsD(1,3,4,5) [OF assms(1)] rep_bound [OF assms(2) that] by auto
  then show ?thesis using default_build.Get_via_loop [OF assms(2,3), of k m key] by (simp add: u_Get_def Get_def)
qed

end
