(* ===== verification/Layout_Demo.thy ===== *)
theory Layout_Demo
  imports Layout_Get Exec
begin

text \<open>
  A memory of the default build with a root and one compact leaf, made by the operations of the
  build, and the store it presents: the input the properties of the layout are applied to.
\<close>

definition k64 :: arch where
  "k64 = \<lparr>ptrSize = 8, bigEndian = False\<rparr>"

text \<open>The key \<open>[1, 2, 3]\<close> in a buffer of the caller's.\<close>

definition mem0 :: "nat umem" where
  "mem0 = \<lparr>unodes = (\<lambda>_. u_zero), unext = 0, bufs = (\<lambda>_. [])(0 := [1, 2, 3]), next_buf = 1\<rparr>"

definition key0 :: gostr where
  "key0 = \<lparr>sbase = Buf 0, soff = 0, slen = 3\<rparr>"

definition txn0 :: txn where
  "txn0 = \<lparr>troot = None, tepoch = 1, tnf = None\<rparr>"

definition mem1 :: "nat umem" where
  "mem1 = snd (u_newNode 1 mem0)"

definition mem2 :: "nat umem" where
  "mem2 = snd (u_leafNode k64 txn0 key0 (Some 7) mem1)"

definition store2 :: "nat store" where
  "store2 = snd (leafNode txn0 [1, 2, 3] (Some 7) (snd (alloc_node (newNode DefaultBuild 1) (init_store DefaultBuild))))"

definition mem3 :: "nat umem" where
  "mem3 = the (u_addKid k64 0 0 1 mem2)"

definition store3 :: "nat store" where
  "store3 = the (addKid 0 0 1 store2)"

lemma mem0_presents: "presents k64 mem0 (init_store DefaultBuild)"
  by (simp add: presents_def k64_def mem0_def init_store_def world.defs init_world_def)

lemma mem1_presents: "presents k64 mem1 (snd (alloc_node (newNode DefaultBuild 1) (init_store DefaultBuild)))"
  using presents_alloc(1) [OF mem0_presents u_newNode_fresh(2) [of k64 mem0 1]] by (simp add: mem1_def)

lemma mem1_sel [simp]: "unext mem1 = 1" "bufs mem1 = bufs mem0" "next_buf mem1 = 1"
  by (simp_all add: mem1_def u_newNode_def u_alloc_def mem0_def)

lemma key0_mem1: "str_ok k64 mem1 key0" "str_bytes k64 mem1 key0 = [1, 2, 3]"
  by (simp_all add: str_ok_def str_bytes_def key0_def mem0_def numeral_3_eq_3)

lemma mem2_presents: "presents k64 mem2 store2" and mem2_next: "unext mem2 = 2"
proof -
  show p: "presents k64 mem2 store2"
    using leafNode_sim [OF mem1_presents key0_mem1(1), of txn0 "Some 7"] key0_mem1(2)
    by (auto simp: mem2_def store2_def)
  have "next_node store2 = 2"
    by (simp add: store2_def leafNode_def alloc_node_def init_store_def world.defs)
  then show "unext mem2 = 2" using presentsD(3) [OF p] by simp
qed

lemma store2_nodes:
  "nodes store2 0 = newNode DefaultBuild 1" "prefix (nodes store2 (Suc 0)) = [1, 2, 3]"
  by (simp_all add: store2_def leafNode_def alloc_node_def init_store_def world.defs newLeafNode_prefix)

lemma store3_run: "addKid 0 0 1 store2 = Some store3"
proof -
  have "\<exists>s. addKid 0 0 1 store2 = Some s"
    by (simp add: addKid_def store2_nodes byte0_def newNode_def size_classes kidCount_def setKidCount_def zero_node_def Let_def)
  then show ?thesis by (auto simp: store3_def)
qed

lemma mem3_presents: "presents k64 mem3 store3" and mem3_run: "u_addKid k64 0 0 1 mem2 = Some mem3"
proof -
  have "hd (prefix (nodes store2 1)) \<notin> bm_labels (bitmap (nodes store2 0))"
    by (simp add: store2_nodes newNode_def zero_node_def)
  then obtain m where m: "u_addKid k64 0 0 1 mem2 = Some m" "presents k64 m store3"
    using addKid_sim [OF mem2_presents _ _ store3_run] mem2_next by auto
  then show "presents k64 mem3 store3" "u_addKid k64 0 0 1 mem2 = Some mem3" by (simp_all add: mem3_def)
qed

declare Get_via.simps [code]

lemma mem3_eval:
  "unext mem3 = 2" "u_compact k64 mem3 1" "u_seg k64 mem3 1 = [1, 2, 3]" "u_kidCount k64 mem3 0 = 1"
  "u_Get k64 mem3 (Some 0) [1, 2, 3] = Some (Some 7, True)"
  by code_simp+

lemma store3_nodes:
  "next_node store3 = 2" "kidList (nodes store3 0) = [Some 1]" "nkids (nodes store3 0) = 1" "length (arr (nodes store3 0)) = 4"
  "bitmap (nodes store3 0) = bm_add bm_zero 1" "hasValue (nodes store3 0) = False" "leafp (nodes store3 0) = None"
  "val (nodes store3 0) = None" "leafOwned (nodes store3 0) = False" "prefix (nodes store3 0) = []"
  "nkids (nodes store3 1) = 0" "arr (nodes store3 1) = []" "bitmap (nodes store3 1) = bm_zero"
  "hasValue (nodes store3 1) = True" "val (nodes store3 1) = Some 7" "prefix (nodes store3 1) = [1, 2, 3]"
  by code_simp+

lemma store3_holds: "holds store3 \<lparr>rtree_of = Some 0\<rparr> [([1, 2, 3], Some 7)]"
proof -
  let ?g = "G 0 () [G 1 () []]"
  have "tree_ok store3 ?g"
    using store3_nodes
    by (simp add: tree_ok_def node_ok_def bm.enum_def lab_at_def wf_root_def wf_kids_def wf_sub.simps value_at_def kidList_def)
  moreover have "contents store3 ?g = [([1, 2, 3], Some 7)]"
    using store3_nodes by (simp add: contents_def below_def ents.simps own_ents_def value_at_def)
  ultimately show ?thesis unfolding holds_def by (intro exI [of _ ?g]) simp
qed

end
