(* ===== verification/Layout_Theorems.thy ===== *)
theory Layout_Theorems
  imports Layout_Demo
begin

text \<open>
  The properties of the default build's node layout: the union is never misread, the accessors agree
  with those of the pure-safe build, the operations in place and the copies refine that build's, and
  lookups return the same in both.
\<close>

section \<open>The union\<close>

text \<open>
  C23: the union is read as what it holds.  In a compact leaf it is the segment: at most 34 bytes, all
  of the node's prefix, and the node has no children, no capacity and no label.  In any other node it
  is a bitmap and the number of its labels, within the node's capacity.
\<close>

theorem union_read_as_written:
  assumes "presents k m s" and "a < unext m"
  shows "if u_compact k m a
    then (let p = prefix (nodes s a) in p \<noteq> [] \<and> length p \<le> segMax k \<and> take (length p) (u_segment k m a) = p \<and>
            u_kidCount k m a = 0 \<and> u_kidCap m a = 0 \<and> u_childless k m a \<and> u_rank k m a l = (0, False))
    else card (bm_labels (ubitmap k (unodes m a))) = u_kidCount k m a \<and> u_kidCount k m a \<le> u_kidCap m a"
proof -
  have ok: "u_ok k m a" and nd: "nodes s a = uview k m a" using presentsD(4,5) [OF assms] by simp_all
  note o = u_okD [OF ok]
  show ?thesis
  proof (cases "u_compact k m a")
    case True
    then have b: "sbase (uprefix (unodes m a)) = Obj a" "soff (uprefix (unodes m a)) = segOffset k"
      by (simp_all add: u_compact_def)
    have "length (prefix (nodes s a)) = slen (uprefix (unodes m a))" using length_str_bytes [OF o(4)] nd by simp
    moreover have "take (slen (uprefix (unodes m a))) (area (unodes m a)) = prefix (nodes s a)"
      using b nd by (simp add: str_bytes_def)
    ultimately show ?thesis using True o(2,4,6,7) b
      by (auto simp: u_segment_def u_kidCount_def u_kidCap_def u_childless_def u_rank_def str_ok_def Let_def min_def)
  next
    case False
    then show ?thesis using o(8,9) by (simp add: u_kidCount_def u_kidCap_def word_le_nat_alt min_def)
  qed
qed

theorem union_read_as_written_witness:
  "prefix (nodes store3 1) \<noteq> [] \<and> u_rank k64 mem3 1 1 = (0, False) \<and> u_kidCount k64 mem3 0 \<le> u_kidCap mem3 0"
  using union_read_as_written [OF mem3_presents, of 1 1] union_read_as_written [OF mem3_presents, of 0 1] mem3_eval(1,2)
  by (simp add: Let_def u_compact_iff_obj split: if_splits)

text \<open>C20: every accessor of the default build returns what the pure-safe build's returns.\<close>

theorem accessors_agree:
  assumes "presents k m s" and "a < unext m"
  shows "u_kidCount k m a = kidCount (nodes s a) \<and> u_kidCap m a = kidCap (nodes s a) \<and>
    u_childless k m a = childless (nodes s a) \<and> u_kidList k m a = Some (kidList (nodes s a)) \<and>
    (i < kidCount (nodes s a) \<longrightarrow> u_kid k m a i = kid (nodes s a) i \<and> u_frameKids k m a = frameKids (nodes s a)) \<and>
    u_rank k m a l = node_rank (nodes s a) l \<and> u_seg k m a = prefix (nodes s a)"
proof -
  have ok: "0 < ptrSize k \<and> u_ok k m a" and nd: "nodes s a = uview k m a" using presentsD(1,4,5) [OF assms(1)] assms(2) by simp_all
  show ?thesis
    using default_build.count_view [OF ok] default_build.cap_view [OF ok] default_build.childless_view [OF ok]
      default_build.kids_view [OF ok] default_build.kid_view [OF ok, of i] default_build.rank_view [OF ok, of l]
      default_build.segment_view [OF ok] u_frameKids_view [of k m a] ok unfolding nd by auto
qed

theorem accessors_agree_witness: "u_kidList k64 mem3 0 = Some [Some 1] \<and> u_kid k64 mem3 0 0 = Some 1 \<and> u_kidCap mem3 0 = 4"
  using accessors_agree [OF mem3_presents, of 0 0] mem3_eval(1) store3_nodes(2,3,4)
  by (auto simp: kidCount_def kidCap_def kid_def kidList_def take_Suc_conv_app_nth)

section \<open>Segments\<close>

text \<open>
  C25: a new leaf holds the concatenation of the two strings it was given, in its own header if it is
  between 1 and 34 bytes long; whatever is written afterwards to the buffers and nodes that existed
  before, such as the caller's scratch buffer, the segment stays.
\<close>

theorem leaf_segment_private:
  assumes "str_ok k m a" and "str_ok k m b" and "u_newLeafNode k a b m = (x, m1)"
    and "unodes m2 x = unodes m1 x" and "bufs m2 (next_buf m) = bufs m1 (next_buf m)"
  shows "u_seg k m2 x = str_bytes k m a @ str_bytes k m b \<and>
    (u_compact k m1 x \<longleftrightarrow> 0 < slen a + slen b \<and> slen a + slen b \<le> 34)"
proof -
  have l: "length (str_bytes k m a) = slen a" "length (str_bytes k m b) = slen b"
    using assms(1,2) by (simp_all add: length_str_bytes)
  have x: "x = unext m" and f: "u_fresh k m m1 (newLeafNode (str_bytes k m a) (str_bytes k m b))"
    using u_newLeafNode_fresh [OF assms(1,2)] assms(3) by simp_all
  have s1: "u_seg k m1 x = str_bytes k m a @ str_bytes k m b"
    using u_freshD(5) [OF f] uview_sel(1) [of k m1 x] by (simp add: x u_seg_def newLeafNode_prefix)
  have "str_bytes k m2 (uprefix (unodes m1 x)) = str_bytes k m1 (uprefix (unodes m1 x))"
    using assms(3,4,5) by (auto simp: u_newLeafNode_def u_alloc_def u_buffer_def str_bytes_def Let_def split: if_splits)
  moreover have "u_compact k m1 x \<longleftrightarrow> 0 < slen a + slen b \<and> slen a + slen b \<le> 34"
    using assms(3) by (auto simp: u_newLeafNode_def u_alloc_def u_buffer_def u_compact_def offsets Let_def split: if_splits)
  ultimately show ?thesis using s1 assms(4) by (simp add: u_seg_def)
qed

theorem leaf_segment_private_witness:
  "u_seg k64 ((snd (u_newLeafNode k64 key0 key0 mem1))\<lparr>bufs := (\<lambda>_. [9, 9, 9])\<rparr>) 1 = [1, 2, 3, 1, 2, 3]"
proof -
  have "u_newLeafNode k64 key0 key0 mem1 = (1, snd (u_newLeafNode k64 key0 key0 mem1))"
    using u_newLeafNode_fresh(1) [OF key0_mem1(1) key0_mem1(1)] by simp
  then have "u_seg k64 ((snd (u_newLeafNode k64 key0 key0 mem1))\<lparr>bufs := (bufs (snd (u_newLeafNode k64 key0 key0 mem1)))(0 := [9, 9, 9])\<rparr>) 1
      = [1, 2, 3, 1, 2, 3]"
    using leaf_segment_private [OF key0_mem1(1) key0_mem1(1)] key0_mem1(2) by simp
  then show ?thesis by (simp add: u_seg_def str_bytes_def u_newLeafNode_def key0_def u_alloc_def Let_def)
qed

section \<open>Refinement\<close>

text \<open>
  C22: adding and removing a child in place, with the count and the bitmap in the union and the array
  behind the header, refines the pure-safe operations on the store the memory presents.
\<close>

theorem children_refine:
  assumes "presents k m s" and "a < unext m" and "c < unext m"
  shows "(addKid a idx c s = Some s1 \<and> hd (prefix (nodes s c)) \<notin> bm_labels (bitmap (nodes s a)) \<longrightarrow>
      (\<exists>m1. u_addKid k a idx c m = Some m1 \<and> presents k m1 s1)) \<and>
    (delKid a idx s = Some s2 \<and> kid (nodes s a) idx = Some c \<and> hd (prefix (nodes s c)) \<in> bm_labels (bitmap (nodes s a)) \<longrightarrow>
      (\<exists>m2. u_delKid k a idx m = Some m2 \<and> presents k m2 s2))"
  using addKid_sim [OF assms, of idx s1] delKid_sim [OF assms(1,2) _ assms(3), of idx s2] by blast

theorem children_refine_witness:
  "(\<exists>m1. u_addKid k64 0 0 1 mem2 = Some m1 \<and> presents k64 m1 store3) \<and>
   (\<exists>s m2. delKid 0 0 store3 = Some s \<and> u_delKid k64 0 0 mem3 = Some m2 \<and> presents k64 m2 s)"
proof
  have "hd (prefix (nodes store2 1)) \<notin> bm_labels (bitmap (nodes store2 0))"
    by (simp add: store2_nodes newNode_def zero_node_def)
  then show "\<exists>m1. u_addKid k64 0 0 1 mem2 = Some m1 \<and> presents k64 m1 store3"
    using children_refine [OF mem2_presents, of 0 1 0 store3] store3_run mem2_next by simp
  have "delKid 0 0 store3 \<noteq> None" by code_simp
  then obtain s where "delKid 0 0 store3 = Some s" by blast
  then show "\<exists>s m2. delKid 0 0 store3 = Some s \<and> u_delKid k64 0 0 mem3 = Some m2 \<and> presents k64 m2 s"
    using children_refine [OF mem3_presents, of 0 1 0 _ s] mem3_eval(1) store3_nodes
    by (auto simp: kid_def kidList_def take_Suc_conv_app_nth)
qed

text \<open>
  C21: copying a node for \<open>extra\<close> more children never fails within 256 children, and the copy on the
  bytes is the copy of the node model, taken at the size classes of the default build (\<open>presents\<close> fixes
  the build of the store), whether it inherits children, gets room for its first ones or stays a leaf.
\<close>

theorem copies_refine:
  assumes "presents k m s" and "a < unext m" and "kidCount (nodes s a) + extra \<le> 256"
  shows "\<exists>c m1 s1. copyShape t a extra s = Some (c, s1) \<and> u_copyShape k t a extra m = Some (c, m1) \<and> presents k m1 s1"
  by (rule copyShape_sim [OF assms])

theorem copies_refine_witness:
  "\<exists>c m1 s1. copyShape txn0 0 2 store3 = Some (c, s1) \<and> u_copyShape k64 txn0 0 2 mem3 = Some (c, m1) \<and> presents k64 m1 s1"
  using copies_refine [OF mem3_presents, of 0 2 txn0] mem3_eval(1) store3_nodes(3) by (simp add: kidCount_def)

text \<open>
  C24: dropping the front of a segment in place, which a compact leaf does by moving the bytes down
  within its header, refines the pure-safe slicing; the leaf stays compact, and the bytes of every
  other node's segment stay.
\<close>

theorem trim_refines:
  assumes "presents k m s" and "a < unext m" and "j < length (prefix (nodes s a))"
  shows "\<exists>m1. u_trimPrefix k a j m = Some m1 \<and> presents k m1 (put_node a (trimPrefix (nodes s a) j) s) \<and>
    u_compact k m1 a = u_compact k m a \<and> (b < unext m \<and> b \<noteq> a \<longrightarrow> u_seg k m1 b = u_seg k m b)"
proof -
  obtain m1 where m1: "u_trimPrefix k a j m = Some m1" "presents k m1 (put_node a (trimPrefix (nodes s a) j) s)"
    using trimPrefix_sim [OF assms] by blast
  have ok: "u_ok k m a" using presentsD(4) [OF assms(1,2)] .
  have n: "unext m1 = unext m" using m1(1) by (auto simp: u_trimPrefix_def Let_def split: if_splits)
  have "u_compact k m1 a = u_compact k m a"
    using m1(1) u_okD(4) [OF ok] u_compact_iff_obj [OF ok] u_okD(5) [OF ok]
    by (auto simp: u_trimPrefix_def Let_def u_compact_def offsets str_ok_def split: if_splits)
  moreover have "u_seg k m1 b = u_seg k m b" if "b < unext m" "b \<noteq> a"
    using presentsD(5) [OF m1(2), of b] presentsD(5) [OF assms(1) that(1)] that n
      uview_sel(1) [of k m1 b] uview_sel(1) [of k m b] by (simp add: u_seg_def put_node_def upd_node_def)
  ultimately show ?thesis using m1 by blast
qed

theorem trim_refines_witness:
  "\<exists>m1. u_trimPrefix k64 1 1 mem3 = Some m1 \<and> u_compact k64 m1 1 \<and> u_seg k64 m1 0 = []"
  using trim_refines [OF mem3_presents, of 1 1 0] mem3_eval(1,2) store3_nodes(10,16)
    presentsD(5) [OF mem3_presents, of 0] uview_sel(1) [of k64 mem3 0] by (auto simp: u_seg_def)

section \<open>Lookups\<close>

text \<open>
  C19: \<open>Get\<close> compiled against the accessors of the default build returns what the pure-safe build
  returns, for every tree whose nodes the memory presents: the entry of the key.
\<close>

theorem get_same_in_both_builds:
  assumes "presents k m s" and "holds s t es"
  shows "u_Get k m (rtree_of t) key = api_Get s t key \<and>
    u_Get k m (rtree_of t) key = Some (case map_of es key of None \<Rightarrow> (None, False) | Some v \<Rightarrow> (v, True))"
proof -
  obtain g :: "unit gtree" where g: "rtree_of t = Some (ad g)" "tree_ok s g" using holdsE [OF assms(2)] by metis
  have "u_Get k m (rtree_of t) key = api_Get s t key"
    using u_Get_Get [OF assms(1) tree_okD(1,2) [OF g(2)]] g(1) by (simp add: api_Get_def)
  then show ?thesis using snap.get_law [OF assms(2), of key] by (simp add: hit_def)
qed

theorem get_same_in_both_builds_witness: "u_Get k64 mem3 (Some 0) [1, 2, 3] = Some (Some 7, True) \<and> u_Get k64 mem3 (Some 0) [1, 2] = Some (None, False)"
  using conjunct2 [OF get_same_in_both_builds [OF mem3_presents store3_holds, of "[1, 2, 3]"]]
    conjunct2 [OF get_same_in_both_builds [OF mem3_presents store3_holds, of "[1, 2]"]] by simp

end
