(* ===== verification/Race.thy ===== *)
theory Race
  imports Node
begin

text \<open>
  The lock-free protocol of a node's watch slot and lazily created leaf, run by any number of
  goroutines at once (\<^verbatim>\<open>internal/watch/watch.go\<close>: \<open>Chan\<close>, \<open>Seal\<close>; \<^verbatim>\<open>internal/radix/node.go\<close>:
  \<open>leafOf\<close>, \<open>valueChan\<close>, \<open>sealValue\<close>).  Each atomic load, compare-and-swap, swap and close is one
  step; a step of the system is a step of one thread.  Allocations are private to their thread and
  part of a step of their own.
\<close>

section \<open>Shared state and program counters\<close>

text \<open>The slots that can be watched: that of the node, and those of leaves.\<close>

datatype slot_id = NodeSlot | LeafSlot laddr

record race = world +
  rslot :: "slot_id \<Rightarrow> slot"
  rleaf :: "laddr option"
  rnext :: nat

text \<open>
  Where a goroutine is.  \<open>Chan\<close> of slot \<open>i\<close>: \<open>CLoad\<close>, \<open>CNew\<close>, \<open>CCas\<close>, \<open>CReload\<close>, and \<open>Got\<close> when it
  has returned; \<open>Seal\<close>: \<open>SSwap\<close>, \<open>SClose\<close>, \<open>SDone\<close>; \<open>valueChan\<close>: \<open>VLoad\<close> to \<open>VReload\<close> and then
  \<open>Chan\<close> of the leaf; \<open>sealValue\<close>: \<open>ZLoad\<close> to \<open>ZReload\<close> and then \<open>Seal\<close> of the leaf; \<open>leafOf\<close>: \<open>LLoad\<close>
  to \<open>LReload\<close>, and \<open>LGot\<close>.
\<close>

datatype pc =
    CLoad slot_id | CNew slot_id | CCas slot_id caddr | CReload slot_id | Got slot_id chan
  | SSwap slot_id | SClose slot_id slot | SDone slot_id
  | VLoad | VNew | VCas laddr chan | VReload
  | ZLoad | ZCas | ZReload
  | LLoad | LNew | LCas laddr | LReload | LGot laddr
  | Panicked

definition set_slot :: "slot_id \<Rightarrow> slot \<Rightarrow> race \<Rightarrow> race" where
  "set_slot i p s = s\<lparr>rslot := (rslot s)(i := p)\<rparr>"

section \<open>The steps\<close>

fun chan_step :: "pc \<Rightarrow> race \<Rightarrow> pc \<times> race" where
  "chan_step (CLoad i) s = (case rslot s i of Some c \<Rightarrow> (Got i (cell_ch s c), s) | None \<Rightarrow> (CNew i, s))"
| "chan_step (CNew i) s = (let (ch, s) = make_chan s; (c, s) = new_cell ch s in (CCas i c, s))"
| "chan_step (CCas i c) s =
     (let (p, ok) = cas (rslot s i) None (Some c); s = set_slot i p s
      in (if ok then Got i (cell_ch s c) else CReload i, s))"
| "chan_step (CReload i) s = (case rslot s i of Some c \<Rightarrow> (Got i (cell_ch s c), s) | None \<Rightarrow> (Panicked, s))"
| "chan_step p s = (p, s)"

fun seal_step :: "pc \<Rightarrow> race \<Rightarrow> pc \<times> race" where
  "seal_step (SSwap i) s = (SClose i (rslot s i), set_slot i (Some sealedCell) s)"
| "seal_step (SClose i old) s =
     (case old of None \<Rightarrow> (SDone i, s)
      | Some c \<Rightarrow>
          if c \<noteq> sealedCell
          then (case close_chan (cell_ch s c) s of None \<Rightarrow> (Panicked, s) | Some s' \<Rightarrow> (SDone i, s'))
          else (SDone i, s))"
| "seal_step p s = (p, s)"

text \<open>Allocating a leaf: its slot is nil.\<close>

definition race_leaf :: "race \<Rightarrow> laddr \<times> race" where
  "race_leaf s = (rnext s, (set_slot (LeafSlot (rnext s)) None s)\<lparr>rnext := Suc (rnext s)\<rparr>)"

fun value_step :: "pc \<Rightarrow> race \<Rightarrow> pc \<times> race" where
  "value_step VLoad s = (case rleaf s of Some l \<Rightarrow> (CLoad (LeafSlot l), s) | None \<Rightarrow> (VNew, s))"
| "value_step VNew s =
     (let (c, s) = new_cell None s; (l, s) = race_leaf s; (ch, p, s) = slot_Live c s
      in (VCas l ch, set_slot (LeafSlot l) p s))"
| "value_step (VCas l ch) s =
     (let (q, ok) = cas (rleaf s) None (Some l); s = s\<lparr>rleaf := q\<rparr>
      in (if ok then Got (LeafSlot l) ch else VReload, s))"
| "value_step VReload s = (case rleaf s of Some l \<Rightarrow> (CLoad (LeafSlot l), s) | None \<Rightarrow> (Panicked, s))"
| "value_step p s = (p, s)"

fun sealv_step :: "pc \<Rightarrow> race \<Rightarrow> pc \<times> race" where
  "sealv_step ZLoad s = (case rleaf s of Some l \<Rightarrow> (SSwap (LeafSlot l), s) | None \<Rightarrow> (ZCas, s))"
| "sealv_step ZCas s =
     (let (q, ok) = cas (rleaf s) None (Some sealedLeaf); s = s\<lparr>rleaf := q\<rparr>
      in (if ok then SDone (LeafSlot sealedLeaf) else ZReload, s))"
| "sealv_step ZReload s = (case rleaf s of Some l \<Rightarrow> (SSwap (LeafSlot l), s) | None \<Rightarrow> (Panicked, s))"
| "sealv_step p s = (p, s)"

fun leaf_step :: "pc \<Rightarrow> race \<Rightarrow> pc \<times> race" where
  "leaf_step LLoad s = (case rleaf s of Some l \<Rightarrow> (LGot l, s) | None \<Rightarrow> (LNew, s))"
| "leaf_step LNew s = (let (l, s) = race_leaf s in (LCas l, s))"
| "leaf_step (LCas l) s =
     (let (q, ok) = cas (rleaf s) None (Some l); s = s\<lparr>rleaf := q\<rparr> in (if ok then LGot l else LReload, s))"
| "leaf_step LReload s = (case rleaf s of Some l \<Rightarrow> (LGot l, s) | None \<Rightarrow> (Panicked, s))"
| "leaf_step p s = (p, s)"

text \<open>One step of a goroutine: every program counter belongs to one of the five operations.\<close>

definition tstep :: "pc \<Rightarrow> race \<Rightarrow> pc \<times> race" where
  "tstep p s =
     (case p of
        CLoad _ \<Rightarrow> chan_step p s | CNew _ \<Rightarrow> chan_step p s | CCas _ _ \<Rightarrow> chan_step p s | CReload _ \<Rightarrow> chan_step p s
      | SSwap _ \<Rightarrow> seal_step p s | SClose _ _ \<Rightarrow> seal_step p s
      | VLoad \<Rightarrow> value_step p s | VNew \<Rightarrow> value_step p s | VCas _ _ \<Rightarrow> value_step p s | VReload \<Rightarrow> value_step p s
      | ZLoad \<Rightarrow> sealv_step p s | ZCas \<Rightarrow> sealv_step p s | ZReload \<Rightarrow> sealv_step p s
      | LLoad \<Rightarrow> leaf_step p s | LNew \<Rightarrow> leaf_step p s | LCas _ \<Rightarrow> leaf_step p s | LReload \<Rightarrow> leaf_step p s
      | _ \<Rightarrow> (p, s))"

fun finished :: "pc \<Rightarrow> bool" where
  "finished (Got i ch) = True"
| "finished (SDone i) = True"
| "finished (LGot l) = True"
| "finished Panicked = True"
| "finished p = False"

inductive rstep :: "pc list \<times> race \<Rightarrow> pc list \<times> race \<Rightarrow> bool" where
  thread: "i < length ts \<Longrightarrow> \<not> finished (ts ! i) \<Longrightarrow> tstep (ts ! i) s = (p, s') \<Longrightarrow> rstep (ts, s) (ts[i := p], s')"

inductive_cases rstepE: "rstep (ts, s) y"

inductive rsteps :: "pc list \<times> race \<Rightarrow> pc list \<times> race \<Rightarrow> bool" where
  refl: "rsteps x x"
| step: "rsteps x y \<Longrightarrow> rstep y z \<Longrightarrow> rsteps x z"

text \<open>
  Initially the node is published with an arbitrary valid slot and leaf pointer, and each goroutine is
  about to call one of the operations: a watcher of the node, its seal, a watcher of the value, the
  seal of the value, a copy of the node.
\<close>

definition starts_op :: "pc \<Rightarrow> bool" where
  "starts_op p \<longleftrightarrow> p \<in> {CLoad NodeSlot, SSwap NodeSlot, VLoad, ZLoad, LLoad}"

definition ginv :: "race \<Rightarrow> bool" where
  "ginv s \<longleftrightarrow>
     world_ok s \<and> (\<forall>i. slot_ok s (rslot s i)) \<and>
     (\<forall>i j c. rslot s i = Some c \<longrightarrow> rslot s j = Some c \<longrightarrow> c \<noteq> sealedCell \<longrightarrow> i = j) \<and>
     rslot s (LeafSlot sealedLeaf) = Some sealedCell \<and> sealedLeaf < rnext s \<and>
     (\<forall>l. rleaf s = Some l \<longrightarrow> l < rnext s) \<and> (\<forall>l. rnext s \<le> l \<longrightarrow> rslot s (LeafSlot l) = None)"

definition init_race :: race where
  "init_race = world.extend init_world
     \<lparr>rslot = (\<lambda>_. None)(LeafSlot sealedLeaf := Some sealedCell), rleaf = None, rnext = 1\<rparr>"

lemma init_race_sel [simp]:
  "rslot init_race i = (if i = LeafSlot sealedLeaf then Some sealedCell else None)" "rleaf init_race = None" "rnext init_race = 1"
  "cell_ch init_race = cell_ch init_world" "next_cell init_race = next_cell init_world"
  "closed init_race = closed init_world" "next_chan init_race = next_chan init_world"
  by (simp_all add: init_race_def world.defs)

lemma init_race_ginv: "ginv init_race"
proof -
  have "world_ok init_race" using init_world_ok by (simp add: world_ok_def)
  then show ?thesis by (simp add: ginv_def sealedLeaf_def)
qed

end
