(* ===== verification/Race_Inv.thy ===== *)
theory Race_Inv
  imports Race
begin

text \<open>
  The invariant of the slot protocol, thread by thread: what each program counter may rely on, what it
  holds for itself, and what a step guarantees to the other threads.
\<close>

section \<open>What a thread relies on\<close>

definition known :: "race \<Rightarrow> slot_id \<Rightarrow> bool" where
  "known s i = (case i of NodeSlot \<Rightarrow> True | LeafSlot l \<Rightarrow> rleaf s = Some l)"

text \<open>A cell or leaf that one thread alone has: filled and open, in no slot; not the node's leaf.\<close>

definition priv_cell :: "race \<Rightarrow> caddr \<Rightarrow> bool" where
  "priv_cell s c \<longleftrightarrow> c < next_cell s \<and> c \<noteq> sealedCell \<and> (\<exists>n. cell_ch s c = Some n \<and> \<not> closed s n) \<and> (\<forall>i. rslot s i \<noteq> Some c)"

definition priv_leaf :: "race \<Rightarrow> laddr \<Rightarrow> bool" where
  "priv_leaf s l \<longleftrightarrow> l < rnext s \<and> l \<noteq> sealedLeaf \<and> rleaf s \<noteq> Some l"

definition live_leaf :: "race \<Rightarrow> laddr \<Rightarrow> chan \<Rightarrow> bool" where
  "live_leaf s l ch \<longleftrightarrow> (\<exists>c n. rslot s (LeafSlot l) = Some c \<and> c \<noteq> sealedCell \<and> cell_ch s c = Some n \<and> ch = Some n)"

fun tok :: "race \<Rightarrow> pc \<Rightarrow> bool" where
  "tok s (CLoad i) = known s i"
| "tok s (CNew i) = known s i"
| "tok s (CCas i c) = (known s i \<and> priv_cell s c)"
| "tok s (CReload i) = (known s i \<and> rslot s i \<noteq> None)"
| "tok s (Got i ch) = (known s i \<and> rslot s i \<noteq> None)"
| "tok s (SSwap i) = known s i"
| "tok s (SClose i old) =
     (known s i \<and> rslot s i = Some sealedCell \<and> (\<forall>c. old = Some c \<longrightarrow> c \<noteq> sealedCell \<longrightarrow> priv_cell s c))"
| "tok s (SDone i) = (known s i \<and> rslot s i = Some sealedCell)"
| "tok s (VCas l ch) = (priv_leaf s l \<and> live_leaf s l ch)"
| "tok s VReload = (rleaf s \<noteq> None)"
| "tok s ZReload = (rleaf s \<noteq> None)"
| "tok s (LCas l) = priv_leaf s l"
| "tok s LReload = (rleaf s \<noteq> None)"
| "tok s (LGot l) = (rleaf s = Some l)"
| "tok s Panicked = False"
| "tok s p = True"

section \<open>What a thread holds\<close>

datatype res = RCell caddr | RLeaf laddr

fun held :: "pc \<Rightarrow> res set" where
  "held (CCas i c) = {RCell c}"
| "held (SClose i old) = (case old of Some c \<Rightarrow> if c \<noteq> sealedCell then {RCell c} else {} | None \<Rightarrow> {})"
| "held (VCas l ch) = {RLeaf l}"
| "held (LCas l) = {RLeaf l}"
| "held p = {}"

section \<open>What a step guarantees\<close>

text \<open>A thread that holds \<open>H\<close> before and \<open>H'\<close> after takes the shared state from \<open>s\<close> to \<open>s'\<close>.\<close>

definition guar :: "res set \<Rightarrow> res set \<Rightarrow> race \<Rightarrow> race \<Rightarrow> bool" where
  "guar H H' s s' \<longleftrightarrow>
     next_cell s \<le> next_cell s' \<and> rnext s \<le> rnext s' \<and>
     (\<forall>c n. cell_ch s c = Some n \<longrightarrow> cell_ch s' c = Some n) \<and>
     (\<forall>l. rleaf s = Some l \<longrightarrow> rleaf s' = Some l) \<and>
     (\<forall>l. rleaf s' = Some l \<longrightarrow> rleaf s = Some l \<or> l = sealedLeaf \<or> RLeaf l \<in> H) \<and>
     (\<forall>i. rslot s i = Some sealedCell \<longrightarrow> rslot s' i = Some sealedCell) \<and>
     (\<forall>i. known s i \<longrightarrow> rslot s i \<noteq> None \<longrightarrow> rslot s' i \<noteq> None) \<and>
     (\<forall>i c. rslot s' i = Some c \<longrightarrow> rslot s i = Some c \<or> c = sealedCell \<or> RCell c \<in> H \<or> next_cell s \<le> c) \<and>
     (\<forall>l. l < rnext s \<longrightarrow> rleaf s \<noteq> Some l \<longrightarrow> rslot s' (LeafSlot l) = rslot s (LeafSlot l)) \<and>
     (\<forall>n. closed s' n \<longrightarrow> closed s n \<or> (\<exists>c. RCell c \<in> H \<and> cell_ch s c = Some n)) \<and>
     (\<forall>n. closed s n \<longrightarrow> closed s' n) \<and>
     (\<forall>c. RCell c \<in> H' \<longrightarrow> RCell c \<in> H \<or> next_cell s \<le> c \<or> (\<exists>i. rslot s i = Some c)) \<and>
     (\<forall>l. RLeaf l \<in> H' \<longrightarrow> RLeaf l \<in> H \<or> rnext s \<le> l)"

lemma guarD:
  assumes "guar H H' s s'"
  shows "next_cell s \<le> next_cell s'" and "rnext s \<le> rnext s'"
    and "cell_ch s c = Some n \<Longrightarrow> cell_ch s' c = Some n" and "rleaf s = Some l \<Longrightarrow> rleaf s' = Some l"
    and "rleaf s' = Some l \<Longrightarrow> rleaf s = Some l \<or> l = sealedLeaf \<or> RLeaf l \<in> H"
    and "rslot s i = Some sealedCell \<Longrightarrow> rslot s' i = Some sealedCell"
    and "known s i \<Longrightarrow> rslot s i \<noteq> None \<Longrightarrow> rslot s' i \<noteq> None"
    and "rslot s' i = Some c \<Longrightarrow> rslot s i = Some c \<or> c = sealedCell \<or> RCell c \<in> H \<or> next_cell s \<le> c"
    and "l < rnext s \<Longrightarrow> rleaf s \<noteq> Some l \<Longrightarrow> rslot s' (LeafSlot l) = rslot s (LeafSlot l)"
    and "closed s' n \<Longrightarrow> closed s n \<or> (\<exists>c. RCell c \<in> H \<and> cell_ch s c = Some n)"
    and "closed s n \<Longrightarrow> closed s' n"
    and "RCell c \<in> H' \<Longrightarrow> RCell c \<in> H \<or> next_cell s \<le> c \<or> (\<exists>i. rslot s i = Some c)"
    and "RLeaf l \<in> H' \<Longrightarrow> RLeaf l \<in> H \<or> rnext s \<le> l"
proof -
  note c1 = assms [unfolded guar_def]
  note c2 = c1 [THEN conjunct2]
  note c3 = c2 [THEN conjunct2]
  note c4 = c3 [THEN conjunct2]
  note c5 = c4 [THEN conjunct2]
  note c6 = c5 [THEN conjunct2]
  note c7 = c6 [THEN conjunct2]
  note c8 = c7 [THEN conjunct2]
  note c9 = c8 [THEN conjunct2]
  note c10 = c9 [THEN conjunct2]
  note c11 = c10 [THEN conjunct2]
  note c12 = c11 [THEN conjunct2]
  note c13 = c12 [THEN conjunct2]
  show "next_cell s \<le> next_cell s'" by (rule c1 [THEN conjunct1])
  show "rnext s \<le> rnext s'" by (rule c2 [THEN conjunct1])
  show "cell_ch s c = Some n \<Longrightarrow> cell_ch s' c = Some n" by (rule c3 [THEN conjunct1, THEN spec, THEN spec, THEN mp])
  show "rleaf s = Some l \<Longrightarrow> rleaf s' = Some l" by (rule c4 [THEN conjunct1, THEN spec, THEN mp])
  show "rleaf s' = Some l \<Longrightarrow> rleaf s = Some l \<or> l = sealedLeaf \<or> RLeaf l \<in> H" by (rule c5 [THEN conjunct1, THEN spec, THEN mp])
  show "rslot s i = Some sealedCell \<Longrightarrow> rslot s' i = Some sealedCell" by (rule c6 [THEN conjunct1, THEN spec, THEN mp])
  show "known s i \<Longrightarrow> rslot s i \<noteq> None \<Longrightarrow> rslot s' i \<noteq> None" by (rule c7 [THEN conjunct1, THEN spec, THEN mp, THEN mp])
  show "rslot s' i = Some c \<Longrightarrow> rslot s i = Some c \<or> c = sealedCell \<or> RCell c \<in> H \<or> next_cell s \<le> c" by (rule c8 [THEN conjunct1, THEN spec, THEN spec, THEN mp])
  show "l < rnext s \<Longrightarrow> rleaf s \<noteq> Some l \<Longrightarrow> rslot s' (LeafSlot l) = rslot s (LeafSlot l)" by (rule c9 [THEN conjunct1, THEN spec, THEN mp, THEN mp])
  show "closed s' n \<Longrightarrow> closed s n \<or> (\<exists>c. RCell c \<in> H \<and> cell_ch s c = Some n)" by (rule c10 [THEN conjunct1, THEN spec, THEN mp])
  show "closed s n \<Longrightarrow> closed s' n" by (rule c11 [THEN conjunct1, THEN spec, THEN mp])
  show "RCell c \<in> H' \<Longrightarrow> RCell c \<in> H \<or> next_cell s \<le> c \<or> (\<exists>i. rslot s i = Some c)" by (rule c12 [THEN conjunct1, THEN spec, THEN mp])
  show "RLeaf l \<in> H' \<Longrightarrow> RLeaf l \<in> H \<or> rnext s \<le> l" by (rule c13 [THEN spec, THEN mp])
qed

lemma known_guar: "guar H H' s s' \<Longrightarrow> known s i \<Longrightarrow> known s' i"
  using guarD(4) by (auto simp: known_def split: slot_id.splits)

lemma priv_cell_guar:
  assumes "guar H H' s s'" and "world_ok s" and "priv_cell s c" and "RCell c \<notin> H"
  shows "priv_cell s' c"
proof -
  obtain n where n: "cell_ch s c = Some n" "\<not> closed s n" using assms(3) by (auto simp: priv_cell_def)
  have "\<not> closed s' n"
    using guarD(10) [OF assms(1), of n] n world_okD(7) [OF assms(2), of c n] assms(4) by blast
  moreover have "rslot s' i \<noteq> Some c" for i
    using guarD(8) [OF assms(1), of i c] assms(3,4) by (auto simp: priv_cell_def)
  ultimately show ?thesis
    using assms(3) guarD(1,3) [OF assms(1)] n by (auto simp: priv_cell_def)
qed

lemma priv_leaf_guar:
  assumes "guar H H' s s'" and "priv_leaf s l" and "RLeaf l \<notin> H"
  shows "priv_leaf s' l"
  using assms guarD(2) [OF assms(1)] guarD(5) [OF assms(1), of l] by (auto simp: priv_leaf_def)

lemma live_leaf_guar:
  assumes "guar H H' s s'" and "live_leaf s l ch" and "priv_leaf s l"
  shows "live_leaf s' l ch"
  using assms guarD(3,9) [OF assms(1)] by (auto simp: live_leaf_def priv_leaf_def)

text \<open>A step of one thread leaves what the others rely on, and hands them nothing they hold.\<close>

lemma tok_guar:
  assumes "guar H H' s s'" and "world_ok s" and "tok s p" and "held p \<inter> H = {}"
  shows "tok s' p"
proof (cases p)
  case (CCas i c)
  then show ?thesis using assms known_guar [OF assms(1)] priv_cell_guar [OF assms(1,2)] by simp
next
  case (SClose i old)
  then show ?thesis
    using assms known_guar [OF assms(1)] priv_cell_guar [OF assms(1,2)] guarD(6) [OF assms(1)]
    by (auto split: option.splits if_splits)
next
  case (VCas l ch)
  then show ?thesis using assms priv_leaf_guar [OF assms(1)] live_leaf_guar [OF assms(1)] by simp
next
  case (LCas l)
  then show ?thesis using assms priv_leaf_guar [OF assms(1)] by simp
next
  case (CReload i)
  then show ?thesis using assms known_guar [OF assms(1)] guarD(7) [OF assms(1)] by simp
next
  case (Got i ch)
  then show ?thesis using assms known_guar [OF assms(1)] guarD(7) [OF assms(1)] by simp
qed (use assms known_guar [OF assms(1)] guarD(4,6) [OF assms(1)] in auto)

lemma held_guar:
  assumes "guar H H' s s'" and "tok s p" and "held p \<inter> H = {}"
  shows "held p \<inter> H' = {}"
proof -
  have "r \<notin> H'" if r: "r \<in> held p" for r
  proof (cases r)
    case (RCell c)
    then have "priv_cell s c" using r assms(2) by (cases p) (auto split: option.splits if_splits)
    then show ?thesis using guarD(12) [OF assms(1), of c] r RCell assms(3) by (auto simp: priv_cell_def)
  next
    case (RLeaf l)
    then have "priv_leaf s l" using r assms(2) by (cases p) (auto split: option.splits if_splits)
    then show ?thesis using guarD(13) [OF assms(1), of l] r RLeaf assms(3) by (auto simp: priv_leaf_def)
  qed
  then show ?thesis by blast
qed

section \<open>The steps keep the invariant\<close>

lemma ginvD:
  assumes "ginv s"
  shows "world_ok s" and "slot_ok s (rslot s i)"
    and "rslot s i = Some c \<Longrightarrow> rslot s j = Some c \<Longrightarrow> c \<noteq> sealedCell \<Longrightarrow> i = j"
    and "rslot s (LeafSlot sealedLeaf) = Some sealedCell" and "sealedLeaf < rnext s"
    and "rleaf s = Some l \<Longrightarrow> l < rnext s" and "rnext s \<le> l \<Longrightarrow> rslot s (LeafSlot l) = None"
  using assms unfolding ginv_def by blast+

lemma ginvI:
  assumes "world_ok s" and "\<And>i. slot_ok s (rslot s i)"
    and "\<And>i j c. rslot s i = Some c \<Longrightarrow> rslot s j = Some c \<Longrightarrow> c \<noteq> sealedCell \<Longrightarrow> i = j"
    and "rslot s (LeafSlot sealedLeaf) = Some sealedCell" and "sealedLeaf < rnext s"
    and "\<And>l. rleaf s = Some l \<Longrightarrow> l < rnext s" and "\<And>l. rnext s \<le> l \<Longrightarrow> rslot s (LeafSlot l) = None"
  shows "ginv s"
  using assms unfolding ginv_def by blast

definition good_step :: "pc \<Rightarrow> race \<Rightarrow> pc \<Rightarrow> race \<Rightarrow> bool" where
  "good_step p s p' s' \<longleftrightarrow> ginv s' \<and> tok s' p' \<and> guar (held p) (held p') s s'"

lemma guar_stay [simp]: "guar H {} s s"
  by (simp add: guar_def)

lemma good_stay: "ginv s \<Longrightarrow> tok s p' \<Longrightarrow> held p' = {} \<Longrightarrow> good_step p s p' s"
  by (simp add: good_step_def)

lemma set_slot_sel [simp]:
  "rslot (set_slot i p s) j = (if j = i then p else rslot s j)" "rleaf (set_slot i p s) = rleaf s" "rnext (set_slot i p s) = rnext s"
  "cell_ch (set_slot i p s) = cell_ch s" "closed (set_slot i p s) = closed s" "next_cell (set_slot i p s) = next_cell s"
  "next_chan (set_slot i p s) = next_chan s" "world_ok (set_slot i p s) = world_ok s" "slot_ok (set_slot i p s) q = slot_ok s q"
  by (auto simp: set_slot_def world_ok_def slot_ok_def)

lemma set_slot_same [simp]: "rslot s i = p \<Longrightarrow> set_slot i p s = s"
  by (simp add: set_slot_def fun_upd_idem)

lemma known_set_slot [simp]: "known (set_slot j p s) i = known s i"
  by (simp add: known_def split: slot_id.splits)

lemma leaf_fields [simp]:
  "world_ok (s\<lparr>rnext := k\<rparr>) = world_ok s" "slot_ok (s\<lparr>rnext := k\<rparr>) p = slot_ok s p"
  "world_ok (s\<lparr>rleaf := q\<rparr>) = world_ok s" "slot_ok (s\<lparr>rleaf := q\<rparr>) p = slot_ok s p"
  by (auto simp: world_ok_def slot_ok_def)

text \<open>Making a cell with a channel of its own.\<close>

lemma fresh_cell:
  assumes "world_ok s"
  shows "cell_ch s (next_cell s) = None" and "\<not> closed s (next_chan s)" and "next_cell s \<noteq> sealedCell"
    and "slot_ok s (rslot s i) \<Longrightarrow> rslot s i \<noteq> Some (next_cell s)" and "cell_ch s c = Some n \<Longrightarrow> c \<noteq> next_cell s"
proof -
  show "cell_ch s (next_cell s) = None"
    using world_okD(4) [OF assms, of "next_cell s"] by (cases "cell_ch s (next_cell s)") auto
  then show "cell_ch s c = Some n \<Longrightarrow> c \<noteq> next_cell s" by auto
  show "\<not> closed s (next_chan s)" using world_okD(6) [OF assms, of "next_chan s"] by auto
  show s: "next_cell s \<noteq> sealedCell" using world_okD(1) [OF assms] by simp
  show "slot_ok s (rslot s i) \<Longrightarrow> rslot s i \<noteq> Some (next_cell s)" using s by (auto simp: slot_ok_def)
qed

lemma step_CNew:
  assumes "ginv s" and "tok s (CNew i)" and "chan_step (CNew i) s = (p', s')"
  shows "good_step (CNew i) s p' s'"
proof -
  note g = ginvD [OF assms(1)] and f = fresh_cell [OF ginvD(1) [OF assms(1)]]
  let ?s = "s\<lparr>cell_ch := (cell_ch s)(next_cell s := Some (next_chan s)), next_cell := Suc (next_cell s), next_chan := Suc (next_chan s)\<rparr>"
  have p: "p' = CCas i (next_cell s)" and s': "s' = ?s"
    using assms(3) by (auto simp: make_chan_def new_cell_def)
  have w: "world_ok ?s" using world_ok_fill [OF g(1) f(1), of "Suc (next_cell s)"] by simp
  have sl: "slot_ok ?s (rslot s i)" for i
    using g(2) [of i] f(4) [of i] by (auto simp: slot_ok_def)
  have "ginv s'" using w sl g(3,4,5,6,7) unfolding s' ginv_def by simp
  moreover have "tok s' p'"
    using assms(2) f g(2) by (auto simp: p s' known_def priv_cell_def split: slot_id.splits)
  moreover have "guar (held (CNew i)) (held p') s s'"
    using f by (auto simp: guar_def p s')
  ultimately show ?thesis by (simp add: good_step_def)
qed

text \<open>Installing a private cell in an empty slot, and taking a cell out of a slot.\<close>

lemma step_CCas:
  assumes "ginv s" and "tok s (CCas i c)" and "chan_step (CCas i c) s = (p', s')"
  shows "good_step (CCas i c) s p' s'"
proof (cases "rslot s i")
  case None
  note g = ginvD [OF assms(1)]
  have pc: "known s i" "priv_cell s c" using assms(2) by simp_all
  then have so: "slot_ok s (Some c)" by (auto simp: priv_cell_def slot_ok_def)
  have p: "p' = Got i (cell_ch s c)" and s': "s' = set_slot i (Some c) s"
    using assms(3) None by (auto simp: cas_def Let_def)
  have i: "i \<noteq> LeafSlot sealedLeaf" using g(4) None by auto
  have "ginv s'"
    using g(1,2,4,5,6,7) so i pc g(3) unfolding s' ginv_def priv_cell_def known_def by (auto split: slot_id.splits)
  moreover have "guar (held (CCas i c)) (held p') s s'"
    using None pc(1) g(6) by (auto simp: guar_def p s' known_def)
  ultimately show ?thesis using pc by (simp add: good_step_def p s')
next
  case (Some d)
  then have "p' = CReload i" "s' = s" using assms(3) by (auto simp: cas_def Let_def)
  then show ?thesis using assms(1,2) Some by (simp add: good_stay)
qed

lemma step_SSwap:
  assumes "ginv s" and "tok s (SSwap i)" and "seal_step (SSwap i) s = (p', s')"
  shows "good_step (SSwap i) s p' s'"
proof -
  note g = ginvD [OF assms(1)]
  have k: "known s i" using assms(2) by simp
  have p: "p' = SClose i (rslot s i)" and s': "s' = set_slot i (Some sealedCell) s" using assms(3) by auto
  have "i \<noteq> LeafSlot l" if "rnext s \<le> l" for l using k g(6) [of l] that by (auto simp: known_def)
  then have i: "rnext s \<le> l \<Longrightarrow> rslot s' (LeafSlot l) = None" for l using g(7) [of l] by (auto simp: s')
  have "ginv s'"
  proof (rule ginvI)
    show "world_ok s'" "sealedLeaf < rnext s'" "rslot s' (LeafSlot sealedLeaf) = Some sealedCell"
      using g(1,4,5) by (simp_all add: s')
    show "slot_ok s' (rslot s' j)" for j using g(2) [of j] by (simp add: s')
    show "l < rnext s'" if "rleaf s' = Some l" for l using that g(6) [of l] by (simp add: s')
    show "rslot s' (LeafSlot l) = None" if "rnext s' \<le> l" for l using that i by (simp add: s')
    show "a = b" if "rslot s' a = Some c" "rslot s' b = Some c" "c \<noteq> sealedCell" for a b c
      using that g(3) [of a c b] by (auto simp: s' split: if_splits)
  qed
  moreover have "priv_cell s' c" if c: "rslot s i = Some c" "c \<noteq> sealedCell" for c
  proof -
    have "c < next_cell s" "\<exists>n. cell_ch s c = Some n \<and> \<not> closed s n" using g(2) [of i] c by (auto simp: slot_ok_def)
    moreover have "rslot s' j \<noteq> Some c" for j using g(3) [of j c i] c by (cases "j = i") (auto simp: s')
    moreover have "next_cell s' = next_cell s" "cell_ch s' = cell_ch s" "closed s' = closed s" by (simp_all add: s')
    ultimately show ?thesis using c(2) by (simp add: priv_cell_def)
  qed
  then have "tok s' p'" using k by (simp add: p s')
  moreover have "guar (held (SSwap i)) (held p') s s'"
    using k g(6) by (auto simp: guar_def p s' known_def split: option.splits if_splits)
  ultimately show ?thesis by (simp add: good_step_def)
qed

lemma step_SClose:
  assumes "ginv s" and "tok s (SClose i old)" and "seal_step (SClose i old) s = (p', s')"
  shows "good_step (SClose i old) s p' s'"
proof (cases "old = None \<or> old = Some sealedCell")
  case True
  then have "p' = SDone i" "s' = s" using assms(3) by auto
  then show ?thesis using assms(1,2) by (simp add: good_stay)
next
  case False
  then obtain c where c: "old = Some c" "c \<noteq> sealedCell" by (cases old) auto
  note g = ginvD [OF assms(1)] and w = world_okD [OF ginvD(1) [OF assms(1)]]
  have pr: "priv_cell s c" using assms(2) c by simp
  then obtain n where n: "cell_ch s c = Some n" "\<not> closed s n" by (auto simp: priv_cell_def)
  let ?s = "s\<lparr>closed := (closed s)(n := True)\<rparr>"
  have p: "p' = SDone i" and s': "s' = ?s" using assms(3) c n by (auto simp: close_chan_def)
  have "world_ok ?s" using w n by (intro world_okI) (auto split: if_splits)
  moreover have "slot_ok ?s (rslot s j)" for j
  proof -
    have "\<not> closed ?s m" if "rslot s j = Some d" "cell_ch s d = Some m" "\<not> closed s m" for d m
      using that pr n w(7) [OF n(1), of d] by (auto simp: priv_cell_def)
    then show ?thesis using g(2) [of j] unfolding slot_ok_def by fastforce
  qed
  ultimately have "ginv s'" using g(3,4,5,6,7) unfolding s' ginv_def by simp
  moreover have "guar (held (SClose i old)) (held p') s s'"
    using c n by (auto simp: guar_def p s')
  ultimately show ?thesis using assms(2) by (simp add: good_step_def p s' known_def split: slot_id.splits)
qed

text \<open>Making a leaf, and giving it to the node.\<close>

lemma step_VNew:
  assumes "ginv s" and "value_step VNew s = (p', s')"
  shows "good_step VNew s p' s'"
proof -
  note g = ginvD [OF assms(1)] and f = fresh_cell [OF ginvD(1) [OF assms(1)]]
  let ?w = "s\<lparr>cell_ch := (cell_ch s)(next_cell s := Some (next_chan s)), next_cell := Suc (next_cell s), next_chan := Suc (next_chan s)\<rparr>"
  let ?s = "(set_slot (LeafSlot (rnext s)) (Some (next_cell s)) ?w)\<lparr>rnext := Suc (rnext s)\<rparr>"
  have p: "p' = VCas (rnext s) (Some (next_chan s))" and s': "s' = ?s"
    using assms(2) by (auto simp: new_cell_def race_leaf_def slot_Live_def make_chan_def set_slot_def Let_def)
  have w: "world_ok ?w" using world_ok_fill [OF g(1) f(1), of "Suc (next_cell s)"] by simp
  then have w': "world_ok ?s" by simp
  have sl: "slot_ok ?s (rslot s j)" "slot_ok ?s (Some (next_cell s))" for j
    using g(2) [of j] f(2,3,5) unfolding slot_ok_def by fastforce+
  have lt: "sealedLeaf \<noteq> rnext s" "rleaf s \<noteq> Some (rnext s)" using g(5,6) by auto
  have "ginv s'"
  proof (rule ginvI)
    show "world_ok s'" "rslot s' (LeafSlot sealedLeaf) = Some sealedCell" "sealedLeaf < rnext s'"
      using w' g(4,5) lt by (simp_all add: s')
    show "slot_ok s' (rslot s' i)" for i using sl by (simp add: s')
    show "l < rnext s'" if "rleaf s' = Some l" for l using that g(6) [of l] by (simp add: s')
    show "rslot s' (LeafSlot l) = None" if "rnext s' \<le> l" for l using that g(7) [of l] by (simp add: s')
    show "i = j" if "rslot s' i = Some c" "rslot s' j = Some c" "c \<noteq> sealedCell" for i j c
      using that g(3) [of i c j] f(4) [OF g(2)] by (auto simp: s' split: if_splits)
  qed
  moreover have "tok s' p'"
    using lt f g(5) by (auto simp: p s' priv_leaf_def live_leaf_def)
  moreover have "guar (held VNew) (held p') s s'"
    using f g(6,7) lt by (auto simp: guar_def p s' known_def)
  ultimately show ?thesis by (simp add: good_step_def)
qed

lemma step_LNew:
  assumes "ginv s" and "leaf_step LNew s = (p', s')"
  shows "good_step LNew s p' s'"
proof -
  note g = ginvD [OF assms(1)]
  have p: "p' = LCas (rnext s)" and s': "s' = (set_slot (LeafSlot (rnext s)) None s)\<lparr>rnext := Suc (rnext s)\<rparr>"
    using assms(2) by (auto simp: race_leaf_def)
  have lt: "sealedLeaf \<noteq> rnext s" "rleaf s \<noteq> Some (rnext s)" using g(5,6) by auto
  have "world_ok s'" "\<And>q. slot_ok s' q = slot_ok s q" using g(1) by (simp_all add: s')
  then have "ginv s'"
    using g(2,3,4,5,6,7) lt unfolding ginv_def by (auto simp: s' less_Suc_eq)
  moreover have "tok s' p'" using lt by (auto simp: p s' priv_leaf_def)
  moreover have "guar (held LNew) (held p') s s'"
    using g(6,7) lt by (auto simp: guar_def p s' known_def)
  ultimately show ?thesis by (simp add: good_step_def)
qed

lemma leaf_install:
  assumes "ginv s" and "rleaf s = None" and "l < rnext s" and "l = sealedLeaf \<or> RLeaf l \<in> H"
  shows "ginv (s\<lparr>rleaf := Some l\<rparr>) \<and> guar H {} s (s\<lparr>rleaf := Some l\<rparr>)"
  using assms by (auto simp: ginv_def guar_def)

end
