(* ===== verification/Race_Run.thy ===== *)
theory Race_Run
  imports Race_Inv
begin

text \<open>
  Any interleaving of the slot protocol: the invariant of all threads together, the bound on the number
  of steps, and the slot's one-way life.
\<close>

section \<open>One step\<close>

lemma leaf_same [simp]: "rleaf s = q \<Longrightarrow> s\<lparr>rleaf := q\<rparr> = (s :: race)"
  by simp

lemma tstep_good:
  assumes "ginv s" and "tok s p" and "\<not> finished p" and "tstep p s = (p', s')"
  shows "good_step p s p' s'"
proof (cases p)
  case (CLoad i)
  then show ?thesis using assms by (auto simp: tstep_def intro!: good_stay split: option.splits)
next
  case (CNew i)
  then show ?thesis using assms step_CNew by (simp add: tstep_def del: chan_step.simps)
next
  case (CCas i c)
  then show ?thesis using assms step_CCas by (simp add: tstep_def del: chan_step.simps tok.simps)
next
  case (CReload i)
  then show ?thesis using assms by (auto simp: tstep_def intro!: good_stay split: option.splits)
next
  case (SSwap i)
  then show ?thesis using assms step_SSwap by (simp add: tstep_def del: seal_step.simps)
next
  case (SClose i old)
  then show ?thesis using assms step_SClose by (simp add: tstep_def del: seal_step.simps tok.simps)
next
  case VLoad
  then show ?thesis using assms by (auto simp: tstep_def known_def intro!: good_stay split: option.splits)
next
  case VNew
  then show ?thesis using assms step_VNew by (simp add: tstep_def del: value_step.simps)
next
  case (VCas l ch)
  have l: "priv_leaf s l" "live_leaf s l ch" using assms(2) VCas by simp_all
  show ?thesis
  proof (cases "rleaf s")
    case None
    have "ginv (s\<lparr>rleaf := Some l\<rparr>) \<and> guar {RLeaf l} {} s (s\<lparr>rleaf := Some l\<rparr>)"
      using leaf_install [OF assms(1) None, of l "{RLeaf l}"] l(1) by (auto simp: priv_leaf_def)
    then show ?thesis using assms(4) VCas None l(2)
      by (auto simp: good_step_def tstep_def cas_def Let_def known_def live_leaf_def)
  next
    case (Some q)
    then show ?thesis using assms(1,4) VCas Some by (auto simp: tstep_def cas_def Let_def intro!: good_stay)
  qed
next
  case VReload
  then show ?thesis using assms by (auto simp: tstep_def known_def intro!: good_stay split: option.splits)
next
  case ZLoad
  then show ?thesis using assms by (auto simp: tstep_def known_def intro!: good_stay split: option.splits)
next
  case ZCas
  show ?thesis
  proof (cases "rleaf s")
    case None
    have "ginv (s\<lparr>rleaf := Some sealedLeaf\<rparr>) \<and> guar {} {} s (s\<lparr>rleaf := Some sealedLeaf\<rparr>)"
      using leaf_install [OF assms(1) None, of sealedLeaf "{}"] ginvD(5) [OF assms(1)] by simp
    then show ?thesis using assms(4) ZCas None ginvD(4) [OF assms(1)]
      by (auto simp: good_step_def tstep_def cas_def Let_def known_def)
  next
    case (Some q)
    then show ?thesis using assms(1,4) ZCas Some by (auto simp: tstep_def cas_def Let_def intro!: good_stay)
  qed
next
  case ZReload
  then show ?thesis using assms by (auto simp: tstep_def known_def intro!: good_stay split: option.splits)
next
  case LLoad
  then show ?thesis using assms by (auto simp: tstep_def known_def intro!: good_stay split: option.splits)
next
  case LNew
  then show ?thesis using assms step_LNew by (simp add: tstep_def del: leaf_step.simps)
next
  case (LCas l)
  have l: "priv_leaf s l" using assms(2) LCas by simp
  show ?thesis
  proof (cases "rleaf s")
    case None
    have "ginv (s\<lparr>rleaf := Some l\<rparr>) \<and> guar {RLeaf l} {} s (s\<lparr>rleaf := Some l\<rparr>)"
      using leaf_install [OF assms(1) None, of l "{RLeaf l}"] l by (auto simp: priv_leaf_def)
    then show ?thesis using assms(4) LCas None by (auto simp: good_step_def tstep_def cas_def Let_def)
  next
    case (Some q)
    then show ?thesis using assms(1,4) LCas Some by (auto simp: tstep_def cas_def Let_def intro!: good_stay)
  qed
next
  case LReload
  then show ?thesis using assms by (auto simp: tstep_def intro!: good_stay split: option.splits)
qed (use assms in auto)

section \<open>What a watcher has\<close>

definition live_in :: "race \<Rightarrow> slot_id \<Rightarrow> nat \<Rightarrow> bool" where
  "live_in s i n \<longleftrightarrow> (\<exists>c. rslot s i = Some c \<and> c \<noteq> sealedCell \<and> cell_ch s c = Some n)"

definition closing :: "pc list \<Rightarrow> race \<Rightarrow> slot_id \<Rightarrow> nat \<Rightarrow> bool" where
  "closing ts s i n \<longleftrightarrow> (\<exists>c. SClose i (Some c) \<in> set ts \<and> c \<noteq> sealedCell \<and> cell_ch s c = Some n)"

definition watched :: "pc list \<Rightarrow> race \<Rightarrow> slot_id \<Rightarrow> chan \<Rightarrow> bool" where
  "watched ts s i ch \<longleftrightarrow>
     (\<exists>n. ch = Some n \<and> (live_in s i n \<or> rslot s i = Some sealedCell \<and> (closed s n \<or> closing ts s i n)))"

text \<open>A channel that a step hands out is the slot's, or that of the sealed cell.\<close>

lemma got_new:
  assumes "ginv s" and "tok s p" and "\<not> finished p" and "tstep p s = (Got i ch, s')"
  shows "watched [] s' i ch"
proof -
  note g = ginvD [OF assms(1)]
  have slot: "watched [] s i (cell_ch s c)" if "rslot s i = Some c" for c
  proof (cases "c = sealedCell")
    case True
    then show ?thesis using that world_okD(2,3) [OF g(1)] by (simp add: watched_def)
  next
    case False
    then show ?thesis using that g(2) [of i] by (auto simp: watched_def live_in_def slot_ok_def)
  qed
  show ?thesis
  proof (cases p)
    case (CLoad j)
    then show ?thesis using assms(4) slot by (auto simp: tstep_def split: option.splits)
  next
    case (CReload j)
    then show ?thesis using assms(4) slot by (auto simp: tstep_def split: option.splits)
  next
    case (CCas j c)
    then obtain n where "cell_ch s c = Some n" "c \<noteq> sealedCell" using assms(2) by (auto simp: priv_cell_def)
    moreover have "i = j \<and> ch = cell_ch s c \<and> s' = set_slot j (Some c) s"
      using assms(4) CCas by (auto simp: tstep_def cas_def Let_def split: if_splits)
    ultimately show ?thesis by (simp add: watched_def live_in_def)
  next
    case (VCas l c)
    then have "live_leaf s l c" using assms(2) by simp
    then show ?thesis using assms(4) VCas
      by (auto simp: tstep_def cas_def Let_def watched_def live_in_def live_leaf_def split: if_splits) metis
  qed (use assms(3,4) in \<open>auto simp: tstep_def Let_def make_chan_def new_cell_def race_leaf_def slot_Live_def cas_def
      split: option.splits if_splits prod.splits\<close>)
qed

text \<open>A slot is never changed from live but by the swap of a seal, which then closes what it took.\<close>

lemma swap_only:
  assumes "ginv s" and "tok s p" and "\<not> finished p" and "tstep p s = (p', s')"
    and "rslot s i = Some c" and "c \<noteq> sealedCell" and "rslot s' i \<noteq> Some c"
  shows "p' = SClose i (Some c)" and "rslot s' i = Some sealedCell"
proof -
  have lt: "i \<noteq> LeafSlot (rnext s)" using ginvD(7) [OF assms(1), of "rnext s"] assms(5) by auto
  have "p' = SClose i (Some c) \<and> rslot s' i = Some sealedCell"
    using assms(3,4,5,7) lt
    by (cases p) (auto simp: tstep_def Let_def make_chan_def new_cell_def race_leaf_def slot_Live_def cas_def set_slot_def
        close_chan_def split: option.splits if_splits)
  then show "p' = SClose i (Some c)" "rslot s' i = Some sealedCell" by simp_all
qed

lemma close_done:
  assumes "tok s (SClose i (Some c))" and "c \<noteq> sealedCell" and "cell_ch s c = Some n"
    and "tstep (SClose i (Some c)) s = (p', s')"
  shows "closed s' n"
  using assms by (auto simp: tstep_def close_chan_def priv_cell_def)

section \<open>All threads\<close>

definition sysinv :: "pc list \<times> race \<Rightarrow> bool" where
  "sysinv x \<longleftrightarrow> (case x of (ts, s) \<Rightarrow>
     ginv s \<and> (\<forall>p \<in> set ts. tok s p) \<and>
     (\<forall>i < length ts. \<forall>j < length ts. i \<noteq> j \<longrightarrow> held (ts ! i) \<inter> held (ts ! j) = {}) \<and>
     (\<forall>i ch. Got i ch \<in> set ts \<longrightarrow> watched ts s i ch))"

lemma sysinv_init:
  assumes "ginv s" and "\<And>p. p \<in> set ts \<Longrightarrow> starts_op p"
  shows "sysinv (ts, s)"
proof -
  have st: "tok s p \<and> held p = {} \<and> \<not> finished p" if "p \<in> set ts" for p
    using assms(2) [OF that] by (auto simp: starts_op_def known_def)
  then have "held (ts ! i) = {}" if "i < length ts" for i using that by simp
  then show ?thesis using assms(1) st unfolding sysinv_def by force
qed

lemma watched_step:
  assumes g: "ginv s" and tok: "\<And>p. p \<in> set ts \<Longrightarrow> tok s p" and k: "k < length ts" "\<not> finished (ts ! k)"
    and st: "tstep (ts ! k) s = (p', s')" and w: "watched ts s i ch"
  shows "watched (ts[k := p']) s' i ch"
proof -
  have tk: "tok s (ts ! k)" using tok k(1) by simp
  have gd: "guar (held (ts ! k)) (held p') s s'" using tstep_good [OF g tk k(2) st] by (simp add: good_step_def)
  obtain n where n: "ch = Some n" "live_in s i n \<or> rslot s i = Some sealedCell \<and> (closed s n \<or> closing ts s i n)"
    using w by (auto simp: watched_def)
  have mem: "p' \<in> set (ts[k := p'])" using k(1) by (simp add: set_update_memI)
  from n(2) show ?thesis
  proof (elim disjE conjE)
    assume "live_in s i n"
    then obtain c where c: "rslot s i = Some c" "c \<noteq> sealedCell" "cell_ch s c = Some n" by (auto simp: live_in_def)
    then have ch: "cell_ch s' c = Some n" using guarD(3) [OF gd] by blast
    show ?thesis
    proof (cases "rslot s' i = Some c")
      case True
      then show ?thesis using c(2) ch n(1) by (auto simp: watched_def live_in_def)
    next
      case False
      from swap_only [OF g tk k(2) st c(1,2) False] show ?thesis
        using mem c(2) ch n(1) by (auto simp: watched_def closing_def)
    qed
  next
    assume "rslot s i = Some sealedCell" "closed s n"
    then show ?thesis using guarD(6,11) [OF gd] n(1) by (auto simp: watched_def)
  next
    assume sl: "rslot s i = Some sealedCell" and "closing ts s i n"
    then obtain c where c: "SClose i (Some c) \<in> set ts" "c \<noteq> sealedCell" "cell_ch s c = Some n" by (auto simp: closing_def)
    have ch: "cell_ch s' c = Some n" using guarD(3) [OF gd c(3)] .
    show ?thesis
    proof (cases "ts ! k = SClose i (Some c)")
      case True
      then have "closed s' n" using close_done [of s i c n p' s'] tk c(2,3) st by simp
      then show ?thesis using guarD(6) [OF gd sl] n(1) by (auto simp: watched_def)
    next
      case False
      then have "SClose i (Some c) \<in> set (ts[k := p'])" using c(1) by (metis in_set_conv_nth length_list_update nth_list_update_neq)
      then show ?thesis using guarD(6) [OF gd sl] n(1) c(2) ch by (auto simp: watched_def closing_def)
    qed
  qed
qed

lemma watched_mono: "watched [] s i ch \<Longrightarrow> watched ts s i ch"
  by (auto simp: watched_def closing_def)

lemma sysinvD:
  assumes "sysinv (ts, s)"
  shows "ginv s" and "p \<in> set ts \<Longrightarrow> tok s p"
    and "i < length ts \<Longrightarrow> j < length ts \<Longrightarrow> i \<noteq> j \<Longrightarrow> held (ts ! i) \<inter> held (ts ! j) = {}"
    and "Got a ch \<in> set ts \<Longrightarrow> watched ts s a ch"
  using assms by (auto simp: sysinv_def)

lemma sysinv_step:
  assumes "rstep x y" and "sysinv x"
  shows "sysinv y"
  using assms
proof (induction rule: rstep.induct)
  case (thread k ts s p' s')
  note inv = sysinvD [OF thread.prems]
  have tk: "tok s (ts ! k)" using inv(2) thread.hyps(1) by simp
  have good: "ginv s'" "tok s' p'" "guar (held (ts ! k)) (held p') s s'"
    using tstep_good [OF inv(1) tk thread.hyps(2,3)] by (simp_all add: good_step_def)
  have w: "world_ok s" using ginvD(1) [OF inv(1)] .
  have other: "tok s' (ts ! j) \<and> held (ts ! j) \<inter> held p' = {}" if "j < length ts" "j \<noteq> k" for j
    using tok_guar [OF good(3) w inv(2)] held_guar [OF good(3) inv(2)] inv(3) [OF that(1) thread.hyps(1) that(2)] that(1)
    by simp
  have "tok s' q" if q: "q \<in> set (ts[k := p'])" for q
  proof -
    obtain j where "j < length ts" "q = ts[k := p'] ! j" using q by (auto simp: in_set_conv_nth)
    then show ?thesis using other [of j] good(2) by (cases "j = k") auto
  qed
  moreover have "held (ts[k := p'] ! i) \<inter> held (ts[k := p'] ! j) = {}" if "i < length ts" "j < length ts" "i \<noteq> j" for i j
    using that other [of i] other [of j] inv(3) [of i j] by (cases "i = k"; cases "j = k") auto
  moreover have "watched (ts[k := p']) s' i ch" if got: "Got i ch \<in> set (ts[k := p'])" for i ch
  proof (cases "Got i ch \<in> set ts")
    case True
    then show ?thesis using watched_step [OF inv(1,2) thread.hyps] inv(4) by blast
  next
    case False
    then have "p' = Got i ch" using got set_update_subset_insert [of ts k p'] by auto
    then show ?thesis using got_new [OF inv(1) tk thread.hyps(2)] thread.hyps(3) watched_mono by blast
  qed
  ultimately show ?case using good(1) by (simp add: sysinv_def)
qed

lemma sysinv_run: "rsteps x y \<Longrightarrow> sysinv x \<Longrightarrow> sysinv y"
  by (induction rule: rsteps.induct) (auto intro: sysinv_step)

section \<open>Every run ends\<close>

fun left :: "pc \<Rightarrow> nat" where
  "left (CLoad i) = 4" | "left (CNew i) = 3" | "left (CCas i c) = 2" | "left (CReload i) = 1" | "left (Got i ch) = 0"
| "left (SSwap i) = 2" | "left (SClose i p) = 1" | "left (SDone i) = 0"
| "left VLoad = 8" | "left VNew = 7" | "left (VCas l ch) = 6" | "left VReload = 5"
| "left ZLoad = 5" | "left ZCas = 4" | "left ZReload = 3"
| "left LLoad = 4" | "left LNew = 3" | "left (LCas l) = 2" | "left LReload = 1" | "left (LGot l) = 0"
| "left Panicked = 0"

lemma left_step: "\<not> finished p \<Longrightarrow> tstep p s = (p', s') \<Longrightarrow> left p' < left p"
  by (cases p) (auto simp: tstep_def Let_def make_chan_def new_cell_def race_leaf_def slot_Live_def cas_def
      split: option.splits if_splits)

lemma sum_list_update_less:
  "k < length xs \<Longrightarrow> (f y :: nat) < f (xs ! k) \<Longrightarrow> sum_list (map f (xs[k := y])) < sum_list (map f xs)"
proof (induction xs arbitrary: k)
  case (Cons x xs)
  then show ?case by (cases k) auto
qed simp

lemma rstep_left: "rstep x y \<Longrightarrow> sum_list (map left (fst y)) < sum_list (map left (fst x))"
  by (induction rule: rstep.induct) (auto intro: sum_list_update_less left_step)

lemma rstep_exists:
  assumes "p \<in> set ts" and "\<not> finished p"
  shows "\<exists>y. rstep (ts, s) y"
proof -
  obtain k where "k < length ts" "ts ! k = p" using assms(1) by (auto simp: in_set_conv_nth)
  then show ?thesis using rstep.thread [of k ts s] assms(2) by (cases "tstep p s") blast
qed

end
