(* ===== verification/Race_Theorems.thy ===== *)
theory Race_Theorems
  imports Race_Run
begin

text \<open>
  What the slot protocol promises to goroutines that race: nothing panics, no wakeup is spurious, none
  is lost, and a slot only moves forward.
\<close>

section \<open>The life of a slot\<close>

datatype phase = Unset | Live | Stale

primrec phase_no :: "phase \<Rightarrow> nat" where
  "phase_no Unset = 0" | "phase_no Live = 1" | "phase_no Stale = 2"

instantiation phase :: linorder
begin

definition less_eq_phase :: "phase \<Rightarrow> phase \<Rightarrow> bool" where
  "less_eq_phase p q \<longleftrightarrow> phase_no p \<le> phase_no q"

definition less_phase :: "phase \<Rightarrow> phase \<Rightarrow> bool" where
  "less_phase p q \<longleftrightarrow> phase_no p < phase_no q"

instance
proof
  fix p q :: phase
  show "p = q" if "p \<le> q" "q \<le> p" using that by (cases p; cases q) (simp_all add: less_eq_phase_def)
qed (auto simp: less_eq_phase_def less_phase_def)

end

definition phase_of :: "slot \<Rightarrow> phase" where
  "phase_of p = (case p of None \<Rightarrow> Unset | Some c \<Rightarrow> if c = sealedCell then Stale else Live)"

lemma phase_bounds [simp]: "Unset \<le> p" "p \<le> Stale"
  by (cases p; simp add: less_eq_phase_def)+

lemma phase_step:
  assumes "rstep x y" and "sysinv x"
  shows "phase_of (rslot (snd x) i) \<le> phase_of (rslot (snd y) i)"
  using assms
proof (induction rule: rstep.induct)
  case (thread k ts s p' s')
  note inv = sysinvD [OF thread.prems]
  have tk: "tok s (ts ! k)" using inv(2) thread.hyps(1) by simp
  have gd: "guar (held (ts ! k)) (held p') s s'"
    using tstep_good [OF inv(1) tk thread.hyps(2,3)] by (simp add: good_step_def)
  show ?case
  proof (cases "rslot s i")
    case (Some c)
    show ?thesis
    proof (cases "c = sealedCell \<or> rslot s' i = Some c")
      case True
      then show ?thesis using guarD(6) [OF gd, of i] Some by auto
    next
      case False
      then show ?thesis using swap_only(2) [OF inv(1) tk thread.hyps(2,3) Some] by (simp add: phase_of_def)
    qed
  qed (simp add: phase_of_def)
qed

lemma phase_run: "rsteps x y \<Longrightarrow> sysinv x \<Longrightarrow> phase_of (rslot (snd x) i) \<le> phase_of (rslot (snd y) i)"
  by (induction rule: rsteps.induct) (auto intro: order_trans phase_step sysinv_run)

section \<open>Which operation a thread runs\<close>

datatype task = WatchNode | SealNode | WatchValue | SealValue | CopyNode

fun on_slot :: "task \<Rightarrow> task \<Rightarrow> slot_id \<Rightarrow> task" where
  "on_slot a b NodeSlot = a" | "on_slot a b (LeafSlot l) = b"

lemma on_slot_case: "on_slot a b i = (case i of NodeSlot \<Rightarrow> a | LeafSlot l \<Rightarrow> b)"
  by (cases i) simp_all

fun task_of :: "pc \<Rightarrow> task" where
  "task_of (CLoad i) = on_slot WatchNode WatchValue i" | "task_of (CNew i) = on_slot WatchNode WatchValue i"
| "task_of (CCas i c) = on_slot WatchNode WatchValue i" | "task_of (CReload i) = on_slot WatchNode WatchValue i"
| "task_of (Got i ch) = on_slot WatchNode WatchValue i"
| "task_of (SSwap i) = on_slot SealNode SealValue i" | "task_of (SClose i p) = on_slot SealNode SealValue i"
| "task_of (SDone i) = on_slot SealNode SealValue i"
| "task_of VLoad = WatchValue" | "task_of VNew = WatchValue" | "task_of (VCas l ch) = WatchValue" | "task_of VReload = WatchValue"
| "task_of ZLoad = SealValue" | "task_of ZCas = SealValue" | "task_of ZReload = SealValue"
| "task_of LLoad = CopyNode" | "task_of LNew = CopyNode" | "task_of (LCas l) = CopyNode" | "task_of LReload = CopyNode"
| "task_of (LGot l) = CopyNode" | "task_of Panicked = CopyNode"

lemma task_step: "tstep p s = (p', s') \<Longrightarrow> p' = Panicked \<or> task_of p' = task_of p"
  by (cases p) (auto simp: tstep_def Let_def make_chan_def new_cell_def race_leaf_def slot_Live_def cas_def
      split: option.splits if_splits)

lemma task_run:
  assumes "rsteps x y" and "sysinv x" and "k < length (fst x)"
  shows "length (fst y) = length (fst x) \<and> task_of (fst y ! k) = task_of (fst x ! k)"
  using assms
proof (induction rule: rsteps.induct)
  case (step x y z)
  have inv: "sysinv y" "sysinv z" using sysinv_run [OF step.hyps(1) step.prems(1)] sysinv_step [OF step.hyps(2)] by blast+
  have len: "length (fst y) = length (fst x)" "task_of (fst y ! k) = task_of (fst x ! k)" using step.IH step.prems by blast+
  from step.hyps(2) inv len step.prems(2) show ?case
  proof (cases rule: rstep.cases)
    case (thread i ts s p s')
    have "p \<in> set (ts[i := p])" using thread(3) by (rule set_update_memI)
    then have "p \<noteq> Panicked" using sysinvD(2) [of "ts[i := p]" s' p] inv(2) thread(2) by auto
    then show ?thesis using thread len step.prems(2) task_step [of "ts ! i" s p s'] by (cases "k = i") auto
  qed
qed simp

lemma stuck_finished: "\<not> (\<exists>y. rstep (ts, s) y) \<Longrightarrow> p \<in> set ts \<Longrightarrow> finished p"
  using rstep_exists by blast

text \<open>When all threads have finished, whoever watches a slot that was sealed has a closed channel.\<close>

lemma finished_closed:
  assumes "sysinv (ts, s)" and "\<And>p. p \<in> set ts \<Longrightarrow> finished p" and "Got i ch \<in> set ts" and "SDone i \<in> set ts"
  shows "is_closed s ch"
proof -
  have "rslot s i = Some sealedCell" using sysinvD(2) [OF assms(1,4)] by simp
  moreover have "\<not> closing ts s i n" for n using assms(2) by (force simp: closing_def)
  ultimately show ?thesis using sysinvD(4) [OF assms(1,3)] by (auto simp: watched_def live_in_def is_closed_def)
qed

lemma finished_task:
  assumes "finished p" and "tok s p"
  shows "task_of p = WatchNode \<Longrightarrow> \<exists>ch. p = Got NodeSlot ch" and "task_of p = SealNode \<Longrightarrow> p = SDone NodeSlot"
    and "task_of p = WatchValue \<Longrightarrow> \<exists>l ch. p = Got (LeafSlot l) ch \<and> rleaf s = Some l"
    and "task_of p = SealValue \<Longrightarrow> \<exists>l. p = SDone (LeafSlot l) \<and> rleaf s = Some l"
  using assms by (cases p; simp add: on_slot_case known_def split: slot_id.splits)+

section \<open>Schedules\<close>

fun sched :: "nat list \<Rightarrow> pc list \<times> race \<Rightarrow> pc list \<times> race" where
  "sched [] x = x"
| "sched (k # ks) (ts, s) =
     (if k < length ts \<and> \<not> finished (ts ! k) then (case tstep (ts ! k) s of (p, s') \<Rightarrow> sched ks (ts[k := p], s'))
      else sched ks (ts, s))"

lemma rsteps_trans: "rsteps y z \<Longrightarrow> rsteps x y \<Longrightarrow> rsteps x z"
  by (induction rule: rsteps.induct) (auto intro: rsteps.step)

lemma sched_rsteps: "rsteps x (sched ks x)"
proof (induction ks x rule: sched.induct)
  case (2 k ks ts s)
  show ?case
  proof (cases "k < length ts \<and> \<not> finished (ts ! k)")
    case True
    obtain p s' where st: "tstep (ts ! k) s = (p, s')" by force
    then have "rsteps (ts, s) (ts[k := p], s')" using True by (meson rstep.thread rsteps.refl rsteps.step)
    then show ?thesis using "2.IH"(1) [OF True st [symmetric]] True st rsteps_trans by auto
  qed (use "2.IH"(2) in auto)
qed (simp add: rsteps.refl)

text \<open>A goroutine that runs alone for \<open>n\<close> steps.\<close>

definition demo_tasks :: "pc list" where
  "demo_tasks = [CLoad NodeSlot, SSwap NodeSlot, VLoad, ZLoad, CLoad NodeSlot, LLoad]"

text \<open>Watchers and seals that overtake each other at every step.\<close>

definition demo_race :: "pc list \<times> race" where
  "demo_race = sched [0, 2, 3, 5, 0, 2, 5, 3, 4, 1, 0, 2, 1, 3, 4, 0, 2, 5, 3, 4, 4, 2, 2, 2, 3, 3, 5] (demo_tasks, init_race)"

lemma demo_race_start: "\<forall>p \<in> set demo_tasks. starts_op p" "rsteps (demo_tasks, init_race) (fst demo_race, snd demo_race)"
proof -
  show "\<forall>p \<in> set demo_tasks. starts_op p" by (simp add: demo_tasks_def starts_op_def)
  show "rsteps (demo_tasks, init_race) (fst demo_race, snd demo_race)"
    unfolding demo_race_def prod.collapse by (rule sched_rsteps)
qed

lemma demo_race_done: "list_all finished (fst demo_race)" "length (fst demo_race) = 6"
  by code_simp+

lemma no_step: "list_all finished ts \<Longrightarrow> \<not> rstep (ts, s) y"
  by (auto elim!: rstepE simp: list_all_length)

lemma demo_race_stuck: "\<not> (\<exists>y. rstep (fst demo_race, snd demo_race) y)"
  using no_step [OF demo_race_done(1)] by blast

section \<open>Properties\<close>

text \<open>
  C12: however watchers, seals and copies of one node interleave, no goroutine panics, which includes
  closing a channel twice; a slot only moves forward, from unset to live to sealed; and as long as it
  is not sealed its watchers hold one and the same open channel: no wakeup is spurious.
\<close>

theorem race_safe:
  assumes "ginv s" and "\<forall>p \<in> set ts. starts_op p" and "rsteps (ts, s) (ts', s')"
  shows "Panicked \<notin> set ts' \<and> phase_of (rslot s i) \<le> phase_of (rslot s' i) \<and>
    (phase_of (rslot s' i) < Stale \<and> Got i c \<in> set ts' \<and> Got i d \<in> set ts' \<longrightarrow> c = d \<and> c \<noteq> None \<and> \<not> is_closed s' c)"
proof -
  have inv0: "sysinv (ts, s)" using sysinv_init assms(1,2) by blast
  have inv: "sysinv (ts', s')" using sysinv_run [OF assms(3) inv0] .
  have "Panicked \<notin> set ts'" using sysinvD(2) [OF inv, of Panicked] by auto
  moreover have "phase_of (rslot s i) \<le> phase_of (rslot s' i)" using phase_run [OF assms(3) inv0, of i] by simp
  moreover have "c = d \<and> c \<noteq> None \<and> \<not> is_closed s' c"
    if st: "phase_of (rslot s' i) < Stale" and got: "Got i c \<in> set ts'" "Got i d \<in> set ts'"
  proof -
    have "rslot s' i \<noteq> Some sealedCell" using st by (auto simp: phase_of_def)
    then obtain n m where "c = Some n" "d = Some m" "live_in s' i n" "live_in s' i m"
      using sysinvD(4) [OF inv got(1)] sysinvD(4) [OF inv got(2)] by (auto simp: watched_def)
    then show ?thesis using ginvD(2) [OF sysinvD(1) [OF inv], of i] by (auto simp: live_in_def slot_ok_def is_closed_def)
  qed
  ultimately show ?thesis by blast
qed

theorem race_safe_witness: "Panicked \<notin> set (fst demo_race) \<and> Unset \<le> phase_of (rslot (snd demo_race) NodeSlot)"
  using race_safe [OF init_race_ginv demo_race_start, of NodeSlot] by simp

text \<open>
  C11: a run that cannot continue has served everybody: all calls have returned, none by a panic, and if the node, or its
  value, was sealed, every goroutine that asked for that watch, before or after, has a closed channel:
  no wakeup is lost.
\<close>

theorem race_notifies:
  assumes "ginv s" and "\<forall>p \<in> set ts. starts_op p" and "rsteps (ts, s) (ts', s')" and "\<not> (\<exists>y. rstep (ts', s') y)"
    and "i < length ts"
  shows "finished (ts' ! i) \<and> ts' ! i \<noteq> Panicked \<and>
    (ts ! i = CLoad NodeSlot \<and> SSwap NodeSlot \<in> set ts \<longrightarrow> (\<exists>c. ts' ! i = Got NodeSlot c \<and> is_closed s' c)) \<and>
    (ts ! i = VLoad \<and> ZLoad \<in> set ts \<longrightarrow> (\<exists>l c. ts' ! i = Got (LeafSlot l) c \<and> is_closed s' c))"
proof -
  have inv0: "sysinv (ts, s)" using sysinv_init assms(1,2) by blast
  have inv: "sysinv (ts', s')" using sysinv_run [OF assms(3) inv0] .
  have run: "length ts' = length ts" "k < length ts \<Longrightarrow> task_of (ts' ! k) = task_of (ts ! k)" for k
    using task_run [OF assms(3) inv0] assms(5) by auto
  have fin: "finished p" if "p \<in> set ts'" for p using stuck_finished [OF assms(4) that] .
  have end_of: "ts' ! k \<in> set ts'" "finished (ts' ! k)" "tok s' (ts' ! k)" if "k < length ts" for k
    using that run(1) fin sysinvD(2) [OF inv] by simp_all
  note cl = finished_closed [OF inv fin] and ft = finished_task [OF end_of(2,3)]
  have "\<exists>c. ts' ! i = Got NodeSlot c \<and> is_closed s' c" if a: "ts ! i = CLoad NodeSlot" "SSwap NodeSlot \<in> set ts"
  proof -
    obtain k where k: "k < length ts" "ts ! k = SSwap NodeSlot" using a(2) by (auto simp: in_set_conv_nth)
    have "ts' ! k = SDone NodeSlot" using ft(2) [OF k(1) k(1)] run(2) [OF k(1)] k(2) by simp
    moreover obtain c where "ts' ! i = Got NodeSlot c" using ft(1) [OF assms(5,5)] run(2) [OF assms(5)] a(1) by auto
    ultimately show ?thesis using cl [of NodeSlot c] end_of(1) [OF k(1)] end_of(1) [OF assms(5)] by auto
  qed
  moreover have "\<exists>l c. ts' ! i = Got (LeafSlot l) c \<and> is_closed s' c" if a: "ts ! i = VLoad" "ZLoad \<in> set ts"
  proof -
    obtain k where k: "k < length ts" "ts ! k = ZLoad" using a(2) by (auto simp: in_set_conv_nth)
    obtain l where "ts' ! k = SDone (LeafSlot l)" "rleaf s' = Some l" using ft(4) [OF k(1) k(1)] run(2) [OF k(1)] k(2) by auto
    moreover obtain m c where "ts' ! i = Got (LeafSlot m) c" "rleaf s' = Some m"
      using ft(3) [OF assms(5,5)] run(2) [OF assms(5)] a(1) by auto
    ultimately show ?thesis using cl [of "LeafSlot l" c] end_of(1) [OF k(1)] end_of(1) [OF assms(5)] by auto
  qed
  moreover have "ts' ! i \<noteq> Panicked" using end_of(3) [OF assms(5)] by auto
  ultimately show ?thesis using end_of(2) [OF assms(5)] by blast
qed

theorem race_notifies_witness:
  "(\<exists>c. fst demo_race ! 4 = Got NodeSlot c \<and> is_closed (snd demo_race) c) \<and>
   (\<exists>l c. fst demo_race ! 2 = Got (LeafSlot l) c \<and> is_closed (snd demo_race) c)"
  using race_notifies [OF init_race_ginv demo_race_start demo_race_stuck, of 4]
    race_notifies [OF init_race_ginv demo_race_start demo_race_stuck, of 2] by (simp add: demo_tasks_def)

text \<open>C31: the protocol is lock-free and bounded: from any state, no run goes on for ever.\<close>

theorem race_ends: "\<not> (\<exists>f. f 0 = (ts, s) \<and> (\<forall>n. rstep (f n) (f (Suc n))))"
proof
  assume "\<exists>f. f 0 = (ts, s) \<and> (\<forall>n. rstep (f n) (f (Suc n)))"
  then obtain f where f: "\<And>n. rstep (f n) (f (Suc n))" by blast
  have "sum_list (map left (fst (f n))) + n \<le> sum_list (map left (fst (f 0)))" for n
  proof (induction n)
    case (Suc n)
    then show ?case using rstep_left [OF f [of n]] by simp
  qed simp
  from this [of "Suc (sum_list (map left (fst (f 0))))"] show False by simp
qed

end
