(* ===== verification/Write_Frame.thy ===== *)
theory Write_Frame
  imports Txn_Map
begin

text \<open>
  Which nodes a write does not even look at: every address outside the path of a deletion and the
  sibling it merges keeps its node as it is.  Unlike the effect bounds, this includes nodes the
  transaction owns, so a subtree that was cut off stays exactly what it was.
\<close>

definition untouched :: "'v store \<Rightarrow> 'v store \<Rightarrow> addr set \<Rightarrow> bool" where
  "untouched s s' A \<longleftrightarrow> next_node s \<le> next_node s' \<and>
     (\<forall>b < next_node s. b \<notin> A \<longrightarrow> nodes s' b = nodes s b)"

lemma untouched_refl [simp]: "untouched s s A"
  by (simp add: untouched_def)

lemma untouched_trans:
  "untouched s s1 A \<Longrightarrow> untouched s1 s2 B \<Longrightarrow> (A \<union> B) \<inter> {..<next_node s} \<subseteq> C \<Longrightarrow> untouched s s2 C"
proof -
  assume 1: "untouched s s1 A" and 2: "untouched s1 s2 B" and C: "(A \<union> B) \<inter> {..<next_node s} \<subseteq> C"
  have "nodes s2 b = nodes s b" if b: "b < next_node s" "b \<notin> C" for b
  proof -
    have "b \<notin> A" "b \<notin> B" using C b by auto
    then show ?thesis using 1 2 b(1) by (simp add: untouched_def)
  qed
  then show ?thesis using 1 2 by (simp add: untouched_def)
qed

lemma untouched_same: "nodes s' = nodes s \<Longrightarrow> next_node s' = next_node s \<Longrightarrow> untouched s s' A"
  by (simp add: untouched_def)

lemma untouched_weaken: "untouched s s' A \<Longrightarrow> A \<inter> {..<next_node s} \<subseteq> B \<Longrightarrow> untouched s s' B"
  unfolding untouched_def by blast

lemma untouched_upd: "untouched s (upd_node a f s) {a}"
  by (simp add: untouched_def)

lemma untouched_alloc: "alloc_node n s = (a, s') \<Longrightarrow> untouched s s' A \<and> a = next_node s"
  by (auto simp: untouched_def alloc_node_def)

lemma copyShape_untouched:
  "copyShape t a extra s = Some (c, s') \<Longrightarrow> untouched s s' A \<and> c = next_node s"
  by (auto simp: copyShape_def Let_def split: Option.bind_splits dest: untouched_alloc)

lemma shareLeaf_untouched: "shareLeaf t a s = (l, s') \<Longrightarrow> untouched s s' {a}"
  by (auto simp: shareLeaf_def leafOf_def new_leaf_def cas_def untouched_def split: if_splits option.splits)

lemma copyNode_untouched:
  assumes "copyNode t a extra s = Some (c, s')"
  shows "untouched s s' {a} \<and> c = next_node s"
proof -
  obtain s1 where s1: "copyShape t a extra s = Some (c, s1)"
    using assms by (auto simp: copyNode_def Let_def split: Option.bind_splits if_splits prod.splits)
  note 1 = copyShape_untouched [OF s1]
  show ?thesis
  proof (cases "hasValue (nodes s1 a)")
    case False
    with assms s1 have "s' = s1" by (simp add: copyNode_def)
    then show ?thesis using 1 by simp
  next
    case True
    let ?s2 = "upd_node c (\<lambda>m. m\<lparr>val := val (nodes s1 a), epoch := epoch m OR valueBit\<rparr>) s1"
    obtain l s3 where s3: "shareLeaf t a ?s2 = (l, s3)" by (cases "shareLeaf t a ?s2")
    have s': "s' = (if l \<noteq> None then upd_node c (\<lambda>m. m\<lparr>leafp := l\<rparr>) s3 else s3)"
      using assms s1 True s3 by (simp add: copyNode_def Let_def)
    have "untouched s ?s2 {a}" by (rule untouched_trans [OF _ untouched_upd, of _ _ "{}"]) (use 1 in auto)
    then have "untouched s s3 {a}" by (rule untouched_trans [OF _ shareLeaf_untouched [OF s3]]) auto
    then have "untouched s s' {a}"
      unfolding s' using 1 by (auto intro: untouched_trans [OF _ untouched_upd])
    then show ?thesis using 1 by simp
  qed
qed

lemma link_untouched: "link t parent pidx c s = Some (t', s') \<Longrightarrow> untouched s s' (hole parent)"
  by (auto simp: link_def setKidAt_def put_node_def untouched_def split: option.splits Option.bind_splits)

lemma own_untouched:
  assumes "own t parent pidx n extra s = Some (c, t', s')"
  shows "untouched s s' (insert n (hole parent)) \<and> (c = n \<or> next_node s \<le> c)"
proof -
  have drop: "untouched s1 (dropNode t n s1) A" for s1 :: "'a store" and A by (simp add: untouched_same)
  consider "c = n" "s' = s"
    | e s1 where "copyNode t n (kidCount (nodes s n) + extra) s = Some (c, s1)"
        "link t parent pidx c (upd_node c (\<lambda>m. m\<lparr>epoch := e s1\<rparr>) s1) = Some (t', s')"
    | s1 where "copyNode t n extra s = Some (c, s1)" "link t parent pidx c (dropNode t n s1) = Some (t', s')"
    using assms by (auto simp: own_def Let_def split: if_splits Option.bind_splits)
  then show ?thesis
  proof cases
    case 2
    note k = copyNode_untouched [OF 2(1)]
    have "untouched s (upd_node c (\<lambda>m. m\<lparr>epoch := e s1\<rparr>) s1) {n}"
      by (rule untouched_trans [OF _ untouched_upd]) (use k in auto)
    then show ?thesis using untouched_trans [OF _ link_untouched [OF 2(2)]] k by auto
  next
    case 3
    note k = copyNode_untouched [OF 3(1)]
    have "untouched s (dropNode t n s1) {n}" by (rule untouched_trans [OF _ drop]) (use k in auto)
    then show ?thesis using untouched_trans [OF _ link_untouched [OF 3(2)]] k by auto
  qed simp
qed

lemma ownPath_loop_untouched:
  "ownPath_loop t parent pidx path s = Some (path', t', s') \<Longrightarrow>
    untouched s s' (fst ` set path \<union> hole parent) \<and> length path' = length path \<and>
    (\<forall>e' \<in> fst ` set path'. e' \<in> fst ` set path \<or> next_node s \<le> e')"
proof (induction path arbitrary: t parent pidx s path' t' s')
  case (Cons e path)
  obtain n idx where e: "e = (n, idx)" by (cases e)
  obtain c t1 s1 q where o: "own t parent pidx n 0 s = Some (c, t1, s1)"
    "ownPath_loop t1 (Some c) idx path s1 = Some (q, t', s')" and p': "path' = (c, idx) # q"
    using Cons.prems e by (auto split: Option.bind_splits)
  note 1 = own_untouched [OF o(1)] and 2 = Cons.IH [OF o(2)]
  have nn: "next_node s \<le> next_node s1" using 1 by (simp add: untouched_def)
  have "untouched s s' (fst ` set (e # path) \<union> hole parent)"
    by (rule untouched_trans [OF conjunct1 [OF 1] conjunct1 [OF 2]]) (use 1 e in auto)
  then show ?case using 1 2 p' e nn by fastforce
qed simp

lemma ownPath_untouched:
  assumes "ownPath t path s = Some (path', t', s')"
  shows "untouched s s' (fst ` set path)" and "length path' = length path"
    and "e' \<in> fst ` set path' \<Longrightarrow> e' \<in> fst ` set path \<or> next_node s \<le> e'"
  using ownPath_loop_untouched [OF assms [unfolded ownPath_def]] by auto

lemma delKid_untouched: "delKid p idx s = Some s' \<Longrightarrow> untouched s s' {p}"
  by (auto simp: delKid_def Let_def put_node_def untouched_def split: Option.bind_splits)

lemma setKidAt_untouched: "setKidAt p i c s = Some s' \<Longrightarrow> untouched s s' {p}"
  by (auto simp: setKidAt_def put_node_def untouched_def split: Option.bind_splits)

lemma untouched_upd_fresh:
  "untouched s s1 A \<Longrightarrow> next_node s \<le> m \<Longrightarrow> untouched s (upd_node m f s1) A"
  by (rule untouched_trans [OF _ untouched_upd]) auto

lemma untouched_drop: "untouched s s1 A \<Longrightarrow> untouched s (dropNode t n s1) A"
  by (simp add: untouched_def)

lemma merged_of_untouched:
  assumes "merged_of t n c s = Some (m, s')"
  shows "untouched s s' {c}"
proof -
  consider l s1 s2 where "alloc_node ((newLeafNode (prefix (nodes s n)) (prefix (nodes s c)))
        \<lparr>val := val (nodes s c)\<rparr>) s = (m, s1)" "shareLeaf t c s1 = (l, s2)" "childless (nodes s c)"
    | "\<not> childless (nodes s c)" "m = c" "owns t (nodes s c)"
    | s1 where "\<not> childless (nodes s c)" "\<not> owns t (nodes s c)" "copyNode t c 0 s = Some (m, s1)"
    using assms by (auto simp: merged_of_def Let_def split: if_splits Option.bind_splits prod.splits)
  then show ?thesis
  proof cases
    case 1
    note a = untouched_alloc [OF 1(1)]
    have "untouched s s2 {c}" using a shareLeaf_untouched [OF 1(2)] by (auto intro: untouched_trans)
    moreover have "next_node s \<le> m" using a [of "{}"] by simp
    ultimately show ?thesis
      using assms 1(1,2,3)
      by (auto simp: merged_of_def Let_def split: if_splits intro!: untouched_upd_fresh untouched_drop)
  next
    case 2
    then show ?thesis using assms by (auto simp: merged_of_def Let_def untouched_def)
  next
    case 3
    note k = copyNode_untouched [OF 3(3)]
    then have "untouched s (upd_node m f s1) {c}" for f by (intro untouched_upd_fresh) auto
    then show ?thesis using assms 3 by (auto simp: merged_of_def Let_def split: if_splits intro: untouched_drop)
  qed
qed

lemma mergeChild_untouched:
  assumes "mergeChild t p pidx n c s = Some s'"
  shows "untouched s s' {p, c}"
proof -
  obtain m s1 where s1: "merged_of t n c s = Some (m, s1)" "setKidAt p pidx m s1 = Some s'"
    using assms by (auto simp: mergeChild_unfold split: Option.bind_splits)
  show ?thesis by (rule untouched_trans [OF merged_of_untouched [OF s1(1)] setKidAt_untouched [OF s1(2)]]) auto
qed

section \<open>Cutting a subtree off\<close>

lemma follows_disj:
  "follows g path \<Longrightarrow> distinct (addrs g) \<Longrightarrow> fst ` set path \<inter> set (addrs (sub_at (map snd path) g)) = {}"
proof (induction path arbitrary: g)
  case (Cons e path)
  obtain a i where e: "e = (a, i)" by (cases e)
  obtain x gs where g: "g = G a x gs" using Cons.prems(1) e by (cases g) auto
  have i: "i < length gs" and f: "follows (gs ! i) path" using Cons.prems(1) e g by simp_all
  have d: "distinct (addrs (gs ! i))" using Cons.prems(2) g i distinct_concat_kid [of gs "gs ! i"] by simp
  have "a \<notin> set (addrs (gs ! i))" using Cons.prems(2) g i by auto
  then have "a \<notin> set (addrs (sub_at (map snd path) (gs ! i)))" using addrs_sub_at [OF f] by blast
  then show ?case using Cons.IH [OF f d] e g by auto
qed simp

lemma untouched_eq: "untouched s s' A \<Longrightarrow> b < next_node s \<Longrightarrow> b \<notin> A \<Longrightarrow> nodes s' b = nodes s b"
  by (simp add: untouched_def)

lemma unlink_keeps:
  fixes g :: "'x gtree"
  assumes t: "trep E s g" and f: "follows g (front @ [(pn, i)])"
    and u: "unlink t (front @ [(pn, i)]) s = Some (t', s')" and b: "b \<in> set (addrs (sub_at (map snd front @ [i]) g))"
  shows "nodes s' b = nodes s b"
proof -
  let ?path = "front @ [(pn, i)]" and ?p = "sub_at (map snd front) g"
  have ff: "follows g front" "pn = ad ?p" "i < length (gk ?p)" using f by (simp_all add: follows_snoc)
  have dj: "fst ` set ?path \<inter> set (addrs (sub_at (map snd front @ [i]) g)) = {}"
    using follows_disj [OF f trepD(2) [OF t]] by simp
  have bp: "b \<notin> fst ` set ?path" using dj b by blast
  have bn: "b < next_node s" using trep_bound [OF t] addrs_sub_at [OF f] b by auto
  show ?thesis
  proof (cases "front \<noteq> [] \<and> \<not> hasValue (nodes s pn) \<and> kidCount (nodes s pn) = 2")
    case False
    then obtain path' t1 s1 p where o: "ownPath t ?path s = Some (path', t1, s1)"
      and p: "path_at path' (length front) = Some p" and d: "delKid (fst p) i s1 = Some s'"
      using u by (auto simp: unlink_def path_at_last split: if_splits Option.bind_splits)
    note op = ownPath_untouched [OF o]
    have "fst p \<in> fst ` set path'" using p by (auto simp: path_at_def split: if_splits)
    from op(3) [OF this] have "b \<noteq> fst p" using bp bn by (metis not_less)
    then show ?thesis
      using untouched_eq [OF op(1) bn bp] untouched_eq [OF delKid_untouched [OF d], of b] op(1) bn by (simp add: untouched_def)
  next
    case True
    then obtain path' t1 s1 gp c where o: "ownPath t front s = Some (path', t1, s1)"
      and gp: "path_at path' (length front - 1) = Some gp" and c: "kid (nodes s1 pn) (1 - i) = Some c"
      and m: "\<exists>s2. nodes s2 = nodes s1 \<and> next_node s2 = next_node s1 \<and> mergeChild t1 (fst gp) (snd gp) pn c s2 = Some s'"
      using u by (auto simp: unlink_def path_at_last Let_def split: if_splits Option.bind_splits)
        (metis drop_simps(1,2))+
    note op = ownPath_untouched [OF o]
    have "fst gp \<in> fst ` set path'" using gp by (auto simp: path_at_def split: if_splits)
    from op(3) [OF this] have bg: "b \<noteq> fst gp" using bp bn by (auto simp: not_less [symmetric])
    obtain gs x where g: "?p = G pn x gs" using ff(2) by (cases ?p) simp
    have tp: "trep E s (G pn x gs)" using trep_sub_at [OF t ff(1)] g by simp
    have l2: "length gs = 2" using rep_kidCount [OF trepD(1) [OF tp]] True by simp
    have i: "i < 2" using ff(3) g l2 by simp
    have pf: "pn \<notin> fst ` set front" using follows_disj [OF ff(1) trepD(2) [OF t]] g by auto
    have "nodes s1 pn = nodes s pn" using untouched_eq [OF op(1) _ pf] tp by (simp add: trep_G)
    then have "c = ad (gs ! (1 - i))" using c rep_kid [OF trepD(1) [OF tp], of "1 - i"] l2 by simp
    then have "c \<in> set (addrs (gs ! (1 - i)))" by simp
    moreover have "b \<in> set (addrs (gs ! i))" using b g by (simp add: sub_at_snoc)
    moreover have "set (addrs (gs ! i)) \<inter> set (addrs (gs ! (1 - i))) = {}"
    proof (rule distinct_kids_disj)
      show "i \<noteq> 1 - i" using i by presburger
    qed (use tp l2 i in \<open>auto simp: trep_G\<close>)
    ultimately have bc: "b \<noteq> c" by blast
    obtain s2 where s2: "nodes s2 = nodes s1" "next_node s2 = next_node s1" "mergeChild t1 (fst gp) (snd gp) pn c s2 = Some s'"
      using m by blast
    have "b < next_node s2" using op(1) bn s2(2) by (simp add: untouched_def)
    then show ?thesis
      using untouched_eq [OF mergeChild_untouched [OF s2(3)], of b] untouched_eq [OF op(1) bn] bg bc bp s2(1) by auto
  qed
qed

end
