(* ===== verification/Txn_Effect.thy ===== *)
theory Txn_Effect
  imports Write_Frame
begin

text \<open>
  One write seen with tags: which nodes and values of the old tree are in the new one, and which are
  recorded.  \<open>wrote\<close> collects what the specifications of the three writing operations share; the
  trees in \<open>cs\<close> are those a prefix deletion recorded as a whole, and they are left exactly as they were.
\<close>

definition with_tag :: "'v any \<Rightarrow> 'x \<Rightarrow> ('v any \<times> 'x) any" where
  "with_tag v x = Some (v, x)"

text \<open>The map a tree holds, each value with the tag of its node.\<close>

definition tagged :: "'v store \<Rightarrow> 'x gtree \<Rightarrow> bytes \<Rightarrow> ('v any \<times> 'x) any option" where
  "tagged s g = map_of (below (absh with_tag s g))"

fun tag_op :: "'x \<Rightarrow> 'v kv_op \<Rightarrow> (bytes \<Rightarrow> ('v any \<times> 'x) any option) \<Rightarrow> bytes \<Rightarrow> ('v any \<times> 'x) any option" where
  "tag_op y (Put k v) m = m(k \<mapsto> Some (v, y))"
| "tag_op y (Remove k) m = m(k := None)"
| "tag_op y (Cut p) m = (\<lambda>k. if starts k p then None else m k)"
| "tag_op y (Lookup k) m = m"

definition cut_addrs :: "'x gtree list \<Rightarrow> addr set" where
  "cut_addrs cs = (\<Union>h \<in> set cs. set (addrs h))"

lemma cut_addrs_simps [simp]: "cut_addrs [] = {}" "cut_addrs [h] = set (addrs h)"
  by (simp_all add: cut_addrs_def)

definition wrote :: "txn \<Rightarrow> 'v store \<Rightarrow> 'x gtree \<Rightarrow> txn \<Rightarrow> 'v store \<Rightarrow> 'x gtree \<Rightarrow> notifier \<Rightarrow> 'x gtree list \<Rightarrow> 'x set \<Rightarrow> bool"
  where
  "wrote t s g t' s' g' D cs W \<longleftrightarrow> (\<exists>t1 s1. begin_txn t s = (t1, s1) \<and> t' = t1\<lparr>troot := Some (ad g')\<rparr> \<and>
     eff (tepoch t1) (tnf t1) s1 (set (addrs g)) D s' \<and> trep (tepoch t1) s' g' \<and> wf_root (absn s' g') \<and>
     set (addrs g') \<subseteq> set (addrs g) \<union> {next_node s..} \<and> cut_addrs cs \<subseteq> set (addrs g) - set (addrs g') \<and>
     unowned (tepoch t1) s g - set (addrs g') \<subseteq> set (nf_nodes D) \<union> cut_addrs cs \<and>
     set (nf_nodes D) \<subseteq> set (addrs g) \<and> None \<notin> set (nf_leaves D) \<and> nf_subtrees D = map ad cs \<and>
     set (nf_values D) \<subseteq> {a \<in> set (addrs g). hasValue (nodes s a)} \<and>
     (\<forall>h \<in> set cs. rep s h \<and> (\<forall>b \<in> set (addrs h). nodes s' b = nodes s b)) \<and>
     vals (tepoch t1) s g s' g' D (cut_addrs cs) W)"

lemma vals_nodes:
  assumes "nodes s1 = nodes s" and "next_node s1 = next_node s"
  shows "vals E s1 g s' g' D Z W = vals E s g s' g' D Z W"
proof -
  have "vnodes s1 g = vnodes s g" using assms by (intro vnodes_agree) (simp add: agree_def)
  then show ?thesis by (simp add: vals_def heir_def gone_def assms)
qed

lemma wrote_replaced:
  assumes b: "begin_txn t s = (t1, s1)" and w: "writable t1 s1 g"
    and r: "replaced (tepoch t1) (tnf t1) s1 {} g s' g' D {} W" and wr: "wf_root (absn s' g')"
  shows "wrote t s g (t1\<lparr>troot := Some (ad g')\<rparr>) s' g' D [] W"
proof -
  note bn = begin_txn_nodes [OF b]
  have "eff (tepoch t1) (tnf t1) s1 (set (addrs g)) D s'" using replacedD(1) [OF r] by simp
  moreover have "unowned (tepoch t1) s g = unowned (tepoch t1) s1 g" using bn(1) by (simp add: unowned_def)
  ultimately show ?thesis
    unfolding wrote_def
    using b replacedD [OF r] wr bn(1,2) vals_nodes [OF bn(1,2), of "tepoch t1" g s' g' D "{}" W]
    by (intro exI [of _ t1] exI [of _ s1]) (auto simp: unowned_def)
qed

lemma wf_root_absh: "wf_root (absh h s g) \<longleftrightarrow> wf_root (absn s g)"
  using wf_kids_absh [of h s "gk g"] by (cases g) (simp add: wf_root_def)

lemma tagged_look: "tree_ok s g \<Longrightarrow> tagged s g k = look (absh with_tag s g) k"
  unfolding tagged_def using tree_okD(2) [of s g]
  by (intro look_below) (cases g, simp add: wf_kids_absh)

text \<open>The keys do not depend on how values are read.\<close>

lemma map_fst_ents: "map fst (ents t) = map ((@) (seg t)) (map fst (below t))"
  by (simp add: ents_below case_prod_unfold comp_def)

lemma fst_own_ents [simp]: "map fst (own_ents (map_option f ov)) = map fst (own_ents ov)"
  by (simp add: own_ents_def split: option.split)

lemma keys_absh: "map fst (below (absh h s g)) = map fst (below (absn s g))"
proof (induction g)
  case (G a x gs)
  have e: "map fst (ents (absh h s g)) = map fst (ents (absn s g))" if "g \<in> set gs" for g
    unfolding map_fst_ents G.IH [OF that] absh_sel absn_sel ..
  then show ?case by (simp add: below_RT map_concat comp_def cong: map_cong)
qed

lemma sub_tree:
  assumes "trep E s g" and "follows g path"
  shows "rep s (sub_at (map snd path) g)" and "set (addrs (sub_at (map snd path) g)) \<subseteq> set (addrs g)"
  using trepD(1) [OF trep_sub_at [OF assms]] addrs_sub_at [OF assms(2)] by simp_all

lemma below_sorted: "tree_ok s g \<Longrightarrow> sorted_wrt (<) (map fst (below (absh h s g)))"
  using tree_okD(2) [of s g] by (intro sorted_ents_kids) (cases g, simp add: wf_kids_absh)

lemma Put_wrote:
  fixes g :: "'x gtree" and s :: "'v store"
  assumes s: "epochs_ok s" and t: "txn_ok t s g" and room: "tepoch t = 0 \<Longrightarrow> epochCounter s < epochMask"
    and x: "Insert t k v s = Some (r, t', s')"
  shows "\<exists>g' D. wrote t s g t' s' g' D [] {y} \<and> tagged s' g' = tag_op y (Put k v) (tagged s g)"
proof -
  obtain t1 s1 where b: "begin_txn t s = (t1, s1)" by (cases "begin_txn t s")
  note n = begin_txn_nodes [OF b] and w = begin_writable(1) [OF s t room b]
  have wr: "wf_root (absh with_tag s g)" using txn_okD(2) [OF t] by (simp add: tree_ok_def wf_root_absh)
  then have wk: "wf_kids (subs (absh with_tag s g))" by (simp add: wf_root_def)
  from Insert_loop_spec [where search = k and v = v and hf = with_tag and y = y,
      OF writableD(2) [OF w] writableD(6) [OF w] writableD(3,4) [OF w]]
  obtain t2 s2 g' D where il: "Insert_loop t1 None 0 (ad g) k v s1 = Some (found (look (absn s1 g) k), t2, s2)"
    "plugged None 0 t1 s1 (ad g') t2 s2" "replaced (tepoch t1) (tnf t1) s1 {} g s2 g' D {} {y}"
    "absh with_tag s2 g' = ins k (with_tag v y) (absh with_tag s1 g)"
    by auto
  have eq: "t' = t2" "s' = s2" using x il(1) b writableD(1) [OF w] by (simp_all add: Insert_def)
  have ab: "absh with_tag s2 g' = ins k (with_tag v y) (absh with_tag s g)" using il(4) absh_nodes [OF n(1), of with_tag g] by simp
  have "wf_root (absn s2 g')" using wf_root_ins [OF wr] ab wf_root_absh by metis
  then have "wrote t s g t' s' g' D [] {y}"
    using wrote_replaced [OF b w il(3)] il(2) eq by (simp add: plugged_def)
  moreover have "tagged s' g' = tag_op y (Put k v) (tagged s g)"
    unfolding tagged_def eq ab using map_of_ins [OF wk] by (auto simp: with_tag_def)
  ultimately show ?thesis by blast
qed

lemma Remove_wrote:
  fixes g :: "'x gtree" and s :: "'v store"
  assumes s: "epochs_ok s" and t: "txn_ok t s g" and room: "tepoch t = 0 \<Longrightarrow> epochCounter s < epochMask"
    and x: "Delete t k s = Some (r, t', s')"
  shows "t' = t \<and> s' = s \<and> tagged s g = tag_op y (Remove k) (tagged s g) \<or>
    (\<exists>g' D. wrote t s g t' s' g' D [] {y} \<and> tagged s' g' = tag_op y (Remove k) (tagged s g))"
proof -
  obtain t1 s1 where b: "begin_txn t s = (t1, s1)" by (cases "begin_txn t s")
  note w = begin_writable(1) [OF s t room b]
  have ok: "tree_ok s g" using txn_okD(2) [OF t] .
  have wr: "wf_root (absh with_tag s g)" using ok by (simp add: tree_ok_def wf_root_absh)
  then have wk: "wf_kids (subs (absh with_tag s g))" by (simp add: wf_root_def)
  note ds = Delete_spec [OF b w, of k with_tag]
  show ?thesis
  proof (cases "look (absn s g) k")
    case None
    then have "k \<notin> fst ` set (contents s g)"
      using look_below [of "absn s g" k] ok by (auto simp: contents_def tree_ok_def wf_root_def map_of_eq_None_iff)
    moreover have "fst ` set (below (absh with_tag s g)) = fst ` set (contents s g)"
      unfolding contents_def set_map [symmetric] keys_absh ..
    ultimately have "tagged s g k = None" by (simp add: tagged_def map_of_eq_None_iff)
    then show ?thesis using x ds None by (auto simp: fun_upd_idem)
  next
    case (Some u)
    with ds obtain s2 g' D where d: "Delete t k s = Some (found (look (absn s g) k), t1\<lparr>troot := Some (ad g')\<rparr>, s2)"
      "replaced (tepoch t1) (tnf t1) s1 {} g s2 g' D {} {}" "absh with_tag s2 g' = del k (absh with_tag s g)"
      by auto
    have eq: "t' = t1\<lparr>troot := Some (ad g')\<rparr>" "s' = s2" using x d(1) by simp_all
    have w2: "wf_root (absn s2 g')" using wf_root_del [OF wr] d(3) wf_root_absh by metis
    have "wrote t s g t' s' g' D [] {y}"
      unfolding eq by (rule wrote_replaced [OF b w replaced_weaken [OF d(2)] w2]) simp_all
    moreover have "tagged s' g' = tag_op y (Remove k) (tagged s g)"
      using del_spec [OF wk, of k] d(3) eq filter_sorted_map_of [OF below_sorted [OF ok, of with_tag], of "\<lambda>x. x \<noteq> k"]
      by (auto simp: tagged_def fun_eq_iff)
    ultimately show ?thesis by blast
  qed
qed

lemma Cut_keeps:
  fixes g :: "'x gtree" and s :: "'v store"
  assumes t: "trep E s1 g" and b: "begin_txn t s = (t1, s1)" and r: "troot t = Some (ad g)"
    and d: "DeletePrefix_descend s (ad g) k [] = Some (Some (ad (sub_at (map snd path) g), path))"
    and f: "follows g path" and x: "DeletePrefix t k s = Some (True, t', s')"
    and c: "c \<in> set (addrs (sub_at (map snd path) g))"
  shows "nodes s' c = nodes s c"
proof -
  note n = begin_txn_nodes [OF b]
  have c1: "c < next_node s1" using trep_bound [OF t] addrs_sub_at [OF f] c by auto
  let ?s2 = "dropSubtree t1 (ad (sub_at (map snd path) g)) s1"
  show ?thesis
  proof (cases path rule: rev_cases)
    case Nil
    then show ?thesis
      using x r d b c1 n(1) by (auto simp: DeletePrefix_def cutRoot_def Let_def alloc_node_def)
  next
    case (snoc front e)
    obtain pn i where e: "e = (pn, i)" by (cases e)
    have u: "unlink t1 (front @ [(pn, i)]) ?s2 = Some (t', s')"
      using x r d b snoc e by (auto simp: DeletePrefix_def Let_def split: Option.bind_splits)
    have t2: "trep E ?s2 g" using t trep_nodes [of ?s2 s1 E g] by simp
    have "nodes s' c = nodes ?s2 c"
      by (rule unlink_keeps [OF t2 _ u]) (use f c snoc e in simp_all)
    then show ?thesis using n(1) by simp
  qed
qed

lemma gone_subtree: "gone E s s' (nf_add (d_subtree r) D) a = gone E s s' D a"
  by (simp add: gone_def)

lemma Cut_wrote:
  fixes g :: "'x gtree" and s :: "'v store"
  assumes s: "epochs_ok s" and t: "txn_ok t s g" and room: "tepoch t = 0 \<Longrightarrow> epochCounter s < epochMask"
    and x: "DeletePrefix t k s = Some (r, t', s')"
  shows "t' = t \<and> s' = s \<and> tagged s g = tag_op y (Cut k) (tagged s g) \<or>
    (\<exists>g' D cs. wrote t s g t' s' g' D cs {y} \<and> tagged s' g' = tag_op y (Cut k) (tagged s g))"
proof -
  obtain t1 s1 where b: "begin_txn t s = (t1, s1)" by (cases "begin_txn t s")
  note n = begin_txn_nodes [OF b] and w = begin_writable(1) [OF s t room b]
  have ok: "tree_ok s g" using txn_okD(2) [OF t] .
  have wr: "wf_root (absh with_tag s g)" using ok by (simp add: tree_ok_def wf_root_absh)
  have wk: "wf_kids (subs (absn s g))" using ok by (simp add: tree_ok_def wf_root_def)
  note ds = DeletePrefix_spec [OF b w, of k with_tag]
  show ?thesis
  proof (cases "locatep k (absn s g)")
    case None
    then have none: "\<not> starts l k" if "l \<in> fst ` set (contents s g)" for l
      using locatep_hit [OF wk, of k] that by (auto simp: contents_def)
    have "fst ` set (below (absh with_tag s g)) = fst ` set (contents s g)"
      unfolding contents_def set_map [symmetric] keys_absh ..
    then have "tagged s g l = None" if "starts l k" for l
      using none that by (auto simp: tagged_def map_of_eq_None_iff)
    then show ?thesis using x ds None by (auto simp: fun_eq_iff)
  next
    case (Some "is")
    with ds obtain path s2 s3 g' D where d: "DeletePrefix t k s = Some (True, t1\<lparr>troot := Some (ad g')\<rparr>, s3)"
      "follows g path" "DeletePrefix_descend s (ad g) k [] = Some (Some (ad (sub_at (map snd path) g), path))"
      "eff (tepoch t1) (tnf t1) s1 {} (d_subtree (ad (sub_at (map snd path) g))) s2"
      "nodes s2 = nodes s1" "next_node s2 = next_node s1"
      "replaced (tepoch t1) (tnf t1) s2 {} g s3 g' D (set (addrs (sub_at (map snd path) g))) {}"
      "absh with_tag s3 g' = delp k (absh with_tag s g)"
      by (simp only: option.distinct if_False) blast
    let ?h = "sub_at (map snd path) g" and ?E = "tepoch t1"
    have eq: "t' = t1\<lparr>troot := Some (ad g')\<rparr>" "s' = s3" using x d(1) by simp_all
    note rd = replacedD [OF d(7)]
    have e: "eff ?E (tnf t1) s1 (set (addrs g)) (nf_add (d_subtree (ad ?h)) D) s3"
      by (rule eff_trans_weaken [OF d(4) rd(1)]) auto
    have t1: "trep ?E s1 g" using writableD(2) [OF w] .
    have h: "rep s ?h" "set (addrs ?h) \<subseteq> set (addrs g)"
      using sub_tree [OF t1 d(2)] trep_nodes [OF n(1,2), of ?E ?h] trep_sub_at [OF t1 d(2)] trepD(1) by blast+
    have keep: "nodes s3 c = nodes s c" if "c \<in> set (addrs ?h)" for c
      by (rule Cut_keeps [OF t1 b txn_okD(1) [OF t] d(3,2,1) that])
    have un: "unowned ?E s g = unowned ?E s2 g" using d(5) n(1) by (simp add: unowned_def)
    have hv: "{a \<in> set (addrs g). hasValue (nodes s2 a)} = {a \<in> set (addrs g). hasValue (nodes s a)}"
      using d(5) n(1) by simp
    have vs: "vals ?E s2 g s3 g' (nf_add (d_subtree (ad ?h)) D) (set (addrs ?h)) {y}"
      using rd(8) unfolding vals_def gone_subtree by blast
    have "wf_root (absn s3 g')" using wf_root_delp [OF wr] d(8) wf_root_absh by metis
    then have "wrote t s g t' s' g' (nf_add (d_subtree (ad ?h)) D) [?h] {y}"
      unfolding wrote_def eq
      using b e rd(2,3,4,5,6,7,9,10) h keep un hv vs d(5,6) n(1,2)
        vals_nodes [of s2 s ?E g s3 g' "nf_add (d_subtree (ad ?h)) D" "set (addrs ?h)" "{y}"]
      by (intro exI [of _ t1] exI [of _ s1]) (auto simp: unowned_def)
    moreover have "tagged s' g' = tag_op y (Cut k) (tagged s g)"
      using below_delp [OF wr, of k] d(8) eq filter_sorted_map_of [OF below_sorted [OF ok, of with_tag], of "\<lambda>x. \<not> starts x k"]
      by (auto simp: tagged_def fun_eq_iff)
    ultimately show ?thesis by blast
  qed
qed

text \<open>One write of any kind: nothing happened, or \<open>wrote\<close> describes it.\<close>

lemma txn_exec_wrote:
  fixes g :: "'x gtree" and s :: "'v store"
  assumes s: "epochs_ok s" and t: "txn_ok t s g" and room: "tepoch t = 0 \<longrightarrow> epochCounter s < epochMask"
    and x: "txn_exec p (t, s) = Some (r, t', s')"
  shows "t' = t \<and> s' = s \<and> tagged s g = tag_op y p (tagged s g) \<or>
    (\<exists>g' D cs. wrote t s g t' s' g' D cs {y} \<and> tagged s' g' = tag_op y p (tagged s g))"
proof -
  have room': "tepoch t = 0 \<Longrightarrow> epochCounter s < epochMask" using room by simp
  show ?thesis
  proof (cases p)
    case (Put k v)
    then obtain q where "Insert t k v s = Some (q, t', s')" using x by (auto split: Option.bind_splits)
    from Put_wrote [OF s t room' this, of y] Put show ?thesis by blast
  next
    case (Remove k)
    then obtain q where "Delete t k s = Some (q, t', s')" using x by (auto split: Option.bind_splits)
    from Remove_wrote [OF s t room' this, of y] Remove show ?thesis by blast
  next
    case (Cut k)
    then obtain q where "DeletePrefix t k s = Some (q, t', s')" using x by (auto split: Option.bind_splits)
    from Cut_wrote [OF s t room' this, of y] Cut show ?thesis by blast
  next
    case (Lookup k)
    then show ?thesis using x by (auto split: Option.bind_splits)
  qed
qed

end
