(* ===== verification/Tagged_Tree.thy ===== *)
theory Tagged_Tree
  imports Txn_Effect
begin

text \<open>
  Trees whose nodes are tagged with their own address, and where a node lies in a tree: the tag of a
  value identifies its key, and a node that is still in a later tree, together with everything below
  it, covers there exactly the keys it covered before.
\<close>

section \<open>Tagging\<close>

fun retag :: "'x gtree \<Rightarrow> addr option gtree" where
  "retag (G a x gs) = G a (Some a) (map retag gs)"

lemma retag_simps [simp]: "ad (retag g) = ad g" "addrs (retag g) = addrs g" "gk (retag g) = map retag (gk g)"
  "lab_at s (retag g) = lab_at s g"
proof -
  show ad: "ad (retag g) = ad g" for g :: "'a gtree" by (cases g) simp
  show "addrs (retag g) = addrs g"
    by (induction g) (simp cong: map_cong add: comp_def)
  show "gk (retag g) = map retag (gk g)" by (cases g) simp
  show "lab_at s (retag g) = lab_at s g" by (simp add: lab_at_def ad)
qed

lemma retag_rep: "rep s (retag g) \<longleftrightarrow> rep s g"
  by (induction g) (simp add: comp_def)

lemma retag_absn: "absn s (retag g) = absn s g"
  by (induction g) simp

lemma retag_ok: "tree_ok s (retag g) \<longleftrightarrow> tree_ok s g" "txn_ok T s (retag g) \<longleftrightarrow> txn_ok T s g"
  by (simp_all add: tree_ok_def txn_ok_def retag_rep retag_absn)

text \<open>Each value of a retagged tree carries its address.\<close>

definition own_tags :: "'v store \<Rightarrow> addr option gtree \<Rightarrow> bool" where
  "own_tags s g \<longleftrightarrow> (\<forall>a y. (a, y) \<in> vnodes s g \<longrightarrow> y = Some a)"

lemma own_tags_retag: "own_tags s (retag g)"
  unfolding own_tags_def by (induction g) (auto split: if_splits)

lemma vnodes_ex: "a \<in> set (addrs g) \<Longrightarrow> hasValue (nodes s a) \<Longrightarrow> \<exists>y. (a, y) \<in> vnodes s g"
proof (induction g)
  case (G b x gs)
  then show ?case by (cases "a = b") (auto, metis)
qed

lemma vnodes_fun: "distinct (addrs g) \<Longrightarrow> (a, x) \<in> vnodes s g \<Longrightarrow> (a, y) \<in> vnodes s g \<Longrightarrow> x = y"
proof (induction g)
  case (G b z gs)
  have root: "a \<noteq> b" if "g \<in> set gs" "(a, u) \<in> vnodes s g" for g u
    using G.prems(1) vnodes_addrs [OF that(2)] that(1) by auto
  from G.prems(2) consider "a = b" "x = z" | g where "g \<in> set gs" "(a, x) \<in> vnodes s g" by (auto split: if_splits)
  then show ?case
  proof cases
    case 1
    then show ?thesis using G.prems(3) root by (auto split: if_splits)
  next
    case 2
    then obtain h where h: "h \<in> set gs" "(a, y) \<in> vnodes s h" using G.prems(3) root [OF 2] by (auto split: if_splits)
    obtain i j where ij: "i < length gs" "g = gs ! i" "j < length gs" "h = gs ! j"
      using 2(1) h(1) by (auto simp: in_set_conv_nth)
    have "i = j"
      using distinct_kids_disj [of gs i j] G.prems(1) ij vnodes_addrs [OF 2(2)] vnodes_addrs [OF h(2)] by auto
    then have "h = g" using ij by simp
    moreover have "distinct (addrs g)" using G.prems(1) 2(1) distinct_concat_kid [of gs g] by simp
    ultimately show ?thesis using G.IH [OF 2(1)] 2(2) h(2) by blast
  qed
qed

section \<open>Entries and tags\<close>

lemma own_ents_tag:
  "own_ents (map_option (\<lambda>v. with_tag v x) (value_at n)) = (if hasValue n then [([], Some (val n, x))] else [])"
  by (simp add: own_ents_def value_at_def with_tag_def)

text \<open>The tags of the values of a tree in the order of its entries.\<close>

fun vtags :: "'v store \<Rightarrow> 'x gtree \<Rightarrow> 'x list" where
  "vtags s (G a x gs) = (if hasValue (nodes s a) then [x] else []) @ concat (map (vtags s) gs)"

definition tag_of :: "('v any \<times> 'x) any \<Rightarrow> 'x" where
  "tag_of v = snd (the v)"

lemma vtags_below: "map (\<lambda>e. tag_of (snd e)) (below (absh with_tag s g)) = vtags s g"
proof (induction g)
  case (G a x gs)
  have "map (\<lambda>e. tag_of (snd e)) (ents (absh with_tag s g)) = vtags s g" if "g \<in> set gs" for g
    using G.IH [OF that] by (simp add: ents_below case_prod_unfold comp_def)
  then show ?case by (simp add: below_RT own_ents_tag tag_of_def map_concat comp_def cong: map_cong)
qed

lemma vtags_vnodes: "set (vtags s g) = snd ` vnodes s g"
  by (induction g) (auto simp: image_Un image_UN)

lemma vtags_distinct: "distinct (addrs g) \<Longrightarrow> own_tags s g \<Longrightarrow> distinct (vtags s g)"
proof (induction g)
  case (G a x gs)
  have k: "own_tags s g" if "g \<in> set gs" for g
    using G.prems(2) that unfolding own_tags_def by (auto split: if_splits)
  have sub: "set (vtags s g) \<subseteq> Some ` set (addrs g)" if "g \<in> set gs" for g
    using k [OF that] vnodes_addrs unfolding own_tags_def vtags_vnodes by fastforce
  have "distinct (concat (map (vtags s) hs)) \<and> set (concat (map (vtags s) hs)) \<subseteq> Some ` set (concat (map addrs hs))"
    if "set hs \<subseteq> set gs" "distinct (concat (map addrs hs))" for hs
    using that
  proof (induction hs)
    case (Cons h hs)
    have h: "h \<in> set gs" using Cons.prems(1) by simp
    have "distinct (vtags s h)" using G.IH [OF h _ k [OF h]] Cons.prems(2) by simp
    then show ?case using Cons sub [OF h] by (auto 0 3)
  qed simp
  from this [of gs] have "distinct (concat (map (vtags s) gs))" "set (concat (map (vtags s) gs)) \<subseteq> Some ` set (concat (map addrs gs))"
    using G.prems(1) by simp_all
  moreover have "hasValue (nodes s a) \<Longrightarrow> x = Some a" using G.prems(2) by (auto simp: own_tags_def)
  ultimately show ?case using G.prems(1) by auto
qed

lemma tagged_entry: "tree_ok s g \<Longrightarrow> tagged s g k = Some v \<longleftrightarrow> (k, v) \<in> set (below (absh with_tag s g))"
  unfolding tagged_def using below_sorted [of s g with_tag]
  by (intro map_of_eq_Some_iff) (auto simp: strict_sorted_iff)

text \<open>A tag of a retagged tree belongs to one key.\<close>

lemma tag_key:
  assumes g: "tree_ok s g" and o: "own_tags s g" and k: "tagged s g k = Some v" and l: "tagged s g l = Some w"
    and t: "tag_of v = tag_of w"
  shows "k = l"
proof -
  let ?es = "below (absh with_tag s g)"
  have "distinct (map (\<lambda>e. tag_of (snd e)) ?es)"
    unfolding vtags_below by (rule vtags_distinct [OF tree_okD(4) [OF g] o])
  moreover have "(k, v) \<in> set ?es" "(l, w) \<in> set ?es" using k l tagged_entry [OF g] by blast+
  ultimately show ?thesis using t by (fastforce simp: distinct_map inj_on_def)
qed

text \<open>A value node of the tree is found under some key, with its tag.\<close>

lemma vnode_entry:
  assumes g: "tree_ok s g" and v: "(a, y) \<in> vnodes s g"
  obtains k w where "tagged s g k = Some (Some (w, y))"
proof -
  have "y \<in> set (vtags s g)" using v by (force simp: vtags_vnodes)
  then obtain k u where u: "(k, u) \<in> set (below (absh with_tag s g))" "tag_of u = y"
    by (auto simp flip: vtags_below)
  have some: "u \<noteq> None" if "(k, u) \<in> set (below (absh with_tag s g))" for k u and g :: "'b gtree"
    using that
  proof (induction g arbitrary: k u)
    case (G a x gs)
    then show ?case by (auto simp: below_RT own_ents_tag ents_below split: if_splits)
  qed
  then show ?thesis using that [of k "fst (the u)"] u tagged_entry [OF g, of k u] by (cases u) (auto simp: tag_of_def)
qed

end
