(* ===== verification/Positions.thy ===== *)
theory Positions
  imports Tagged_Tree
begin

text \<open>
  Where a node lies in a tree, and which keys it covers.  A node that is still in a later tree, with
  the subtree it had and with tags that agree, covers there the keys it covered before, and their
  values are the same.
\<close>

section \<open>Positions\<close>

text \<open>Each subtree with the path above it.\<close>

fun occs :: "'v store \<Rightarrow> bytes \<Rightarrow> 'x gtree \<Rightarrow> (bytes \<times> 'x gtree) set" where
  "occs s u (G a x gs) = insert (u, G a x gs) (\<Union>g \<in> set gs. occs s (u @ prefix (nodes s a)) g)"

lemma occs_self: "(u, g) \<in> occs s u g"
  by (cases g) simp

lemma occs_addr: "a \<in> set (addrs g) \<Longrightarrow> \<exists>u' c. (u', c) \<in> occs s u g \<and> ad c = a"
proof (induction g arbitrary: u)
  case (G b x gs)
  show ?case
  proof (cases "a = b")
    case True
    then show ?thesis by (intro exI [of _ u] exI [of _ "G b x gs"]) simp
  next
    case False
    then obtain g where g: "g \<in> set gs" "a \<in> set (addrs g)" using G.prems by auto
    from G.IH [OF g, of "u @ prefix (nodes s b)"] g(1) show ?thesis by auto
  qed
qed

lemma occs_sub: "(u', c) \<in> occs s u g \<Longrightarrow> set (addrs c) \<subseteq> set (addrs g) \<and> vnodes s c \<subseteq> vnodes s g"
proof (induction g arbitrary: u)
  case (G a x gs)
  from G.prems consider "c = G a x gs" | g where "g \<in> set gs" "(u', c) \<in> occs s (u @ prefix (nodes s a)) g" by auto
  then show ?case
  proof cases
    case 2
    from G.IH [OF this] 2(1) show ?thesis by (auto split: if_splits)
  qed simp
qed

lemma occs_rep: "(u', c) \<in> occs s u g \<Longrightarrow> rep s g \<Longrightarrow> rep s c"
  by (induction g arbitrary: u) auto

text \<open>A proper subtree is well formed.\<close>

lemma occs_wf:
  "(u', c) \<in> occs s u g \<Longrightarrow> wf_kids (subs (absh h s g)) \<Longrightarrow> (u' = u \<and> c = g) \<or> wf_sub (absh h s c)"
proof (induction g arbitrary: u)
  case (G a x gs)
  show ?case
  proof (cases "u' = u \<and> c = G a x gs")
    case False
    then obtain g where g: "g \<in> set gs" "(u', c) \<in> occs s (u @ prefix (nodes s a)) g" using G.prems(1) by auto
    have w: "wf_sub (absh h s g)" using wf_kids_sub [OF G.prems(2)] g(1) by simp
    then show ?thesis using G.IH [OF g wf_subD(2)] by blast
  qed simp
qed

section \<open>The entries below a position\<close>

text \<open>The entries with the path of the position and its label are those of the subtree.\<close>

lemma occs_below:
  assumes "(u', c) \<in> occs s u g" and "wf_kids (subs (absh h s g))" and "c \<noteq> g \<or> u' \<noteq> u" and "q \<noteq> []" and "hd q = lab_at s c"
  shows "\<exists>l. u' @ q = u @ prefix (nodes s (ad g)) @ l \<and>
    ((l, v) \<in> set (below (absh h s g)) \<longleftrightarrow> (q, v) \<in> set (ents (absh h s c)))"
  using assms
proof (induction g arbitrary: u)
  case (G a x gs)
  let ?p = "prefix (nodes s a)"
  have own: "(l, v) \<notin> set (own_ents z)" if "l \<noteq> []" for l z
    using that by (auto simp: own_ents_def split: option.splits)
  obtain g where g: "g \<in> set gs" "(u', c) \<in> occs s (u @ ?p) g" using G.prems(1,3) by auto
  have wf: "wf_kids (map (absh h s) gs)" using G.prems(2) by simp
  have wg: "wf_sub (absh h s g)" using wf_kids_sub [OF wf] g(1) by simp
  have ng: "prefix (nodes s (ad g)) \<noteq> []" using wf_subD(1) [OF wg] by (simp add: absh_sel)
  have other: "k = g" if k: "k \<in> set gs" "(l, v) \<in> set (ents (absh h s k))" "hd l = lab_at s g" for k l
  proof -
    have "seg (absh h s k) \<noteq> []" by (rule wf_subD(1), rule wf_kids_sub [OF wf]) (use k(1) in simp)
    then have "lab (absh h s k) = lab (absh h s g)" using ents_hd(2) [OF k(2)] k(3) by (simp add: lab_absh)
    moreover have "distinct (map (\<lambda>g. lab (absh h s g)) gs)" using wf_kids_distinct [OF wf] by (simp add: comp_def)
    ultimately show ?thesis using k(1) g(1) by (simp add: distinct_map inj_on_def)
  qed
  have one: "(l, v) \<in> set (below (absh h s (G a x gs))) \<longleftrightarrow> (l, v) \<in> set (ents (absh h s g))"
    if "l \<noteq> []" "hd l = lab_at s g" for l
    using other [of _ l] that g(1) own [OF that(1)] by (auto simp: below_RT)
  show ?case
  proof (cases "c = g \<and> u' = u @ ?p")
    case True
    then show ?thesis using one [of q] G.prems(4,5) by (intro exI [of _ q]) simp
  next
    case False
    then have ne: "c \<noteq> g \<or> u' \<noteq> u @ ?p" by blast
    obtain l where l: "u' @ q = (u @ ?p) @ prefix (nodes s (ad g)) @ l"
      "(l, v) \<in> set (below (absh h s g)) \<longleftrightarrow> (q, v) \<in> set (ents (absh h s c))"
      using G.IH [OF g wf_subD(2) [OF wg] ne G.prems(4,5)] by blast
    let ?l = "prefix (nodes s (ad g)) @ l"
    have "(?l, v) \<in> set (below (absh h s (G a x gs))) \<longleftrightarrow> (?l, v) \<in> set (ents (absh h s g))"
      by (rule one) (use ng in \<open>simp_all add: lab_at_def\<close>)
    also have "\<dots> \<longleftrightarrow> (l, v) \<in> set (below (absh h s g))"
      by (force simp: ents_below absh_sel)
    finally show ?thesis using l by (intro exI [of _ ?l]) simp
  qed
qed

text \<open>In a whole tree: the keys covered by a proper subtree.\<close>

lemma tree_ok_kids: "tree_ok s g \<Longrightarrow> wf_kids (subs (absh h s g))"
  using wf_root_absh [of h s g] by (simp add: tree_ok_def wf_root_def)

lemma occs_tagged:
  assumes g: "tree_ok s g" and c: "(u, c) \<in> occs s [] g" "c \<noteq> g" and q: "q \<noteq> []" "hd q = lab_at s c"
  shows "tagged s g (u @ q) = Some v \<longleftrightarrow> (q, v) \<in> set (ents (absh with_tag s c))"
  using occs_below [OF c(1) tree_ok_kids [OF g] _ q, where v = v] c(2) tree_okD(3) [OF g] tagged_entry [OF g] by auto

section \<open>One node in two trees\<close>

lemma rep_absh:
  assumes "rep s g" and "rep s k" and "ad g = ad k" and "\<And>b y z. (b, y) \<in> vnodes s g \<Longrightarrow> (b, z) \<in> vnodes s k \<Longrightarrow> y = z"
  shows "absh h s g = absh h s k"
  using assms
proof (induction g arbitrary: k)
  case (G a x gs)
  obtain y ks where k: "k = G a y ks" using G.prems(3) by (cases k) simp
  have m: "map (\<lambda>g. Some (ad g)) gs = map (\<lambda>g. Some (ad g)) ks" using G.prems(1,2) k by simp
  then have l: "length gs = length ks" using map_eq_imp_length_eq by blast
  have "map (absh h s) gs = map (absh h s) ks"
  proof (rule nth_equalityI)
    fix i assume i: "i < length (map (absh h s) gs)"
    have kid: "gs ! i \<in> set gs" "ks ! i \<in> set ks" using i l by simp_all
    have e: "ad (gs ! i) = ad (ks ! i)" using m l i by (metis length_map nth_map option.inject)
    have "absh h s (gs ! i) = absh h s (ks ! i)"
    proof (rule G.IH [OF kid(1) _ _ e])
      show "rep s (gs ! i)" "rep s (ks ! i)" using G.prems(1,2) k kid by simp_all
      show "z = z'" if "(b, z) \<in> vnodes s (gs ! i)" "(b, z') \<in> vnodes s (ks ! i)" for b z z'
        by (rule G.prems(4) [of b]) (use that k kid in auto)
    qed
    then show "map (absh h s) gs ! i = map (absh h s) ks ! i" using i l by simp
  qed (simp add: l)
  moreover have "x = y" if "hasValue (nodes s a)" by (rule G.prems(4) [of a]) (use that k in simp_all)
  ultimately show ?case using k by (auto simp: value_at_def)
qed

lemma wf_sub_entry: "wf_sub t \<Longrightarrow> \<exists>k v. (k, v) \<in> set (ents t)"
  using tvals_wf_sub [of t] tvals_ents [of t] by (cases "ents t") auto

text \<open>
  A node in both trees covers the same keys in both, with the same values.
\<close>

lemma pos_kept:
  assumes g: "tree_ok s g" and k: "tree_ok s k" and o: "own_tags s g"
    and tags: "\<And>b y z. (b, y) \<in> vnodes s g \<Longrightarrow> (b, z) \<in> vnodes s k \<Longrightarrow> y = z"
    and old: "\<And>l v a. tagged s k l = Some v \<Longrightarrow> tag_of v = Some a \<Longrightarrow> tagged s g l = Some v"
    and c: "(u, c) \<in> occs s [] g" "c \<noteq> g" and a: "ad c \<in> set (addrs k)" and q: "q \<noteq> []" "hd q = lab_at s c"
  shows "tagged s k (u @ q) = tagged s g (u @ q)"
proof -
  obtain u' c' where c': "(u', c') \<in> occs s [] k" "ad c' = ad c" using occs_addr [OF a] by blast
  note sub = occs_sub [OF c(1)] and sub' = occs_sub [OF c'(1)]
  have eq: "absh with_tag s c' = absh with_tag s c"
  proof (rule rep_absh [symmetric, OF occs_rep [OF c(1) tree_okD(1) [OF g]] occs_rep [OF c'(1) tree_okD(1) [OF k]]])
    show "y = z" if "(b, y) \<in> vnodes s c" "(b, z) \<in> vnodes s c'" for b y z
      by (rule tags [of b]) (use that sub sub' in blast)+
  qed (simp add: c'(2))
  have wc: "wf_sub (absh with_tag s c)" using occs_wf [OF c(1) tree_ok_kids [OF g]] c(2) by blast
  have nr: "c' \<noteq> k"
  proof
    assume "c' = k"
    then have "prefix (nodes s (ad c)) = []" using tree_okD(3) [OF k] c'(2) by simp
    then show False using wf_subD(1) [OF wc] by (simp add: absh_sel)
  qed
  obtain e v where e: "(e, v) \<in> set (ents (absh with_tag s c))" using wf_sub_entry [OF wc] by blast
  have he: "e \<noteq> []" "hd e = lab_at s c" using ents_hd [OF e wf_subD(1) [OF wc]] lab_absh [of with_tag s c] by simp_all
  have l': "lab_at s c' = lab_at s c" using c'(2) by (simp add: lab_at_def)
  have tg: "tagged s g (u @ e) = Some v" using occs_tagged [OF g c he] e by simp
  have tk: "tagged s k (u' @ e) = Some v" using occs_tagged [OF k c'(1) nr he(1)] he(2) l' e eq by simp
  have "tag_of v \<in> (\<lambda>e. tag_of (snd e)) ` set (below (absh with_tag s g))" using tg tagged_entry [OF g] by force
  then have "tag_of v \<in> set (vtags s g)" by (simp flip: vtags_below)
  then obtain b where "(b, tag_of v) \<in> vnodes s g" by (auto simp: vtags_vnodes)
  then have "tag_of v = Some b" using o by (simp add: own_tags_def)
  then have "tagged s g (u' @ e) = Some v" by (rule old [OF tk])
  then have "u' = u" using tag_key [OF g o tg] by fastforce
  then have "tagged s k (u @ q) = Some v \<longleftrightarrow> tagged s g (u @ q) = Some v" for v
    using occs_tagged [OF g c q, of v] occs_tagged [OF k c'(1) nr q(1), of v] q(2) l' eq by simp
  then show ?thesis by (metis option.exhaust)
qed

end
