(* ===== verification/Watch_Spot.thy ===== *)
theory Watch_Spot
  imports Positions
begin

text \<open>
  Where the watches of the lookups sit: the node behind a watch is at a position that covers the key
  or prefix asked for, or it is the root; a watch on a value is on the node that holds it.
\<close>

text \<open>A node \<open>a\<close> at a position above the path \<open>l\<close>: the root, or one whose label continues the position.\<close>

definition spot :: "'v store \<Rightarrow> bytes \<Rightarrow> 'x gtree \<Rightarrow> bytes \<Rightarrow> addr \<Rightarrow> bool" where
  "spot s u g l a \<longleftrightarrow> (\<exists>u' c q. (u', c) \<in> occs s u g \<and> ad c = a \<and> l = u' @ q \<and>
     (u' = u \<and> c = g \<or> q \<noteq> [] \<and> hd q = lab_at s c))"

lemma spot_root: "spot s u g (u @ q) (ad g)"
  unfolding spot_def by (intro exI [of _ u] exI [of _ g] exI [of _ q]) (simp add: occs_self)

lemma spot_kid:
  assumes "c \<in> set (gk g)" and "spot s (u @ prefix (nodes s (ad g))) c l a" and "l = (u @ prefix (nodes s (ad g))) @ q"
    and "q \<noteq> []" and "hd q = lab_at s c"
  shows "spot s u g l a"
proof -
  obtain u' d p where d: "(u', d) \<in> occs s (u @ prefix (nodes s (ad g))) c" "ad d = a" "l = u' @ p"
    "u' = u @ prefix (nodes s (ad g)) \<and> d = c \<or> p \<noteq> [] \<and> hd p = lab_at s d"
    using assms(2) by (auto simp: spot_def)
  have "(u', d) \<in> occs s u g" using d(1) assms(1) by (cases g) auto
  moreover have "p \<noteq> [] \<and> hd p = lab_at s d" using d(3,4) assms(3-5) by auto
  ultimately show ?thesis unfolding spot_def using d(2,3) by blast
qed

lemma below_kid:
  assumes "c \<in> set (gk g)" and "(l, v) \<in> set (below (absh h s c))"
  shows "(prefix (nodes s (ad c)) @ l, v) \<in> set (below (absh h s g))"
  using assms by (cases g) (force simp: below_RT ents_below absh_sel)

lemma GetWatch_spot:
  assumes "rep s g" and "wf_kids (map (absn s) (gk g))" and "GetWatch_loop s (ad g) (ad g) k = Some (w, r)"
  shows "(\<forall>a. slot_of w = Some a \<longrightarrow> spot s u g (u @ prefix (nodes s (ad g)) @ k) a) \<and>
    (\<forall>a. value_of w = Some a \<longrightarrow> snd r \<and> (\<exists>y. (a, y) \<in> vnodes s g \<and> (k, h (fst r) y) \<in> set (below (absh h s g))))"
  using assms
proof (induction g arbitrary: k u rule: gtree.induct)
  case (G a xt gs)
  let ?g = "G a xt gs" and ?u = "u @ prefix (nodes s a)"
  have root: "spot s u ?g (u @ prefix (nodes s a) @ k) a" using spot_root [of s u ?g "prefix (nodes s a) @ k"] by simp
  show ?case
  proof (cases "k = []")
    case True
    then show ?thesis using G.prems(3) root
      by (subst (asm) GetWatch_loop.simps) (auto simp: below_RT own_ents_def value_at_def split: if_splits)
  next
    case False
    from G.prems(1,2) show ?thesis
    proof (cases rule: rep_step [where b = "hd k"])
      case miss
      then show ?thesis using False G.prems(3) root
        by (subst (asm) GetWatch_loop.simps) (auto split: if_splits)
    next
      case (hit i c)
      then have c: "c \<in> set gs" by auto
      have hp: "hasPrefix (nodes s (ad c)) k = Some (starts k (prefix (nodes s (ad c))))"
        using hasPrefix_starts hit False by metis
      have hk: "hd k = lab_at s c" using hit(10) by (simp add: lab_at_def)
      show ?thesis
      proof (cases "starts k (prefix (nodes s (ad c)))")
        case True
        let ?r = "drop (length (prefix (nodes s (ad c)))) k"
        have k: "prefix (nodes s (ad c)) @ ?r = k" using True by (metis append_eq_conv_conj starts_def)
        have "GetWatch_loop s (ad ?g) (ad ?g) k = GetWatch_loop s (ad c) (ad c) ?r"
          using False hit True by (subst GetWatch_loop.simps) (simp add: hp starts_length)
        then have loop: "GetWatch_loop s (ad c) (ad c) ?r = Some (w, r)" using G.prems(3) by simp
        note IH = G.IH [OF c hit(7,11) loop, of ?u]
        have "spot s u ?g (u @ prefix (nodes s (ad ?g)) @ k) b" if "slot_of w = Some b" for b
        proof (rule spot_kid [of c])
          show "spot s (u @ prefix (nodes s (ad ?g))) c (u @ prefix (nodes s (ad ?g)) @ k) b" using IH that k by simp
        qed (use c False hk in simp_all)
        moreover have "snd r \<and> (\<exists>y. (b, y) \<in> vnodes s ?g \<and> (k, h (fst r) y) \<in> set (below (absh h s ?g)))"
          if b: "value_of w = Some b" for b
        proof -
          obtain y where y: "snd r" "(b, y) \<in> vnodes s c" "(?r, h (fst r) y) \<in> set (below (absh h s c))" using IH b by blast
          then show ?thesis using below_kid [of c ?g ?r "h (fst r) y" h s] c k by auto
        qed
        ultimately show ?thesis by blast
      next
        case nost: False
        have "GetWatch_loop s (ad ?g) (ad ?g) k = Some (\<lparr>slot_of = Some (ad c), value_of = None\<rparr>, no_value)"
          using False hit nost by (subst GetWatch_loop.simps) (simp add: hp)
        moreover have "spot s u ?g (u @ prefix (nodes s (ad ?g)) @ k) (ad c)"
          by (rule spot_kid [of c]) (use spot_root [of s ?u c k] c False hk in simp_all)
        ultimately show ?thesis using G.prems(3) by auto
      qed
    qed
  qed
qed

lemma seekPrefix_spot:
  assumes "rep s g" and "wf_kids (map (absn s) (gk g))" and "seekPrefix_loop s (ad g) (ad g) k = Some (r, a)"
  shows "spot s u g (u @ prefix (nodes s (ad g)) @ k) a"
  using assms
proof (induction g arbitrary: k u rule: gtree.induct)
  case (G b xt gs)
  let ?g = "G b xt gs" and ?u = "u @ prefix (nodes s b)"
  have root: "spot s u ?g (u @ prefix (nodes s b) @ k) b" using spot_root [of s u ?g "prefix (nodes s b) @ k"] by simp
  show ?case
  proof (cases "k = []")
    case True
    then show ?thesis using G.prems(3) root by (subst (asm) seekPrefix_loop.simps) simp
  next
    case False
    from G.prems(1,2) show ?thesis
    proof (cases rule: rep_step [where b = "hd k"])
      case miss
      then show ?thesis using False G.prems(3) root by (subst (asm) seekPrefix_loop.simps) simp
    next
      case (hit i c)
      then have c: "c \<in> set gs" by auto
      have hp: "hasPrefix (nodes s (ad c)) k = Some (starts k (prefix (nodes s (ad c))))"
        using hasPrefix_starts hit False by metis
      have hk: "hd k = lab_at s c" using hit(10) by (simp add: lab_at_def)
      have "spot s ?u c (?u @ k) a"
      proof (cases "starts k (prefix (nodes s (ad c)))")
        case True
        let ?r = "drop (length (prefix (nodes s (ad c)))) k"
        have k: "prefix (nodes s (ad c)) @ ?r = k" using True by (metis append_eq_conv_conj starts_def)
        have "seekPrefix_loop s (ad ?g) (ad ?g) k = seekPrefix_loop s (ad c) (ad c) ?r"
          using False hit True by (subst seekPrefix_loop.simps) (simp add: hp starts_length)
        then have loop: "seekPrefix_loop s (ad c) (ad c) ?r = Some (r, a)" using G.prems(3) by simp
        from G.IH [OF c hit(7,11) loop, of ?u] k show ?thesis by simp
      next
        case nost: False
        have "a = ad c" using G.prems(3) False hit nost
          by (subst (asm) seekPrefix_loop.simps) (auto simp: hp split: if_splits)
        then show ?thesis using spot_root [of s ?u c k] by simp
      qed
      then show ?thesis using spot_kid [of c ?g s u "?u @ k" a k] c False hk by simp
    qed
  qed
qed

text \<open>The lookups on a whole tree.\<close>

lemma GetWatch_at:
  assumes g: "tree_ok s g" and w: "GetWatch s (Some (ad g)) k = Some (w, r)"
  shows "slot_of w = Some a \<Longrightarrow> spot s [] g k a"
    and "value_of w = Some a \<Longrightarrow> snd r \<and> (\<exists>y. (a, y) \<in> vnodes s g \<and> tagged s g k = Some (Some (fst r, y)))"
  using GetWatch_spot [OF tree_okD(1,2) [OF g], of k w r "[]" with_tag] w tree_okD(3) [OF g] tagged_entry [OF g]
  by (auto simp: GetWatch_def with_tag_def)

end
