(* ===== verification/Leaf_Ids.thy ===== *)
theory Leaf_Ids
  imports Txn_Effect
begin

text \<open>
  Leaf pointers never dangle: every leaf that a node points to or a notifier records has been
  allocated.  All writing operations keep this, so a leaf allocated later is shared with nobody.
\<close>

definition leaf_ids :: "'v store \<Rightarrow> bool" where
  "leaf_ids s \<longleftrightarrow> (\<forall>a l. leafp (nodes s a) = Some l \<longrightarrow> l < next_leaf s) \<and>
     (\<forall>i l. Some l \<in> set (nf_leaves (notifiers s i)) \<longrightarrow> l < next_leaf s)"

named_theorems li

lemma leafp_simps [simp]:
  "leafp zero_node = None" "leafp (newNode b k) = None" "leafp (newLeafNode p q) = None"
  "leafp (set_kidList n ks) = leafp n" "leafp (trimPrefix n k) = leafp n" "leafp (clear_value n) = None"
  by (simp_all add: zero_node_def newNode_def newLeafNode_def set_kidList_def trimPrefix_def clear_value_def)

lemma leafp_setKidCount: "setKidCount n k = Some m \<Longrightarrow> leafp m = leafp n"
  by (auto simp: setKidCount_def split: if_splits)

lemma leafp_setKid: "setKid n i c = Some m \<Longrightarrow> leafp m = leafp n"
  by (auto simp: setKid_def split: if_splits)

lemma li_upd [li]:
  "leaf_ids s \<Longrightarrow> leafp (f (nodes s a)) = leafp (nodes s a) \<or> leafp (f (nodes s a)) = None \<Longrightarrow> leaf_ids (upd_node a f s)"
  unfolding leaf_ids_def upd_node_def by simp (metis option.distinct(1))

lemma li_put [li]:
  "leaf_ids s \<Longrightarrow> leafp n = leafp (nodes s a) \<or> leafp n = None \<Longrightarrow> leaf_ids (put_node a n s)"
  unfolding put_node_def by (rule li_upd)

lemma li_set: "leaf_ids s \<Longrightarrow> (\<And>k. l = Some k \<Longrightarrow> k < next_leaf s) \<Longrightarrow> leaf_ids (upd_node a (leafp_update (\<lambda>_. l)) s)"
  by (auto simp: leaf_ids_def upd_node_def)

lemma li_alloc: "alloc_node n s = (a, s') \<Longrightarrow> leafp n = None \<Longrightarrow> leaf_ids s \<Longrightarrow> leaf_ids s'"
  by (auto simp: alloc_node_def leaf_ids_def split: if_splits)

lemma li_drops [li]:
  "leaf_ids s \<Longrightarrow> leaf_ids (dropNode t a s)"
  "leaf_ids s \<Longrightarrow> leaf_ids (dropValue t a s)" "leaf_ids s \<Longrightarrow> leaf_ids (dropSubtree t a s)"
  by (simp_all add: leaf_ids_def dropNode_def dropValue_def dropSubtree_def upd_notifier_def split: option.split)

lemma li_dropLeaf: "leaf_ids s \<Longrightarrow> leaf_ids (dropLeaf t (leafp (nodes s a)) s)"
  by (auto simp: leaf_ids_def dropLeaf_def upd_notifier_def split: option.split)

lemma li_begin: "begin_txn t s = (t1, s1) \<Longrightarrow> leaf_ids s \<Longrightarrow> leaf_ids s1"
  by (auto simp: begin_txn_def leaf_ids_def split: if_splits)

lemma li_setKidAt: "setKidAt a i c s = Some s' \<Longrightarrow> leaf_ids s \<Longrightarrow> leaf_ids s'"
  by (auto simp: setKidAt_def split: Option.bind_splits intro!: li_put dest: leafp_setKid)

lemma li_setKidCountAt: "setKidCountAt a k s = Some s' \<Longrightarrow> leaf_ids s \<Longrightarrow> leaf_ids s'"
  by (auto simp: setKidCountAt_def split: Option.bind_splits intro!: li_put dest: leafp_setKidCount)

lemma li_shareLeaf:
  assumes "shareLeaf t a s = (l, s')" and "leaf_ids s"
  shows "leaf_ids s'" and "l = Some k \<Longrightarrow> k < next_leaf s'"
proof -
  have "leaf_ids s' \<and> (\<forall>k. l = Some k \<longrightarrow> k < next_leaf s')"
    using assms
    by (auto simp: shareLeaf_def leafOf_def new_leaf_def cas_def leaf_ids_def upd_node_def less_Suc_eq
        split: if_splits option.splits)
  then show "leaf_ids s'" "l = Some k \<Longrightarrow> k < next_leaf s'" by simp_all
qed

lemma li_copyShape: "copyShape t a extra s = Some (c, s') \<Longrightarrow> leaf_ids s \<Longrightarrow> leaf_ids s'"
  by (auto simp: copyShape_def Let_def split: Option.bind_splits if_splits
      intro!: li_alloc [of _ s c s'] dest: leafp_setKidCount)

lemma next_leaf_upd [simp]: "next_leaf (upd_node a f s) = next_leaf s"
  by (simp add: upd_node_def)

lemma li_copyNode:
  assumes "copyNode t a extra s = Some (c, s')" and i: "leaf_ids s"
  shows "leaf_ids s'"
proof -
  obtain s1 where s1: "copyShape t a extra s = Some (c, s1)"
    using assms by (auto simp: copyNode_def Let_def split: Option.bind_splits if_splits prod.splits)
  note i1 = li_copyShape [OF s1 i]
  show ?thesis
  proof (cases "hasValue (nodes s1 a)")
    case False
    then show ?thesis using assms s1 i1 by (simp add: copyNode_def)
  next
    case True
    let ?s2 = "upd_node c (\<lambda>m. m\<lparr>val := val (nodes s1 a), epoch := epoch m OR valueBit\<rparr>) s1"
    obtain l s3 where s3: "shareLeaf t a ?s2 = (l, s3)" by (cases "shareLeaf t a ?s2")
    have s': "s' = (if l \<noteq> None then upd_node c (\<lambda>m. m\<lparr>leafp := l\<rparr>) s3 else s3)"
      using assms s1 True s3 by (simp add: copyNode_def Let_def)
    have "leaf_ids ?s2" using i1 by (intro li) simp_all
    from li_shareLeaf [OF s3 this] show ?thesis unfolding s' by (simp add: li_set)
  qed
qed

lemma li_leafNode: "leafNode t p v s = (l, s') \<Longrightarrow> leaf_ids s \<Longrightarrow> leaf_ids s'"
  unfolding leafNode_def by (erule li_alloc) simp

lemma li_link: "link t parent pidx c s = Some (t', s') \<Longrightarrow> leaf_ids s \<Longrightarrow> leaf_ids s'"
  by (auto simp: link_def split: option.splits Option.bind_splits dest: li_setKidAt)

lemma li_own:
  assumes "own t parent pidx n extra s = Some (c, t', s')" and "leaf_ids s"
  shows "leaf_ids s'"
  using assms
  by (auto simp: own_def Let_def split: if_splits Option.bind_splits
      elim!: li_link intro!: li dest: li_copyNode)

lemma li_releaseValue [li]: "leaf_ids s \<Longrightarrow> leaf_ids (releaseValue t n s)"
  by (simp add: releaseValue_def li_drops li_dropLeaf)

lemma li_ownValueless:
  assumes "ownValueless t parent pidx n s = Some (c, t', s')" and "leaf_ids s"
  shows "leaf_ids s'"
  using assms
  by (auto simp: ownValueless_def Let_def split: if_splits Option.bind_splits
      elim!: li_link intro!: li dest: li_copyShape [OF _ li_releaseValue] li_copyShape)

lemma li_setValue:
  assumes "setValue t parent pidx n v s = Some (r, t', s')" and "leaf_ids s"
  shows "leaf_ids s'"
  using assms
  by (auto simp: setValue_def Let_def split: if_splits Option.bind_splits intro!: li dest: li_ownValueless)

lemma li_addKid: "addKid a idx c s = Some s' \<Longrightarrow> leaf_ids s \<Longrightarrow> leaf_ids s'"
  by (auto simp: addKid_def Let_def split: Option.bind_splits if_splits intro!: li_put dest: leafp_setKidCount)

lemma li_delKid: "delKid a idx s = Some s' \<Longrightarrow> leaf_ids s \<Longrightarrow> leaf_ids s'"
  by (auto simp: delKid_def Let_def split: Option.bind_splits if_splits intro!: li_put dest: leafp_setKidCount)

section \<open>Whole operations, by weakest preconditions\<close>

definition wp :: "'a option \<Rightarrow> ('a \<Rightarrow> bool) \<Rightarrow> bool" where
  "wp m P \<longleftrightarrow> (\<forall>x. m = Some x \<longrightarrow> P x)"

lemma wp_simps [simp]:
  "wp (Some x) P \<longleftrightarrow> P x" "wp None P" "wp (Option.bind m f) P \<longleftrightarrow> wp m (\<lambda>x. wp (f x) P)"
  by (auto simp: wp_def split: Option.bind_splits)

lemma wpI: "(\<And>x. m = Some x \<Longrightarrow> P x) \<Longrightarrow> wp m P"
  by (simp add: wp_def)

lemma wp_pure:
  "(\<And>x. P x) \<Longrightarrow> wp (slice_from b i) P" "(\<And>x. S x) \<Longrightarrow> wp (byte0 b) S" "(\<And>x. Q x) \<Longrightarrow> wp (kid n i) Q"
  "(\<And>x. R x) \<Longrightarrow> wp (path_at q i) R"
  by (simp_all add: wp_def)

lemma wp_li:
  "leaf_ids s \<Longrightarrow> \<forall>s'. leaf_ids s' \<longrightarrow> P s' \<Longrightarrow> wp (setKidAt a i c s) P"
  "leaf_ids s \<Longrightarrow> \<forall>s'. leaf_ids s' \<longrightarrow> P s' \<Longrightarrow> wp (setKidCountAt a k s) P"
  "leaf_ids s \<Longrightarrow> \<forall>s'. leaf_ids s' \<longrightarrow> P s' \<Longrightarrow> wp (addKid a i c s) P"
  "leaf_ids s \<Longrightarrow> \<forall>s'. leaf_ids s' \<longrightarrow> P s' \<Longrightarrow> wp (delKid a i s) P"
  "leaf_ids s \<Longrightarrow> \<forall>c s'. leaf_ids s' \<longrightarrow> Q (c, s') \<Longrightarrow> wp (copyNode t a k s) Q"
  "leaf_ids s \<Longrightarrow> \<forall>c t' s'. leaf_ids s' \<longrightarrow> R (c, t', s') \<Longrightarrow> wp (own t pa i a k s) R"
  "leaf_ids s \<Longrightarrow> \<forall>c t' s'. leaf_ids s' \<longrightarrow> R (c, t', s') \<Longrightarrow> wp (ownValueless t pa i a s) R"
  "leaf_ids s \<Longrightarrow> \<forall>c t' s'. leaf_ids s' \<longrightarrow> S (c, t', s') \<Longrightarrow> wp (setValue t pa i a v s) S"
  unfolding wp_def
  by (auto dest: li_setKidAt li_setKidCountAt li_addKid li_delKid li_copyNode li_own li_ownValueless li_setValue)

lemma li_alloc_case [li]: "leaf_ids s \<Longrightarrow> leafp n = None \<Longrightarrow> leaf_ids (snd (alloc_node n s))"
  using li_alloc [of n s] by (cases "alloc_node n s") auto

lemma li_cutRoot [li]: "leaf_ids s \<Longrightarrow> leaf_ids (snd (cutRoot t s))"
  using li_alloc_case [of s "zero_node\<lparr>epoch := tepoch t\<rparr>"] by (simp add: cutRoot_def case_prod_unfold Let_def)

lemma li_leafNode_case [li]: "leaf_ids s \<Longrightarrow> leaf_ids (snd (leafNode t p v s))"
  using li_leafNode [of t p v s] by (cases "leafNode t p v s") auto

lemma li_splitChild:
  assumes i: "leaf_ids s"
  shows "wp (splitChild t n idx ch common search v s) leaf_ids"
  unfolding splitChild_def Let_def addLabel_def
  by (auto simp: case_prod_unfold i intro!: wp_li wp_pure li)

lemma wp_splitChild:
  "leaf_ids s \<Longrightarrow> \<forall>s'. leaf_ids s' \<longrightarrow> P s' \<Longrightarrow> wp (splitChild t n i ch k search v s) P"
  using li_splitChild [of s t n i ch k search v] by (auto simp: wp_def)

lemma wp_Insert_loop:
  fixes s :: "'v store"
  assumes i: "leaf_ids s"
  shows "wp (Insert_loop t parent pidx n search v s) (\<lambda>(r, t', s'). leaf_ids s')"
  unfolding wp_def
proof (intro allI impI)
  fix x assume "Insert_loop t parent pidx n search v s = Some x"
  then have "leaf_ids s \<longrightarrow> leaf_ids (snd (snd x))"
  proof (rule Insert_loop.raw_induct [rotated])
    fix f t parent pidx n search s x and v :: "'v any"
    assume ih: "\<And>t parent pidx n search v s x. f t parent pidx n search v s = Some x \<Longrightarrow> leaf_ids s \<longrightarrow> leaf_ids (snd (snd x))"
      and body: "(if search = [] then setValue t parent pidx n v s
      else (case node_rank (nodes s n) (hd search) of (idx, ok) \<Rightarrow>
        if \<not> ok then do {
          (n, t, s) \<leftarrow> own t parent pidx n 1 s;
          let (c, s) = leafNode t search v s;
          s \<leftarrow> addKid n idx c s;
          Some (no_value, t, s) }
        else do {
          ch \<leftarrow> kid (nodes s n) idx;
          let common = commonPrefixLen search (prefix (nodes s ch));
          (n, t, s) \<leftarrow> own t parent pidx n 0 s;
          if common = length (prefix (nodes s ch))
          then do {
            search \<leftarrow> slice_from search common;
            f t (Some n) idx ch search v s }
          else do {
            s \<leftarrow> splitChild t n idx ch common search v s;
            Some (no_value, t, s) } })) = Some x" (is "?m = _")
    have rec: "wp (f t pa i a sr v s) (\<lambda>x. leaf_ids (snd (snd x)))" if "leaf_ids s" for t pa i a sr v s
      using ih that by (auto simp: wp_def)
    have "leaf_ids s \<Longrightarrow> wp ?m (\<lambda>x. leaf_ids (snd (snd x)))"
      by (auto simp: case_prod_unfold Let_def intro!: wp_li wp_pure wp_splitChild rec li)
    then show "leaf_ids s \<longrightarrow> leaf_ids (snd (snd x))" using body by (simp add: wp_def)
  qed
  then show "case x of (r, t', s') \<Rightarrow> leaf_ids s'" using i by (simp add: case_prod_unfold)
qed

lemma wp_ownPath_loop:
  "leaf_ids s \<Longrightarrow> \<forall>q t' s'. leaf_ids s' \<longrightarrow> P (q, t', s') \<Longrightarrow> wp (ownPath_loop t parent pidx path s) P"
proof (induction path arbitrary: t parent pidx s P)
  case (Cons e path)
  then show ?case by (cases e) (auto intro!: wp_li Cons.IH)
qed simp

lemma wp_ownPath:
  "leaf_ids s \<Longrightarrow> \<forall>q t' s'. leaf_ids s' \<longrightarrow> P (q, t', s') \<Longrightarrow> wp (ownPath t path s) P"
  unfolding ownPath_def by (rule wp_ownPath_loop)

lemma li_merged_of:
  assumes x: "merged_of t n c s = Some (m, s')" and i: "leaf_ids s"
  shows "leaf_ids s'"
proof -
  have up: "leaf_ids (upd_node m (\<lambda>k. k\<lparr>epoch := e k\<rparr>) s)" "leaf_ids (upd_node m (\<lambda>k. k\<lparr>prefix := q k\<rparr>) s)"
    if "leaf_ids s" for m e q and s :: "'a store"
    using that by (auto intro!: li)
  show ?thesis
  proof (cases "childless (nodes s c)")
    case True
    obtain k s1 where a: "alloc_node ((newLeafNode (prefix (nodes s n)) (prefix (nodes s c)))\<lparr>val := val (nodes s c)\<rparr>) s = (k, s1)"
      by (cases "alloc_node ((newLeafNode (prefix (nodes s n)) (prefix (nodes s c)))\<lparr>val := val (nodes s c)\<rparr>) s")
    obtain l s2 where l: "shareLeaf t c s1 = (l, s2)" by (cases "shareLeaf t c s1")
    have "leaf_ids s1" by (rule li_alloc [OF a _ i]) simp
    note sl = li_shareLeaf [OF l this]
    have "leaf_ids (upd_node k (\<lambda>k. k\<lparr>leafp := l\<rparr>) s2)" by (rule li_set [OF sl])
    then show ?thesis
      using x True a l sl(1) by (auto simp: merged_of_def Let_def split: if_splits intro!: up li_drops)
  next
    case False
    show ?thesis
    proof (cases "owns t (nodes s c)")
      case True
      then show ?thesis using x False up(2) [OF i, of c] by (auto simp: merged_of_def Let_def intro!: li_drops split: if_splits)
    next
      case no: False
      then obtain s1 where "copyNode t c 0 s = Some (m, s1)"
        using x False by (auto simp: merged_of_def split: Option.bind_splits)
      then show ?thesis
        using x False no up(2) [OF li_copyNode [OF _ i]] by (auto simp: merged_of_def Let_def intro!: li_drops)
    qed
  qed
qed

lemma wp_mergeChild:
  "leaf_ids s \<Longrightarrow> \<forall>s'. leaf_ids s' \<longrightarrow> P s' \<Longrightarrow> wp (mergeChild t pa i n c s) P"
  unfolding mergeChild_unfold using li_merged_of [of t n c s]
  by (auto simp: wp_def split: Option.bind_splits dest: li_setKidAt)

lemma wp_unlink:
  "leaf_ids s \<Longrightarrow> \<forall>t' s'. leaf_ids s' \<longrightarrow> P (t', s') \<Longrightarrow> wp (unlink t path s) P"
  unfolding unlink_def Let_def
  by (auto simp: case_prod_unfold intro!: wp_li wp_pure wp_ownPath wp_mergeChild li)

lemma li_dropWithLeaf [li]: "leaf_ids s \<Longrightarrow> leaf_ids (dropWithLeaf t n s)"
  by (auto simp: dropWithLeaf_def Let_def intro!: li)

lemma li_begin_case [li]: "leaf_ids s \<Longrightarrow> leaf_ids (snd (begin_txn t s))"
  using li_begin [of t s] by (cases "begin_txn t s") simp

lemma wp_descend: "(\<And>x. P x) \<Longrightarrow> wp (Delete_descend s n k q) P" "(\<And>x. P x) \<Longrightarrow> wp (DeletePrefix_descend s n k q) P"
  "(\<And>x. R x) \<Longrightarrow> wp (troot t) R"
  by (simp_all add: wp_def)

lemma li_Delete:
  assumes "leaf_ids s"
  shows "wp (Delete t k s) (\<lambda>(r, t', s'). leaf_ids s')"
  unfolding Delete_def Let_def using assms
  by (auto simp: case_prod_unfold split: option.split
      intro!: wp_descend wp_li wp_pure wp_ownPath wp_mergeChild wp_unlink li)

lemma li_DeletePrefix:
  assumes "leaf_ids s"
  shows "wp (DeletePrefix t k s) (\<lambda>(r, t', s'). leaf_ids s')"
  unfolding DeletePrefix_def Let_def using assms
  by (auto simp: case_prod_unfold split: option.split intro!: wp_descend wp_unlink li)

lemma txn_exec_leaf_ids:
  assumes x: "txn_exec p (t, s) = Some (r, t', s')" and i: "leaf_ids s"
  shows "leaf_ids s'"
proof (cases p)
  case (Put k v)
  have "wp (Insert t k v s) (\<lambda>(r, t', s'). leaf_ids s')"
    unfolding Insert_def Let_def by (auto simp: case_prod_unfold intro!: wp_descend wp_Insert_loop [unfolded case_prod_unfold] li i)
  then show ?thesis using x Put by (auto simp: wp_def split: Option.bind_splits)
next
  case (Remove k)
  then show ?thesis using x li_Delete [OF i, of t k] by (auto simp: wp_def split: Option.bind_splits)
next
  case (Cut k)
  then show ?thesis using x li_DeletePrefix [OF i, of t k] by (auto simp: wp_def split: Option.bind_splits)
next
  case (Lookup k)
  then show ?thesis using x i by (auto split: Option.bind_splits)
qed

end
