(* ===== verification/Watch_Slots.thy ===== *)
theory Watch_Slots
  imports System Leaf_Ids
begin

text \<open>
  All the watch slots of a store together: those of the nodes and those of the leaves.  In a sound
  store no two slots hold the same live cell, so sealing one closes its channel and nobody else's;
  every operation of the program advances slots from empty to live to sealed and never back.
\<close>

section \<open>The slots of a store\<close>

datatype slot_ref = AtNode addr | AtLeaf laddr

fun slot_at :: "'v store \<Rightarrow> slot_ref \<Rightarrow> slot" where
  "slot_at s (AtNode a) = nwatch (nodes s a)"
| "slot_at s (AtLeaf l) = leaves s l"

fun in_use :: "'v store \<Rightarrow> slot_ref \<Rightarrow> bool" where
  "in_use s (AtNode a) \<longleftrightarrow> a < next_node s"
| "in_use s (AtLeaf l) \<longleftrightarrow> l < next_leaf s"

definition slots_ok :: "'v store \<Rightarrow> bool" where
  "slots_ok s \<longleftrightarrow> world_ok s \<and> leaf_ids s \<and> sealedLeaf < next_leaf s \<and> leaves s sealedLeaf = Some sealedCell \<and>
     (\<forall>x. in_use s x \<longrightarrow> slot_ok s (slot_at s x)) \<and>
     (\<forall>x y c. in_use s x \<longrightarrow> in_use s y \<longrightarrow> slot_at s x = Some c \<longrightarrow> slot_at s y = Some c \<longrightarrow>
        c \<noteq> sealedCell \<longrightarrow> x = y)"

lemma slots_okD:
  assumes "slots_ok s"
  shows "world_ok s" and "leaf_ids s" and "sealedLeaf < next_leaf s" and "leaves s sealedLeaf = Some sealedCell"
    and "in_use s x \<Longrightarrow> slot_ok s (slot_at s x)"
    and "in_use s x \<Longrightarrow> in_use s y \<Longrightarrow> slot_at s x = Some c \<Longrightarrow> slot_at s y = Some c \<Longrightarrow> c \<noteq> sealedCell \<Longrightarrow> x = y"
  using assms unfolding slots_ok_def by blast+

lemma slots_okI:
  assumes "world_ok s" and "leaf_ids s" and "sealedLeaf < next_leaf s" and "leaves s sealedLeaf = Some sealedCell"
    and "\<And>x. in_use s x \<Longrightarrow> slot_ok s (slot_at s x)"
    and "\<And>x y c. in_use s x \<Longrightarrow> in_use s y \<Longrightarrow> slot_at s x = Some c \<Longrightarrow> slot_at s y = Some c \<Longrightarrow> c \<noteq> sealedCell \<Longrightarrow> x = y"
  shows "slots_ok s"
  unfolding slots_ok_def by (intro conjI allI impI; (rule assms(6); assumption | simp add: assms(1-5))?)

lemma init_slots_ok: "slots_ok (init_store b)"
proof (rule slots_okI)
  let ?s = "init_store b :: 'a store"
  have f: "cell_ch ?s = cell_ch init_world" "next_cell ?s = next_cell init_world" "closed ?s = closed init_world"
    "next_chan ?s = next_chan init_world"
    by (simp_all add: init_store_def world.defs init_world_def)
  show "world_ok ?s" using init_world_ok unfolding world_ok_def f .
  show "leaf_ids ?s" by (simp add: leaf_ids_def init_store_def world.defs)
  show "sealedLeaf < next_leaf ?s" "leaves ?s sealedLeaf = Some sealedCell"
    by (simp_all add: init_store_def world.defs sealedLeaf_def)
  show "slot_ok ?s (slot_at ?s x)" if "in_use ?s x" for x
    using that by (cases x) (simp_all add: init_store_def world.defs slot_ok_def sealedLeaf_def)
  show "x = y" if "in_use ?s x" "in_use ?s y" "slot_at ?s x = Some c" "slot_at ?s y = Some c" "c \<noteq> sealedCell" for x y c
    using that by (cases x; cases y) (simp_all add: init_store_def world.defs sealedLeaf_def split: if_splits)
qed

text \<open>Slots, cells and channels only move forward.\<close>

definition advance :: "'v store \<Rightarrow> 'v store \<Rightarrow> bool" where
  "advance s s' \<longleftrightarrow> (\<forall>c n. cell_ch s c = Some n \<longrightarrow> cell_ch s' c = Some n) \<and>
     (\<forall>n. closed s n \<longrightarrow> closed s' n) \<and>
     (\<forall>x. in_use s x \<longrightarrow> in_use s' x \<and> (\<forall>c. slot_at s x = Some c \<longrightarrow>
        slot_at s' x = Some c \<or> slot_at s' x = Some sealedCell \<and> (\<forall>n. cell_ch s c = Some n \<longrightarrow> closed s' n)))"

lemma advance_refl [simp]: "advance s s"
  by (simp add: advance_def)

lemma advance_trans:
  assumes a: "advance s s1" and b: "advance s1 s2"
  shows "advance s s2"
proof -
  have "in_use s2 x \<and> (\<forall>c. slot_at s x = Some c \<longrightarrow> slot_at s2 x = Some c \<or>
      slot_at s2 x = Some sealedCell \<and> (\<forall>n. cell_ch s c = Some n \<longrightarrow> closed s2 n))" if x: "in_use s x" for x
  proof -
    have x1: "in_use s1 x" using a x by (simp add: advance_def)
    then have x2: "in_use s2 x" using b by (simp add: advance_def)
    have "slot_at s2 x = Some c \<or> slot_at s2 x = Some sealedCell \<and> (\<forall>n. cell_ch s c = Some n \<longrightarrow> closed s2 n)"
      if c: "slot_at s x = Some c" for c
    proof -
      from a x c consider "slot_at s1 x = Some c"
        | "slot_at s1 x = Some sealedCell" "\<forall>n. cell_ch s c = Some n \<longrightarrow> closed s1 n"
        unfolding advance_def by blast
      then show ?thesis
      proof cases
        case 1
        with b x1 a show ?thesis unfolding advance_def by metis
      next
        case 2
        with b x1 show ?thesis unfolding advance_def by blast
      qed
    qed
    with x2 show ?thesis by blast
  qed
  then show ?thesis using a b unfolding advance_def by blast
qed

lemma advance_sealed: "advance s s' \<Longrightarrow> in_use s x \<Longrightarrow> slot_Sealed (slot_at s x) \<Longrightarrow> slot_Sealed (slot_at s' x)"
  by (auto simp: advance_def slot_Sealed_def)

section \<open>Materialising and sealing one slot\<close>

text \<open>Writing one slot back into the store.\<close>

fun put_slot :: "slot_ref \<Rightarrow> slot \<Rightarrow> 'v store \<Rightarrow> 'v store" where
  "put_slot (AtNode a) p s = upd_node a (nwatch_update (\<lambda>_. p)) s"
| "put_slot (AtLeaf l) p s = s\<lparr>leaves := (leaves s)(l := p)\<rparr>"

definition ref_Chan :: "slot_ref \<Rightarrow> 'v store \<Rightarrow> (chan \<times> 'v store) option" where
  "ref_Chan x s = do { (ch, p, s') \<leftarrow> slot_Chan (slot_at s x) s; Some (ch, put_slot x p s') }"

definition ref_Seal :: "slot_ref \<Rightarrow> 'v store \<Rightarrow> 'v store option" where
  "ref_Seal x s = do { (p, s') \<leftarrow> slot_Seal (slot_at s x) s; Some (put_slot x p s') }"

lemma ref_ops:
  "node_Chan a = ref_Chan (AtNode a)" "leaf_Chan l = ref_Chan (AtLeaf l)"
  "node_Seal a = ref_Seal (AtNode a)" "leaf_Seal l = ref_Seal (AtLeaf l)"
  by (simp_all add: fun_eq_iff node_Chan_def leaf_Chan_def node_Seal_def leaf_Seal_def ref_Chan_def ref_Seal_def)

lemma put_slot_simps [simp]:
  "slot_at (put_slot x p s) y = (if y = x then p else slot_at s y)"
  "in_use (put_slot x p s) y = in_use s y"
  "cell_ch (put_slot x p s) = cell_ch s" "next_cell (put_slot x p s) = next_cell s"
  "closed (put_slot x p s) = closed s" "next_chan (put_slot x p s) = next_chan s"
  "next_leaf (put_slot x p s) = next_leaf s" "next_node (put_slot x p s) = next_node s"
  "leafp (nodes (put_slot x p s) a) = leafp (nodes s a)" "notifiers (put_slot x p s) = notifiers s"
  by (cases x; cases y; auto simp: upd_node_def)+

lemma put_slot_world [simp]:
  "world_ok (put_slot x p s) = world_ok s" "slot_ok (put_slot x p s) = slot_ok s" "leaf_ids (put_slot x p s) = leaf_ids s"
  "cell_of (put_slot x p s) = cell_of s"
  by (auto simp: world_ok_def slot_ok_def leaf_ids_def cell_of_def fun_eq_iff split: option.split)

lemma ref_Chan_ok:
  assumes s: "slots_ok s" and x: "in_use s x"
  obtains ch s' where "ref_Chan x s = Some (ch, s')" and "slots_ok s'" and "advance s s'"
    and "cell_of s' (slot_at s' x) = Some ch" and "next_leaf s' = next_leaf s" and "\<And>a. leafp (nodes s' a) = leafp (nodes s a)"
proof -
  note d = slots_okD [OF s]
  obtain ch p w where c: "slot_Chan (slot_at s x) s = Some (ch, p, w)" "world_ok w" "slot_ok w p" "closed w = closed s"
    "cell_of w p = Some ch" "\<And>c. c < next_cell s \<Longrightarrow> cell_ch w c = cell_ch s c" "next_cell s \<le> next_cell w"
    by (rule slot_Chan_ok [OF d(1) d(5) [OF x]]) blast
  note f = slot_Chan_frame [OF c(1)]
  have sa: "slot_at w y = slot_at s y" "in_use w y = in_use s y" for y by (cases y; simp add: f)+
  have ok: "slot_ok w q" if "slot_ok s q" for q
    using that c(4,6,7) by (auto simp: slot_ok_def)
  have pcell: "p = slot_at s x \<or> slot_at s x = None \<and> p = Some (next_cell s)"
  proof (cases "slot_at s x")
    case None
    then show ?thesis using c(1) slot_Chan_fresh [OF d(1) None] by simp
  next
    case (Some e)
    then show ?thesis using c(1) slot_Chan_live [OF Some, of s] by simp
  qed
  have lt: "c < next_cell s" if "in_use s y" "slot_at s y = Some c" for y c
    using d(5) [OF that(1)] that(2) world_okD(1) [OF d(1)] by (cases "c = sealedCell") (auto simp: slot_ok_def)
  have "slots_ok (put_slot x p w)"
  proof (rule slots_okI)
    show "leaf_ids (put_slot x p w)" using d(2) f by (simp add: leaf_ids_def)
    show "sealedLeaf < next_leaf (put_slot x p w)" using d(3) f by simp
    have "slot_at s (AtLeaf sealedLeaf) = Some sealedCell" using d(4) by simp
    then have "slot_at (put_slot x p w) (AtLeaf sealedLeaf) = Some sealedCell"
      using pcell by (auto simp: sa simp del: slot_at.simps)
    then show "leaves (put_slot x p w) sealedLeaf = Some sealedCell" by simp
    show "slot_ok (put_slot x p w) (slot_at (put_slot x p w) y)" if "in_use (put_slot x p w) y" for y
      using that c(3) ok d(5) [of y] by (simp add: sa)
    show "y = z" if "in_use (put_slot x p w) y" "in_use (put_slot x p w) z" "slot_at (put_slot x p w) y = Some e"
      "slot_at (put_slot x p w) z = Some e" "e \<noteq> sealedCell" for y z e
      using that pcell d(6) [of y z e] lt [of y e] lt [of z e] by (auto simp: sa split: if_splits)
  qed (use c(2) in simp)
  moreover have "advance s (put_slot x p w)"
    unfolding advance_def
  proof (intro conjI allI impI)
    show "cell_ch (put_slot x p w) e = Some n" if "cell_ch s e = Some n" for e n
      using that c(6) [of e] world_okD(4) [OF d(1) that] by simp
    show "slot_at (put_slot x p w) y = Some e \<or> slot_at (put_slot x p w) y = Some sealedCell \<and>
        (\<forall>n. cell_ch s e = Some n \<longrightarrow> closed (put_slot x p w) n)" if "in_use s y" "slot_at s y = Some e" for y e
      using that pcell by (auto simp: sa)
  qed (simp_all add: c(4) sa)
  ultimately show ?thesis
    using that [of ch "put_slot x p w"] c(1,5) f by (simp add: ref_Chan_def)
qed

lemma ref_Seal_ok:
  assumes s: "slots_ok s" and x: "in_use s x"
  obtains s' where "ref_Seal x s = Some s'" and "slots_ok s'" and "advance s s'" and "slot_Sealed (slot_at s' x)"
    and "next_leaf s' = next_leaf s" and "\<And>a. leafp (nodes s' a) = leafp (nodes s a)"
proof -
  note d = slots_okD [OF s]
  obtain w where c: "slot_Seal (slot_at s x) s = Some (Some sealedCell, w)" "world_ok w"
    "\<And>n. closed w n \<longleftrightarrow> closed s n \<or> cell_of s (slot_at s x) = Some (Some n)" "cell_ch w = cell_ch s"
    "next_cell w = next_cell s"
    by (rule slot_Seal_ok [OF d(1) d(5) [OF x]]) blast
  note f = slot_Seal_frame [OF c(1)]
  let ?p = "Some sealedCell"
  have sa: "slot_at w y = slot_at s y" "in_use w y = in_use s y" for y by (cases y; simp add: f)+
  have ok: "slot_ok w (slot_at s y)" if y: "in_use s y" "y \<noteq> x" for y
  proof (rule slot_ok_after_seal [OF d(1) d(5) [OF x] d(5) [OF y(1)] _ c(1)])
    show "slot_at s x \<noteq> slot_at s y \<or> slot_at s x = Some sealedCell \<or> slot_at s x = None"
      using d(6) [OF x y(1)] y(2) by (metis option.exhaust)
  qed
  have "slots_ok (put_slot x ?p w)"
  proof (rule slots_okI)
    show "leaf_ids (put_slot x ?p w)" using d(2) f by (simp add: leaf_ids_def)
    show "sealedLeaf < next_leaf (put_slot x ?p w)" using d(3) f by simp
    have "slot_at s (AtLeaf sealedLeaf) = Some sealedCell" using d(4) by simp
    then have "slot_at (put_slot x ?p w) (AtLeaf sealedLeaf) = Some sealedCell"
      by (simp add: sa del: slot_at.simps)
    then show "leaves (put_slot x ?p w) sealedLeaf = Some sealedCell" by simp
    show "slot_ok (put_slot x ?p w) (slot_at (put_slot x ?p w) y)" if "in_use (put_slot x ?p w) y" for y
      using that ok [of y] by (simp add: sa)
    show "y = z" if "in_use (put_slot x ?p w) y" "in_use (put_slot x ?p w) z" "slot_at (put_slot x ?p w) y = Some e"
      "slot_at (put_slot x ?p w) z = Some e" "e \<noteq> sealedCell" for y z e
      using that d(6) [of y z e] by (auto simp: sa split: if_splits)
  qed (use c(2) in simp)
  moreover have "advance s (put_slot x ?p w)"
    unfolding advance_def
    by (auto simp: sa c(3,4) cell_of_def)
  ultimately show ?thesis
    using that [of "put_slot x ?p w"] c(1) f by (simp add: ref_Seal_def slot_Sealed_def)
qed

section \<open>Materialising and sealing the value of a node\<close>

lemma world_ok_fields:
  assumes e: "cell_ch w = cell_ch v" "next_cell w = next_cell v" "closed w = closed v" "next_chan w = next_chan v"
    and ok: "world_ok v"
  shows "world_ok w"
  unfolding world_ok_def e by (rule ok [unfolded world_ok_def])

text \<open>No leaf pointer is ever redirected.\<close>

definition leafs_kept :: "'v store \<Rightarrow> 'v store \<Rightarrow> bool" where
  "leafs_kept s s' \<longleftrightarrow> (\<forall>a l. leafp (nodes s a) = Some l \<longrightarrow> leafp (nodes s' a) = Some l)"

lemma leafs_kept_refl [simp]: "leafs_kept s s"
  by (simp add: leafs_kept_def)

lemma leafs_kept_trans: "leafs_kept s s1 \<Longrightarrow> leafs_kept s1 s2 \<Longrightarrow> leafs_kept s s2"
  by (simp add: leafs_kept_def)

lemma slots_leaf: "slots_ok s \<Longrightarrow> leafp (nodes s a) = Some l \<Longrightarrow> in_use s (AtLeaf l)"
  using slots_okD(2) [of s] by (simp add: leaf_ids_def)

lemma valueChan_ok:
  fixes s :: "'v store"
  assumes s: "slots_ok s"
  obtains ch s' l where "valueChan a s = Some (ch, s')" and "slots_ok s'" and "advance s s'" and "leafs_kept s s'"
    and "leafp (nodes s' a) = Some l" and "cell_of s' (slot_at s' (AtLeaf l)) = Some ch"
proof (cases "leafp (nodes s a)")
  case (Some l)
  obtain ch s' where "ref_Chan (AtLeaf l) s = Some (ch, s')" "slots_ok s'" "advance s s'"
    "cell_of s' (slot_at s' (AtLeaf l)) = Some ch" "\<And>b. leafp (nodes s' b) = leafp (nodes s b)"
    by (rule ref_Chan_ok [OF s slots_leaf [OF s Some]]) blast
  then show ?thesis using that [of ch s' l] Some by (simp add: valueChan_def ref_ops leafs_kept_def)
next
  case None
  note d = slots_okD [OF s]
  let ?c = "next_cell s" and ?n = "next_chan s" and ?l = "next_leaf s"
  let ?w = "s\<lparr>cell_ch := (cell_ch s)(?c := Some ?n), next_cell := Suc ?c, next_chan := Suc ?n\<rparr>"
  let ?s = "upd_node a (leafp_update (\<lambda>_. Some ?l)) (?w\<lparr>leaves := (leaves s)(?l := Some ?c), next_leaf := Suc ?l\<rparr>)"
  have v: "valueChan a s = Some (Some ?n, ?s)"
    using None by (simp add: valueChan_def new_cell_def new_leaf_def slot_Live_def make_chan_def cas_def Let_def upd_node_def)
  have fresh: "cell_ch s ?c = None" using world_okD(4) [OF d(1), of ?c] by (cases "cell_ch s ?c") auto
  have nc: "\<not> closed s ?n" using world_okD(6) [OF d(1), of ?n] by blast
  have c0: "?c \<noteq> sealedCell" using world_okD(1) [OF d(1)] by simp
  have sa: "slot_at ?s x = (if x = AtLeaf ?l then Some ?c else slot_at s x)"
    "in_use ?s x \<longleftrightarrow> in_use s x \<or> x = AtLeaf ?l" for x
    by (cases x; auto simp: upd_node_def)+
  have f: "cell_ch ?s = (cell_ch s)(?c := Some ?n)" "closed ?s = closed s" "next_cell ?s = Suc ?c"
    "next_chan ?s = Suc ?n" "next_leaf ?s = Suc ?l" "leaves ?s = (leaves s)(?l := Some ?c)"
    by (simp_all add: upd_node_def)
  have lt: "e < ?c" if "in_use s y" "slot_at s y = Some e" for y e
    using d(5) [OF that(1)] that(2) world_okD(1) [OF d(1)] by (cases "e = sealedCell") (auto simp: slot_ok_def)
  have ok: "slots_ok ?s"
  proof (rule slots_okI)
    have "world_ok ?w" using world_ok_fill [OF d(1) fresh, of "Suc ?c"] by simp
    then show "world_ok ?s" by (rule world_ok_fields [rotated 4]) (simp_all add: upd_node_def)
    show "leaf_ids ?s"
      using d(2) by (auto simp: leaf_ids_def upd_node_def less_Suc_eq)
    show "sealedLeaf < next_leaf ?s" "leaves ?s sealedLeaf = Some sealedCell" using d(3,4) by (simp_all add: f)
    show "slot_ok ?s (slot_at ?s x)" if "in_use ?s x" for x
    proof (cases "x = AtLeaf ?l")
      case True
      then show ?thesis using nc by (simp add: sa slot_ok_def f)
    next
      case False
      then have x: "in_use s x" using that by (simp add: sa)
      show ?thesis using d(5) [OF x] lt [OF x] False by (auto simp: sa slot_ok_def f)
    qed
    show "x = y" if "in_use ?s x" "in_use ?s y" "slot_at ?s x = Some e" "slot_at ?s y = Some e" "e \<noteq> sealedCell" for x y e
      using that d(6) [of x y e] lt [of x e] lt [of y e] by (auto simp: sa split: if_splits)
  qed
  have adv: "advance s ?s"
    unfolding advance_def
  proof (intro conjI allI impI)
    show "cell_ch ?s e = Some n" if "cell_ch s e = Some n" for e n using that fresh by (auto simp: f)
    show "closed ?s n" if "closed s n" for n using that by (simp add: f)
    show "in_use ?s x" if "in_use s x" for x using that by (simp add: sa)
    show "slot_at ?s x = Some e \<or> slot_at ?s x = Some sealedCell \<and> (\<forall>n. cell_ch s e = Some n \<longrightarrow> closed ?s n)"
      if "in_use s x" "slot_at s x = Some e" for x e
    proof -
      have "x \<noteq> AtLeaf ?l" using that(1) by (cases x) simp_all
      then have "slot_at ?s x = slot_at s x" unfolding sa by (simp only: if_False)
      then show ?thesis using that(2) by (simp only: simp_thms)
    qed
  qed
  have lk: "leafs_kept s ?s" using None by (auto simp: leafs_kept_def upd_node_def)
  show ?thesis
    by (rule that [OF v ok adv lk, of ?l]) (simp_all only: sa, simp_all add: cell_of_def upd_node_def)
qed

lemma sealValue_ok:
  fixes s :: "'v store"
  assumes s: "slots_ok s"
  obtains s' l where "sealValue a s = Some s'" and "slots_ok s'" and "advance s s'" and "leafs_kept s s'"
    and "leafp (nodes s' a) = Some l" and "slot_Sealed (slot_at s' (AtLeaf l))"
proof (cases "leafp (nodes s a)")
  case (Some l)
  obtain s' where "ref_Seal (AtLeaf l) s = Some s'" "slots_ok s'" "advance s s'"
    "slot_Sealed (slot_at s' (AtLeaf l))" "\<And>b. leafp (nodes s' b) = leafp (nodes s b)"
    by (rule ref_Seal_ok [OF s slots_leaf [OF s Some]]) blast
  then show ?thesis using that [of s' l] Some by (simp add: sealValue_def ref_ops leafs_kept_def)
next
  case None
  note d = slots_okD [OF s]
  let ?s = "upd_node a (leafp_update (\<lambda>_. Some sealedLeaf)) s"
  have sa: "slot_at ?s x = slot_at s x" "in_use ?s x = in_use s x" for x by (cases x; simp add: upd_node_def)+
  have f: "cell_ch ?s = cell_ch s" "closed ?s = closed s" "next_cell ?s = next_cell s" "next_chan ?s = next_chan s"
    "next_leaf ?s = next_leaf s" "leaves ?s = leaves s"
    by (simp_all add: upd_node_def)
  have ok: "slots_ok ?s"
  proof (rule slots_okI)
    show "world_ok ?s" using d(1) unfolding world_ok_def f .
    show "leaf_ids ?s" using d(2,3) by (auto simp: leaf_ids_def upd_node_def)
    show "slot_ok ?s (slot_at ?s x)" if "in_use ?s x" for x
      using d(5) [of x] that unfolding sa slot_ok_def f .
    show "x = y" if "in_use ?s x" "in_use ?s y" "slot_at ?s x = Some e" "slot_at ?s y = Some e" "e \<noteq> sealedCell" for x y e
      using that d(6) [of x y e] unfolding sa by blast
  qed (use d in \<open>simp_all add: f\<close>)
  have adv: "advance s ?s" unfolding advance_def sa f by blast
  have lk: "leafs_kept s ?s" using None by (auto simp: leafs_kept_def upd_node_def)
  show ?thesis
  proof (rule that [OF _ ok adv lk, of sealedLeaf])
    show "sealValue a s = Some ?s" using None by (simp add: sealValue_def cas_def)
  qed (use d(4) in \<open>simp_all add: upd_node_def slot_Sealed_def\<close>)
qed

section \<open>Steps that leave the slots alone\<close>

lemma slots_notifiers:
  assumes "slots_ok s" and "\<And>i. set (nf_leaves (m i)) \<subseteq> set (nf_leaves (notifiers s i))"
  shows "slots_ok (s\<lparr>notifiers := m\<rparr>)" and "advance s (s\<lparr>notifiers := m\<rparr>)"
proof -
  let ?s = "s\<lparr>notifiers := m\<rparr>"
  note d = slots_okD [OF assms(1)]
  have sa: "slot_at ?s x = slot_at s x" "in_use ?s x = in_use s x" for x by (cases x; simp)+
  show "slots_ok ?s"
  proof (rule slots_okI)
    show "world_ok ?s" by (rule world_ok_fields [OF _ _ _ _ d(1)]) simp_all
    show "leaf_ids ?s" using d(2) assms(2) unfolding leaf_ids_def by simp blast
    show "slot_ok ?s (slot_at ?s x)" if "in_use ?s x" for x using that d(5) [of x] unfolding sa slot_ok_def by simp
    show "x = y" if "in_use ?s x" "in_use ?s y" "slot_at ?s x = Some e" "slot_at ?s y = Some e" "e \<noteq> sealedCell" for x y e
      using that d(6) [of x y e] unfolding sa by blast
  qed (use d in simp_all)
  show "advance s ?s" unfolding advance_def sa by simp
qed

text \<open>A write: new nodes and new leaves start with an empty slot.\<close>

lemma eff_slots:
  assumes s: "slots_ok s" and e: "eff E f s X D s'" and l: "leaf_ids s'"
  shows "slots_ok s'" and "advance s s'"
proof -
  note d = slots_okD [OF s]
  have m: "modifies E s X s'" and q: "quiet s s'" using e by (simp_all add: eff_def)
  have w: "cell_ch s' = cell_ch s" "next_cell s' = next_cell s" "closed s' = closed s" "next_chan s' = next_chan s"
    "next_leaf s \<le> next_leaf s'" using q by (simp_all add: quiet_def)
  have so: "slot_ok s' = slot_ok s" by (simp add: fun_eq_iff slot_ok_def w)
  have old: "slot_at s' x = slot_at s x \<and> in_use s' x" if "in_use s x" for x
  proof (cases x)
    case (AtNode a)
    with that m show ?thesis by (auto simp: modifies_def)
  next
    case (AtLeaf b)
    with that q w(5) show ?thesis by (auto simp: quiet_def)
  qed
  have new: "slot_at s' x = None" if "in_use s' x" "\<not> in_use s x" for x
  proof (cases x)
    case (AtNode a)
    with that m show ?thesis by (auto simp: modifies_def)
  next
    case (AtLeaf b)
    with that q show ?thesis by (auto simp: quiet_def)
  qed
  show "slots_ok s'"
  proof (rule slots_okI)
    show "world_ok s'" by (rule world_ok_fields [OF w(1-4) d(1)])
    show "sealedLeaf < next_leaf s'" using d(3) w(5) by simp
    show "leaves s' sealedLeaf = Some sealedCell" using old [of "AtLeaf sealedLeaf"] d(3,4) by simp
    show "slot_ok s' (slot_at s' x)" if "in_use s' x" for x
      using old [of x] new [OF that] d(5) [of x] unfolding so by (cases "in_use s x") auto
    show "x = y" if "in_use s' x" "in_use s' y" "slot_at s' x = Some e" "slot_at s' y = Some e" "e \<noteq> sealedCell" for x y e
    proof -
      have i: "in_use s x" "in_use s y" using that new by fastforce+
      show ?thesis using that old [OF i(1)] old [OF i(2)] d(6) [OF i] by simp
    qed
  qed (rule l)
  show "advance s s'"
    unfolding advance_def
  proof (intro conjI allI impI)
    show "in_use s' x" if "in_use s x" for x using old [OF that] by blast
    show "slot_at s' x = Some c \<or> slot_at s' x = Some sealedCell \<and> (\<forall>n. cell_ch s c = Some n \<longrightarrow> closed s' n)"
      if "in_use s x" "slot_at s x = Some c" for x c
      using old [OF that(1)] that(2) by simp
  qed (simp_all add: w)
qed

lemma begin_slots:
  assumes "begin_txn t s = (t1, s1)" and "slots_ok s"
  shows "slots_ok s1" and "advance s s1"
proof -
  note d = slots_okD [OF assms(2)]
  have f: "nodes s1 = nodes s" "leaves s1 = leaves s" "next_leaf s1 = next_leaf s" "next_node s1 = next_node s"
    "cell_ch s1 = cell_ch s" "next_cell s1 = next_cell s" "closed s1 = closed s" "next_chan s1 = next_chan s"
    using assms(1) by (auto simp: begin_txn_def split: if_splits)
  have sa: "slot_at s1 x = slot_at s x" "in_use s1 x = in_use s x" for x by (cases x; simp add: f)+
  show "slots_ok s1"
  proof (rule slots_okI)
    show "world_ok s1" by (rule world_ok_fields [OF f(5-8) d(1)])
    show "leaf_ids s1" by (rule li_begin [OF assms(1) d(2)])
    show "slot_ok s1 (slot_at s1 x)" if "in_use s1 x" for x using that d(5) [of x] unfolding sa slot_ok_def f by simp
    show "x = y" if "in_use s1 x" "in_use s1 y" "slot_at s1 x = Some e" "slot_at s1 y = Some e" "e \<noteq> sealedCell" for x y e
      using that d(6) [of x y e] unfolding sa by blast
  qed (use d f in simp_all)
  show "advance s s1" unfolding advance_def sa f by simp
qed

lemma NewTree_slots:
  assumes n: "NewTree s = (t, s')" and s: "slots_ok s"
  shows "slots_ok s'" and "advance s s'"
proof -
  have a: "alloc_node zero_node s = (next_node s, s')" using n by (simp add: NewTree_def alloc_node_def)
  have "leaf_ids s'" using li_alloc [OF a _ slots_okD(2) [OF s]] by simp
  moreover have "eff 0 None s {} zero_notifier s'"
    by (rule eff_alloc(1) [OF a]) (simp_all add: own_e_def zero_node_def)
  ultimately show "slots_ok s'" "advance s s'" using eff_slots [OF s] by blast+
qed

end
