(* ===== verification/Sealing.thy ===== *)
theory Sealing
  imports Watch_Slots
begin

text \<open>
  \<open>Notify\<close> on a sound store: it returns, it seals the slot of everything that was recorded, and it
  moves slots only forward.
\<close>

definition onward :: "'v store \<Rightarrow> 'v store \<Rightarrow> bool" where
  "onward s s' \<longleftrightarrow> slots_ok s' \<and> advance s s' \<and> leafs_kept s s' \<and> still s s'"

lemma onward_refl: "slots_ok s \<Longrightarrow> onward s s"
  by (simp add: onward_def)

lemma onward_trans: "onward s s1 \<Longrightarrow> onward s1 s2 \<Longrightarrow> onward s s2"
  unfolding onward_def using advance_trans leafs_kept_trans still_trans by blast

lemma onwardD:
  assumes "onward s s'"
  shows "slots_ok s'" and "advance s s'" and "leafs_kept s s'" and "still s s'" and "reads_same s s'"
  using assms by (simp_all add: onward_def still_def)

lemma onward_rep:
  assumes "onward s s'" and "rep s g"
  shows "rep s' g"
  using frame_rep [OF reads_same_agree [OF onwardD(5) [OF assms(1)] assms(2)] assms(2)] by blast

section \<open>What is sealed stays sealed\<close>

definition node_sealed :: "'v store \<Rightarrow> addr \<Rightarrow> bool" where
  "node_sealed s a \<longleftrightarrow> a < next_node s \<and> slot_Sealed (nwatch (nodes s a))"

definition leaf_sealed :: "'v store \<Rightarrow> laddr option \<Rightarrow> bool" where
  "leaf_sealed s lo \<longleftrightarrow> (\<exists>l. lo = Some l \<and> l < next_leaf s \<and> slot_Sealed (leaves s l))"

definition value_sealed :: "'v store \<Rightarrow> addr \<Rightarrow> bool" where
  "value_sealed s a \<longleftrightarrow> leaf_sealed s (leafp (nodes s a))"

fun tree_sealed :: "'v store \<Rightarrow> 'x gtree \<Rightarrow> bool" where
  "tree_sealed s (G a x gs) \<longleftrightarrow>
     node_sealed s a \<and> (hasValue (nodes s a) \<longrightarrow> value_sealed s a) \<and> (\<forall>g \<in> set gs. tree_sealed s g)"

lemma node_sealed_on: "advance s s' \<Longrightarrow> node_sealed s a \<Longrightarrow> node_sealed s' a"
  using advance_sealed [of s s' "AtNode a"] by (auto simp: node_sealed_def advance_def dest: spec [of _ "AtNode a"])

lemma leaf_sealed_on: "advance s s' \<Longrightarrow> leaf_sealed s lo \<Longrightarrow> leaf_sealed s' lo"
proof -
  assume a: "advance s s'" and "leaf_sealed s lo"
  then obtain l where l: "lo = Some l" "in_use s (AtLeaf l)" "slot_Sealed (slot_at s (AtLeaf l))"
    by (auto simp: leaf_sealed_def)
  have "in_use s' (AtLeaf l)" using a l(2) unfolding advance_def by blast
  moreover have "slot_Sealed (slot_at s' (AtLeaf l))" using advance_sealed [OF a l(2,3)] .
  ultimately show ?thesis using l(1) by (simp add: leaf_sealed_def)
qed

lemma value_sealed_on: "advance s s' \<Longrightarrow> leafs_kept s s' \<Longrightarrow> value_sealed s a \<Longrightarrow> value_sealed s' a"
  unfolding value_sealed_def using leaf_sealed_on by (fastforce simp: leaf_sealed_def leafs_kept_def)

lemma tree_sealed_on: "onward s s' \<Longrightarrow> tree_sealed s g \<Longrightarrow> tree_sealed s' g"
proof (induction g)
  case (G a x gs)
  note o = onwardD [OF G.prems(1)]
  have "a < next_node s" using G.prems(2) by (simp add: node_sealed_def)
  then have "hasValue (nodes s' a) \<longleftrightarrow> hasValue (nodes s a)" by (rule still_hasValue [OF o(4)])
  then show ?case
    using G node_sealed_on [OF o(2)] value_sealed_on [OF o(2,3)] by auto
qed

lemma tree_sealedD:
  "tree_sealed s g \<Longrightarrow> b \<in> set (addrs g) \<Longrightarrow> node_sealed s b \<and> (hasValue (nodes s b) \<longrightarrow> value_sealed s b)"
  by (induction g) auto

section \<open>Sealing many objects\<close>

lemma ofold_reaches:
  assumes s: "I s" and step: "\<And>x s. x \<in> set xs \<Longrightarrow> I s \<Longrightarrow> \<exists>s'. f x s = Some s' \<and> R s s' \<and> Q x s'"
    and I: "\<And>s s'. I s \<Longrightarrow> R s s' \<Longrightarrow> I s'" and refl: "\<And>s. I s \<Longrightarrow> R s s"
    and trans: "\<And>s s' s''. R s s' \<Longrightarrow> R s' s'' \<Longrightarrow> R s s''" and Q: "\<And>x s s'. Q x s \<Longrightarrow> R s s' \<Longrightarrow> Q x s'"
  shows "\<exists>s'. ofold f xs s = Some s' \<and> R s s' \<and> (\<forall>x \<in> set xs. Q x s')"
  using s step
proof (induction xs arbitrary: s)
  case Nil
  then show ?case using refl by simp
next
  case (Cons x xs)
  obtain s1 where s1: "f x s = Some s1" "R s s1" "Q x s1" using Cons.prems by fastforce
  have I1: "I s1" using I Cons.prems(1) s1(2) by blast
  obtain s2 where s2: "ofold f xs s1 = Some s2" "R s1 s2" "\<forall>x \<in> set xs. Q x s2"
    using Cons.IH [OF I1] Cons.prems(2) by auto
  have "Q x s2" using Q s1(3) s2(2) by blast
  then show ?case using s1(1) s2 trans [OF s1(2) s2(2)] by (intro exI [of _ s2]) simp
qed

lemma ofold_map: "ofold f (map g xs) s = ofold (\<lambda>x. f (g x)) xs s"
  by (induction xs arbitrary: s) (auto split: Option.bind_splits)

lemma node_Seal_on:
  assumes "slots_ok s" and "a < next_node s"
  shows "\<exists>s'. node_Seal a s = Some s' \<and> onward s s' \<and> node_sealed s' a"
proof -
  obtain s' where s': "node_Seal a s = Some s'" "slots_ok s'" "advance s s'" "slot_Sealed (slot_at s' (AtNode a))"
    "\<And>b. leafp (nodes s' b) = leafp (nodes s b)"
    using ref_Seal_ok [OF assms(1), of "AtNode a"] assms(2) unfolding ref_ops by auto
  have "still s s'" using node_Seal_still [OF s'(1)] .
  then show ?thesis
    using s' assms(2) by (auto simp: onward_def leafs_kept_def node_sealed_def still_def reads_same_def)
qed

lemma leaf_Seal_on:
  assumes "slots_ok s" and "l < next_leaf s"
  shows "\<exists>s'. leaf_Seal l s = Some s' \<and> onward s s' \<and> leaf_sealed s' (Some l)"
proof -
  obtain s' where s': "leaf_Seal l s = Some s'" "slots_ok s'" "advance s s'" "slot_Sealed (slot_at s' (AtLeaf l))"
    "next_leaf s' = next_leaf s" "\<And>b. leafp (nodes s' b) = leafp (nodes s b)"
    using ref_Seal_ok [OF assms(1), of "AtLeaf l"] assms(2) unfolding ref_ops by auto
  then show ?thesis
    using leaf_Seal_still [OF s'(1)] assms(2) by (auto simp: onward_def leafs_kept_def leaf_sealed_def)
qed

lemma sealValue_on:
  assumes "slots_ok s" and "hasValue (nodes s a)"
  shows "\<exists>s'. sealValue a s = Some s' \<and> onward s s' \<and> value_sealed s' a"
proof -
  obtain s' l where s': "sealValue a s = Some s'" "slots_ok s'" "advance s s'" "leafs_kept s s'"
    "leafp (nodes s' a) = Some l" "slot_Sealed (slot_at s' (AtLeaf l))"
    by (rule sealValue_ok [OF assms(1)])
  then show ?thesis
    using sealValue_still [OF s'(1) assms(2)] slots_leaf [OF s'(2,5)]
    by (auto simp: onward_def value_sealed_def leaf_sealed_def)
qed

lemma sealSubtree_on:
  fixes s :: "'v store"
  shows "rep s g \<Longrightarrow> slots_ok s \<Longrightarrow> \<exists>s'. sealSubtree (ad g) s = Some s' \<and> onward s s' \<and> tree_sealed s' g"
proof (induction g arbitrary: s rule: gtree.induct)
  case (G a x gs)
  have a: "a < next_node s" using G.prems(1) by simp
  obtain s1 where s1: "node_Seal a s = Some s1" "onward s s1" "node_sealed s1 a"
    using node_Seal_on [OF G.prems(2) a] by blast
  obtain s2 where s2: "(if hasValue (nodes s1 a) then sealValue a s1 else Some s1) = Some s2" "onward s1 s2"
    "hasValue (nodes s2 a) \<longrightarrow> value_sealed s2 a"
    using sealValue_on [OF onwardD(1) [OF s1(2)], of a] onward_refl [OF onwardD(1) [OF s1(2)]]
    by (cases "hasValue (nodes s1 a)") auto
  have o2: "onward s s2" using onward_trans [OF s1(2) s2(2)] .
  have r2: "rep s2 (G a x gs)" by (rule onward_rep [OF o2 G.prems(1)])
  then have kl: "kidList (nodes s2 a) = map (\<lambda>g. Some (ad g)) gs" by simp
  have o3: "slots_ok s2 \<and> (\<forall>g \<in> set gs. rep s2 g)" using onwardD(1) [OF o2] r2 by simp
  have "\<exists>s'. ofold (\<lambda>g. sealSubtree (ad g)) gs s2 = Some s' \<and> onward s2 s' \<and> (\<forall>g \<in> set gs. tree_sealed s' g)"
  proof (rule ofold_reaches [where I = "\<lambda>s. slots_ok s \<and> (\<forall>g \<in> set gs. rep s g)", OF o3])
    show "\<exists>s'. sealSubtree (ad g) s = Some s' \<and> onward s s' \<and> tree_sealed s' g"
      if "g \<in> set gs" "slots_ok s \<and> (\<forall>g \<in> set gs. rep s g)" for g and s :: "'v store"
      using G.IH [OF that(1), of s] that by simp
  qed (auto intro: onward_refl onward_trans tree_sealed_on onward_rep dest: onwardD(1))
  then obtain s3 where s3: "ofold (\<lambda>g. sealSubtree (ad g)) gs s2 = Some s3" "onward s2 s3" "\<forall>g \<in> set gs. tree_sealed s3 g"
    by blast
  have "sealSubtree (ad (G a x gs)) s = Some s3"
    using s1(1) s2(1) s3(1) kl by (subst sealSubtree.simps) (auto simp: ofold_map split: if_splits)
  moreover have "tree_sealed s3 (G a x gs)"
  proof -
    note o = onwardD [OF s3(2)] and o' = onwardD [OF onward_trans [OF s2(2) s3(2)]]
    have "a < next_node s2" using r2 by simp
    then have "hasValue (nodes s3 a) \<longleftrightarrow> hasValue (nodes s2 a)" by (rule still_hasValue [OF o(4)])
    then have "hasValue (nodes s3 a) \<longrightarrow> value_sealed s3 a"
      using s2(3) value_sealed_on [OF o(2,3)] by blast
    then show ?thesis using s3(3) node_sealed_on [OF o'(2) s1(3)] by simp
  qed
  ultimately show ?case using onward_trans [OF o2 s3(2)] by blast
qed

section \<open>\<open>Notify\<close>\<close>

text \<open>What a notifier may hold.\<close>

definition records_ok :: "'v store \<Rightarrow> notifier \<Rightarrow> bool" where
  "records_ok s nf \<longleftrightarrow> (\<forall>a \<in> set (nf_nodes nf). a < next_node s) \<and>
     (\<forall>lo \<in> set (nf_leaves nf). \<exists>l < next_leaf s. lo = Some l) \<and>
     (\<forall>a \<in> set (nf_values nf). a < next_node s \<and> hasValue (nodes s a)) \<and>
     (\<forall>r \<in> set (nf_subtrees nf). \<exists>h :: unit gtree. ad h = r \<and> rep s h)"

definition all_sealed :: "'v store \<Rightarrow> notifier \<Rightarrow> bool" where
  "all_sealed s nf \<longleftrightarrow> (\<forall>a \<in> set (nf_nodes nf). node_sealed s a) \<and> (\<forall>lo \<in> set (nf_leaves nf). leaf_sealed s lo) \<and>
     (\<forall>a \<in> set (nf_values nf). value_sealed s a) \<and>
     (\<forall>r \<in> set (nf_subtrees nf). \<exists>h :: unit gtree. ad h = r \<and> rep s h \<and> tree_sealed s h)"

lemma ofold_onward:
  assumes s: "slots_ok s" and J: "J s"
    and step: "\<And>x s. x \<in> set xs \<Longrightarrow> slots_ok s \<Longrightarrow> J s \<Longrightarrow> \<exists>s'. f x s = Some s' \<and> onward s s' \<and> Q x s'"
    and J': "\<And>s s'. J s \<Longrightarrow> onward s s' \<Longrightarrow> J s'" and Q: "\<And>x s s'. Q x s \<Longrightarrow> onward s s' \<Longrightarrow> Q x s'"
  shows "\<exists>s'. ofold f xs s = Some s' \<and> onward s s' \<and> (\<forall>x \<in> set xs. Q x s')"
  by (rule ofold_reaches [where I = "\<lambda>s. slots_ok s \<and> J s"])
    (use s J step J' Q in \<open>auto intro: onward_refl onward_trans dest: onwardD(1)\<close>)

lemma onward_next_leaf: "onward s s' \<Longrightarrow> l < next_leaf s \<Longrightarrow> l < next_leaf s'"
  using onwardD(2) [of s s'] unfolding advance_def by (metis in_use.simps(2))

theorem Notify_seals:
  assumes s: "slots_ok s" and r: "records_ok s (notifiers s i)"
  obtains s' where "Notify i s = Some s'" and "slots_ok s'" and "advance s s'" and "leafs_kept s s'" and "reads_same s s'"
    and "all_sealed s' (notifiers s i)" and "notifiers s' = (notifiers s)(i := zero_notifier)"
proof -
  let ?nf = "notifiers s i"
  note rd = r [unfolded records_ok_def] and r' = r
  have "\<exists>s1. ofold node_Seal (nf_nodes ?nf) s = Some s1 \<and> onward s s1 \<and> (\<forall>a \<in> set (nf_nodes ?nf). node_sealed s1 a)"
  proof (rule ofold_onward [OF s, where J = "onward s" and f = node_Seal and Q = "\<lambda>a s. node_sealed s a" and xs = "nf_nodes ?nf"])
    show "\<exists>t'. node_Seal a t = Some t' \<and> onward t t' \<and> node_sealed t' a" if "a \<in> set (nf_nodes ?nf)" "slots_ok t" "onward s t" for a t
    proof -
      have "a < next_node t" using rd that(1) onwardD(5) [OF that(3)] by (simp add: reads_same_def)
      then show ?thesis by (rule node_Seal_on [OF that(2)])
    qed
    show "node_sealed t' a" if "node_sealed t a" "onward t t'" for a t t' using node_sealed_on [OF onwardD(2)] that by blast
  qed (rule onward_refl [OF s], erule onward_trans)
  then obtain s1 where s1: "ofold node_Seal (nf_nodes ?nf) s = Some s1" "onward s s1" "\<forall>a \<in> set (nf_nodes ?nf). node_sealed s1 a"
    by blast
  note o1 = onwardD [OF s1(2)]
  have "\<exists>s2. ofold (\<lambda>l s. do { l \<leftarrow> l; leaf_Seal l s }) (nf_leaves ?nf) s1 = Some s2 \<and> onward s1 s2 \<and>
    (\<forall>l \<in> set (nf_leaves ?nf). leaf_sealed s2 l)"
  proof (rule ofold_onward [OF o1(1), where J = "onward s" and f = "\<lambda>l s. do { l \<leftarrow> l; leaf_Seal l s }"
        and Q = "\<lambda>l s. leaf_sealed s l" and xs = "nf_leaves ?nf"])
    show "\<exists>t'. do { l \<leftarrow> lo; leaf_Seal l t } = Some t' \<and> onward t t' \<and> leaf_sealed t' lo"
      if "lo \<in> set (nf_leaves ?nf)" "slots_ok t" "onward s t" for lo t
    proof -
      have "\<exists>l < next_leaf s. lo = Some l" using r that(1) unfolding records_ok_def by simp
      then obtain l where "l < next_leaf s" "lo = Some l" by blast
      then show ?thesis using leaf_Seal_on [OF that(2) onward_next_leaf [OF that(3)]] by (simp only: Option.bind.simps)
    qed
    show "leaf_sealed t' l" if "leaf_sealed t l" "onward t t'" for l t t' using leaf_sealed_on [OF onwardD(2)] that by blast
  qed (rule s1(2), erule onward_trans)
  then obtain s2 where s2: "ofold (\<lambda>l s. do { l \<leftarrow> l; leaf_Seal l s }) (nf_leaves ?nf) s1 = Some s2" "onward s1 s2"
    "\<forall>l \<in> set (nf_leaves ?nf). leaf_sealed s2 l" by blast
  note o2 = onward_trans [OF s1(2) s2(2)]
  have "\<exists>s3. ofold sealValue (nf_values ?nf) s2 = Some s3 \<and> onward s2 s3 \<and> (\<forall>a \<in> set (nf_values ?nf). value_sealed s3 a)"
  proof (rule ofold_onward [OF onwardD(1) [OF o2], where J = "onward s" and f = sealValue
        and Q = "\<lambda>a s. value_sealed s a" and xs = "nf_values ?nf"])
    show "\<exists>t'. sealValue a t = Some t' \<and> onward t t' \<and> value_sealed t' a"
      if "a \<in> set (nf_values ?nf)" "slots_ok t" "onward s t" for a t
      using sealValue_on [OF that(2)] still_hasValue [OF onwardD(4) [OF that(3)]] rd that(1) by auto
    show "value_sealed t' a" if "value_sealed t a" "onward t t'" for a t t' using value_sealed_on [OF onwardD(2,3)] that by blast
  qed (rule o2, erule onward_trans)
  then obtain s3 where s3: "ofold sealValue (nf_values ?nf) s2 = Some s3" "onward s2 s3"
    "\<forall>a \<in> set (nf_values ?nf). value_sealed s3 a" by blast
  note o3 = onward_trans [OF o2 s3(2)]
  let ?Q = "\<lambda>r s. \<exists>h :: unit gtree. ad h = r \<and> rep s h \<and> tree_sealed s h"
  have "\<exists>s4. ofold sealSubtree (nf_subtrees ?nf) s3 = Some s4 \<and> onward s3 s4 \<and> (\<forall>r \<in> set (nf_subtrees ?nf). ?Q r s4)"
  proof (rule ofold_onward [OF onwardD(1) [OF o3], where J = "onward s" and f = sealSubtree and Q = ?Q and xs = "nf_subtrees ?nf"])
    show "\<exists>t'. sealSubtree r t = Some t' \<and> onward t t' \<and> ?Q r t'"
      if q: "r \<in> set (nf_subtrees ?nf)" "slots_ok t" "onward s t" for r t
    proof -
      have "\<exists>h :: unit gtree. ad h = r \<and> rep s h" using r' q(1) unfolding records_ok_def by simp
      then obtain h :: "unit gtree" where h: "ad h = r" "rep s h" by blast
      have rt: "rep t h" by (rule onward_rep [OF q(3) h(2)])
      obtain t' where t': "sealSubtree (ad h) t = Some t'" "onward t t'" "tree_sealed t' h"
        using sealSubtree_on [OF rt q(2)] by blast
      have "rep t' h" by (rule onward_rep [OF t'(2) rt])
      with t' h(1) show ?thesis by blast
    qed
    show "?Q r t'" if "?Q r t" "onward t t'" for r t t' using onward_rep tree_sealed_on that by blast
  qed (rule o3, erule onward_trans)
  then obtain s4 where s4: "ofold sealSubtree (nf_subtrees ?nf) s3 = Some s4" "onward s3 s4"
    "\<forall>r \<in> set (nf_subtrees ?nf). ?Q r s4" by blast
  have N: "Notify i s = Some (s4\<lparr>notifiers := (notifiers s)(i := zero_notifier)\<rparr>)" (is "_ = Some ?s")
    using s1(1) s2(1) s3(1) s4(1) onwardD(4) [OF onward_trans [OF o3 s4(2)]] by (simp add: Notify_def Let_def still_def)
  note o4 = onwardD [OF onward_trans [OF o3 s4(2)]]
  have sa: "slot_at ?s x = slot_at s4 x" "in_use ?s x = in_use s4 x" for x by (cases x; simp)+
  show ?thesis
  proof (rule that [OF N])
    show "slots_ok ?s" by (rule slots_notifiers(1) [OF o4(1)]) (use o4(4) in \<open>simp add: still_def\<close>)
    show "advance s ?s" using o4(2) unfolding advance_def sa by simp
    show "leafs_kept s ?s" using o4(3) by (simp add: leafs_kept_def)
    show "reads_same s ?s" using o4(5) by (simp add: reads_same_def)
    have r4: "rep ?s h \<longleftrightarrow> rep s4 h" "tree_sealed ?s h \<longleftrightarrow> tree_sealed s4 h" for h :: "unit gtree"
      by (induction h) (simp_all add: lab_at_def [abs_def] node_sealed_def value_sealed_def leaf_sealed_def)
    have e: "node_sealed ?s = node_sealed s4" "leaf_sealed ?s = leaf_sealed s4" "value_sealed ?s = value_sealed s4"
      by (simp_all add: fun_eq_iff node_sealed_def value_sealed_def leaf_sealed_def)
    show "all_sealed ?s ?nf"
      unfolding all_sealed_def r4 e
      using s1(3) s2(3) s3(3) s4(3) node_sealed_on [OF onwardD(2) [OF onward_trans [OF s2(2) onward_trans [OF s3(2) s4(2)]]]]
        leaf_sealed_on [OF onwardD(2) [OF onward_trans [OF s3(2) s4(2)]]]
        value_sealed_on [OF onwardD(2,3) [OF s4(2)]] by blast
  qed simp
qed

end
