(* ===== verification/Watch_Inv.thy ===== *)
theory Watch_Inv
  imports Sealing
begin

text \<open>
  The invariant of watches and records in the system of many writers: slots are sound, everything a
  notifier records exists, and no writer will ever touch a subtree that was cut off.  Every
  notification of a reachable state returns.
\<close>

section \<open>What a write leaves behind\<close>

lemma wrote_begin:
  assumes "wrote t s g t' s' g' D cs W"
  obtains t1 s1 where "begin_txn t s = (t1, s1)" and "tepoch t1 = tepoch t'" and "tnf t1 = tnf t"
    and "eff (tepoch t') (tnf t) s1 (set (addrs g)) D s'" and "nodes s1 = nodes s" and "next_node s1 = next_node s"
proof -
  obtain t1 s1 where t1: "begin_txn t s = (t1, s1)" "t' = t1\<lparr>troot := Some (ad g')\<rparr>"
    "eff (tepoch t1) (tnf t1) s1 (set (addrs g)) D s'"
    using assms unfolding wrote_def by blast
  then show ?thesis using that [of t1 s1] begin_txn_nodes [OF t1(1)] by simp
qed

lemma wroteD:
  assumes "wrote t s g t' s' g' D cs W"
  shows "troot t' = Some (ad g')" and "trep (tepoch t') s' g'" and "wf_root (absn s' g')"
    and "set (addrs g') \<subseteq> set (addrs g) \<union> {next_node s..}" and "cut_addrs cs \<subseteq> set (addrs g) - set (addrs g')"
    and "unowned (tepoch t') s g - set (addrs g') \<subseteq> set (nf_nodes D) \<union> cut_addrs cs"
    and "set (nf_nodes D) \<subseteq> set (addrs g)" and "None \<notin> set (nf_leaves D)" and "nf_subtrees D = map ad cs"
    and "set (nf_values D) \<subseteq> {a \<in> set (addrs g). hasValue (nodes s a)}"
    and "h \<in> set cs \<Longrightarrow> rep s h" and "h \<in> set cs \<Longrightarrow> b \<in> set (addrs h) \<Longrightarrow> nodes s' b = nodes s b"
    and "vals (tepoch t') s g s' g' D (cut_addrs cs) W"
  using assms unfolding wrote_def by auto

lemma wrote_frame:
  assumes w: "wrote t s g t' s' g' D cs W"
  shows "next_node s \<le> next_node s'"
    and "a < next_node s \<Longrightarrow> \<not> own_e (tepoch t') (nodes s a) \<or> a \<notin> set (addrs g) \<Longrightarrow> same_node (nodes s a) (nodes s' a)"
    and "a < next_node s \<Longrightarrow> own_e (tepoch t') (nodes s' a) \<longleftrightarrow> own_e (tepoch t') (nodes s a)"
    and "a < next_node s \<Longrightarrow> own_e (tepoch t') (nodes s a) \<Longrightarrow> a \<notin> set (addrs g) \<Longrightarrow> nodes s' a = nodes s a"
    and "nf_log (tnf t) s D s'"
    and "slots_ok s \<Longrightarrow> leaf_ids s' \<Longrightarrow> slots_ok s' \<and> advance s s'"
proof -
  obtain t1 s1 where b: "begin_txn t s = (t1, s1)" "tepoch t1 = tepoch t'" "tnf t1 = tnf t"
    and e: "eff (tepoch t') (tnf t) s1 (set (addrs g)) D s'" and n: "nodes s1 = nodes s" "next_node s1 = next_node s"
    by (rule wrote_begin [OF w])
  show "next_node s \<le> next_node s'" using eff_next [OF e] n by simp
  show "same_node (nodes s a) (nodes s' a)"
    if "a < next_node s" "\<not> own_e (tepoch t') (nodes s a) \<or> a \<notin> set (addrs g)"
    using eff_same [OF e, of a] eff_same' [OF e, of a] that n by auto
  show "own_e (tepoch t') (nodes s' a) \<longleftrightarrow> own_e (tepoch t') (nodes s a)" if "a < next_node s"
    using eff_own [OF e, of a] that n by simp
  show "nodes s' a = nodes s a" if "a < next_node s" "own_e (tepoch t') (nodes s a)" "a \<notin> set (addrs g)"
    using eff_eq [OF e, of a] that n by simp
  have "notifiers s1 = notifiers s" using b(1) by (auto simp: begin_txn_def split: if_splits)
  then show "nf_log (tnf t) s D s'" using e by (simp add: eff_def nf_log_def split: option.splits)
  show "slots_ok s' \<and> advance s s'" if "slots_ok s" "leaf_ids s'"
    using eff_slots [OF begin_slots(1) [OF b(1) that(1)] e that(2)] begin_slots(2) [OF b(1) that(1)] advance_trans by blast
qed

lemma wrote_fresh:
  assumes w: "wrote t s g t' s' g' D cs W" and s: "epochs_ok s" and t: "txn_ok t s g"
    and room: "tepoch t = 0 \<longrightarrow> epochCounter s < epochMask"
  shows "tepoch t = 0 \<Longrightarrow> a < next_node s \<Longrightarrow> \<not> own_e (tepoch t') (nodes s a)" and "tepoch t \<noteq> 0 \<Longrightarrow> tepoch t' = tepoch t"
    and "tepoch t' \<noteq> 0"
proof -
  obtain t1 s1 where b: "begin_txn t s = (t1, s1)" "tepoch t1 = tepoch t'"
    by (rule wrote_begin [OF w])
  have room': "tepoch t = 0 \<Longrightarrow> epochCounter s < epochMask" using room by simp
  note bw = begin_writable [OF s t room' b(1)]
  show "tepoch t = 0 \<Longrightarrow> a < next_node s \<Longrightarrow> \<not> own_e (tepoch t') (nodes s a)" "tepoch t \<noteq> 0 \<Longrightarrow> tepoch t' = tepoch t"
    "tepoch t' \<noteq> 0"
    using bw(3,5,6) b(2) by auto
qed

lemma nf_log_cases:
  assumes "nf_log f s D s'"
  shows "set (nf_nodes (notifiers s' i)) \<subseteq> set (nf_nodes (notifiers s i)) \<union> set (nf_nodes D)"
    and "set (nf_leaves (notifiers s' i)) \<subseteq> set (nf_leaves (notifiers s i)) \<union> set (nf_leaves D)"
    and "set (nf_values (notifiers s' i)) \<subseteq> set (nf_values (notifiers s i)) \<union> set (nf_values D)"
    and "set (nf_subtrees (notifiers s' i)) \<subseteq> set (nf_subtrees (notifiers s i)) \<union> set (nf_subtrees D)"
  using assms by (auto simp: nf_log_def split: option.splits if_splits)

text \<open>The store determines the addresses of a tree.\<close>

lemma rep_addrs: "rep s g \<Longrightarrow> rep s h \<Longrightarrow> ad g = ad h \<Longrightarrow> addrs g = addrs h"
proof (induction g arbitrary: h)
  case (G a x gs)
  obtain y hs where h: "h = G a y hs" using G.prems(3) by (cases h) simp
  have m: "map (\<lambda>g. Some (ad g)) gs = map (\<lambda>g. Some (ad g)) hs" using G.prems h by simp
  then have l: "length gs = length hs" using map_eq_imp_length_eq by blast
  have "map addrs gs = map addrs hs"
  proof (rule nth_equalityI)
    fix i assume i: "i < length (map addrs gs)"
    then have "ad (gs ! i) = ad (hs ! i)" using m l by (metis length_map nth_map option.inject)
    then show "map addrs gs ! i = map addrs hs ! i" using G.IH [of "gs ! i" "hs ! i"] G.prems h i l by simp
  qed (simp add: l)
  then show ?case by (simp add: h)
qed

section \<open>Subtrees that were cut off\<close>

text \<open>No running transaction owns any of these nodes, except outside its tree.\<close>

definition spared :: "'v sys \<Rightarrow> addr set \<Rightarrow> bool" where
  "spared y A \<longleftrightarrow> (\<forall>i T. \<forall>g :: unit gtree. live y i = Some T \<longrightarrow> tepoch T \<noteq> 0 \<longrightarrow> txn_ok T (heap y) g \<longrightarrow>
     (\<forall>a \<in> A. own_e (tepoch T) (nodes (heap y) a) \<longrightarrow> a \<notin> set (addrs g)))"

definition cut_ok :: "'v sys \<Rightarrow> addr \<Rightarrow> bool" where
  "cut_ok y r \<longleftrightarrow> (\<exists>h :: unit gtree. ad h = r \<and> rep (heap y) h \<and> spared y (set (addrs h)))"

lemma spared_quiet:
  assumes y: "sys_inv y" and s: "spared y A" and A: "A \<subseteq> {..<next_node (heap y)}"
    and same: "\<And>a. a < next_node (heap y) \<Longrightarrow> same_node (nodes (heap y) a) (nodes (heap z) a)"
    and nn: "next_node (heap y) \<le> next_node (heap z)"
    and l: "\<And>i T. live z i = Some T \<Longrightarrow> tepoch T \<noteq> 0 \<Longrightarrow> live y i = Some T"
  shows "spared z A"
  unfolding spared_def
proof (intro allI impI ballI)
  fix i T and g :: "unit gtree" and a
  assume i: "live z i = Some T" "tepoch T \<noteq> 0" "txn_ok T (heap z) g" and a: "a \<in> A" "own_e (tepoch T) (nodes (heap z) a)"
  note iy = l [OF i(1,2)]
  obtain c :: "unit gtree" where c: "txn_ok T (heap y) c" using sys_invD(3) [OF y iy] by (auto simp: live_ok_def)
  note rc = tree_okD(1) [OF txn_okD(2) [OF c]] and rg = tree_okD(1) [OF txn_okD(2) [OF i(3)]]
  have "agree (set (addrs c)) (heap y) (heap z)" using same nn rep_bound [OF rc] by (auto simp: agree_def)
  then have "rep (heap z) c" using frame_rep rc by blast
  then have "addrs c = addrs g" using rep_addrs rg txn_okD(1) [OF c] txn_okD(1) [OF i(3)] by (metis option.inject)
  moreover have "own_e (tepoch T) (nodes (heap y) a)" using same_node_own [OF same] a A by blast
  ultimately show "a \<notin> set (addrs g)" using s iy i(2) c a(1) unfolding spared_def by metis
qed

lemma cut_ok_quiet:
  assumes y: "sys_inv y" and c: "cut_ok y r"
    and same: "\<And>a. a < next_node (heap y) \<Longrightarrow> same_node (nodes (heap y) a) (nodes (heap z) a)"
    and nn: "next_node (heap y) \<le> next_node (heap z)"
    and l: "\<And>i T. live z i = Some T \<Longrightarrow> tepoch T \<noteq> 0 \<Longrightarrow> live y i = Some T"
  shows "cut_ok z r"
proof -
  obtain h :: "unit gtree" where h: "ad h = r" "rep (heap y) h" "spared y (set (addrs h))" using c by (auto simp: cut_ok_def)
  have A: "set (addrs h) \<subseteq> {..<next_node (heap y)}" using rep_bound [OF h(2)] by auto
  have "agree (set (addrs h)) (heap y) (heap z)" using same nn A by (auto simp: agree_def)
  then have "rep (heap z) h" using frame_rep h(2) by blast
  then show ?thesis using h(1) spared_quiet [OF y h(3) A same nn l] by (auto simp: cut_ok_def)
qed

lemma write_cuts:
  assumes y: "sys_inv y" and i: "live y i = Some T" and room: "tepoch T = 0 \<longrightarrow> epochCounter (heap y) < epochMask"
    and x: "txn_exec p (T, heap y) = Some (r, T', h')" and t: "txn_ok T (heap y) (g :: unit gtree)"
    and w: "wrote T (heap y) g T' h' g' D cs W" and z: "z = y\<lparr>heap := h', live := (live y)(i \<mapsto> T')\<rparr>"
  shows "cut_ok y q \<Longrightarrow> cut_ok z q" and "h \<in> set cs \<Longrightarrow> cut_ok z (ad h)"
proof -
  let ?h = "heap y"
  note s = sys_invD(1) [OF y] and wd = wroteD [OF w] and wf = wrote_frame [OF w] and fr = wrote_fresh [OF w s t room]
  have iz: "sys_inv z" using inv_write [OF y i room x] z by simp
  have gU: "set (addrs g) = set (addrs c)" if "txn_ok T ?h c" for c :: "unit gtree"
    using rep_addrs [OF tree_okD(1) [OF txn_okD(2) [OF t]] tree_okD(1) [OF txn_okD(2) [OF that]]]
      txn_okD(1) [OF t] txn_okD(1) [OF that] by simp
  have gg: "set (addrs c) = set (addrs g')" if "txn_ok T' h' c" for c :: "unit gtree"
    using rep_addrs [OF trepD(1) [OF wd(2)] tree_okD(1) [OF txn_okD(2) [OF that]]] wd(1) txn_okD(1) [OF that] by simp
  have gn: "a < next_node ?h" if "a \<in> set (addrs g)" for a
    using rep_bound [OF tree_okD(1) [OF txn_okD(2) [OF t]] that] .
  obtain go :: "unit gtree" where ot: "op_ok T ?h g T' h' go" using exec_op_ok [OF s t room x] by blast
  obtain g1 where free: "\<And>j U. j \<noteq> i \<Longrightarrow> live y j = Some U \<Longrightarrow> free_of U ?h (set (addrs g1)) \<and> (tepoch T \<noteq> 0 \<longrightarrow> tepoch U \<noteq> tepoch T)"
    and g1: "txn_ok T ?h (g1 :: unit gtree)"
    and other: "\<And>j U. j \<noteq> i \<Longrightarrow> live y j = Some U \<Longrightarrow> tepoch T' \<noteq> 0 \<longrightarrow> tepoch U \<noteq> tepoch T'"
    and fo: "\<And>j U A. j \<noteq> i \<Longrightarrow> live y j = Some U \<Longrightarrow> free_of U ?h A \<Longrightarrow> A \<subseteq> {..<next_node ?h} \<Longrightarrow> free_of U h' A"
    by (rule write_frame [OF y i room x]) blast
  have spare: "spared z A" if A: "A \<subseteq> {..<next_node ?h}" and own: "\<And>a. a \<in> A \<Longrightarrow> own_e (tepoch T') (nodes ?h a) \<Longrightarrow> a \<notin> set (addrs g')"
      and oth: "\<And>j U c a. j \<noteq> i \<Longrightarrow> live y j = Some U \<Longrightarrow> tepoch U \<noteq> 0 \<Longrightarrow> txn_ok U ?h (c :: unit gtree) \<Longrightarrow> a \<in> A \<Longrightarrow>
        own_e (tepoch U) (nodes ?h a) \<Longrightarrow> a \<notin> set (addrs c)" for A
    unfolding spared_def
  proof (intro allI impI ballI)
    fix j U and c :: "unit gtree" and a
    assume j: "live z j = Some U" "tepoch U \<noteq> 0" "txn_ok U (heap z) c" and a: "a \<in> A" "own_e (tepoch U) (nodes (heap z) a)"
    have al: "a < next_node ?h" using A a(1) by blast
    show "a \<notin> set (addrs c)"
    proof (cases "j = i")
      case True
      then have "U = T'" "heap z = h'" using j(1) z by simp_all
      then show ?thesis using own [OF a(1)] wf(3) [OF al] a(2) gg j(3) by simp
    next
      case False
      then have jy: "live y j = Some U" and hz: "heap z = h'" using j(1) z by simp_all
      have ne: "tepoch U \<noteq> tepoch T'" using other [OF False jy] fr(3) by blast
      obtain k :: "unit gtree" where k: "txn_ok U ?h k"
        "\<And>l V. l \<noteq> j \<Longrightarrow> live y l = Some V \<Longrightarrow> free_of V ?h (set (addrs k)) \<and> (tepoch U \<noteq> 0 \<longrightarrow> tepoch V \<noteq> tepoch U)"
        using sys_invD(3) [OF y jy] by (auto simp: live_ok_def)
      note rk = tree_okD(1) [OF txn_okD(2) [OF k(1)]]
      have "free_of T ?h {b}" if "b \<in> set (addrs k)" for b using k(2) [OF _ i] False that by (auto simp: free_of_def)
      then have "agree (set (addrs k)) ?h h'"
        using op_ok_writer(1) [OF s ot] rep_bound [OF rk] wf(1) by (auto simp: agree_def)
      then have "rep h' k" using frame_rep rk by blast
      then have ck: "addrs k = addrs c"
        using rep_addrs tree_okD(1) [OF txn_okD(2) [OF j(3)]] hz txn_okD(1) [OF k(1)] txn_okD(1) [OF j(3)] by (metis option.inject)
      have "\<not> own_e (tepoch T') (nodes ?h a)"
        using wf(3) [OF al] a(2) hz ne by (auto simp: own_e_def)
      then have "own_e (tepoch U) (nodes ?h a)" using same_node_own [OF wf(2) [OF al]] a(2) hz by blast
      then show ?thesis using oth [OF False jy j(2) k(1) a(1)] ck by simp
    qed
  qed
  show "cut_ok z q" if cq: "cut_ok y q"
  proof -
    obtain h :: "unit gtree" where h: "ad h = q" "rep ?h h" "spared y (set (addrs h))" using cq by (auto simp: cut_ok_def)
    have A: "set (addrs h) \<subseteq> {..<next_node ?h}" using rep_bound [OF h(2)] by auto
    have own: "a \<notin> set (addrs g)" if "a \<in> set (addrs h)" "own_e (tepoch T') (nodes ?h a)" for a
    proof (cases "tepoch T = 0")
      case True
      then show ?thesis using fr(1) that A by blast
    next
      case False
      then have "own_e (tepoch T) (nodes ?h a)" using fr(2) that(2) by simp
      then show ?thesis using h(3) i False t that(1) unfolding spared_def by blast
    qed
    have "agree (set (addrs h)) ?h h'" using wf(1,2) own A by (auto simp: agree_def)
    then have "rep (heap z) h" using frame_rep h(2) z by fastforce
    moreover have "spared z (set (addrs h))"
    proof (rule spare [OF A])
      show "a \<notin> set (addrs g')" if "a \<in> set (addrs h)" "own_e (tepoch T') (nodes ?h a)" for a
        using own [OF that] wd(4) A that(1) by fastforce
      show "a \<notin> set (addrs c)" if "j \<noteq> i" "live y j = Some U" "tepoch U \<noteq> 0" "txn_ok U ?h c" "a \<in> set (addrs h)"
        "own_e (tepoch U) (nodes ?h a)" for j U a and c :: "unit gtree"
        using h(3) that unfolding spared_def by blast
    qed
    ultimately show ?thesis using h(1) by (auto simp: cut_ok_def)
  qed
  show "cut_ok z (ad h)" if hc: "h \<in> set cs"
  proof -
    have sub: "set (addrs h) \<subseteq> set (addrs g) - set (addrs g')" using wd(5) hc by (auto simp: cut_addrs_def)
    have "agree (set (addrs h)) ?h h'" using wd(12) [OF hc] wf(1) by (simp add: agree_def)
    then have "rep (heap z) h" using frame_rep wd(11) [OF hc] z by fastforce
    moreover have "spared z (set (addrs h))"
    proof (rule spare)
      show "set (addrs h) \<subseteq> {..<next_node ?h}" using sub gn by blast
      show "a \<notin> set (addrs g')" if "a \<in> set (addrs h)" for a using sub that by blast
      show "a \<notin> set (addrs c)" if "j \<noteq> i" "live y j = Some U" "tepoch U \<noteq> 0" "a \<in> set (addrs h)"
        "own_e (tepoch U) (nodes ?h a)" for j U a and c :: "unit gtree"
        using free [OF that(1,2)] gU [OF g1] sub that(3-5) by (auto simp: free_of_def)
    qed
    ultimately show ?thesis by (auto simp: cut_ok_def)
  qed
qed

section \<open>The invariant of watches\<close>

definition noted_ok :: "'v sys \<Rightarrow> bool" where
  "noted_ok y \<longleftrightarrow> (\<forall>i. (\<forall>a \<in> set (nf_nodes (notifiers (heap y) i)). a < next_node (heap y)) \<and>
     None \<notin> set (nf_leaves (notifiers (heap y) i)) \<and> (\<forall>r \<in> set (nf_subtrees (notifiers (heap y) i)). cut_ok y r))"

definition winv :: "'v sys \<Rightarrow> bool" where
  "winv y \<longleftrightarrow> sys_inv y \<and> slots_ok (heap y) \<and> noted_ok y \<and>
     (\<forall>w \<in> watches y. value_of w = None \<longrightarrow> (\<exists>a < next_node (heap y). slot_of w = Some a))"

lemma winvD:
  assumes "winv y"
  shows "sys_inv y" and "slots_ok (heap y)" and "noted_ok y"
    and "w \<in> watches y \<Longrightarrow> value_of w = None \<Longrightarrow> \<exists>a < next_node (heap y). slot_of w = Some a"
  using assms by (simp_all add: winv_def)

lemma winv_records:
  assumes "winv y"
  shows "records_ok (heap y) (notifiers (heap y) i)"
proof -
  note n = winvD(3) [OF assms, unfolded noted_ok_def, THEN spec [of _ i]]
  have "\<exists>l < next_leaf (heap y). lo = Some l" if lo: "lo \<in> set (nf_leaves (notifiers (heap y) i))" for lo
  proof -
    obtain l where l: "lo = Some l" using lo n by (metis option.exhaust)
    then show ?thesis using lo slots_okD(2) [OF winvD(2) [OF assms]] unfolding leaf_ids_def by blast
  qed
  moreover have "\<exists>h :: unit gtree. ad h = r \<and> rep (heap y) h" if "r \<in> set (nf_subtrees (notifiers (heap y) i))" for r
    using that n by (auto simp: cut_ok_def)
  moreover have "a < next_node (heap y) \<and> hasValue (nodes (heap y) a)" if "a \<in> set (nf_values (notifiers (heap y) i))" for a
    using sys_invD(5) [OF winvD(1) [OF assms] that] by (simp add: value_ok_def)
  ultimately show ?thesis using n unfolding records_ok_def by blast
qed

lemma init_winv: "winv (init_sys b)"
  using init_sys_inv [of b] init_slots_ok [of b]
  by (simp add: winv_def noted_ok_def init_sys_def) (simp add: init_store_def world.defs zero_notifier_def)

lemma noted_quiet:
  assumes y: "winv y"
    and same: "\<And>a. a < next_node (heap y) \<Longrightarrow> same_node (nodes (heap y) a) (nodes (heap z) a)"
    and nn: "next_node (heap y) \<le> next_node (heap z)"
    and l: "\<And>i T. live z i = Some T \<Longrightarrow> tepoch T \<noteq> 0 \<Longrightarrow> live y i = Some T"
    and n: "\<And>i. notifiers (heap z) i = notifiers (heap y) i \<or> notifiers (heap z) i = zero_notifier"
  shows "noted_ok z"
proof -
  note yn = winvD(3) [OF y, unfolded noted_ok_def]
  have "(\<forall>a \<in> set (nf_nodes (notifiers (heap z) i)). a < next_node (heap z)) \<and>
     None \<notin> set (nf_leaves (notifiers (heap z) i)) \<and> (\<forall>r \<in> set (nf_subtrees (notifiers (heap z) i)). cut_ok z r)" for i
    using n [of i] yn [THEN spec, of i] nn cut_ok_quiet [OF winvD(1) [OF y] _ same nn l]
    by (auto simp: zero_notifier_def intro: less_le_trans)
  then show ?thesis by (simp add: noted_ok_def)
qed

lemma watch_Chan_ok:
  assumes y: "winv y" and w: "w \<in> watches y"
  obtains ch h where "watch_Chan w (heap y) = Some (ch, h)" and "onward (heap y) h" and "notifiers h = notifiers (heap y)"
    and "\<And>n. value_of w = Some n \<Longrightarrow> \<exists>l. leafp (nodes h n) = Some l \<and> cell_of h (slot_at h (AtLeaf l)) = Some ch"
    and "\<And>n. value_of w = None \<Longrightarrow> slot_of w = Some n \<Longrightarrow> cell_of h (slot_at h (AtNode n)) = Some ch"
proof (cases "value_of w")
  case (Some n)
  obtain ch h l where c: "valueChan n (heap y) = Some (ch, h)" "slots_ok h" "advance (heap y) h" "leafs_kept (heap y) h"
    "leafp (nodes h n) = Some l" "cell_of h (slot_at h (AtLeaf l)) = Some ch"
    by (rule valueChan_ok [OF winvD(2) [OF y]])
  have "hasValue (nodes (heap y) n)" using sys_invD(4) [OF winvD(1) [OF y] w Some] by (simp add: value_ok_def)
  then have "still (heap y) h" using valueChan_still c(1) by blast
  then show ?thesis using that [of ch h] c Some by (simp add: watch_Chan_def onward_def still_def)
next
  case None
  then obtain a where a: "a < next_node (heap y)" "slot_of w = Some a" using winvD(4) [OF y w] by blast
  obtain ch h where c: "node_Chan a (heap y) = Some (ch, h)" "slots_ok h" "advance (heap y) h"
    "cell_of h (slot_at h (AtNode a)) = Some ch" "\<And>b. leafp (nodes h b) = leafp (nodes (heap y) b)"
  proof (rule ref_Chan_ok [OF winvD(2) [OF y], of "AtNode a"])
    show "in_use (heap y) (AtNode a)" using a(1) by simp
  qed (simp add: ref_ops)
  have "still (heap y) h" using node_Chan_still c(1) by blast
  then show ?thesis using that [of ch h] c a None by (simp add: watch_Chan_def onward_def leafs_kept_def still_def)
qed

lemma watch_slots:
  assumes y: "sys_inv y" and t: "t \<in> shared y"
  shows "GetWatch (heap y) t k = Some (w, r) \<Longrightarrow> value_of w = None \<Longrightarrow> \<exists>a < next_node (heap y). slot_of w = Some a"
    and "FirstPrefix (heap y) t k = Some (w, r) \<Longrightarrow> \<exists>a < next_node (heap y). slot_of w = Some a"
proof -
  obtain g :: "unit gtree" where g: "t = Some (ad g)" "tree_ok (heap y) g"
    using sys_invD(2) [OF y t] by (auto simp: shared_ok_def)
  note rp = tree_okD(1,2) [OF g(2)]
  show "\<exists>a < next_node (heap y). slot_of w = Some a" if "GetWatch (heap y) t k = Some (w, r)" "value_of w = None"
    using GetWatch_loop_spec [OF rp ad_in_addrs, of k] that g(1) rep_bound [OF rp(1)]
    by (auto simp: GetWatch_def split: option.splits)
  show "\<exists>a < next_node (heap y). slot_of w = Some a" if "FirstPrefix (heap y) t k = Some (w, r)"
    using prefix_lookup_spec [OF g(2), of k] that g(1) rep_bound [OF rp(1)] by auto
qed

lemma cut_ok_watches [simp]: "cut_ok (y\<lparr>watches := A\<rparr>) r = cut_ok y r"
  by (simp add: cut_ok_def spared_def)

lemma winv_write:
  assumes y: "winv y" and i: "live y i = Some T" and room: "tepoch T = 0 \<longrightarrow> epochCounter (heap y) < epochMask"
    and x: "txn_exec p (T, heap y) = Some (r, T', h')" and z: "z = y\<lparr>heap := h', live := (live y)(i \<mapsto> T')\<rparr>"
  shows "winv z \<and> advance (heap y) (heap z)"
proof -
  let ?h = "heap y"
  note sy = winvD(1) [OF y]
  obtain g :: "unit gtree" where t: "txn_ok T ?h g" using sys_invD(3) [OF sy i] by (auto simp: live_ok_def)
  have sz: "sys_inv z" using inv_write [OF sy i room x] z by simp
  have li: "leaf_ids h'" using txn_exec_leaf_ids [OF x slots_okD(2) [OF winvD(2) [OF y]]] .
  consider "T' = T" "h' = ?h" | g' D cs where "wrote T ?h g T' h' g' D cs {()}"
    using txn_exec_wrote [OF sys_invD(1) [OF sy] t room x, of "()"] by blast
  then show ?thesis
  proof cases
    case 1
    then have "z = y" using z i by (simp add: fun_upd_idem)
    then show ?thesis using y by simp
  next
    case 2
    note wd = wroteD [OF 2] and wf = wrote_frame [OF 2] and lc = nf_log_cases [OF wf(5)]
    have s: "slots_ok h' \<and> advance ?h h'" using wf(6) [OF winvD(2) [OF y] li] .
    have gn: "a < next_node ?h" if "a \<in> set (addrs g)" for a
      using rep_bound [OF tree_okD(1) [OF txn_okD(2) [OF t]] that] .
    note yn = winvD(3) [OF y, unfolded noted_ok_def, rule_format]
    note wc = write_cuts [OF sy i room x t 2 z]
    have "noted_ok z"
      unfolding noted_ok_def
    proof (intro allI conjI ballI)
      fix l
      show "a < next_node (heap z)" if "a \<in> set (nf_nodes (notifiers (heap z) l))" for a
      proof -
        have "a < next_node ?h" using that lc(1) [of l] wd(7) gn yn [of l] z by auto
        then show ?thesis using wf(1) z by simp
      qed
      show "None \<notin> set (nf_leaves (notifiers (heap z) l))" using lc(2) [of l] wd(8) yn [of l] z by auto
      show "cut_ok z q" if "q \<in> set (nf_subtrees (notifiers (heap z) l))" for q
        using that lc(4) [of l] wd(9) yn [of l] wc z by auto
    qed
    then show ?thesis
      using sz s y wf(1) z by (auto simp: winv_def intro: less_le_trans)
  qed
qed

lemma winv_quiet:
  assumes y: "winv y" and z: "sys_inv z" and s: "slots_ok (heap z)" and r: "reads_same (heap y) (heap z)"
    and l: "\<And>i T. live z i = Some T \<Longrightarrow> tepoch T \<noteq> 0 \<Longrightarrow> live y i = Some T"
    and n: "\<And>i. notifiers (heap z) i = notifiers (heap y) i \<or> notifiers (heap z) i = zero_notifier"
    and w: "\<And>w. w \<in> watches z \<Longrightarrow> w \<notin> watches y \<Longrightarrow> value_of w = None \<Longrightarrow> \<exists>a < next_node (heap y). slot_of w = Some a"
  shows "winv z"
proof -
  have nn: "next_node (heap z) = next_node (heap y)"
    and sm: "\<And>a. a < next_node (heap y) \<Longrightarrow> same_node (nodes (heap y) a) (nodes (heap z) a)"
    using r by (simp_all add: reads_same_def)
  have "noted_ok z" using noted_quiet [OF y sm _ l n] nn by simp
  moreover have "\<exists>a < next_node (heap z). slot_of v = Some a" if "v \<in> watches z" "value_of v = None" for v
    using w [OF that(1) _ that(2)] winvD(4) [OF y _ that(2)] nn by auto
  ultimately show ?thesis using z s by (simp add: winv_def)
qed

lemma winv_live:
  assumes "winv y" and "sys_inv z" and "heap z = heap y" and "watches z = watches y"
    and "\<And>i T. live z i = Some T \<Longrightarrow> tepoch T \<noteq> 0 \<Longrightarrow> live y i = Some T"
  shows "winv z \<and> advance (heap y) (heap z)"
  using winv_quiet [OF assms(1,2)] winvD(2) [OF assms(1)] assms(3-5) by simp

theorem winv_step: "step y z \<Longrightarrow> winv y \<Longrightarrow> winv z \<and> advance (heap y) (heap z)"
proof -
  assume st: "step y z" and y: "winv y"
  note sy = winvD(1) [OF y] and oy = winvD(2) [OF y]
  have sz: "sys_inv z" using inv_step [OF st sy] .
  from st show ?thesis
  proof cases
    case (s_new t h)
    note w = NewTree_ok [OF s_new(2)] and sl = NewTree_slots [OF s_new(2) oy]
    have sm: "same_node (nodes (heap y) a) (nodes h a)" if "a < next_node (heap y)" for a using w(5) that by simp
    have "noted_ok z" by (rule noted_quiet [OF y]) (use s_new sm w in simp_all)
    moreover have "\<exists>a < next_node (heap z). slot_of v = Some a" if "v \<in> watches z" "value_of v = None" for v
      using winvD(4) [OF y _ that(2)] that(1) s_new w(6) less_SucI by fastforce
    ultimately show ?thesis using sz sl s_new by (simp add: winv_def)
  next
    case (s_write i T p r T' h)
    show ?thesis by (rule winv_write [OF y s_write(2-4) s_write(1)])
  next
    case (s_watch t k w r)
    have "winv z"
      by (rule winv_quiet [OF y sz]) (use s_watch oy watch_slots(1) [OF sy s_watch(2,3)] in auto)
    then show ?thesis using s_watch by simp
  next
    case (s_watch_prefix t k w r)
    have "winv z"
      by (rule winv_quiet [OF y sz]) (use s_watch_prefix oy watch_slots(2) [OF sy s_watch_prefix(2,3)] in auto)
    then show ?thesis using s_watch_prefix by simp
  next
    case (s_chan w c h)
    obtain ch h2 where c: "watch_Chan w (heap y) = Some (ch, h2)" "onward (heap y) h2" "notifiers h2 = notifiers (heap y)"
      by (rule watch_Chan_ok [OF y s_chan(2)])
    then have h: "h2 = h" using s_chan(3) by simp
    have "winv z" by (rule winv_quiet [OF y sz]) (use s_chan h c(3) onwardD [OF c(2)] in simp_all)
    then show ?thesis using s_chan h onwardD(2) [OF c(2)] by simp
  next
    case (s_notify n h)
    obtain h2 where c: "Notify n (heap y) = Some h2" "slots_ok h2" "advance (heap y) h2" "reads_same (heap y) h2"
      "notifiers h2 = (notifiers (heap y))(n := zero_notifier)"
      by (rule Notify_seals [OF oy winv_records [OF y]])
    then have h: "h2 = h" using s_notify(2) by simp
    have "winv z" by (rule winv_quiet [OF y sz]) (use s_notify h c in simp_all)
    then show ?thesis using s_notify h c(3) by simp
  next
    case (s_reset n)
    have sl: "slots_ok (heap z)" "advance (heap y) (heap z)"
      using slots_notifiers [OF oy, of "(notifiers (heap y))(n := zero_notifier)"] s_reset
      by (simp_all add: ResetNotifier_def zero_notifier_def)
    have "winv z"
      by (rule winv_quiet [OF y sz sl(1)]) (use s_reset in \<open>simp_all add: ResetNotifier_def reads_same_def\<close>)
    then show ?thesis using sl(2) by simp
  next
    case (s_start t i nf)
    show ?thesis by (rule winv_live [OF y sz]) (use s_start in \<open>auto simp: StartTxn_def split: if_splits\<close>)
  next
    case (s_freeze i T)
    show ?thesis by (rule winv_live [OF y sz]) (use s_freeze in \<open>auto simp: Freeze_def split: if_splits\<close>)
  next
    case (s_commit i T t T')
    show ?thesis by (rule winv_live [OF y sz]) (use s_commit in \<open>auto split: if_splits\<close>)
  next
    case (s_abort i T)
    show ?thesis by (rule winv_live [OF y sz]) (use s_abort in \<open>auto split: if_splits\<close>)
  qed
qed

lemma steps_winv: "steps y z \<Longrightarrow> winv y \<Longrightarrow> winv z"
  unfolding steps_def by (induction rule: rtranclp_induct) (auto dest: winv_step)

lemma reachable_winv: "reachable y \<Longrightarrow> winv y"
  unfolding reachable_def using steps_winv init_winv by blast

section \<open>Channels that were handed out\<close>

text \<open>The slot behind a watch: a node's own, or the one of its value's leaf once there is a leaf.\<close>

definition watch_ref :: "'v store \<Rightarrow> watch \<Rightarrow> slot_ref option" where
  "watch_ref s w = (case value_of w of Some n \<Rightarrow> map_option AtLeaf (leafp (nodes s n))
     | None \<Rightarrow> map_option AtNode (slot_of w))"

definition watch_sealed :: "'v store \<Rightarrow> watch \<Rightarrow> bool" where
  "watch_sealed s w \<longleftrightarrow> (\<exists>x. watch_ref s w = Some x \<and> in_use s x \<and> slot_Sealed (slot_at s x))"

text \<open>The watch \<open>w\<close> has given out the channel \<open>c\<close>: its slot holds it, or is sealed and \<open>c\<close> is closed.\<close>

definition watching :: "'v store \<Rightarrow> watch \<Rightarrow> chan \<Rightarrow> bool" where
  "watching s w c \<longleftrightarrow> (\<exists>x. watch_ref s w = Some x \<and> in_use s x \<and>
     (cell_of s (slot_at s x) = Some c \<or> slot_Sealed (slot_at s x) \<and> is_closed s c))"

lemma watching_closed:
  assumes "slots_ok s" and "watching s w c" and "watch_sealed s w"
  shows "is_closed s c"
proof -
  obtain x where x: "watch_ref s w = Some x" "slot_Sealed (slot_at s x)"
    "cell_of s (slot_at s x) = Some c \<or> is_closed s c"
    using assms(2,3) by (auto simp: watching_def watch_sealed_def)
  then show ?thesis
    using world_okD(2,3) [OF slots_okD(1) [OF assms(1)]] by (auto simp: slot_Sealed_def cell_of_def is_closed_def)
qed

lemma watching_advance:
  assumes s: "slots_ok s" and a: "advance s s'" and r: "\<And>x. watch_ref s w = Some x \<Longrightarrow> watch_ref s' w = Some x"
    and w: "watching s w c"
  shows "watching s' w c"
proof -
  obtain x where x: "watch_ref s w = Some x" "in_use s x"
    "cell_of s (slot_at s x) = Some c \<or> slot_Sealed (slot_at s x) \<and> is_closed s c"
    using w by (auto simp: watching_def)
  have cl: "closed s n \<Longrightarrow> closed s' n" for n using a by (simp add: advance_def)
  have u: "in_use s' x" using a x(2) by (simp add: advance_def)
  have "cell_of s' (slot_at s' x) = Some c \<or> slot_Sealed (slot_at s' x) \<and> is_closed s' c"
  proof (cases "slot_Sealed (slot_at s x)")
    case True
    then have "is_closed s c"
      using x(3) world_okD(2,3) [OF slots_okD(1) [OF s]] by (auto simp: slot_Sealed_def cell_of_def is_closed_def)
    then show ?thesis using advance_sealed [OF a x(2) True] cl by (auto simp: is_closed_def split: option.splits)
  next
    case False
    then obtain e where e: "slot_at s x = Some e" "cell_ch s e = c"
      using x(3) by (auto simp: cell_of_def split: option.splits)
    then have "e \<noteq> sealedCell" using False by (auto simp: slot_Sealed_def)
    then obtain n where n: "c = Some n" using slots_okD(5) [OF s x(2)] e by (auto simp: slot_ok_def)
    have "slot_at s' x = Some e \<or> slot_at s' x = Some sealedCell \<and> closed s' n" and "cell_ch s' e = Some n"
      using a x(2) e n unfolding advance_def by blast+
    then show ?thesis using n by (auto simp: cell_of_def slot_Sealed_def is_closed_def)
  qed
  then show ?thesis using r [OF x(1)] u unfolding watching_def by blast
qed

lemma watch_ref_step:
  assumes "step y z" and y: "winv y" and w: "w \<in> watches y" and x: "watch_ref (heap y) w = Some x"
  shows "watch_ref (heap z) w = Some x"
proof (cases "value_of w")
  case None
  with x show ?thesis by (simp add: watch_ref_def)
next
  case (Some n)
  then have "value_ok y n" using sys_invD(4) [OF winvD(1) [OF y] w] by simp
  then have "agree {n} (heap y) (heap z)"
    using step_settled [OF assms(1) winvD(1) [OF y], of "{n}"] by (simp add: value_ok_def)
  then show ?thesis using x Some by (auto simp: watch_ref_def agree_def same_node_def)
qed

lemma step_watches: "step y z \<Longrightarrow> watches y \<subseteq> watches z"
  by (auto elim!: stepE)

lemma watching_steps:
  assumes "steps y z" and "winv y" and "w \<in> watches y" and "watching (heap y) w c"
  shows "watching (heap z) w c \<and> w \<in> watches z"
  using assms(1) unfolding steps_def
proof (induction rule: rtranclp_induct)
  case base
  then show ?case using assms by simp
next
  case (step u z)
  have u: "winv u" using steps_winv [of y u] step(1) assms(2) by (simp add: steps_def)
  have "watch_ref (heap u) w = Some x \<Longrightarrow> watch_ref (heap z) w = Some x" for x
    using watch_ref_step [OF step(2) u] step(3) by blast
  then show ?case
    using watching_advance [OF winvD(2) [OF u]] winv_step [OF step(2) u] step(3) step_watches [OF step(2)]
    by (metis subsetD)
qed

lemma watch_Chan_watching:
  assumes y: "winv y" and w: "w \<in> watches y" and c: "watch_Chan w (heap y) = Some (c, h)"
  shows "watching h w c" and "onward (heap y) h" and "winv (y\<lparr>heap := h\<rparr>)"
proof -
  obtain ch h2 where h: "watch_Chan w (heap y) = Some (ch, h2)" "onward (heap y) h2"
    "\<And>n. value_of w = Some n \<Longrightarrow> \<exists>l. leafp (nodes h2 n) = Some l \<and> cell_of h2 (slot_at h2 (AtLeaf l)) = Some ch"
    "\<And>n. value_of w = None \<Longrightarrow> slot_of w = Some n \<Longrightarrow> cell_of h2 (slot_at h2 (AtNode n)) = Some ch"
    by (rule watch_Chan_ok [OF y w]) blast
  then have e: "ch = c" "h2 = h" using c by simp_all
  note o = onwardD [OF h(2) [unfolded e]]
  show "onward (heap y) h" using h(2) e by simp
  show "winv (y\<lparr>heap := h\<rparr>)" using winv_step [OF s_chan [OF w c] y] by simp
  show "watching h w c"
  proof (cases "value_of w")
    case (Some n)
    then obtain l where l: "leafp (nodes h n) = Some l" "cell_of h (slot_at h (AtLeaf l)) = Some c" using h(3) e by blast
    then show ?thesis using Some slots_leaf [OF o(1) l(1)] by (auto simp: watching_def watch_ref_def)
  next
    case None
    then obtain a where a: "a < next_node (heap y)" "slot_of w = Some a" using winvD(4) [OF y w] by blast
    then show ?thesis using None h(4) [OF None a(2)] e o(5) by (auto simp: watching_def watch_ref_def reads_same_def)
  qed
qed

text \<open>A channel that some watcher took from \<open>w\<close> before the state \<open>y\<close>.\<close>

definition handed :: "'v sys \<Rightarrow> watch \<Rightarrow> chan \<Rightarrow> bool" where
  "handed y w c \<longleftrightarrow> (\<exists>u h. reachable u \<and> w \<in> watches u \<and> watch_Chan w (heap u) = Some (c, h) \<and> steps (u\<lparr>heap := h\<rparr>) y)"

lemma handed_watching: "handed y w c \<Longrightarrow> watching (heap y) w c \<and> w \<in> watches y \<and> winv y"
proof -
  assume "handed y w c"
  then obtain u h where u: "reachable u" "w \<in> watches u" "watch_Chan w (heap u) = Some (c, h)" "steps (u\<lparr>heap := h\<rparr>) y"
    by (auto simp: handed_def)
  note c = watch_Chan_watching [OF reachable_winv [OF u(1)] u(2,3)]
  show ?thesis using watching_steps [OF u(4) c(3), of w c] c(1) u(2) steps_winv [OF u(4) c(3)] by simp
qed

text \<open>Once the watch is sealed, every channel it gave out is closed.\<close>

lemma handed_closed: "handed y w c \<Longrightarrow> watch_sealed (heap y) w \<Longrightarrow> is_closed (heap y) c"
  using handed_watching watching_closed winvD(2) by blast

end
