(* ===== verification/Tracking.thy ===== *)
theory Tracking
  imports Watch_Spot Watch_Inv
begin

text \<open>
  A transaction followed from the tree it started with.  Every node of that tree, and every value in
  it, is at any time either still in the transaction's tree or covered by the records of its
  notifier; what is still there covers the same keys as before.
\<close>

section \<open>Records that cover a node or a value\<close>

text \<open>\<open>e\<close> lies in a subtree recorded as a whole.\<close>

definition beneath :: "'v store \<Rightarrow> notifier \<Rightarrow> addr \<Rightarrow> bool" where
  "beneath s N e \<longleftrightarrow> (\<exists>h :: addr option gtree. ad h \<in> set (nf_subtrees N) \<and> rep s h \<and> e \<in> set (addrs h))"

definition same_leaf :: "'v store \<Rightarrow> addr \<Rightarrow> addr \<Rightarrow> bool" where
  "same_leaf s a e \<longleftrightarrow> e = a \<or> leafp (nodes s a) \<noteq> None \<and> leafp (nodes s e) = leafp (nodes s a)"

definition ncov :: "'v store \<Rightarrow> notifier \<Rightarrow> addr \<Rightarrow> bool" where
  "ncov s N a \<longleftrightarrow> a \<in> set (nf_nodes N) \<or> beneath s N a"

definition vcov :: "'v store \<Rightarrow> notifier \<Rightarrow> addr \<Rightarrow> bool" where
  "vcov s N a \<longleftrightarrow> leafp (nodes s a) \<noteq> None \<and> leafp (nodes s a) \<in> set (nf_leaves N) \<or>
     (\<exists>e. same_leaf s a e \<and> (e \<in> set (nf_values N) \<or> hasValue (nodes s e) \<and> beneath s N e))"

text \<open>What the records refer to is left alone.\<close>

definition recs_agree :: "'v store \<Rightarrow> 'v store \<Rightarrow> notifier \<Rightarrow> bool" where
  "recs_agree s s' N \<longleftrightarrow> next_node s \<le> next_node s' \<and>
     (\<forall>e. e \<in> set (nf_values N) \<or> beneath s N e \<longrightarrow> same_node (nodes s e) (nodes s' e))"

lemma beneath_on: "recs_agree s s' N \<Longrightarrow> beneath s N e \<Longrightarrow> beneath s' (nf_add N D) e"
proof -
  assume r: "recs_agree s s' N" and "beneath s N e"
  then obtain h :: "addr option gtree" where h: "ad h \<in> set (nf_subtrees N)" "rep s h" "e \<in> set (addrs h)"
    by (auto simp: beneath_def)
  have "agree (set (addrs h)) s s'" using r h unfolding agree_def recs_agree_def beneath_def by blast
  then have "rep s' h" using frame_rep h(2) by blast
  then show ?thesis using h by (auto simp: beneath_def)
qed

lemma ncov_on: "recs_agree s s' N \<Longrightarrow> ncov s N a \<Longrightarrow> ncov s' (nf_add N D) a"
  using beneath_on [of s s' N a D] by (auto simp: ncov_def)

lemma vcov_on:
  assumes r: "recs_agree s s' N" and a: "same_node (nodes s a) (nodes s' a)" and v: "vcov s N a"
  shows "vcov s' (nf_add N D) a"
proof -
  have e: "same_leaf s' a e" if "same_leaf s a e" "same_node (nodes s e) (nodes s' e)" for e
    using that a by (auto simp: same_leaf_def same_node_def)
  from v consider "leafp (nodes s a) \<noteq> None" "leafp (nodes s a) \<in> set (nf_leaves N)"
    | e where "same_leaf s a e" "e \<in> set (nf_values N)"
    | e where "same_leaf s a e" "hasValue (nodes s e)" "beneath s N e"
    unfolding vcov_def by blast
  then show ?thesis
  proof cases
    case 1
    then have "leafp (nodes s' a) = leafp (nodes s a)" using a by (simp add: same_node_def)
    then show ?thesis using 1 by (simp add: vcov_def)
  next
    case 2
    have "same_node (nodes s e) (nodes s' e)" using r 2(2) by (simp add: recs_agree_def)
    then show ?thesis using e 2 by (auto simp: vcov_def)
  next
    case 3
    have "same_node (nodes s e) (nodes s' e)" using r 3(3) by (simp add: recs_agree_def)
    then have "same_leaf s' a e" "hasValue (nodes s' e)" using e 3 same_node_hasValue by blast+
    moreover have "beneath s' (nf_add N D) e" using beneath_on [OF r 3(3)] .
    ultimately show ?thesis unfolding vcov_def by blast
  qed
qed

text \<open>Sealing everything recorded seals what is covered.\<close>

lemma sealed_beneath:
  assumes a: "all_sealed s' N" and r: "reads_same s s'" and u: "beneath s N e"
  shows "node_sealed s' e \<and> (hasValue (nodes s' e) \<longrightarrow> value_sealed s' e)"
proof -
  obtain h :: "addr option gtree" where h: "ad h \<in> set (nf_subtrees N)" "rep s h" "e \<in> set (addrs h)"
    using u by (auto simp: beneath_def)
  obtain k :: "unit gtree" where k: "ad k = ad h" "rep s' k" "tree_sealed s' k"
    using a h(1) unfolding all_sealed_def by blast
  have "rep s' h" using frame_rep [OF reads_same_agree [OF r h(2)] h(2)] by blast
  then have "e \<in> set (addrs k)" using rep_addrs k(1,2) h(3) by metis
  then show ?thesis by (rule tree_sealedD [OF k(3)])
qed

lemma ncov_sealed: "all_sealed s' N \<Longrightarrow> reads_same s s' \<Longrightarrow> ncov s N a \<Longrightarrow> node_sealed s' a"
  using sealed_beneath by (auto simp: ncov_def all_sealed_def)

lemma vcov_sealed:
  assumes a: "all_sealed s' N" and r: "reads_same s s'" and l: "leafs_kept s s'" and v: "vcov s N a"
    and n: "a < next_node s" "\<And>e. beneath s N e \<Longrightarrow> e < next_node s"
  shows "value_sealed s' a"
proof -
  have kept: "leafp (nodes s' b) = leafp (nodes s b)" if "leafp (nodes s b) \<noteq> None" for b
    using l that by (auto simp: leafs_kept_def)
  have sh: "value_sealed s' a" if "same_leaf s a e" "value_sealed s' e" for e
    using that kept [of a] kept [of e] by (auto simp: same_leaf_def value_sealed_def)
  from v consider "leafp (nodes s a) \<noteq> None" "leafp (nodes s a) \<in> set (nf_leaves N)"
    | e where "same_leaf s a e" "e \<in> set (nf_values N)"
    | e where "same_leaf s a e" "hasValue (nodes s e)" "beneath s N e"
    unfolding vcov_def by blast
  then show ?thesis
  proof cases
    case 1
    then show ?thesis using a kept [OF 1(1)] by (simp add: all_sealed_def value_sealed_def)
  next
    case 2
    then show ?thesis using a sh by (simp add: all_sealed_def)
  next
    case 3
    have "same_node (nodes s e) (nodes s' e)" using r n(2) [OF 3(3)] by (simp add: reads_same_def)
    then have "hasValue (nodes s' e)" using same_node_hasValue 3(2) by blast
    then show ?thesis using sealed_beneath [OF a r 3(3)] sh [OF 3(1)] by blast
  qed
qed

section \<open>What is left of the tree a transaction started with\<close>

definition held :: "'v store \<Rightarrow> addr \<Rightarrow> addr \<Rightarrow> bool" where
  "held s a b \<longleftrightarrow> b = a \<or> leafp (nodes s a) \<noteq> None \<and> leafp (nodes s b) = leafp (nodes s a) \<and> \<not> leafOwned (nodes s b)"

lemma held_leaf: "held s a b \<Longrightarrow> same_leaf s a b"
  by (auto simp: held_def same_leaf_def)

definition tracks :: "'v store \<Rightarrow> addr option gtree \<Rightarrow> addr option gtree \<Rightarrow> notifier \<Rightarrow> bool" where
  "tracks s g0 g N \<longleftrightarrow> tree_ok s g0 \<and> own_tags s g0 \<and>
     (\<forall>k v a. tagged s g k = Some v \<longrightarrow> tag_of v = Some a \<longrightarrow> tagged s g0 k = Some v) \<and>
     (\<forall>a b. (b, Some a) \<in> vnodes s g \<longrightarrow> (a, Some a) \<in> vnodes s g0 \<and> held s a b) \<and>
     (\<forall>a. (a, Some a) \<in> vnodes s g0 \<longrightarrow> (\<exists>b. (b, Some a) \<in> vnodes s g) \<or> vcov s N a) \<and>
     (\<forall>a \<in> set (addrs g0). a \<in> set (addrs g) \<or> ncov s N a) \<and>
     (\<forall>b \<in> set (addrs g0) \<inter> set (addrs g). hasValue (nodes s b) \<longrightarrow> (b, Some b) \<in> vnodes s g)"

lemma tracksD:
  assumes "tracks s g0 g N"
  shows "tree_ok s g0" and "own_tags s g0" and "tagged s g k = Some v \<Longrightarrow> tag_of v = Some a \<Longrightarrow> tagged s g0 k = Some v"
    and "(b, Some a) \<in> vnodes s g \<Longrightarrow> (a, Some a) \<in> vnodes s g0" and "(b, Some a) \<in> vnodes s g \<Longrightarrow> held s a b"
    and "(a, Some a) \<in> vnodes s g0 \<Longrightarrow> (\<exists>b. (b, Some a) \<in> vnodes s g) \<or> vcov s N a"
    and "a \<in> set (addrs g0) \<Longrightarrow> a \<in> set (addrs g) \<or> ncov s N a"
    and "a \<in> set (addrs g0) \<Longrightarrow> a \<in> set (addrs g) \<Longrightarrow> hasValue (nodes s a) \<Longrightarrow> (a, Some a) \<in> vnodes s g"
  by (use assms [unfolded tracks_def] in blast)+

lemma tracks_start:
  assumes "tree_ok s g"
  shows "tracks s (retag g) (retag g) N"
proof -
  have o: "own_tags s (retag g)" by (rule own_tags_retag)
  have v: "(b, Some b) \<in> vnodes s (retag g)" if b: "b \<in> set (addrs (retag g))" "hasValue (nodes s b)" for b
  proof -
    obtain y where "(b, y) \<in> vnodes s (retag g)" using vnodes_ex [OF b] by blast
    then show ?thesis using o unfolding own_tags_def by metis
  qed
  have h: "a = b" if "(b, Some a) \<in> vnodes s (retag g)" for a b using o that unfolding own_tags_def by blast
  have ok: "tree_ok s (retag g)" using assms by (simp only: retag_ok)
  have "(a, Some a) \<in> vnodes s (retag g) \<and> held s a b" if "(b, Some a) \<in> vnodes s (retag g)" for a b
    using h [OF that] that by (simp add: held_def)
  then show ?thesis unfolding tracks_def using ok o v by blast
qed

section \<open>Steps that leave the transaction's tree alone\<close>

lemma tagged_agree: "agree (set (addrs g)) s s' \<Longrightarrow> tagged s' g = tagged s g"
  by (simp add: tagged_def frame_absh)

lemma held_agree: "same_node (nodes s a) (nodes s' a) \<Longrightarrow> same_node (nodes s b) (nodes s' b) \<Longrightarrow> held s a b \<Longrightarrow> held s' a b"
  by (auto simp: held_def same_node_def leafOwned_def)

lemma tracks_agree:
  assumes t: "tracks s g0 g N" and b: "agree (set (addrs g0)) s s'" and c: "agree (set (addrs g)) s s'" and r: "recs_agree s s' N"
  shows "tracks s' g0 g (nf_add N D)"
proof -
  note td = tracksD [OF t] and v0 = vnodes_agree [OF b] and v = vnodes_agree [OF c]
  have sn: "same_node (nodes s a) (nodes s' a)" if "a \<in> set (addrs g0) \<union> set (addrs g)" for a
    using b c that by (auto simp: agree_def)
  have n0: "same_node (nodes s a) (nodes s' a)" if "(a, y) \<in> vnodes s g0" for a y using vnodes_addrs [OF that] sn by blast
  have n1: "same_node (nodes s a) (nodes s' a)" if "(a, y) \<in> vnodes s g" for a y using vnodes_addrs [OF that] sn by blast
  show ?thesis
    unfolding tracks_def
  proof (intro conjI allI impI ballI)
    show "tree_ok s' g0" using tree_ok_agree [OF td(1) b] by simp
    show "own_tags s' g0" using td(2) v0 by (simp add: own_tags_def)
    show "tagged s' g0 k = Some w" if "tagged s' g k = Some w" "tag_of w = Some a" for k w a
      using td(3) that tagged_agree [OF b] tagged_agree [OF c] by metis
    show "(a, Some a) \<in> vnodes s' g0" if "(d, Some a) \<in> vnodes s' g" for a d using td(4) that v v0 by blast
    show "held s' a d" if "(d, Some a) \<in> vnodes s' g" for a d
      using that td(4,5) [of d a] v held_agree [OF n0 [of a "Some a"] n1 [of d "Some a"]] by blast
    show "(\<exists>d. (d, Some a) \<in> vnodes s' g) \<or> vcov s' (nf_add N D) a" if "(a, Some a) \<in> vnodes s' g0" for a
      using td(6) [of a] that v v0 vcov_on [OF r n0 [of a "Some a"]] by blast
    show "a \<in> set (addrs g) \<or> ncov s' (nf_add N D) a" if "a \<in> set (addrs g0)" for a
      using td(7) [OF that] ncov_on [OF r] by blast
    show "(d, Some d) \<in> vnodes s' g" if "d \<in> set (addrs g0) \<inter> set (addrs g)" "hasValue (nodes s' d)" for d
      using td(8) [of d] that v same_node_hasValue [OF sn, of d] by blast
  qed
qed

section \<open>The transaction's own writes\<close>

lemma tracks_wrote:
  assumes t: "tracks s g0 g N" and g: "tree_ok s g" and w: "wrote T s g T' s' g' D cs {None}"
    and m: "tagged s' g' = tag_op None p (tagged s g)"
    and base: "\<And>a. a \<in> set (addrs g0) \<Longrightarrow> \<not> own_e (tepoch T') (nodes s a)" and r: "recs_agree s s' N"
  shows "tracks s' g0 g' (nf_add N D)"
proof -
  let ?E = "tepoch T'"
  note td = tracksD [OF t] and wd = wroteD [OF w] and wf = wrote_frame [OF w]
  have g0n: "a < next_node s" if "a \<in> set (addrs g0)" for a using rep_bound [OF tree_okD(1) [OF td(1)] that] .
  have gn: "a < next_node s" if "a \<in> set (addrs g)" for a using rep_bound [OF tree_okD(1) [OF g] that] .
  have sn: "same_node (nodes s a) (nodes s' a)" if "a < next_node s" "\<not> own_e ?E (nodes s a)" for a using wf(2) that by blast
  have b: "agree (set (addrs g0)) s s'" using sn g0n base wf(1) by (auto simp: agree_def)
  have n0: "same_node (nodes s a) (nodes s' a)" if "a \<in> set (addrs g0)" for a using b that by (simp add: agree_def)
  note v0 = vnodes_agree [OF b]
  have vals: "(a', y) \<in> vnodes s' g' \<Longrightarrow>
      y = None \<and> own_e ?E (nodes s' a') \<or> (\<exists>a. (a, y) \<in> vnodes s g \<and> heir ?E s s' a a')"
    and vals2: "(a, y) \<in> vnodes s g \<Longrightarrow>
      (\<exists>a'. (a', y) \<in> vnodes s' g') \<or> a \<in> cut_addrs cs \<or> gone ?E s s' D a" for a a' y
    using wd(13) unfolding vals_def by blast+
  have lk: "leafp (nodes s' a) = leafp (nodes s a)" if "a \<in> set (addrs g0)" "leafp (nodes s a) \<noteq> None" for a
    using n0 [OF that(1)] that(2) by (simp add: same_node_def)
  show ?thesis
    unfolding tracks_def
  proof (intro conjI allI impI ballI)
    show "tree_ok s' g0" using tree_ok_agree [OF td(1) b] by simp
    show "own_tags s' g0" using td(2) v0 by (simp add: own_tags_def)
    show "tagged s' g0 k = Some u" if "tagged s' g' k = Some u" "tag_of u = Some a" for k u a
    proof -
      have "tagged s g k = Some u"
        using that unfolding m by (cases p) (auto simp: tag_of_def split: if_splits)
      then show ?thesis using td(3) that(2) tagged_agree [OF b] by metis
    qed
    fix a d assume d': "(d, Some a) \<in> vnodes s' g'"
    obtain c where c: "(c, Some a) \<in> vnodes s g" "heir ?E s s' c d" using vals [OF d'] by blast
    note a0 = td(4) [OF c(1)] and hc = td(5) [OF c(1)]
    have aa: "a \<in> set (addrs g0)" using vnodes_addrs [OF a0] by blast
    show "(a, Some a) \<in> vnodes s' g0" using a0 v0 by blast
    show "held s' a d"
    proof (cases "own_e ?E (nodes s c)")
      case True
      then have "c \<noteq> a" using base [OF aa] by blast
      then have "leafp (nodes s a) \<noteq> None" "leafp (nodes s c) = leafp (nodes s a)" "\<not> leafOwned (nodes s c)"
        using hc by (auto simp: held_def)
      then show ?thesis using c(2) True lk [OF aa] by (simp add: heir_def held_def)
    next
      case False
      have cn: "same_node (nodes s c) (nodes s' c)" using sn [OF gn] vnodes_addrs [OF c(1)] False by blast
      have hc': "held s' a c" by (rule held_agree [OF n0 [OF aa] cn hc])
      from c(2) False consider "d = c"
        | "\<not> leafOwned (nodes s' d)" "leafp (nodes s' d) \<noteq> None" "leafp (nodes s' d) = leafp (nodes s' c)"
        unfolding heir_def by metis
      then show ?thesis
      proof cases
        case 2
        have "leafp (nodes s' c) = leafp (nodes s' a)" using hc' by (auto simp: held_def)
        then show ?thesis using 2 by (simp add: held_def)
      qed (use hc' in simp)
    qed
  next
    fix a assume a': "(a, Some a) \<in> vnodes s' g0"
    then have a0: "(a, Some a) \<in> vnodes s g0" using v0 by blast
    then have aa: "a \<in> set (addrs g0)" using vnodes_addrs [OF a0] by blast
    consider "vcov s N a" | c where "(c, Some a) \<in> vnodes s g" using td(6) [OF a0] by blast
    then show "(\<exists>d. (d, Some a) \<in> vnodes s' g') \<or> vcov s' (nf_add N D) a"
    proof cases
      case 1
      then show ?thesis using vcov_on [OF r n0 [OF aa]] by blast
    next
      case (2 c)
      note hc = td(5) [OF 2]
      have cc: "c < next_node s" "hasValue (nodes s c)" using vnodes_addrs [OF 2] gn by blast+
      have sl: "same_leaf s' a c" if "same_node (nodes s c) (nodes s' c)"
        by (rule held_leaf [OF held_agree [OF n0 [OF aa] that hc]])
      consider "\<exists>d. (d, Some a) \<in> vnodes s' g'" | "c \<in> cut_addrs cs" | "gone ?E s s' D c" using vals2 [OF 2] by blast
      then show ?thesis
      proof cases
        case 2
        then obtain h where h: "h \<in> set cs" "c \<in> set (addrs h)" by (auto simp: cut_addrs_def)
        have same: "nodes s' e = nodes s e" if "e \<in> set (addrs h)" for e using wd(12) [OF h(1) that] .
        have "agree (set (addrs h)) s s'" using same wf(1) by (simp add: agree_def)
        then have "rep s' h" using frame_rep wd(11) [OF h(1)] by blast
        then have "beneath s' (nf_add N D) c" using h wd(9) by (auto simp: beneath_def)
        moreover have "same_leaf s' a c" "hasValue (nodes s' c)" using sl same [OF h(2)] cc(2) by simp_all
        ultimately show ?thesis unfolding vcov_def by blast
      next
        case 3
        show ?thesis
        proof (cases "own_e ?E (nodes s c)")
          case True
          then have "c \<noteq> a" using base [OF aa] by blast
          then have c: "leafp (nodes s a) \<noteq> None" "leafp (nodes s c) = leafp (nodes s a)" "\<not> leafOwned (nodes s c)"
            using hc by (auto simp: held_def)
          then have "leafp (nodes s' a) \<in> set (nf_leaves D)" using 3 True lk [OF aa] by (simp add: gone_def)
          then show ?thesis using c(1) lk [OF aa] by (simp add: vcov_def)
        next
          case False
          have s2: "same_leaf s' a c" using sl [OF sn [OF cc(1) False]] .
          from 3 False consider "c \<in> set (nf_values D)"
            | "leafp (nodes s' c) \<noteq> None" "leafp (nodes s' c) \<in> set (nf_leaves D)" by (auto simp: gone_def)
          then show ?thesis
          proof cases
            case 1
            then show ?thesis using s2 by (auto simp: vcov_def)
          next
            case 2
            moreover have "leafp (nodes s' c) = leafp (nodes s' a)" using s2 by (auto simp: same_leaf_def)
            ultimately show ?thesis by (simp add: vcov_def)
          qed
        qed
      qed blast
    qed
  next
    fix a assume a: "a \<in> set (addrs g0)"
    consider "a \<in> set (addrs g)" "a \<notin> set (addrs g')" | "ncov s N a" | "a \<in> set (addrs g')" using td(7) [OF a] by blast
    then show "a \<in> set (addrs g') \<or> ncov s' (nf_add N D) a"
    proof cases
      case 1
      then have "a \<in> unowned ?E s g - set (addrs g')" using base [OF a] by (simp add: unowned_def)
      then consider "a \<in> set (nf_nodes D)" | h where "h \<in> set cs" "a \<in> set (addrs h)"
        using wd(6) by (auto simp: cut_addrs_def)
      then show ?thesis
      proof cases
        case (2 h)
        have "agree (set (addrs h)) s s'" using wd(12) [OF 2(1)] wf(1) by (simp add: agree_def)
        then have "rep s' h" using frame_rep wd(11) [OF 2(1)] by blast
        then have "beneath s' (nf_add N D) a" using 2 wd(9) by (auto simp: beneath_def)
        then show ?thesis by (simp add: ncov_def)
      qed (simp add: ncov_def)
    qed (use ncov_on [OF r] in auto)
  next
    fix d assume d: "d \<in> set (addrs g0) \<inter> set (addrs g')" "hasValue (nodes s' d)"
    have dn: "d < next_node s" using g0n d(1) by blast
    obtain y where y: "(d, y) \<in> vnodes s' g'" using vnodes_ex d by blast
    have "\<not> own_e ?E (nodes s' d)" using wf(3) [OF dn] base d(1) by blast
    then obtain c where c: "(c, y) \<in> vnodes s g" "heir ?E s s' c d" using vals [OF y] by blast
    then have "c = d" using dn by (auto simp: heir_def)
    then have dg: "(d, y) \<in> vnodes s g" using c(1) by simp
    then have "(d, Some d) \<in> vnodes s g" using td(8) [of d] d(1) vnodes_addrs [OF dg] by blast
    then show "(d, Some d) \<in> vnodes s' g'" using vnodes_fun [OF tree_okD(4) [OF g] dg] y by blast
  qed
qed

section \<open>Unchanged positions keep their keys\<close>

lemma slot_kept:
  assumes t: "tracks s g0 g N" and g: "tree_ok s g" and a: "spot s [] g0 p a" "\<not> ncov s N a" and l: "starts l p"
  shows "tagged s g l = tagged s g0 l"
proof -
  note td = tracksD [OF t]
  obtain u c q where c: "(u, c) \<in> occs s [] g0" "ad c = a" "p = u @ q"
    "u = [] \<and> c = g0 \<or> q \<noteq> [] \<and> hd q = lab_at s c" using a(1) by (auto simp: spot_def)
  have "a \<in> set (addrs g0)" using occs_sub [OF c(1)] c(2) ad_in_addrs by blast
  then have ag: "a \<in> set (addrs g)" using td(7) a(2) by blast
  have tags: "y = z" if y: "(b, y) \<in> vnodes s g0" and z: "(b, z) \<in> vnodes s g" for b y z
  proof -
    have "y = Some b" using td(2) y by (simp add: own_tags_def)
    moreover have "(b, Some b) \<in> vnodes s g" using td(8) [of b] vnodes_addrs [OF y] vnodes_addrs [OF z] by blast
    ultimately show ?thesis using vnodes_fun [OF tree_okD(4) [OF g] z] by blast
  qed
  show ?thesis
  proof (cases "c = g0")
    case True
    obtain u' c' where c': "(u', c') \<in> occs s [] g" "ad c' = a" using occs_addr [OF ag] by blast
    have "prefix (nodes s (ad c')) = []" using tree_okD(3) [OF td(1)] c'(2) c(2) True by simp
    then have "\<not> wf_sub (absh with_tag s c')" using wf_subD(1) absh_sel(1) by metis
    then have "c' = g" using occs_wf [OF c'(1) tree_ok_kids [OF g]] by blast
    then have "ad g0 = ad g" using c'(2) c(2) True by simp
    then have "absh with_tag s g0 = absh with_tag s g"
      by (rule rep_absh [OF tree_okD(1) [OF td(1)] tree_okD(1) [OF g]]) (rule tags)
    then show ?thesis by (simp add: tagged_def)
  next
    case False
    obtain e where e: "l = (u @ q) @ e" using l c(3) by (auto elim: startsE)
    have "tagged s g (u @ q @ e) = tagged s g0 (u @ q @ e)"
      by (rule pos_kept [OF td(1) g td(2) _ _ c(1) False])
        (use td(3) tags ag c(2,4) False in \<open>auto\<close>)
    then show ?thesis using e by simp
  qed
qed

lemma value_kept:
  assumes t: "tracks s g0 g N" and g: "tree_ok s g" and a: "(a, Some a) \<in> vnodes s g0" "tagged s g0 k = Some (Some (v, Some a))"
    and n: "\<not> vcov s N a"
  shows "tagged s g k = Some (Some (v, Some a))"
proof -
  note td = tracksD [OF t]
  obtain b where b: "(b, Some a) \<in> vnodes s g" using td(6) [OF a(1)] n by blast
  obtain l u where l: "tagged s g l = Some (Some (u, Some a))" by (rule vnode_entry [OF g b])
  then have l0: "tagged s g0 l = Some (Some (u, Some a))" using td(3) by (simp add: tag_of_def)
  have "l = k" by (rule tag_key [OF td(1,2) l0 a(2)]) (simp add: tag_of_def)
  then show ?thesis using l l0 a(2) by simp
qed

end
