(* ===== verification/Follow.thy ===== *)
theory Follow
  imports Tracking
begin

text \<open>
  One transaction followed through a run of the whole system, with other transactions, watchers and
  notifications going on, and what its notifier then reaches.
\<close>

section \<open>What a step does to nodes\<close>

text \<open>A step is one transaction's write, or it leaves every node and every other transaction alone.\<close>

definition calm :: "'v sys \<Rightarrow> 'v sys \<Rightarrow> bool" where
  "calm y z \<longleftrightarrow> (\<forall>a < next_node (heap y). same_node (nodes (heap y) a) (nodes (heap z) a)) \<and>
     next_node (heap y) \<le> next_node (heap z) \<and> epochCounter (heap y) \<le> epochCounter (heap z) \<and>
     (\<forall>i T T'. live y i = Some T \<longrightarrow> live z i = Some T' \<longrightarrow> T' = T \<or> T' = Freeze T)"

lemma calm_reads: "reads_same (heap y) (heap z) \<Longrightarrow> live z = live y \<Longrightarrow> calm y z"
  by (simp add: calm_def reads_same_def)

lemma calm_live:
  "heap z = heap y \<Longrightarrow> (\<And>i T T'. live y i = Some T \<Longrightarrow> live z i = Some T' \<Longrightarrow> T' = T \<or> T' = Freeze T) \<Longrightarrow> calm y z"
  by (simp add: calm_def)

lemma step_nodes [consumes 2, case_names calm writes]:
  assumes "step y z" and y: "winv y"
  obtains "calm y z"
    | i T p r T' h where "live y i = Some T" and "tepoch T = 0 \<longrightarrow> epochCounter (heap y) < epochMask"
      and "txn_exec p (T, heap y) = Some (r, T', h)" and "z = y\<lparr>heap := h, live := (live y)(i \<mapsto> T')\<rparr>"
proof -
  note sy = winvD(1) [OF y]
  from assms(1) show ?thesis
  proof cases
    case (s_new t h)
    note w = NewTree_ok [OF s_new(2)]
    have "calm y z" using s_new w(5,6,7) by (simp add: calm_def)
    then show ?thesis by (rule that(1))
  next
    case (s_start t i nf)
    then have "calm y z" by (intro calm_live) (auto split: if_splits)
    then show ?thesis by (rule that(1))
  next
    case (s_write i T p r T' h)
    then show ?thesis by (intro that(2))
  next
    case (s_freeze i T)
    then have "calm y z" by (intro calm_live) (auto split: if_splits)
    then show ?thesis by (rule that(1))
  next
    case (s_commit i T t T')
    then have "calm y z" by (intro calm_live) (auto split: if_splits)
    then show ?thesis by (rule that(1))
  next
    case (s_abort i T)
    then have "calm y z" by (intro calm_live) (auto split: if_splits)
    then show ?thesis by (rule that(1))
  next
    case (s_watch t k w r)
    then have "calm y z" by (intro calm_live) auto
    then show ?thesis by (rule that(1))
  next
    case (s_watch_prefix t k w r)
    then have "calm y z" by (intro calm_live) auto
    then show ?thesis by (rule that(1))
  next
    case (s_chan w c h)
    have "onward (heap y) h" using watch_Chan_watching(2) [OF y s_chan(2,3)] .
    then have "calm y z" using s_chan onwardD(5) by (intro calm_reads) simp_all
    then show ?thesis by (rule that(1))
  next
    case (s_notify n h)
    have "calm y z" using s_notify Notify_same(1) [OF s_notify(2) sys_invD(6) [OF sy]] by (intro calm_reads) simp_all
    then show ?thesis by (rule that(1))
  next
    case (s_reset n)
    then have "calm y z" by (intro calm_reads) (simp_all add: ResetNotifier_def reads_same_def)
    then show ?thesis by (rule that(1))
  qed
qed

lemma calm_agree: "calm y z \<Longrightarrow> A \<subseteq> {..<next_node (heap y)} \<Longrightarrow> agree A (heap y) (heap z)"
  by (auto simp: calm_def agree_def)

section \<open>Recorded objects are left alone by every step\<close>

lemma cut_agree:
  assumes st: "step y z" and y: "winv y" and c: "cut_ok y r" and h: "rep (heap y) (h :: addr option gtree)" "ad h = r"
  shows "agree (set (addrs h)) (heap y) (heap z)"
proof -
  obtain k :: "unit gtree" where k: "ad k = r" "rep (heap y) k" "spared y (set (addrs k))" using c by (auto simp: cut_ok_def)
  have hk: "addrs h = addrs k" using rep_addrs [OF h(1) k(2)] h(2) k(1) by simp
  have A: "set (addrs h) \<subseteq> {..<next_node (heap y)}" using rep_bound [OF h(1)] by auto
  from st y show ?thesis
  proof (cases rule: step_nodes)
    case calm
    then show ?thesis using calm_agree A by blast
  next
    case (writes i T p q T' h')
    note sy = winvD(1) [OF y]
    obtain g :: "unit gtree" where t: "txn_ok T (heap y) g" using sys_invD(3) [OF sy writes(1)] by (auto simp: live_ok_def)
    consider "T' = T" "h' = heap y" | g' D cs where "wrote T (heap y) g T' h' g' D cs {()}"
      using txn_exec_wrote [OF sys_invD(1) [OF sy] t writes(2,3), of "()"] by blast
    then show ?thesis
    proof cases
      case 1
      then show ?thesis using writes(4) by simp
    next
      case 2
      note wf = wrote_frame [OF 2] and fr = wrote_fresh [OF 2 sys_invD(1) [OF sy] t writes(2)]
      have "\<not> own_e (tepoch T') (nodes (heap y) a) \<or> a \<notin> set (addrs g)" if "a \<in> set (addrs h)" for a
      proof (cases "tepoch T = 0")
        case True
        then show ?thesis using fr(1) that A by blast
      next
        case False
        then show ?thesis using k(3) writes(1) t that hk fr(2) unfolding spared_def by metis
      qed
      then show ?thesis using wf(1,2) A writes(4) by (auto simp: agree_def)
    qed
  qed
qed

lemma step_recs: "step y z \<Longrightarrow> winv y \<Longrightarrow> recs_agree (heap y) (heap z) (notifiers (heap y) n)"
proof -
  assume st: "step y z" and y: "winv y"
  note sy = winvD(1) [OF y] and nk = winvD(3) [OF y, unfolded noted_ok_def, rule_format, of n]
  have "same_node (nodes (heap y) e) (nodes (heap z) e)" if "e \<in> set (nf_values (notifiers (heap y) n))" for e
  proof -
    have "value_ok y e" using sys_invD(5) [OF sy that] .
    then show ?thesis using step_settled [OF st sy, of "{e}"] by (simp add: value_ok_def agree_def)
  qed
  moreover have "same_node (nodes (heap y) e) (nodes (heap z) e)" if b: "beneath (heap y) (notifiers (heap y) n) e" for e
  proof -
    obtain h :: "addr option gtree" where h: "ad h \<in> set (nf_subtrees (notifiers (heap y) n))" "rep (heap y) h" "e \<in> set (addrs h)"
      using b by (auto simp: beneath_def)
    have "cut_ok y (ad h)" using nk h(1) by blast
    then show ?thesis using cut_agree [OF st y _ h(2)] h(3) by (simp add: agree_def)
  qed
  moreover have "next_node (heap y) \<le> next_node (heap z)"
    using step_settled [OF st sy, of "{}"] by (simp add: settled_def free_of_def agree_def)
  ultimately show ?thesis unfolding recs_agree_def by blast
qed

section \<open>Following a transaction\<close>

definition follows_txn :: "nat \<Rightarrow> nat \<Rightarrow> addr option gtree \<Rightarrow> 'v sys \<Rightarrow> bool" where
  "follows_txn i n g0 y \<longleftrightarrow> settled y (set (addrs g0)) \<and> rep (heap y) g0 \<and> (\<exists>T g. live y i = Some T \<and> tnf T = Some n \<and>
     txn_ok T (heap y) g \<and> tracks (heap y) g0 g (notifiers (heap y) n))"

text \<open>A step between which the transaction stays open and nothing is taken out of its notifier.\<close>

definition grows :: "nat \<Rightarrow> 'v sys \<Rightarrow> 'v sys \<Rightarrow> bool" where
  "grows n y z \<longleftrightarrow> (\<exists>D. notifiers (heap z) n = nf_add (notifiers (heap y) n) D)"

definition open_step :: "nat \<Rightarrow> nat \<Rightarrow> 'v sys \<Rightarrow> 'v sys \<Rightarrow> bool" where
  "open_step i n y z \<longleftrightarrow> step y z \<and> live y i \<noteq> None \<and> live z i \<noteq> None \<and> grows n y z"

lemma txn_ok_addrs:
  assumes "txn_ok T s g" and "txn_ok T s h"
  shows "addrs g = addrs h"
  using rep_addrs [OF tree_okD(1) [OF txn_okD(2) [OF assms(1)]] tree_okD(1) [OF txn_okD(2) [OF assms(2)]]]
    txn_okD(1) [OF assms(1)] txn_okD(1) [OF assms(2)] by simp

text \<open>The tagged tree after one of the transaction's own writes.\<close>

lemma txn_ok_wrote:
  assumes w: "wrote T s g T' s' g' D cs W" and o: "op_ok T s (gu :: unit gtree) T' s' gu'"
  shows "txn_ok T' s' g'"
proof -
  note wd = wroteD [OF w]
  have "txn_ok T' s' gu'" using o by (simp add: op_ok_def)
  then show ?thesis
    using wd(1-3) txn_okD(3) by (auto simp: txn_ok_def tree_ok_def trep_def)
qed

lemma follow_write:
  assumes y: "winv y" and f: "follows_txn i n g0 y" and i: "live y i = Some T"
    and room: "tepoch T = 0 \<longrightarrow> epochCounter (heap y) < epochMask" and x: "txn_exec p (T, heap y) = Some (r, T', h')"
    and z: "z = y\<lparr>heap := h', live := (live y)(i \<mapsto> T')\<rparr>"
  shows "follows_txn i n g0 z"
proof -
  note sy = winvD(1) [OF y] and s = sys_invD(1) [OF sy]
  obtain g where g: "tnf T = Some n" "txn_ok T (heap y) g" "tracks (heap y) g0 g (notifiers (heap y) n)"
    and st: "settled y (set (addrs g0))" and r0: "rep (heap y) g0" using f i by (auto simp: follows_txn_def)
  have A: "set (addrs g0) \<subseteq> {..<next_node (heap y)}" using rep_bound [OF r0] by auto
  have step: "step y z" unfolding z by (rule s_write [OF i room x])
  have s0: "settled z (set (addrs g0))" "agree (set (addrs g0)) (heap y) (heap z)"
    using step_settled [OF step sy st A] by simp_all
  have rz: "rep (heap z) g0" using frame_rep s0(2) r0 by blast
  consider "T' = T" "h' = heap y"
    | g' D cs where "wrote T (heap y) g T' h' g' D cs {None}" "tagged h' g' = tag_op None p (tagged (heap y) g)"
    using txn_exec_wrote [OF s g(2) room x, of None] by blast
  then show ?thesis
  proof cases
    case 1
    then have "z = y" using z i by (simp add: fun_upd_idem)
    then show ?thesis using f by simp
  next
    case 2
    note wf = wrote_frame [OF 2(1)] and fr = wrote_fresh [OF 2(1) s g(2) room]
    obtain gu gu' :: "unit gtree" where o: "op_ok T (heap y) gu T' h' gu'"
      by (rule write_frame [OF sy i room x]) blast
    have base: "\<not> own_e (tepoch T') (nodes (heap y) a)" if "a \<in> set (addrs g0)" for a
    proof (cases "tepoch T = 0")
      case True
      then show ?thesis using fr(1) A that by blast
    next
      case False
      then show ?thesis using st i that fr(2) by (simp add: settled_def free_of_def)
    qed
    have tr: "tracks h' g0 g' (nf_add (notifiers (heap y) n) D)"
      by (rule tracks_wrote [OF g(3) txn_okD(2) [OF g(2)] 2 base]) (use step_recs [OF step y, of n] z in simp_all)
    have "notifiers h' n = nf_add (notifiers (heap y) n) D" using wf(5) g(1) by (simp add: nf_log_def)
    moreover have "tnf T' = Some n" using o g(1) by (simp add: op_ok_def)
    moreover have "txn_ok T' h' g'" by (rule txn_ok_wrote [OF 2(1) o])
    ultimately show ?thesis
      unfolding follows_txn_def using s0(1) rz tr z by (intro conjI exI [of _ T'] exI [of _ g']) simp_all
  qed
qed

lemma follow_step:
  assumes st: "open_step i n y z" and y: "winv y" and f: "follows_txn i n g0 y"
  shows "follows_txn i n g0 z"
proof -
  have step: "step y z" and lz: "live z i \<noteq> None" and gr: "grows n y z" using st by (simp_all add: open_step_def)
  note sy = winvD(1) [OF y] and s = sys_invD(1) [OF sy]
  obtain T g where i: "live y i = Some T" and g: "tnf T = Some n" "txn_ok T (heap y) g" "tracks (heap y) g0 g (notifiers (heap y) n)"
    and se: "settled y (set (addrs g0))" and r0: "rep (heap y) g0" using f by (auto simp: follows_txn_def)
  have A: "set (addrs g0) \<subseteq> {..<next_node (heap y)}" using rep_bound [OF r0] by auto
  have s0: "settled z (set (addrs g0))" "agree (set (addrs g0)) (heap y) (heap z)"
    using step_settled [OF step sy se A] by simp_all
  have B: "set (addrs g) \<subseteq> {..<next_node (heap y)}" using rep_bound [OF tree_okD(1) [OF txn_okD(2) [OF g(2)]]] by auto
  obtain D where D: "notifiers (heap z) n = nf_add (notifiers (heap y) n) D" using gr by (auto simp: grows_def)
  have quiet: "follows_txn i n g0 z"
    if c: "agree (set (addrs g)) (heap y) (heap z)" and T': "live z i = Some T'" "T' = T \<or> T' = Freeze T"
      and e: "epochCounter (heap y) \<le> epochCounter (heap z)" for T'
  proof -
    have "txn_ok T (heap z) g" by (rule txn_ok_agree [OF g(2) c e])
    then have "txn_ok T' (heap z) g" using T'(2) by (auto simp: txn_ok_def Freeze_def)
    moreover have "tnf T' = Some n" using T'(2) g(1) by (auto simp: Freeze_def)
    moreover have "tracks (heap z) g0 g (notifiers (heap z) n)"
      unfolding D by (rule tracks_agree [OF g(3) s0(2) c step_recs [OF step y]])
    moreover have "rep (heap z) g0" using frame_rep s0(2) r0 by blast
    ultimately show ?thesis unfolding follows_txn_def using s0(1) T'(1) by blast
  qed
  from step y show ?thesis
  proof (cases rule: step_nodes)
    case calm
    obtain T' where T': "live z i = Some T'" using lz by auto
    then have "T' = T \<or> T' = Freeze T" using calm i by (simp add: calm_def)
    then show ?thesis using quiet [OF calm_agree [OF calm B] T'] calm by (simp add: calm_def)
  next
    case (writes j U p r U' h)
    show ?thesis
    proof (cases "j = i")
      case True
      then show ?thesis using follow_write [OF y f] writes by blast
    next
      case False
      obtain gi :: "unit gtree" where gi: "txn_ok T (heap y) gi"
        "\<And>l V. l \<noteq> i \<Longrightarrow> live y l = Some V \<Longrightarrow> free_of V (heap y) (set (addrs gi))"
        using sys_invD(3) [OF sy i] by (auto simp: live_ok_def)
      have fr: "free_of U (heap y) {a}" if "a \<in> set (addrs g)" for a
        using gi(2) [OF False writes(1)] txn_ok_addrs [OF g(2) gi(1)] that by (auto simp: free_of_def)
      obtain gu gu' :: "unit gtree" where o: "op_ok U (heap y) gu U' h gu'"
        by (rule write_frame [OF sy writes(1-3)]) blast
      have k: "next_node (heap y) \<le> next_node h" "epochCounter (heap y) \<le> epochCounter h"
        using o by (simp_all add: op_ok_def keeps_def)
      have "agree (set (addrs g)) (heap y) (heap z)"
        using op_ok_writer(1) [OF s o] fr B k writes(4) by (auto simp: agree_def)
      then show ?thesis by (rule quiet [where T' = T]) (use i False writes(4) k in simp_all)
    qed
  qed
qed

lemma follow_steps:
  assumes "(open_step i n)\<^sup>*\<^sup>* y z" and "winv y" and "follows_txn i n g0 y"
  shows "follows_txn i n g0 z \<and> winv z"
  using assms(1)
proof (induction rule: rtranclp_induct)
  case (step u z)
  then have "winv z" using winv_step by (auto simp: open_step_def)
  then show ?case using follow_step step by blast
qed (use assms(2,3) in simp)

lemma follow_start:
  assumes x: "winv x" and t: "t \<in> shared x" and i: "live x i = Some (StartTxn t (Some n))"
  obtains g :: "unit gtree" where "t = Some (ad g)" and "tree_ok (heap x) g" and "follows_txn i n (retag g) x"
proof -
  obtain g :: "unit gtree" where g: "t = Some (ad g)" "tree_ok (heap x) g" "settled x (set (addrs g))"
    using sys_invD(2) [OF winvD(1) [OF x] t] by (auto simp: shared_ok_def)
  have "txn_ok (StartTxn t (Some n)) (heap x) (retag g)" using StartTxn_ok [OF g(2)] g(1) by (simp add: retag_ok)
  then have "follows_txn i n (retag g) x"
    using g i tracks_start [OF g(2)] tree_okD(1) [OF g(2)]
    by (auto simp: follows_txn_def retag_rep StartTxn_def intro!: exI [of _ "retag g"])
  then show ?thesis using that g by blast
qed

section \<open>Notification\<close>

text \<open>After the transaction, too: records are only added, so what is covered stays covered.\<close>

definition later :: "nat \<Rightarrow> 'v sys \<Rightarrow> 'v sys \<Rightarrow> bool" where
  "later n y z \<longleftrightarrow> step y z \<and> grows n y z"

lemma later_covers:
  assumes "(later n)\<^sup>*\<^sup>* y z" and y: "winv y" and a: "a < next_node (heap y)" "settled y {a}"
  shows "winv z \<and> a < next_node (heap z) \<and> settled z {a} \<and>
    (ncov (heap y) (notifiers (heap y) n) a \<longrightarrow> ncov (heap z) (notifiers (heap z) n) a) \<and>
    (vcov (heap y) (notifiers (heap y) n) a \<longrightarrow> vcov (heap z) (notifiers (heap z) n) a)"
  using assms(1)
proof (induction rule: rtranclp_induct)
  case (step u z)
  then have st: "step u z" and u: "winv u" "a < next_node (heap u)" "settled u {a}" by (simp_all add: later_def)
  obtain D where D: "notifiers (heap z) n = nf_add (notifiers (heap u) n) D" using step(2) by (auto simp: later_def grows_def)
  have s: "settled z {a}" "agree {a} (heap u) (heap z)" using step_settled [OF st winvD(1) [OF u(1)] u(3)] u(2) by simp_all
  then have "a < next_node (heap z)" "same_node (nodes (heap u) a) (nodes (heap z) a)" using u(2) by (auto simp: agree_def)
  then show ?case
    using step(3) s(1) winv_step [OF st u(1)] ncov_on [OF step_recs [OF st u(1), of n]] vcov_on [OF step_recs [OF st u(1), of n]]
    unfolding D by blast
qed (use y a in simp)

lemma noted_bound:
  assumes y: "winv y" and "beneath (heap y) (notifiers (heap y) n) e"
  shows "e < next_node (heap y)"
  using assms(2) rep_bound by (auto simp: beneath_def)

lemma notify_reaches:
  assumes y: "winv y"
  obtains h where "Notify n (heap y) = Some h" and "reads_same (heap y) h" and "all_sealed h (notifiers (heap y) n)"
    and "\<And>a. ncov (heap y) (notifiers (heap y) n) a \<Longrightarrow> node_sealed h a"
    and "\<And>a. a < next_node (heap y) \<Longrightarrow> vcov (heap y) (notifiers (heap y) n) a \<Longrightarrow> value_sealed h a"
    and "\<And>w c. watch_sealed h w \<Longrightarrow> handed y w c \<Longrightarrow> is_closed h c"
proof -
  obtain h where h: "Notify n (heap y) = Some h" "slots_ok h" "advance (heap y) h" "leafs_kept (heap y) h" "reads_same (heap y) h"
    "all_sealed h (notifiers (heap y) n)"
    by (rule Notify_seals [OF winvD(2) [OF y] winv_records [OF y]])
  have "is_closed h c" if q: "watch_sealed h w" "handed y w c" for w c
  proof -
    obtain u k where u: "reachable u" "w \<in> watches u" "watch_Chan w (heap u) = Some (c, k)" "steps (u\<lparr>heap := k\<rparr>) y"
      using q(2) by (auto simp: handed_def)
    have "steps (u\<lparr>heap := k\<rparr>) (y\<lparr>heap := h\<rparr>)"
      using u(4) s_notify [OF h(1)] unfolding steps_def by (rule rtranclp.rtrancl_into_rtrancl)
    then have "handed (y\<lparr>heap := h\<rparr>) w c" using u(1-3) by (auto simp: handed_def)
    from handed_closed [OF this] show ?thesis using q(1) by simp
  qed
  then show ?thesis
    using that [OF h(1,5,6)] ncov_sealed [OF h(6,5)] vcov_sealed [OF h(6,5,4)] noted_bound [OF y, of n] by blast
qed

lemma node_watch_sealed: "node_sealed s a \<Longrightarrow> slot_of w = Some a \<Longrightarrow> value_of w = None \<Longrightarrow> watch_sealed s w"
  by (simp add: node_sealed_def watch_sealed_def watch_ref_def)

lemma value_watch_sealed: "value_sealed s a \<Longrightarrow> value_of w = Some a \<Longrightarrow> watch_sealed s w"
  by (auto simp: value_sealed_def leaf_sealed_def watch_sealed_def watch_ref_def)

text \<open>A sealed watch stays sealed, so whoever takes a channel from it later finds it closed as well.\<close>

lemma sealed_steps:
  assumes "steps y z" and "winv y" and "w \<in> watches y" and "watch_sealed (heap y) w"
  shows "winv z \<and> w \<in> watches z \<and> watch_sealed (heap z) w"
  using assms(1) unfolding steps_def
proof (induction rule: rtranclp_induct)
  case (step u z)
  then have u: "winv u" "w \<in> watches u" by simp_all
  obtain q where q: "watch_ref (heap u) w = Some q" "in_use (heap u) q" "slot_Sealed (slot_at (heap u) q)"
    using step(3) by (auto simp: watch_sealed_def)
  have v: "winv z" "advance (heap u) (heap z)" using winv_step [OF step(2) u(1)] by simp_all
  have "in_use (heap z) q" using v(2) q(2) by (simp add: advance_def)
  moreover have "slot_Sealed (slot_at (heap z) q)" by (rule advance_sealed [OF v(2) q(2,3)])
  moreover have "watch_ref (heap z) w = Some q" by (rule watch_ref_step [OF step(2) u q(1)])
  ultimately show ?case using v(1) u(2) step_watches [OF step(2)] by (auto simp: watch_sealed_def)
qed (use assms in simp)

text \<open>After \<open>Notify\<close>, every channel the watch has given out or will give out is closed.\<close>

definition fires :: "nat \<Rightarrow> 'v sys \<Rightarrow> watch \<Rightarrow> bool" where
  "fires n z w \<longleftrightarrow> (\<exists>h. Notify n (heap z) = Some h \<and> watch_sealed h w \<and>
     (\<forall>u c. steps (z\<lparr>heap := h\<rparr>) u \<longrightarrow> handed u w c \<longrightarrow> is_closed (heap u) c))"

text \<open>A watch is recorded when its node is, or the value it is on.\<close>

definition recorded :: "'v store \<Rightarrow> notifier \<Rightarrow> watch \<Rightarrow> bool" where
  "recorded s N w \<longleftrightarrow> (case value_of w of Some a \<Rightarrow> vcov s N a | None \<Rightarrow> (\<exists>a. slot_of w = Some a \<and> ncov s N a))"

lemma recorded_fires:
  assumes z: "winv z" and w: "w \<in> watches z" and r: "recorded (heap z) (notifiers (heap z) n) w"
  shows "fires n z w"
proof -
  obtain h where h: "Notify n (heap z) = Some h" "\<And>a. ncov (heap z) (notifiers (heap z) n) a \<Longrightarrow> node_sealed h a"
    "\<And>a. a < next_node (heap z) \<Longrightarrow> vcov (heap z) (notifiers (heap z) n) a \<Longrightarrow> value_sealed h a"
    by (rule notify_reaches [OF z]) blast
  have s: "watch_sealed h w"
  proof (cases "value_of w")
    case None
    then show ?thesis using r h(2) node_watch_sealed by (auto simp: recorded_def)
  next
    case (Some a)
    have "a < next_node (heap z)" using sys_invD(4) [OF winvD(1) [OF z] w Some] by (simp add: value_ok_def)
    then show ?thesis using r h(3) value_watch_sealed Some by (auto simp: recorded_def)
  qed
  have z': "winv (z\<lparr>heap := h\<rparr>)" using winv_step [OF s_notify [OF h(1)] z] by simp
  have "is_closed (heap u) c" if u: "steps (z\<lparr>heap := h\<rparr>) u" "handed u w c" for u c
    using sealed_steps [OF u(1) z', of w] s w handed_closed [OF u(2)] by simp
  then show ?thesis using h(1) s unfolding fires_def by blast
qed

text \<open>What a followed transaction changed is recorded, and stays recorded.\<close>

lemma changed_recorded:
  assumes y: "winv y" and f: "follows_txn i n g0 y" and yz: "(later n)\<^sup>*\<^sup>* y z"
    and a: "a \<in> set (addrs g0)"
    and r: "value_of w = Some a \<and> vcov (heap y) (notifiers (heap y) n) a \<or>
      value_of w = None \<and> slot_of w = Some a \<and> ncov (heap y) (notifiers (heap y) n) a"
  shows "winv z \<and> recorded (heap z) (notifiers (heap z) n) w"
proof -
  have st: "settled y (set (addrs g0))" and g0: "rep (heap y) g0" using f by (simp_all add: follows_txn_def)
  have "a < next_node (heap y)" by (rule rep_bound [OF g0 a])
  moreover have "settled y {a}" using st a by (auto simp: settled_def free_of_def)
  ultimately have l: "winv z" "ncov (heap y) (notifiers (heap y) n) a \<longrightarrow> ncov (heap z) (notifiers (heap z) n) a"
    "vcov (heap y) (notifiers (heap y) n) a \<longrightarrow> vcov (heap z) (notifiers (heap z) n) a"
    using later_covers [OF yz y] by blast+
  then show ?thesis using r by (auto simp: recorded_def)
qed

text \<open>Only a notification, and a reset, take something out of a notifier.\<close>

lemma exec_grows:
  assumes y: "winv y" and w: "live y i = Some T" "tepoch T = 0 \<longrightarrow> epochCounter (heap y) < epochMask"
    "txn_exec p (T, heap y) = Some (r, T', h)"
  shows "\<exists>D. notifiers h n = nf_add (notifiers (heap y) n) D"
proof -
  obtain g g' :: "unit gtree" where "op_ok T (heap y) g T' h g'"
    by (rule write_frame [OF winvD(1) [OF y] w]) blast
  then obtain D where "nf_log (tnf T) (heap y) D h" by (auto simp: op_ok_def log_ok_def)
  then show ?thesis
    by (intro exI [of _ "if tnf T = Some n then D else zero_notifier"]) (auto simp: nf_log_def split: option.splits)
qed

lemma grows_same: "notifiers (heap z) n = notifiers (heap y) n \<Longrightarrow> grows n y z"
  unfolding grows_def by (intro exI [of _ zero_notifier]) simp

lemma step_grows:
  assumes "step y z" and y: "winv y"
  shows "grows n y z \<or> notifiers (heap z) n = zero_notifier"
  using assms(1)
proof cases
  case (s_new t h)
  then show ?thesis using NewTree_ok(8) [OF s_new(2)] grows_same [of z n y] by simp
next
  case (s_write i T p r T' h)
  then show ?thesis using exec_grows [OF y s_write(2-4)] by (simp add: grows_def)
next
  case (s_chan w c h)
  obtain ch h2 where "watch_Chan w (heap y) = Some (ch, h2)" "notifiers h2 = notifiers (heap y)"
    by (rule watch_Chan_ok [OF y s_chan(2)])
  then show ?thesis using s_chan grows_same [of z n y] by simp
next
  case (s_notify m h)
  then show ?thesis
    using Notify_same(2) [OF s_notify(2) sys_invD(6) [OF winvD(1) [OF y]]] grows_same [of z n y] by (cases "m = n") simp_all
next
  case (s_reset m)
  then show ?thesis using grows_same [of z n y] by (cases "m = n") (simp_all add: ResetNotifier_def zero_notifier_def)
qed (simp_all add: grows_same)

section \<open>What the lookups return, by tags\<close>

lemma below_untag: "below (absn s g) = map (\<lambda>e. (fst e, fst (the (snd e)))) (below (absh with_tag s g))"
proof (induction g)
  case (G a x gs)
  have e: "ents (absn s g) = map (\<lambda>e. (fst e, fst (the (snd e)))) (ents (absh with_tag s g))" if "g \<in> set gs" for g
    unfolding ents_below G.IH [OF that] by (simp add: absh_sel case_prod_unfold comp_def)
  have "own_ents (value_at (nodes s a)) =
      map (\<lambda>e. (fst e, fst (the (snd e)))) (own_ents (map_option (\<lambda>v. with_tag v x) (value_at (nodes s a))))"
    unfolding own_ents_tag by (simp add: own_ents_def value_at_def)
  with e show ?case by (simp add: below_RT map_concat comp_def cong: map_cong)
qed

lemma Get_tagged:
  assumes "tree_ok s g"
  shows "Get s (Some (ad g)) k = Some (found (map_option (\<lambda>v. fst (the v)) (tagged s g k)))"
  using Get_spec [OF assms, of k] map_of_map [of "\<lambda>v. fst (the v)" "below (absh with_tag s g)"]
  by (simp add: contents_def below_untag tagged_def case_prod_unfold)

lemma GetWatch_Get: "tree_ok s g \<Longrightarrow> GetWatch s (Some (ad g)) k = Some (w, r) \<Longrightarrow> Get s (Some (ad g)) k = Some r"
  using GetWatch_loop_spec [OF tree_okD(1,2) ad_in_addrs, of s g k] Get_loop_spec [OF tree_okD(1,2), of s g k]
  by (auto simp: GetWatch_def Get_def)

lemma open_steps: "(open_step i n)\<^sup>*\<^sup>* x y \<Longrightarrow> steps x y"
  unfolding steps_def by (rule rtranclp_mono [THEN predicate2D]) (auto simp: open_step_def)

text \<open>A watch on a position that covers a key whose entry changed.\<close>

lemma slot_recorded:
  assumes y: "winv y" and f: "follows_txn i n g0 y" and yz: "(later n)\<^sup>*\<^sup>* y z"
    and T: "live y i = Some T" and a: "spot (heap y) [] g0 p a" "slot_of w = Some a" "value_of w = None"
    and l: "starts l p" "Get (heap y) (TxnTree T) l \<noteq> Get (heap y) (Some (ad g0)) l"
  shows "winv z \<and> recorded (heap z) (notifiers (heap z) n) w"
proof -
  obtain g where g: "txn_ok T (heap y) g" "tracks (heap y) g0 g (notifiers (heap y) n)" using f T by (auto simp: follows_txn_def)
  note ok = txn_okD(2) [OF g(1)] and ok0 = tracksD(1) [OF g(2)]
  have "tagged (heap y) g l \<noteq> tagged (heap y) g0 l"
    using l(2) Get_tagged [OF ok, of l] Get_tagged [OF ok0, of l] txn_okD(1) [OF g(1)] by (auto simp: TxnTree_def)
  then have "ncov (heap y) (notifiers (heap y) n) a" using slot_kept [OF g(2) ok a(1) _ l(1)] by blast
  moreover have "a \<in> set (addrs g0)" using a(1) occs_sub ad_in_addrs unfolding spot_def by blast
  ultimately show ?thesis using changed_recorded [OF y f yz] a(2,3) by blast
qed

lemma spot_agree: "agree (set (addrs g)) s s' \<Longrightarrow> spot s u g l a \<Longrightarrow> spot s' u g l a"
proof -
  assume ag: "agree (set (addrs g)) s s'" and sp: "spot s u g l a"
  have p: "prefix (nodes s' b) = prefix (nodes s b)" if "b \<in> set (addrs g)" for b
    using ag that by (simp add: agree_def same_node_def)
  have o: "occs s' u g = occs s u g" if "\<And>b. b \<in> set (addrs g) \<Longrightarrow> prefix (nodes s' b) = prefix (nodes s b)" for u and g :: "'b gtree"
    using that
  proof (induction g arbitrary: u)
    case (G b x gs)
    then show ?case by (fastforce intro: arg_cong [where f = "insert _"])
  qed
  obtain u' c q where c: "(u', c) \<in> occs s u g" "ad c = a" "l = u' @ q" "u' = u \<and> c = g \<or> q \<noteq> [] \<and> hd q = lab_at s c"
    using sp by (auto simp: spot_def)
  have "lab_at s' c = lab_at s c" using p [of "ad c"] occs_sub [OF c(1)] ad_in_addrs [of c] unfolding lab_at_def by fastforce
  then show ?thesis using c o [OF p] unfolding spot_def by metis
qed

end
