(* ===== verification/Notify_Exact.thy ===== *)
theory Notify_Exact
  imports Follow
begin

text \<open>
  \<open>Notify\<close> seals the slots of what was recorded and no others, so it closes the channels of exactly
  the recorded watches.
\<close>

section \<open>Sealing within a set of slots\<close>

definition within :: "'v store \<Rightarrow> slot_ref set \<Rightarrow> 'v store \<Rightarrow> bool" where
  "within s X t \<longleftrightarrow> reads_same s t \<and> (\<forall>x. slot_Sealed (slot_at t x) \<longrightarrow> slot_Sealed (slot_at s x) \<or> x \<in> X) \<and>
     (\<forall>a l. leafp (nodes t a) = Some l \<longrightarrow> leafp (nodes s a) = Some l \<or> l = sealedLeaf)"

lemma within_refl: "within s X s"
  by (simp add: within_def)

lemma ref_Seal_at:
  assumes "ref_Seal x t = Some t'"
  shows "y \<noteq> x \<Longrightarrow> slot_at t' y = slot_at t y" and "leafp (nodes t' a) = leafp (nodes t a)" and "reads_same t t'"
proof -
  obtain p w where w: "slot_Seal (slot_at t x) t = Some (p, w)" "t' = put_slot x p w"
    using assms by (auto simp: ref_Seal_def split: Option.bind_splits)
  note f = slot_Seal_frame [OF w(1)]
  have sa: "slot_at w y = slot_at t y" by (cases y) (simp_all add: f)
  show "slot_at t' y = slot_at t y" if "y \<noteq> x" unfolding w(2) put_slot_simps(1) using that sa by simp
  show "leafp (nodes t' a) = leafp (nodes t a)" using w(2) f by simp
  have "still t t'"
    using assms node_Seal_still leaf_Seal_still unfolding ref_ops by (cases x) blast+
  then show "reads_same t t'" by (simp add: still_def)
qed

lemma within_ref:
  assumes "within s X t" and "ref_Seal x t = Some t'" and "x \<in> X \<or> slot_Sealed (slot_at s x)"
  shows "within s X t'"
proof -
  note r = ref_Seal_at [OF assms(2)]
  have "slot_Sealed (slot_at s y) \<or> y \<in> X" if "slot_Sealed (slot_at t' y)" for y
    using that assms(1,3) r(1) [of y] by (cases "y = x") (auto simp: within_def)
  then show ?thesis using assms(1) r(2) reads_same_trans [OF _ r(3)] by (simp add: within_def)
qed

lemma within_value:
  assumes w: "within s X t" and v: "sealValue a t = Some t'" and h: "hasValue (nodes t a)"
    and l: "\<And>l. leafp (nodes s a) = Some l \<Longrightarrow> AtLeaf l \<in> X" and s: "slots_ok s"
  shows "within s X t'"
proof (cases "leafp (nodes t a)")
  case None
  then have t': "t' = upd_node a (leafp_update (\<lambda>_. Some sealedLeaf)) t" using v by (simp add: sealValue_def cas_def)
  have "slot_at t' x = slot_at t x" for x unfolding t' by (cases x) (simp_all add: upd_node_def)
  moreover have "leafp (nodes t' b) = leafp (nodes t b) \<or> leafp (nodes t' b) = Some sealedLeaf" for b
    unfolding t' by (simp add: upd_node_def)
  moreover have "reads_same t t'" using sealValue_still [OF v h] by (simp add: still_def)
  ultimately show ?thesis using w reads_same_trans unfolding within_def by (metis option.inject)
next
  case (Some l)
  then have "ref_Seal (AtLeaf l) t = Some t'" using v by (simp add: sealValue_def ref_ops)
  moreover have "AtLeaf l \<in> X \<or> slot_Sealed (slot_at s (AtLeaf l))"
    using w Some l slots_okD(4) [OF s] by (auto simp: within_def slot_Sealed_def)
  ultimately show ?thesis by (rule within_ref [OF w])
qed

lemma within_fold:
  "within s X t \<Longrightarrow> ofold f xs t = Some t' \<Longrightarrow> (\<And>x t t'. x \<in> set xs \<Longrightarrow> within s X t \<Longrightarrow> f x t = Some t' \<Longrightarrow> within s X t') \<Longrightarrow>
    within s X t'"
proof (induction xs arbitrary: t)
  case (Cons x xs)
  obtain u where u: "f x t = Some u" "ofold f xs u = Some t'" using Cons.prems(2) by (auto split: Option.bind_splits)
  have "within s X u" using Cons.prems(3) [OF _ Cons.prems(1) u(1)] by simp
  then show ?case by (rule Cons.IH [OF _ u(2)]) (rule Cons.prems(3), simp_all)
qed simp

lemma within_subtree:
  assumes "rep s g" and "within s X t" and "sealSubtree (ad g) t = Some t'" and s: "slots_ok s"
    and "\<And>b. b \<in> set (addrs g) \<Longrightarrow> AtNode b \<in> X"
    and "\<And>b l. b \<in> set (addrs g) \<Longrightarrow> hasValue (nodes s b) \<Longrightarrow> leafp (nodes s b) = Some l \<Longrightarrow> AtLeaf l \<in> X"
  shows "within s X t'"
  using assms(1-3,5,6)
proof (induction g arbitrary: t t' rule: gtree.induct)
  case (G a x gs)
  have sub: "sealSubtree a t = Some t'" using G.prems(3) by simp
  obtain t1 t2 where t1: "node_Seal a t = Some t1" and t2: "(if hasValue (nodes t1 a) then sealValue a t1 else Some t1) = Some t2"
    and t3: "ofold (\<lambda>k s. do { k \<leftarrow> k; sealSubtree k s }) (kidList (nodes t2 a)) t2 = Some t'"
    using sub by (subst (asm) sealSubtree.simps) (auto split: Option.bind_splits)
  have w1: "within s X t1"
    by (rule within_ref [OF G.prems(2), of "AtNode a"]) (use t1 G.prems(4) [of a] in \<open>simp_all add: ref_ops\<close>)
  have an: "a < next_node s" using G.prems(1) by simp
  have "hasValue (nodes t1 a) \<longleftrightarrow> hasValue (nodes s a)"
    using w1 an same_node_hasValue by (auto simp: within_def reads_same_def)
  then have w2: "within s X t2"
    using t2 within_value [OF w1 _ _ _ s, of a t2] w1 G.prems(5) [of a] by (cases "hasValue (nodes t1 a)") auto
  have "reads_same s t2" using w2 by (simp add: within_def)
  then have "rep t2 (G a x gs)" using frame_rep [OF reads_same_agree [OF _ G.prems(1)] G.prems(1)] by blast
  then have kl: "kidList (nodes t2 a) = map (\<lambda>g. Some (ad g)) gs" by simp
  have "ofold (\<lambda>g. sealSubtree (ad g)) gs t2 = Some t'" using t3 unfolding kl ofold_map by simp
  then show ?case
  proof (rule within_fold [OF w2])
    show "within s X u'" if "g \<in> set gs" "within s X u" "sealSubtree (ad g) u = Some u'" for g u u'
      by (rule G.IH [OF that(1) _ that(2,3)]) (use G.prems that(1) in auto)
  qed
qed

section \<open>What a notification seals\<close>

text \<open>The slots of everything a notifier holds.\<close>

definition noted_slots :: "'v store \<Rightarrow> notifier \<Rightarrow> slot_ref set" where
  "noted_slots s N = {AtNode a | a. ncov s N a} \<union> {AtLeaf l | l. Some l \<in> set (nf_leaves N) \<or>
     (\<exists>e. leafp (nodes s e) = Some l \<and> (e \<in> set (nf_values N) \<or> hasValue (nodes s e) \<and> beneath s N e))}"

lemma beneath_unit: "ad h \<in> set (nf_subtrees N) \<Longrightarrow> rep s (h :: unit gtree) \<Longrightarrow> b \<in> set (addrs h) \<Longrightarrow> beneath s N b"
  unfolding beneath_def by (intro exI [of _ "retag h"]) (simp add: retag_rep)

lemma Notify_within:
  assumes s: "slots_ok s" and r: "records_ok s (notifiers s i)" and n: "Notify i s = Some h"
  shows "within s (noted_slots s (notifiers s i)) h"
proof -
  let ?N = "notifiers s i"
  let ?X = "noted_slots s ?N"
  have leaf: "AtLeaf l \<in> ?X" if "leafp (nodes s e) = Some l" "e \<in> set (nf_values ?N) \<or> hasValue (nodes s e) \<and> beneath s ?N e" for e l
    using that by (auto simp: noted_slots_def)
  obtain s1 s2 s3 s4 where s1: "ofold node_Seal (nf_nodes ?N) s = Some s1"
    and s2: "ofold (\<lambda>l s. do { l \<leftarrow> l; leaf_Seal l s }) (nf_leaves ?N) s1 = Some s2"
    and s3: "ofold sealValue (nf_values ?N) s2 = Some s3" and s4: "ofold sealSubtree (nf_subtrees ?N) s3 = Some s4"
    and h: "h = s4\<lparr>notifiers := (notifiers s4)(i := zero_notifier)\<rparr>"
    using n by (auto simp: Notify_def Let_def split: Option.bind_splits)
  have w1: "within s ?X s1"
  proof (rule within_fold [OF within_refl s1])
    show "within s ?X t'" if "a \<in> set (nf_nodes ?N)" "within s ?X t" "node_Seal a t = Some t'" for a t t'
      by (rule within_ref [OF that(2), of "AtNode a"]) (use that in \<open>auto simp: ref_ops noted_slots_def ncov_def\<close>)
  qed
  have w2: "within s ?X s2"
  proof (rule within_fold [OF w1 s2])
    show "within s ?X t'" if q: "lo \<in> set (nf_leaves ?N)" "within s ?X t" "do { l \<leftarrow> lo; leaf_Seal l t } = Some t'" for lo t t'
    proof -
      obtain l where l: "lo = Some l" "leaf_Seal l t = Some t'" using q(3) by (cases lo) simp_all
      show ?thesis
        by (rule within_ref [OF q(2), of "AtLeaf l"]) (use l q(1) in \<open>auto simp: ref_ops noted_slots_def\<close>)
    qed
  qed
  have w3: "within s ?X s3"
  proof (rule within_fold [OF w2 s3])
    show "within s ?X t'" if "a \<in> set (nf_values ?N)" "within s ?X t" "sealValue a t = Some t'" for a t t'
    proof (rule within_value [OF that(2,3) _ _ s])
      have "a < next_node s \<and> hasValue (nodes s a)" using r that(1) by (simp add: records_ok_def)
      then show "hasValue (nodes t a)" using that(2) same_node_hasValue by (auto simp: within_def reads_same_def)
      show "AtLeaf l \<in> ?X" if "leafp (nodes s a) = Some l" for l using leaf that \<open>a \<in> set (nf_values ?N)\<close> by blast
    qed
  qed
  have w4: "within s ?X s4"
  proof (rule within_fold [OF w3 s4])
    show "within s ?X t'" if q: "b \<in> set (nf_subtrees ?N)" "within s ?X t" "sealSubtree b t = Some t'" for b t t'
    proof -
      obtain k :: "unit gtree" where k: "ad k = b" "rep s k" using r q(1) by (auto simp: records_ok_def)
      have u: "beneath s ?N e" if "e \<in> set (addrs k)" for e using beneath_unit [of k] k q(1) that by blast
      show ?thesis
      proof (rule within_subtree [OF k(2) q(2) _ s])
        show "sealSubtree (ad k) t = Some t'" using q(3) k(1) by simp
        show "AtNode e \<in> ?X" if "e \<in> set (addrs k)" for e using u [OF that] by (simp add: noted_slots_def ncov_def)
        show "AtLeaf l \<in> ?X" if "e \<in> set (addrs k)" "hasValue (nodes s e)" "leafp (nodes s e) = Some l" for e l
          using leaf u that by blast
      qed
    qed
  qed
  have "slot_at h x = slot_at s4 x" for x unfolding h by (cases x) simp_all
  then show ?thesis using w4 by (simp add: within_def h reads_same_def)
qed

section \<open>The channels a notification closes\<close>

lemma noted_recorded:
  assumes "watch_ref s w = Some x" and "x \<in> noted_slots s N"
  shows "recorded s N w"
proof (cases "value_of w")
  case None
  then show ?thesis using assms by (auto simp: watch_ref_def noted_slots_def recorded_def)
next
  case (Some a)
  then obtain l where l: "leafp (nodes s a) = Some l" "x = AtLeaf l" using assms(1) by (auto simp: watch_ref_def)
  from assms(2) l(2) consider "Some l \<in> set (nf_leaves N)"
    | e where "leafp (nodes s e) = Some l" "e \<in> set (nf_values N) \<or> hasValue (nodes s e) \<and> beneath s N e"
    by (auto simp: noted_slots_def)
  then have "vcov s N a"
  proof cases
    case 2
    then have "same_leaf s a e" using l(1) by (simp add: same_leaf_def)
    then show ?thesis using 2(2) unfolding vcov_def by blast
  qed (use l in \<open>simp add: vcov_def\<close>)
  then show ?thesis using Some by (simp add: recorded_def)
qed

text \<open>A watch whose slot is not sealed gave out open channels only.\<close>

section \<open>Who closes channels\<close>

lemma slot_Chan_closed: "slot_Chan p s = Some (c, q, s') \<Longrightarrow> closed s' = closed s"
  by (auto simp: slot_Chan_def make_chan_def new_cell_def cas_def Let_def split: option.splits if_splits)

lemma node_Chan_closed: "node_Chan a s = Some (c, s') \<Longrightarrow> closed s' = closed s"
  by (auto simp: node_Chan_def upd_node_def split: Option.bind_splits dest: slot_Chan_closed)

lemma leaf_Chan_closed: "leaf_Chan l s = Some (c, s') \<Longrightarrow> closed s' = closed s"
  by (auto simp: leaf_Chan_def split: Option.bind_splits dest: slot_Chan_closed)

lemma watch_Chan_closed:
  assumes "watch_Chan w s = Some (c, s')"
  shows "closed s' = closed s"
proof (cases "value_of w")
  case None
  then show ?thesis using assms node_Chan_closed by (auto simp: watch_Chan_def split: option.splits)
next
  case (Some n)
  then have v: "valueChan n s = Some (c, s')" using assms by (simp add: watch_Chan_def)
  show ?thesis
  proof (cases "leafp (nodes s n)")
    case None
    then show ?thesis
      using v by (auto simp: valueChan_def cas_def new_cell_def new_leaf_def slot_Live_def make_chan_def upd_node_def Let_def)
  next
    case (Some l)
    then show ?thesis using v leaf_Chan_closed by (simp add: valueChan_def)
  qed
qed

text \<open>A write leaves all channels as they are, and draws at most one epoch.\<close>

lemma write_world:
  assumes y: "sys_inv y" and i: "live y i = Some T" and room: "tepoch T = 0 \<longrightarrow> epochCounter (heap y) < epochMask"
    and x: "txn_exec p (T, heap y) = Some (r, T', h)"
  shows "closed h = closed (heap y) \<and> epochCounter h \<in> {epochCounter (heap y), epochCounter (heap y) + 1}"
proof -
  obtain g :: "unit gtree" where t: "txn_ok T (heap y) g" using sys_invD(3) [OF y i] by (auto simp: live_ok_def)
  consider "h = heap y" | g' D cs where "wrote T (heap y) g T' h g' D cs {()}"
    using txn_exec_wrote [OF sys_invD(1) [OF y] t room x, of "()"] by blast
  then show ?thesis
  proof cases
    case 2
    obtain t1 s1 where b: "begin_txn T (heap y) = (t1, s1)" and e: "eff (tepoch T') (tnf T) s1 (set (addrs g)) D h"
      by (rule wrote_begin [OF 2])
    have "closed s1 = closed (heap y)" "epochCounter s1 \<in> {epochCounter (heap y), epochCounter (heap y) + 1}"
      using b by (auto simp: begin_txn_def split: if_splits)
    then show ?thesis using e by (simp add: eff_def quiet_def)
  qed simp
qed

text \<open>Every step but a notification leaves all channels as they are.\<close>

lemma step_closed:
  assumes "step y z" and "sys_inv y" and "closed (heap z) \<noteq> closed (heap y)"
  obtains n where "Notify n (heap y) = Some (heap z)"
  using assms(1)
proof cases
  case (s_new t h)
  then show ?thesis using assms(3) by (auto simp: NewTree_def alloc_node_def)
next
  case (s_write i T p r T' h)
  then show ?thesis using write_world [OF assms(2) s_write(2-4)] assms(3) by simp
next
  case (s_chan w c h)
  then show ?thesis using watch_Chan_closed assms(3) by auto
next
  case (s_notify n h)
  then show ?thesis using that [of n] by simp
qed (use assms(3) in \<open>simp_all add: ResetNotifier_def\<close>)

section \<open>Which channels\<close>

lemma watching_open:
  assumes "slots_ok s" and "watching s w c" and "\<not> watch_sealed s w"
  shows "\<not> is_closed s c"
proof -
  obtain x where x: "watch_ref s w = Some x" "in_use s x" "cell_of s (slot_at s x) = Some c" "\<not> slot_Sealed (slot_at s x)"
    using assms(2,3) by (auto simp: watching_def watch_sealed_def)
  then show ?thesis
    using slots_okD(5) [OF assms(1) x(2)] by (auto simp: slot_ok_def cell_of_def slot_Sealed_def is_closed_def split: option.splits)
qed

lemma Notify_closes_iff:
  assumes z: "winv z" and n: "Notify n (heap z) = Some h" and c: "handed z w c"
  shows "is_closed h c \<longleftrightarrow> is_closed (heap z) c \<or> recorded (heap z) (notifiers (heap z) n) w"
proof -
  let ?z = "z\<lparr>heap := h\<rparr>"
  have st: "step z ?z" by (rule s_notify [OF n])
  have z': "winv ?z" and adv: "advance (heap z) h" using winv_step [OF st z] by simp_all
  note hz = handed_watching [OF c]
  have wz: "watching (heap z) w c" "w \<in> watches z" using hz by simp_all
  have wh: "watching h w c" using watching_steps [of z ?z w c] st z wz by (auto simp: steps_def)
  have keep: "is_closed h c" if "is_closed (heap z) c"
    using that adv by (auto simp: is_closed_def advance_def split: option.splits)
  have hit: "is_closed h c" if r: "recorded (heap z) (notifiers (heap z) n) w"
  proof -
    have "watch_sealed h w" using recorded_fires [OF z wz(2) r] n by (auto simp: fires_def)
    then show ?thesis using watching_closed winvD(2) [OF z'] wh by simp
  qed
  have miss: "\<not> is_closed h c" if o: "\<not> is_closed (heap z) c" and r: "\<not> recorded (heap z) (notifiers (heap z) n) w"
  proof -
    have us: "\<not> watch_sealed (heap z) w" using watching_closed [OF winvD(2) [OF z] wz(1)] o by blast
    obtain x where x: "watch_ref (heap z) w = Some x" "in_use (heap z) x" using wz(1) by (auto simp: watching_def)
    have xh: "watch_ref h w = Some x" using watch_ref_step [OF st z wz(2) x(1)] by simp
    have "\<not> slot_Sealed (slot_at (heap z) x)" using us x by (auto simp: watch_sealed_def)
    moreover have "x \<notin> noted_slots (heap z) (notifiers (heap z) n)" using noted_recorded [OF x(1)] r by blast
    ultimately have "\<not> slot_Sealed (slot_at h x)"
      using Notify_within [OF winvD(2) [OF z] winv_records [OF z] n] by (auto simp: within_def)
    then have "\<not> watch_sealed h w" using xh by (simp add: watch_sealed_def)
    then show ?thesis using watching_open winvD(2) [OF z'] wh by simp
  qed
  show ?thesis using keep hit miss by blast
qed

end
