(* ===== verification/Watch_Theorems.thy ===== *)
theory Watch_Theorems
  imports Notify_Exact Exec
begin

text \<open>
  The promise of watches, over the whole system: a watcher learns when what it read has been replaced
  and the transaction that replaced it has been notified.
\<close>

section \<open>What a lookup's watch stands for\<close>

text \<open>The tree the transaction started with, tagged, after some of the transaction's run.\<close>

lemma follow_run:
  assumes x: "winv x" "t \<in> shared x" "live x i = Some (StartTxn t (Some n))" and xy: "(open_step i n)\<^sup>*\<^sup>* x y"
  obtains g where "t = Some (ad g)" and "tree_ok (heap x) g" and "own_tags (heap x) g"
    and "agree (set (addrs g)) (heap x) (heap y)" and "winv y" and "follows_txn i n g y"
    and "\<And>l. Get (heap y) (Some (ad g)) l = Get (heap x) t l"
proof -
  obtain g :: "unit gtree" where g: "t = Some (ad g)" "tree_ok (heap x) g" "follows_txn i n (retag g) x"
    by (rule follow_start [OF x])
  let ?g = "retag g"
  have ok: "tree_ok (heap x) ?g" using g(2) by (simp only: retag_ok)
  have "settled x (set (addrs ?g))" using g(3) by (simp add: follows_txn_def)
  moreover have "set (addrs ?g) \<subseteq> {..<next_node (heap x)}" using rep_bound [OF tree_okD(1) [OF ok]] by blast
  ultimately have ag: "agree (set (addrs ?g)) (heap x) (heap y)"
    using steps_settled [OF open_steps [OF xy] winvD(1) [OF x(1)]] by blast
  have oky: "tree_ok (heap y) ?g" using tree_ok_agree [OF ok ag] by blast
  have "Get (heap y) (Some (ad ?g)) l = Get (heap x) t l" for l
    using Get_tagged [OF ok, of l] Get_tagged [OF oky, of l] tagged_agree [OF ag] g(1) by simp
  then show ?thesis
    using that [of ?g] g(1) ok own_tags_retag [of "heap x" g] ag follow_steps [OF xy x(1) g(3)] by simp
qed

lemma get_recorded:
  assumes x: "winv x" "t \<in> shared x" "live x i = Some (StartTxn t (Some n))"
    and gw: "GetWatch (heap x) t k = Some (w, r)" and xy: "(open_step i n)\<^sup>*\<^sup>* x y" and T: "live y i = Some T"
    and ch: "Get (heap y) (TxnTree T) k \<noteq> Some r" and yz: "(later n)\<^sup>*\<^sup>* y z"
  shows "winv z \<and> recorded (heap z) (notifiers (heap z) n) w"
proof -
  obtain g where g: "t = Some (ad g)" "tree_ok (heap x) g" "own_tags (heap x) g" "agree (set (addrs g)) (heap x) (heap y)"
    and y: "winv y" "follows_txn i n g y" and get: "\<And>l. Get (heap y) (Some (ad g)) l = Get (heap x) t l"
    by (rule follow_run [OF x xy]) blast
  have gw': "GetWatch (heap x) (Some (ad g)) k = Some (w, r)" using gw g(1) by simp
  note at = GetWatch_at [OF g(2) gw']
  show ?thesis
  proof (cases "value_of w")
    case None
    obtain a where a: "slot_of w = Some a"
      using GetWatch_loop_spec [OF tree_okD(1,2) [OF g(2)] ad_in_addrs, of k] gw' None
      by (auto simp: GetWatch_def split: option.splits)
    have "Get (heap x) t k = Some r" using GetWatch_Get [OF g(2) gw'] g(1) by simp
    then have "Get (heap y) (TxnTree T) k \<noteq> Get (heap y) (Some (ad g)) k" using ch get by simp
    with slot_recorded [OF y yz T spot_agree [OF g(4) at(1) [OF a]] a None starts_self] show ?thesis .
  next
    case (Some a)
    obtain u where u: "snd r" "(a, u) \<in> vnodes (heap x) g" "tagged (heap x) g k = Some (Some (fst r, u))"
      using at(2) [OF Some] by blast
    have ua: "u = Some a" using g(3) u(2) unfolding own_tags_def by blast
    obtain g' where g': "txn_ok T (heap y) g'" "tracks (heap y) g g' (notifiers (heap y) n)"
      using y(2) T by (auto simp: follows_txn_def)
    have "vcov (heap y) (notifiers (heap y) n) a"
    proof (rule ccontr)
      assume n: "\<not> vcov (heap y) (notifiers (heap y) n) a"
      have "tagged (heap y) g' k = Some (Some (fst r, Some a))"
        by (rule value_kept [OF g'(2) txn_okD(2) [OF g'(1)] _ _ n])
          (use u ua vnodes_agree [OF g(4)] tagged_agree [OF g(4)] in simp_all)
      then have "Get (heap y) (TxnTree T) k = Some r"
        using Get_tagged [OF txn_okD(2) [OF g'(1)], of k] txn_okD(1) [OF g'(1)] u(1)
        by (cases r) (simp add: TxnTree_def found_def)
      then show False using ch by simp
    qed
    then show ?thesis using changed_recorded [OF y yz] vnodes_addrs [OF u(2)] Some by blast
  qed
qed

text \<open>The watches that are on a prefix, those of the iterators included.\<close>

definition prefix_watch :: "'v store \<Rightarrow> tree \<Rightarrow> bytes \<Rightarrow> watch \<Rightarrow> bool" where
  "prefix_watch s t p w \<longleftrightarrow> (\<exists>r. FirstPrefix s t p = Some (w, r)) \<or> (\<exists>r. LastPrefix s t p = Some (w, r)) \<or>
     (\<exists>it it'. SeekPrefixWatch s t p it = Some (w, it')) \<or> (\<exists>it it'. ReverseSeekPrefixWatch s t p it = Some (w, it'))"

lemma prefix_watch_spot:
  assumes g: "tree_ok s g" and w: "prefix_watch s (Some (ad g)) p w"
  shows "value_of w = None" and "\<exists>a. slot_of w = Some a \<and> spot s [] g p a"
proof -
  obtain n a where sp: "seekPrefix s (Some (ad g)) p = Some (n, a)" and e: "w = \<lparr>slot_of = Some a, value_of = None\<rparr>"
    using w by (auto simp: prefix_watch_def FirstPrefix_def LastPrefix_def SeekPrefixWatch_def ReverseSeekPrefixWatch_def Let_def
        split: option.splits Option.bind_splits)
  have "spot s [] g p a"
    using seekPrefix_spot [OF tree_okD(1,2) [OF g], of p n a "[]"] sp tree_okD(3) [OF g] by (simp add: seekPrefix_def)
  then show "value_of w = None" "\<exists>a. slot_of w = Some a \<and> spot s [] g p a" using e by simp_all
qed

lemma prefix_recorded:
  assumes x: "winv x" "t \<in> shared x" "live x i = Some (StartTxn t (Some n))"
    and fp: "prefix_watch (heap x) t p w"
    and xy: "(open_step i n)\<^sup>*\<^sup>* x y" and T: "live y i = Some T" and l: "starts l p"
    and ch: "Get (heap y) (TxnTree T) l \<noteq> Get (heap x) t l" and yz: "(later n)\<^sup>*\<^sup>* y z"
  shows "winv z \<and> recorded (heap z) (notifiers (heap z) n) w"
proof -
  obtain g where g: "t = Some (ad g)" "tree_ok (heap x) g" "agree (set (addrs g)) (heap x) (heap y)"
    and y: "winv y" "follows_txn i n g y" and get: "\<And>l. Get (heap y) (Some (ad g)) l = Get (heap x) t l"
    by (rule follow_run [OF x xy]) blast
  obtain a where a: "value_of w = None" "slot_of w = Some a" "spot (heap x) [] g p a"
    using prefix_watch_spot [OF g(2), of p w] fp g(1) by auto
  show ?thesis
    by (rule slot_recorded [OF y yz T spot_agree [OF g(3) a(3)] a(2,1) l]) (use ch get in simp)
qed


section \<open>A run\<close>

lemma later_steps: "(later n)\<^sup>*\<^sup>* y z \<Longrightarrow> steps y z"
  unfolding steps_def by (rule rtranclp_mono [THEN predicate2D]) (auto simp: later_def)

lemma handed_steps: "handed y w c \<Longrightarrow> steps y z \<Longrightarrow> handed z w c"
  unfolding handed_def using steps_trans by blast

text \<open>
  On the example index: a watch on the key \<open>[1, 2]\<close> and one on the keys below \<open>[1, 3]\<close>; a transaction
  starts, a channel is taken from each watch, the transaction cuts off all keys below \<open>[1]\<close> and commits.
\<close>

abbreviation wd_t :: tree where
  "wd_t \<equiv> rtree_of demo_tree"

lemma wd_lookups:
  obtains wg wp where "GetWatch (snd demo) wd_t [1, 2] = Some (wg, Some 7, True)"
    and "FirstPrefix (snd demo) wd_t [1, 3] = Some (wp, Some 8, True)" and "Get (snd demo) wd_t [1, 3] = Some (Some 8, True)"
proof -
  obtain g :: "unit gtree" where g: "wd_t = Some (ad g)" "tree_ok (snd demo) g" "contents (snd demo) g = demo_es"
    by (rule holdsE [OF demo_holds])
  note spec = Get_spec [OF g(2), unfolded g(3)]
  have "\<exists>wg r. GetWatch (snd demo) wd_t [1, 2] = Some (wg, r)"
    using GetWatch_loop_spec [OF tree_okD(1,2) [OF g(2)] ad_in_addrs, of "[1, 2]"] unfolding g(1) GetWatch_def by auto
  then obtain wg r where wg: "GetWatch (snd demo) wd_t [1, 2] = Some (wg, r)" by blast
  have "Some r = Some (Some 7, True)"
    using GetWatch_Get [OF g(2), of "[1, 2]" wg r] wg g(1) spec [of "[1, 2]"] by (simp add: found_def)
  moreover obtain wp where "FirstPrefix (snd demo) wd_t [1, 3] = Some (wp, Some 8, True)"
    using prefix_lookup_spec [OF g(2), of "[1, 3]"] g(1,3) by (auto simp: hd_or_def starts_def)
  moreover have "Get (snd demo) wd_t [1, 3] = Some (Some 8, True)" using spec [of "[1, 3]"] g(1) by (simp add: found_def)
  ultimately show ?thesis using that wg by simp
qed

text \<open>The first watch is on a value that has no leaf yet, so its channel is a new one.\<close>

lemma wd_value: "value_of (fst (the (GetWatch (snd demo) wd_t [1, 2]))) = Some 2"
  by code_simp

lemma wd_leafless: "leafp (nodes (snd demo) 2) = None"
  by code_simp

lemma wd_open:
  assumes "GetWatch (snd demo) wd_t [1, 2] = Some (w, r)" and c: "watch_Chan w (snd demo) = Some (c, h)"
  shows "\<not> is_closed (snd demo) c"
proof -
  have "world_ok (snd demo)"
    using slots_okD(1) [OF winvD(2) [OF reachable_winv [OF demo_reachable]]] by (simp add: demo_sys_def)
  then have "\<not> closed (snd demo) (next_chan (snd demo))" using world_okD(6) [of "snd demo" "next_chan (snd demo)"] by blast
  moreover have "value_of w = Some 2" using wd_value assms(1) by simp
  then have "c = Some (next_chan (snd demo))"
    using c wd_leafless
    by (auto simp: watch_Chan_def valueChan_def cas_def new_cell_def new_leaf_def slot_Live_def make_chan_def Let_def)
  ultimately show ?thesis by (simp add: is_closed_def)
qed

lemma reachable_step: "reachable u \<Longrightarrow> step u v \<Longrightarrow> reachable v"
  unfolding reachable_def steps_def by (meson rtranclp.rtrancl_into_rtrancl)

lemma wd_run:
  obtains x y z :: "nat sys" and T wg wp cg cp where "reachable x" and "wd_t \<in> shared x"
    and "live x 0 = Some (StartTxn wd_t (Some 0))"
    and "GetWatch (heap x) wd_t [1, 2] = Some (wg, Some 7, True)" and "FirstPrefix (heap x) wd_t [1, 3] = Some (wp, Some 8, True)"
    and "Get (heap x) wd_t [1, 3] = Some (Some 8, True)" and "(open_step 0 0)\<^sup>*\<^sup>* x y" and "live y 0 = Some T"
    and "Get (heap y) (TxnTree T) [1, 2] = Some no_value" and "Get (heap y) (TxnTree T) [1, 3] = Some no_value"
    and "(later 0)\<^sup>*\<^sup>* y z" and "wg \<in> watches z" and "wp \<in> watches z" and "handed z wg cg" and "handed z wp cp"
    and "\<not> is_closed (heap z) cg"
proof -
  obtain wg wp where l: "GetWatch (snd demo) wd_t [1, 2] = Some (wg, Some 7, True)"
    "FirstPrefix (snd demo) wd_t [1, 3] = Some (wp, Some 8, True)" "Get (snd demo) wd_t [1, 3] = Some (Some 8, True)"
    by (rule wd_lookups)
  let ?S = "StartTxn wd_t (Some 0)"
  let ?x1 = "demo_sys\<lparr>watches := insert wg (watches demo_sys)\<rparr>"
  let ?x2 = "?x1\<lparr>watches := insert wp (watches ?x1)\<rparr>"
  let ?x = "?x2\<lparr>live := (live ?x2)(0 \<mapsto> ?S)\<rparr>"
  have hx: "heap ?x = snd demo" by (simp add: demo_sys_def)
  have t: "wd_t \<in> shared demo_sys" by (rule demo_shared)
  have s1: "step demo_sys ?x1" by (rule s_watch [OF t]) (use l(1) in \<open>simp add: demo_sys_def\<close>)
  have s2: "step ?x1 ?x2" by (rule s_watch_prefix [of wd_t]) (use t l(2) in \<open>simp_all add: demo_sys_def\<close>)
  have s3: "step ?x2 ?x" by (rule s_start) (use t in \<open>simp_all add: demo_sys_def\<close>)
  have rx: "reachable ?x" by (rule reachable_step [OF reachable_step [OF reachable_step [OF demo_reachable s1] s2] s3])
  note wx = reachable_winv [OF rx]
  obtain cg h1 where c1: "watch_Chan wg (heap ?x) = Some (cg, h1)" "notifiers h1 = notifiers (heap ?x)"
    by (rule watch_Chan_ok [OF wx, of wg]) auto
  let ?a = "?x\<lparr>heap := h1\<rparr>"
  have sa: "step ?x ?a" by (rule s_chan [OF _ c1(1)]) simp
  have wa: "winv ?a" using winv_step [OF sa wx] by simp
  obtain cp h2 where c2: "watch_Chan wp (heap ?a) = Some (cp, h2)" "notifiers h2 = notifiers (heap ?a)"
    by (rule watch_Chan_ok [OF wa, of wp]) auto
  let ?b = "?a\<lparr>heap := h2\<rparr>"
  have sb: "step ?a ?b" by (rule s_chan [OF _ c2(1)]) simp
  have wb: "winv ?b" using winv_step [OF sb wa] by simp
  have ra: "reachable ?a" by (rule reachable_step [OF rx sa])
  have "reads_same (heap ?x) h1" by (rule onwardD(5) [OF watch_Chan_watching(2) [OF wx _ c1(1)]]) simp
  moreover have "reads_same h1 h2" using onwardD(5) [OF watch_Chan_watching(2) [OF wa _ c2(1)]] by simp
  ultimately have "epochCounter (heap ?b) = 1" using demo_epoch hx by (simp add: reads_same_def)
  then have room: "tepoch ?S = 0 \<longrightarrow> epochCounter (heap ?b) < epochMask" by (simp add: epochMask_def valueBit_def)
  obtain g :: "unit gtree" where g: "txn_ok ?S (heap ?b) g" using sys_invD(3) [OF winvD(1) [OF wb], of 0 ?S] by (auto simp: live_ok_def)
  have "txn_good (?S, heap ?b)" using g room sys_invD(1) [OF winvD(1) [OF wb]] by auto
  from txn_exec_good [OF this, of "Cut [1]"] obtain T h where
    w: "txn_exec (Cut [1]) (?S, heap ?b) = Some (fst (map_op (Cut [1]) (txn_view (?S, heap ?b))), T, h)"
    "txn_view (T, h) = snd (map_op (Cut [1]) (txn_view (?S, heap ?b)))" by auto
  let ?y = "?b\<lparr>heap := h, live := (live ?b)(0 \<mapsto> T)\<rparr>"
  have sy: "step ?b ?y" by (rule s_write [OF _ room w(1)]) simp
  have wy: "winv ?y" using winv_step [OF sy wb] by simp
  obtain g' :: "unit gtree" where g': "txn_ok T h g'" using sys_invD(3) [OF winvD(1) [OF wy], of 0 T] by (auto simp: live_ok_def)
  have none: "Get h (TxnTree T) (1 # k) = Some no_value" for k
  proof -
    have "txn_view (T, h) (1 # k) = None" using w(2) by (simp add: starts_def)
    then have "map_of (contents h g') (1 # k) = None" using txn_view_contents [OF g'] by simp
    then show ?thesis using Get_spec [OF txn_okD(2) [OF g'], of "1 # k"] txn_okD(1) [OF g'] by (simp add: TxnTree_def found_def)
  qed
  let ?z = "?y\<lparr>live := (live ?y)(0 := None), shared := insert (fst (Commit T)) (shared ?y)\<rparr>"
  have sz: "step ?y ?z" by (rule s_commit [where T' = "snd (Commit T)"]) simp_all
  have xa: "open_step 0 0 ?x ?a" using sa grows_same [of ?a 0 ?x] c1(2) by (simp add: open_step_def)
  have ab: "open_step 0 0 ?a ?b" using sb grows_same [of ?b 0 ?a] c2(2) by (simp add: open_step_def)
  have "grows 0 ?b ?y" using exec_grows [OF wb _ room w(1), of 0 0] by (simp add: grows_def)
  then have "open_step 0 0 ?b ?y" using sy by (simp add: open_step_def)
  then have xy: "(open_step 0 0)\<^sup>*\<^sup>* ?x ?y" using xa ab by (meson rtranclp.rtrancl_refl rtranclp.rtrancl_into_rtrancl)
  have yz: "(later 0)\<^sup>*\<^sup>* ?y ?z" using sz grows_same [of ?z 0 ?y] by (auto simp: later_def)
  have bz: "steps ?b ?z" by (rule steps_step [OF sy steps_step [OF sz steps_refl]])
  have az: "steps ?a ?z" by (rule steps_step [OF sb bz])
  have hg: "handed ?z wg cg" unfolding handed_def
    by (rule exI [of _ ?x], rule exI [of _ h1]) (use rx c1(1) az in simp)
  have hp: "handed ?z wp cp" unfolding handed_def
    by (rule exI [of _ ?a], rule exI [of _ h2]) (use ra c2(1) bz in simp)
  have "closed h = closed (heap ?x)"
    using write_world [OF winvD(1) [OF wb] _ room w(1), of 0] watch_Chan_closed [OF c1(1)] watch_Chan_closed [OF c2(1)] by simp
  then have open_z: "\<not> is_closed (heap ?z) cg" using wd_open [OF l(1), of cg h1] c1(1) hx by (simp add: is_closed_def split: option.splits)
  show ?thesis
    by (rule that [OF rx _ _ _ _ _ xy _ _ _ yz _ _ hg hp open_z]) (use t l hx none in \<open>simp_all add: demo_sys_def\<close>)
qed

section \<open>The properties\<close>

text \<open>
  C7: what a notification does: in every reachable state \<open>Notify\<close> returns, it seals the slot of
  everything the notifier holds, and a channel that was taken from a watch is closed afterwards exactly
  if it was closed before or the watch is on something the notifier had recorded.
\<close>

theorem notify_closes:
  assumes "reachable z"
  shows "\<exists>h. Notify n (heap z) = Some h \<and> all_sealed h (notifiers (heap z) n) \<and> reads_same (heap z) h \<and>
    (\<forall>w c. handed z w c \<longrightarrow>
       (is_closed h c \<longleftrightarrow> is_closed (heap z) c \<or> recorded (heap z) (notifiers (heap z) n) w))"
proof -
  note z = reachable_winv [OF assms]
  obtain h where h: "Notify n (heap z) = Some h" "reads_same (heap z) h" "all_sealed h (notifiers (heap z) n)"
    by (rule notify_reaches [OF z]) blast
  then show ?thesis using Notify_closes_iff [OF z h(1)] by blast
qed

theorem notify_closes_witness:
  "\<exists>z :: nat sys. \<exists>w c h. handed z w c \<and> Notify 0 (heap z) = Some h \<and> all_sealed h (notifiers (heap z) 0) \<and> is_closed h c"
proof -
  obtain x y z :: "nat sys" and T w wp c cp where r: "reachable x" "wd_t \<in> shared x" "live x 0 = Some (StartTxn wd_t (Some 0))"
    "GetWatch (heap x) wd_t [1, 2] = Some (w, Some 7, True)" "(open_step 0 0)\<^sup>*\<^sup>* x y" "live y 0 = Some T"
    "Get (heap y) (TxnTree T) [1, 2] = Some no_value" "(later 0)\<^sup>*\<^sup>* y z" "handed z w c"
    by (rule wd_run) blast
  have z: "reachable z" using r(1) steps_trans [OF open_steps [OF r(5)] later_steps [OF r(8)]] steps_trans unfolding reachable_def by blast
  have "recorded (heap z) (notifiers (heap z) 0) w"
    using get_recorded [OF reachable_winv [OF r(1)] r(2-6) _ r(8)] r(7) by simp
  then show ?thesis using notify_closes [OF z, of 0] r(9) by blast
qed

text \<open>
  C2: the promise of \<open>GetWatch\<close>.  A watcher looks a key up in a tree that was handed out; a transaction
  with a notifier starts from that tree.  When, at some moment of that transaction, looking the key up
  in its tree returns something else, then \<open>Notify\<close> on its notifier, called at that moment or later,
  closes every channel the watch has given out, and every channel it will give out is closed as well.
  Other transactions, watchers and notifications go on in the meantime; only this notifier is not
  notified or reset before.
\<close>

theorem get_watch_fires:
  assumes "reachable x" and "t \<in> shared x" and "live x i = Some (StartTxn t (Some n))"
    and "GetWatch (heap x) t k = Some (w, r)" and "(open_step i n)\<^sup>*\<^sup>* x y" and "live y i = Some T"
    and "Get (heap y) (TxnTree T) k \<noteq> Some r" and "(later n)\<^sup>*\<^sup>* y z" and "w \<in> watches z"
  shows "\<exists>h. Notify n (heap z) = Some h \<and> watch_sealed h w \<and>
    (\<forall>u c. steps (z\<lparr>heap := h\<rparr>) u \<longrightarrow> handed u w c \<longrightarrow> is_closed (heap u) c)"
  using get_recorded [OF reachable_winv [OF assms(1)] assms(2-8)] recorded_fires [OF _ assms(9), of n] by (simp add: fires_def)

theorem get_watch_fires_witness:
  "\<exists>z :: nat sys. \<exists>w c h. handed z w c \<and> Notify 0 (heap z) = Some h \<and> is_closed h c"
proof -
  obtain x y z :: "nat sys" and T w wp c cp where r: "reachable x" "wd_t \<in> shared x" "live x 0 = Some (StartTxn wd_t (Some 0))"
    "GetWatch (heap x) wd_t [1, 2] = Some (w, Some 7, True)" "(open_step 0 0)\<^sup>*\<^sup>* x y" "live y 0 = Some T"
    "Get (heap y) (TxnTree T) [1, 2] = Some no_value" "(later 0)\<^sup>*\<^sup>* y z" "w \<in> watches z" "handed z w c"
    by (rule wd_run) blast
  have "Get (heap y) (TxnTree T) [1, 2] \<noteq> Some (Some 7, True)" using r(7) by simp
  from get_watch_fires [OF r(1-6) this r(8,9)] obtain h where h: "Notify 0 (heap z) = Some h"
    "\<And>u c. steps (z\<lparr>heap := h\<rparr>) u \<Longrightarrow> handed u w c \<Longrightarrow> is_closed (heap u) c" by blast
  have "is_closed h c" using h(2) [OF steps_refl handed_steps [OF r(10) steps_step [OF s_notify [OF h(1)] steps_refl]]] by simp
  then show ?thesis using r(10) h(1) by blast
qed

text \<open>
  C4: the promise of a prefix watch: the same for the watch of \<open>FirstPrefix\<close>, \<open>LastPrefix\<close> and the
  \<open>SeekPrefixWatch\<close> of both iterators when any key with the prefix was inserted, changed or deleted.
\<close>

theorem prefix_watch_fires:
  assumes "reachable x" and "t \<in> shared x" and "live x i = Some (StartTxn t (Some n))"
    and "prefix_watch (heap x) t p w" and "(open_step i n)\<^sup>*\<^sup>* x y" and "live y i = Some T" and "starts l p"
    and "Get (heap y) (TxnTree T) l \<noteq> Get (heap x) t l" and "(later n)\<^sup>*\<^sup>* y z" and "w \<in> watches z"
  shows "\<exists>h. Notify n (heap z) = Some h \<and> watch_sealed h w \<and>
    (\<forall>u c. steps (z\<lparr>heap := h\<rparr>) u \<longrightarrow> handed u w c \<longrightarrow> is_closed (heap u) c)"
  using prefix_recorded [OF reachable_winv [OF assms(1)] assms(2-9)] recorded_fires [OF _ assms(10), of n] by (simp add: fires_def)

theorem prefix_watch_fires_witness:
  "\<exists>z :: nat sys. \<exists>w c h. slot_of w \<noteq> None \<and> handed z w c \<and> Notify 0 (heap z) = Some h \<and> is_closed h c"
proof -
  obtain x y z :: "nat sys" and T wg w cg c where r: "reachable x" "wd_t \<in> shared x" "live x 0 = Some (StartTxn wd_t (Some 0))"
    "FirstPrefix (heap x) wd_t [1, 3] = Some (w, Some 8, True)" "Get (heap x) wd_t [1, 3] = Some (Some 8, True)"
    "(open_step 0 0)\<^sup>*\<^sup>* x y" "live y 0 = Some T" "Get (heap y) (TxnTree T) [1, 3] = Some no_value"
    "(later 0)\<^sup>*\<^sup>* y z" "w \<in> watches z" "handed z w c"
    by (rule wd_run) blast
  have ne: "Get (heap y) (TxnTree T) [1, 3] \<noteq> Get (heap x) wd_t [1, 3]" using r(5,8) by simp
  have pw: "prefix_watch (heap x) wd_t [1, 3] w" using r(4) by (auto simp: prefix_watch_def)
  from prefix_watch_fires [OF r(1-3) pw r(6,7) starts_self ne r(9,10)] obtain h where h: "Notify 0 (heap z) = Some h"
    "\<And>u c. steps (z\<lparr>heap := h\<rparr>) u \<Longrightarrow> handed u w c \<Longrightarrow> is_closed (heap u) c" by blast
  have "is_closed h c" using h(2) [OF steps_refl handed_steps [OF r(11) steps_step [OF s_notify [OF h(1)] steps_refl]]] by simp
  moreover have "slot_of w \<noteq> None"
    using watch_slots(2) [OF winvD(1) [OF reachable_winv [OF r(1)]] r(2,4)] by auto
  ultimately show ?thesis using r(11) h(1) by blast
qed

text \<open>
  C32: nobody is woken without a notification: a step that closes a channel taken from a watch is a
  \<open>Notify\<close> of a notifier that had recorded what the watch is on.  Writes, freezes, commits, aborts, new
  watches and channels close nothing.
\<close>

theorem only_notify_wakes:
  assumes "reachable y" and "step y z" and "handed y w c" and "\<not> is_closed (heap y) c" and "is_closed (heap z) c"
  shows "\<exists>n. Notify n (heap y) = Some (heap z) \<and> recorded (heap y) (notifiers (heap y) n) w"
proof -
  note y = reachable_winv [OF assms(1)]
  have "closed (heap z) \<noteq> closed (heap y)" using assms(4,5) by (auto simp: is_closed_def split: option.splits)
  then obtain n where n: "Notify n (heap y) = Some (heap z)" by (rule step_closed [OF assms(2) winvD(1) [OF y]])
  then show ?thesis using Notify_closes_iff [OF y n assms(3)] assms(4,5) by blast
qed

theorem only_notify_wakes_witness:
  "\<exists>y z :: nat sys. \<exists>w c n. handed y w c \<and> \<not> is_closed (heap y) c \<and> is_closed (heap z) c \<and>
     Notify n (heap y) = Some (heap z) \<and> recorded (heap y) (notifiers (heap y) n) w"
proof -
  obtain x y z :: "nat sys" and T w wp c cp where r: "reachable x" "wd_t \<in> shared x" "live x 0 = Some (StartTxn wd_t (Some 0))"
    "GetWatch (heap x) wd_t [1, 2] = Some (w, Some 7, True)" "(open_step 0 0)\<^sup>*\<^sup>* x y" "live y 0 = Some T"
    "Get (heap y) (TxnTree T) [1, 2] = Some no_value" "(later 0)\<^sup>*\<^sup>* y z" "w \<in> watches z" "handed z w c" "\<not> is_closed (heap z) c"
    by (rule wd_run) blast
  have z: "reachable z" using r(1) steps_trans [OF open_steps [OF r(5)] later_steps [OF r(8)]] steps_trans unfolding reachable_def by blast
  have rec: "recorded (heap z) (notifiers (heap z) 0) w"
    using get_recorded [OF reachable_winv [OF r(1)] r(2-6) _ r(8)] r(7) by simp
  then obtain h where h: "Notify 0 (heap z) = Some h" using recorded_fires [OF reachable_winv [OF z] r(9), of 0] unfolding fires_def by blast
  have c: "is_closed h c" using Notify_closes_iff [OF reachable_winv [OF z] h r(10)] rec by blast
  have "is_closed (heap (z\<lparr>heap := h\<rparr>)) c" using c by simp
  from only_notify_wakes [OF z s_notify [OF h] r(10,11) this] show ?thesis using r(10,11) c
    by (intro exI [of _ z] exI [of _ "z\<lparr>heap := h\<rparr>"]) auto
qed

end
