(* ===== verification/Spec2Isabelle.thy ===== *)
theory Spec2Isabelle
  imports Bounds Layout_Theorems Race_Theorems Watch_Theorems
begin

text \<open>
  A verification library for go-juuri, a persistent (immutable, copy-on-write) radix tree that maps byte
  strings to values, iterates in key order, and lets readers wait on a channel until what they read has
  been replaced by a committed transaction.

  \<^bold>\<open>The program.\<close>  \<^verbatim>\<open>internal/watch\<close> has the lazily created watch channel (\<open>Slot\<close>).
  \<^verbatim>\<open>internal/radix\<close> has the tree: \<^verbatim>\<open>node.go\<close> (nodes, leaves, the label bitmap and \<open>rank\<close>), the two
  declarations of the node selected by build tag (\<^verbatim>\<open>node_safe.go\<close>, \<^verbatim>\<open>segment_safe.go\<close> without package
  unsafe; \<^verbatim>\<open>node_unsafe.go\<close>, \<^verbatim>\<open>segment_unsafe.go\<close>, the default), \<^verbatim>\<open>tree.go\<close> (reads), \<^verbatim>\<open>iter.go\<close>
  (forward and reverse iterators) and \<^verbatim>\<open>txn.go\<close> (write transactions, ownership epochs, and the
  \<open>Notifier\<close> that records what a transaction replaces).  The exported package \<^verbatim>\<open>juuri\<close> (\<^verbatim>\<open>tree.go\<close>,
  \<^verbatim>\<open>iter.go\<close>, \<^verbatim>\<open>txn.go\<close> at the top level) wraps each of these.  A transaction copies every node it
  changes unless the node carries the transaction's current epoch; then nobody else has seen it and it
  is changed in place.

  \<^bold>\<open>The model.\<close>  Pointers are numbers, the heap is a record of maps (\<open>store\<close>) over the record \<open>world\<close>
  of cells and channels, and every operation takes the store and returns it changed.  A panic, a nil
  dereference and a loop that does not return are \<open>None\<close>; the loops of the code that follow pointers are
  \<open>partial_function (option)\<close>, so a theorem that an operation returns \<open>Some\<close> is a theorem that it
  terminates and does not panic.  \<open>uint64\<close> and \<open>byte\<close> are words of 64 and 8 bits, \<open>int16\<close> a word of 16;
  shifts, wrap-around of epochs and positions are those of Go.  A value is \<open>'v option\<close> (\<open>any\<close>, nil
  included).

  \<^item> \<open>Prelude\<close>: lists, prefixes and Go slices.  \<open>Bitmap\<close>: the label bitmap and the branch-free \<open>rank\<close>, shown
    exact for every bitmap and label; the locale \<open>label_index\<close> is what the child array needs of it.
  \<^item> \<open>Watch\<close>: cells, channels and slots, run without interference.  \<open>Node\<close>: nodes, leaves, the pure-safe
    accessors and size classes of both builds.
  \<^item> \<open>Radix\<close>, \<open>Radix_Ops\<close>, \<open>Radix_Path\<close>: the abstract specification, trees without addresses and the
    ordered map of entries they denote, with insertion, deletion and prefix deletion on them.
  \<^item> \<open>Heap_Tree\<close>: the relation between heap and abstract tree; a ghost tree lists a tree's nodes.
    \<open>Lookup\<close>: all of \<^verbatim>\<open>tree.go\<close> and what it returns.
  \<^item> \<open>Txn\<close>: all of \<^verbatim>\<open>txn.go\<close>.  \<open>Ownership\<close>: what each primitive changes and records (\<open>eff\<close>).  \<open>Cow\<close>,
    \<open>Reshape\<close>, \<open>Cow_Ops\<close>, \<open>Cow_Kids\<close>, \<open>Cow_Split\<close>: copy-on-write as the replacement of one subtree by
    another (\<open>replaced\<close>), with everything that left the tree recorded for notification.  \<open>Insertion\<close>,
    \<open>Deletion\<close>, \<open>Spine\<close>, \<open>Unlink\<close>, \<open>Delete_Ops\<close>: the write operations refine the abstract ones.
  \<^item> \<open>Txn_Correct\<close>, \<open>Kv\<close>, \<open>Txn_Map\<close>: whole transactions against the locale \<open>kv_store\<close>, an ordered map.
  \<^item> \<open>System\<close>: any number of trees and interleaved transactions, freezes, commits, aborts, watchers and
    notifications on one heap, as a step relation with an invariant of all reachable states.
  \<^item> \<open>Iter\<close>, \<open>Iter_Spec\<close>, \<open>Iter_Reverse\<close>: the traversal stack (locale \<open>frame_stack\<close>: eight inline frames
    and a spill slice behave as a stack) and all iterator operations.
  \<^item> \<open>Ordered\<close>, \<open>Api\<close>, \<open>Snapshot\<close>: the contract of a snapshot's reads (locale \<open>ordered_reads\<close>), the
    exported package, and iterating while the system runs on.
  \<^item> \<open>Layout\<close> to \<open>Layout_Theorems\<close>: the node of the default build down to its bytes: the 34-byte union of
    bitmap and inline segment in either byte order and for any pointer size, strings as references into
    allocations, child slots by address arithmetic.  A memory \<open>presents\<close> a store of the pure-safe
    build; every accessor agrees, every operation on nodes is simulated (locale \<open>node_build\<close>, interpreted
    for both builds), and \<open>Get\<close> returns the same.
  \<^item> \<open>Race\<close> to \<open>Race_Theorems\<close>: the lock-free protocol of slots and lazily created leaves with each atomic
    operation a step of its own, for any number of goroutines and every interleaving.
  \<^item> \<open>Write_Frame\<close>, \<open>Txn_Effect\<close>: what one write of a transaction leaves alone and what it records,
    with a tag on every value (\<open>wrote\<close>).  \<open>Leaf_Ids\<close>, \<open>Watch_Slots\<close>, \<open>Sealing\<close>: every slot of the heap is
    sound, and \<open>Notify\<close> returns and seals what was recorded.  \<open>Watch_Inv\<close>: the invariant of watches and
    records in \<open>System\<close>, and the channels a watch has given out (\<open>handed\<close>).
  \<^item> \<open>Tagged_Tree\<close>, \<open>Positions\<close>, \<open>Watch_Spot\<close>: values tagged with the node that held them when a
    transaction began, and the position of a watch's node in the tree.  \<open>Tracking\<close>, \<open>Follow\<close>: a
    transaction followed through a run: every node and value of the tree it started with is still in
    its tree, in its place, or recorded (\<open>tracks\<close>).  \<open>Notify_Exact\<close>: \<open>Notify\<close> closes the channels of
    exactly the recorded watches, and no other step closes any.  \<open>Watch_Theorems\<close>: the promise of watches.
  \<^item> \<open>Exec\<close>, \<open>Layout_Demo\<close>: the definitions run, on the inputs the properties are applied to.  \<open>Bounds\<close>:
    the number of nodes of a tree, size classes, extremal keys, the end of an iteration, and what a
    transaction leaves of trees it does not own.

  \<^bold>\<open>What the lemmas show.\<close>  Reads return what the entries of the tree dictate; a transaction behaves as an
  ordered map for every sequence of operations and never panics, whatever other transactions do; trees
  handed out never change, and every write keeps them compact;
  iterators return the selected values in order while writers, watchers and notifications go on; the
  slot protocol loses no wakeup; the two builds agree.  Watches keep their promise: when a transaction
  changed what \<open>GetWatch\<close> or a prefix lookup returned for the tree it started with, notifying it closes
  the watch's channels, whatever the transaction did before and after and whatever else ran; and only a notification closes a
  channel.

  \<^bold>\<open>Bounds.\<close>  An epoch has 62 bits: the writes of the system are allowed as long as the counter is below
  \<open>epochMask\<close>, that is for \<open>2 ^ 62\<close> epochs.  A child index is at most 255 and an iterator's position fits
  its 16 bits.  Nothing else is bounded: keys, depth and the number of operations are arbitrary.
  No model uses fuel.

  \<^bold>\<open>Stricter than the code.\<close>  \<open>push\<close> takes re-slicing the spill slice beyond its length, but within its
  capacity, for a panic, and \<open>DeletePrefix\<close> with the empty prefix on a nil root that has a notifier
  panics at once, where the code records nil and \<open>Notify\<close> panics on it.  The invariants of stacks and
  transactions exclude both.

  \<^bold>\<open>Not modelled.\<close>  Memory reclamation; data races other than those of the slot protocol, which the
  operations of \<open>System\<close> run atomically; that a watch fires only on changes (a node's watch also fires
  when the node was copied for a change elsewhere below it, which the code allows); the write operations as a whole on the bytes of the default
  build, of which the parts that touch the layout are modelled; package documentation and tests.
\<close>

section \<open>Nodes and labels\<close>

text \<open>C33: \<open>rank\<close> returns the number of labels below the given one, and whether it is present.\<close>

theorem rank_correct: "bm_rank bm l = (card {x \<in> bm_labels bm. x < l}, l \<in> bm_labels bm)"
  by (rule bm_rank_exact)

text \<open>
  C37: recording a label in the bitmap moves the greater labels one position up and nothing else, and
  forgetting it restores every position: the child array and the bitmap stay in step.
\<close>

theorem add_label_positions:
  assumes "\<not> snd (bm_rank bm l)"
  shows "bm_rank (bm_add bm l) m =
      (if l = m then (fst (bm_rank bm l), True)
       else (fst (bm_rank bm m) + (if l < m then 1 else 0), snd (bm_rank bm m))) \<and>
    bm_rank (bm_del (bm_add bm l) l) m = bm_rank bm m"
proof -
  have n: "l \<notin> bm_labels bm" using assms by (simp add: bm_rank_exact)
  have "{x. (x = l \<or> x \<in> bm_labels bm) \<and> x < m} = (if l < m then insert l {x \<in> bm_labels bm. x < m} else {x \<in> bm_labels bm. x < m})"
    by auto
  then show ?thesis using n by (auto simp: bm_rank_exact)
qed

theorem add_label_positions_witness:
  "bm_rank (bm_add (bm_add bm_zero 200) 7) 200 = (fst (bm_rank (bm_add bm_zero 200) 200) + 1, True)"
  using add_label_positions [of "bm_add bm_zero 200" 7 200] by (simp add: bm_rank_exact)

text \<open>C38: \<open>commonPrefixLen\<close> returns the length of the longest common prefix.\<close>

theorem common_prefix_longest:
  "take (commonPrefixLen a b) a = take (commonPrefixLen a b) b \<and> commonPrefixLen a b \<le> min (length a) (length b) \<and>
   (commonPrefixLen a b < min (length a) (length b) \<longrightarrow> a ! commonPrefixLen a b \<noteq> b ! commonPrefixLen a b)"
  using lcp_take [of a b] lcp_le [of a b] lcp_nth [of a b] by (simp add: commonPrefixLen_lcp)

theorem common_prefix_longest_witness: "commonPrefixLen [1, 2, 3] [1, 2, 4] = 2 \<and> [1, 2, 3] ! 2 \<noteq> ([1, 2, 4 :: byte] ! 2)"
  using common_prefix_longest [of "[1, 2, 3]" "[1, 2, 4]"] by (simp add: commonPrefixLen_lcp)



section \<open>Watch slots\<close>

text \<open>
  C30: a channel taken from a slot is open unless the slot was sealed; sealing the slot does not panic
  and closes it, and from then on the slot hands out closed channels only.
\<close>

theorem seal_closes:
  assumes "world_ok w" and "slot_ok w p"
  shows "\<exists>c p1 w1 p2 w2. slot_Chan p w = Some (c, p1, w1) \<and> slot_Seal p1 w1 = Some (p2, w2) \<and>
    (slot_Sealed p \<longleftrightarrow> is_closed w1 c) \<and> is_closed w2 c \<and> slot_Sealed p2 \<and>
    (\<exists>c'. slot_Chan p2 w2 = Some (c', p2, w2) \<and> is_closed w2 c')"
proof -
  obtain c p1 w1 where c: "slot_Chan p w = Some (c, p1, w1)" "world_ok w1" "slot_ok w1 p1" "c \<noteq> None"
    "cell_of w1 p1 = Some c" "slot_Sealed p1 \<longleftrightarrow> slot_Sealed p" "p1 \<noteq> None"
    using slot_Chan_ok [OF assms] by metis
  obtain w2 where w2: "slot_Seal p1 w1 = Some (Some sealedCell, w2)" "world_ok w2"
    "\<And>n. closed w2 n \<longleftrightarrow> closed w1 n \<or> cell_of w1 p1 = Some (Some n)"
    using slot_Seal_ok [OF c(2,3)] by metis
  have "slot_Sealed p \<longleftrightarrow> is_closed w1 c"
    using c world_okD(2,3) [OF c(2)]
    by (auto simp: is_closed_def slot_Sealed_def slot_ok_def cell_of_def split: option.splits)
  moreover have "is_closed w2 c" using c(4,5) w2(3) by (auto simp: is_closed_def)
  moreover have "slot_Sealed (Some sealedCell)" by (simp add: slot_Sealed_def)
  ultimately show ?thesis using c(1) w2(1) slot_Chan_sealed [OF w2(2)] by blast
qed

theorem seal_closes_witness:
  "\<exists>c p1 w1 p2 w2. slot_Chan None init_world = Some (c, p1, w1) \<and> slot_Seal p1 w1 = Some (p2, w2) \<and>
     \<not> is_closed w1 c \<and> is_closed w2 c"
  using seal_closes [OF init_world_ok, of None] by (auto simp: slot_Sealed_def)

section \<open>Transactions are maps\<close>

text \<open>
  C1: any sequence of insertions, deletions, prefix deletions and lookups in a transaction returns what
  a map from keys to values returns, and leaves that map; no operation panics or loops.
\<close>

theorem txn_refines_map:
  assumes "api_good \<sigma>"
  shows "\<exists>\<sigma>'. run api_exec ps \<sigma> = Some (fst (run_map ps (api_view \<sigma>)), \<sigma>') \<and> api_good \<sigma>' \<and>
    api_view \<sigma>' = snd (run_map ps (api_view \<sigma>))"
  by (rule kv_api.run_good [OF assms])

theorem txn_refines_map_witness:
  "\<exists>\<sigma>'. run api_exec [Put [1, 2] (Some 7), Remove [1], Lookup [1, 2]] (demo_txn, snd demo_new) =
     Some ([Value (None, False), Value (None, False), Value (Some 7, True)], \<sigma>')"
  using txn_refines_map [OF demo_start, of "[Put [1, 2] (Some 7), Remove [1], Lookup [1, 2]]"]
  by (auto simp: demo_view_start hit_def simp del: api_view.simps)

text \<open>
  C16: deleting a key that is not there, and cutting a prefix that no key has, changes nothing at all,
  not even the transaction.  The key may be a prefix of other keys, empty or not.
\<close>

theorem delete_miss:
  assumes "api_good (t, s)"
  shows "(api_view (t, s) k = None \<longrightarrow> api_Delete t k s = Some ((None, False), t, s)) \<and>
    (p \<noteq> [] \<and> (\<forall>k. starts k p \<longrightarrow> api_view (t, s) k = None) \<longrightarrow> api_DeletePrefix t p s = Some (False, t, s))"
  using txn_misses [OF assms [unfolded api_good.simps]]
  by (simp add: api_Delete_def api_DeletePrefix_def api_view_txn del: api_view.simps txn_view.simps)

theorem delete_miss_witness:
  "api_Delete (fst demo) [] (snd demo) = Some ((None, False), demo) \<and>
   api_Delete (fst demo) [1, 4] (snd demo) = Some ((None, False), demo) \<and>
   api_DeletePrefix (fst demo) [1, 4] (snd demo) = Some (False, demo)"
proof -
  have g: "api_good (fst demo, snd demo)" using demo_good by simp
  have none: "api_view (fst demo, snd demo) k = None" if "k \<notin> {[1], [1, 2], [1, 3]}" for k
    using that demo_view by (auto simp del: api_view.simps)
  have "k \<notin> {[1], [1, 2], [1, 3]}" if "starts k [1, 4]" for k using that by (auto simp: starts_def)
  then have "\<forall>k. starts k [1, 4] \<longrightarrow> api_view (fst demo, snd demo) k = None" using none by blast
  then show ?thesis
    using delete_miss [OF g, of "[]" "[1, 4]"] delete_miss [OF g, of "[1, 4]" "[1, 4]"] none [of "[]"] none [of "[1, 4]"]
    by (simp del: api_view.simps)
qed

section \<open>Reading a snapshot\<close>

text \<open>C14: the queries of a tree that holds the entries \<open>es\<close>: \<open>Get\<close> finds exactly the entries.\<close>

theorem get_exact:
  assumes "holds s t es"
  shows "api_Get s t k = Some (case map_of es k of None \<Rightarrow> (None, False) | Some v \<Rightarrow> (v, True))"
  using snap.get_law [OF assms, of k] by (simp add: hit_def)

theorem get_exact_witness: "api_Get (snd demo) demo_tree [1, 3] = Some (Some 8, True) \<and> api_Get (snd demo) demo_tree [1, 4] = Some (None, False)"
  using get_exact [OF demo_holds, of "[1, 3]"] get_exact [OF demo_holds, of "[1, 4]"] by simp

text \<open>
  C15: \<open>GetWatch\<close> answers like \<open>Get\<close>; the watch of a hit is on the node that holds the key's value, the
  watch of a miss on a node.
\<close>

theorem get_watch:
  assumes "holds s t es"
  shows "\<exists>w. api_GetWatch s t k = Some (w, case map_of es k of None \<Rightarrow> (None, False) | Some v \<Rightarrow> (v, True)) \<and>
    (case map_of es k of
       None \<Rightarrow> \<exists>n. w_of w = \<lparr>slot_of = Some n, value_of = None\<rparr> \<and> n < next_node s
     | Some v \<Rightarrow> \<exists>n. w_of w = \<lparr>slot_of = None, value_of = Some n\<rparr> \<and> hasValue (nodes s n) \<and> val (nodes s n) = v)"
proof -
  obtain g :: "unit gtree" where g: "rtree_of t = Some (ad g)" "tree_ok s g" "contents s g = es" using holdsE [OF assms] .
  have "n < next_node s" if "n \<in> set (addrs g)" for n using rep_bound [OF tree_okD(1) [OF g(2)] that] .
  then show ?thesis
    using GetWatch_spec [OF g(2), of k] g(1,3)
    by (fastforce simp: api_GetWatch_def hit_def value_at_Some split: option.splits)
qed

theorem get_watch_witness:
  "\<exists>w n. api_GetWatch (snd demo) demo_tree [1, 3] = Some (w, Some 8, True) \<and> value_of (w_of w) = Some n \<and> val (nodes (snd demo) n) = Some 8"
  using get_watch [OF demo_holds, of "[1, 3]"] by auto

text \<open>C26: \<open>LongestPrefix\<close> returns the value of the longest stored key that is a prefix of the query.\<close>

theorem longest_prefix:
  assumes "holds s t es"
  shows "(\<exists>p v. api_LongestPrefix s t k = Some (v, True) \<and> (p, v) \<in> set es \<and> starts k p \<and>
      (\<forall>e \<in> set es. starts k (fst e) \<longrightarrow> length (fst e) \<le> length p)) \<or>
    api_LongestPrefix s t k = Some (None, False) \<and> (\<forall>e \<in> set es. \<not> starts k (fst e))"
proof (cases "filter (\<lambda>e. starts k (fst e)) es = []")
  case True
  then show ?thesis using snap.longest_law [OF assms, of k] none_left [OF True] by (simp add: final_or_def first_or_def)
next
  case False
  note final_or_max [where P = "starts k", OF snap.sorted_law [OF assms] False]
  then show ?thesis using snap.longest_law [OF assms, of k] prefixes_ordered [of k]
    by (intro disjI1) (metis (no_types, lifting))
qed

theorem longest_prefix_witness: "\<exists>p v. api_LongestPrefix (snd demo) demo_tree [1, 2, 5] = Some (v, True) \<and> (p, v) \<in> set demo_es \<and> length p = 2"
  using longest_prefix [OF demo_holds, of "[1, 2, 5]"] by (auto simp: starts_def)

text \<open>
  C18: \<open>FirstPrefix\<close> and \<open>LastPrefix\<close> return the values of the smallest and of the greatest key with the
  prefix, in bytewise order.
\<close>

theorem prefix_extremes:
  assumes "holds s t es"
  shows "(\<exists>w w' k v k' v'. api_FirstPrefix s t p = Some (w, v, True) \<and> api_LastPrefix s t p = Some (w', v', True) \<and>
      (k, v) \<in> set es \<and> (k', v') \<in> set es \<and> starts k p \<and> starts k' p \<and>
      (\<forall>e \<in> set es. starts (fst e) p \<longrightarrow> k \<le> fst e \<and> fst e \<le> k')) \<or>
    (\<exists>w w'. api_FirstPrefix s t p = Some (w, None, False) \<and> api_LastPrefix s t p = Some (w', None, False)) \<and>
      (\<forall>e \<in> set es. \<not> starts (fst e) p)"
proof (cases "filter (\<lambda>e. starts (fst e) p) es = []")
  case True
  then show ?thesis using snap.fst_law [OF assms, of p] snap.lst_law [OF assms, of p] none_left [OF True]
    by (auto simp: final_or_def first_or_def)
next
  case False
  note so = snap.sorted_law [OF assms]
  obtain w w' where w: "api_FirstPrefix s t p = Some (w, first_or (map snd (filter (\<lambda>e. starts (fst e) p) es)))"
    "api_LastPrefix s t p = Some (w', final_or (map snd (filter (\<lambda>e. starts (fst e) p) es)))"
    using snap.fst_law [OF assms, of p] snap.lst_law [OF assms, of p] by blast
  note first_or_min [where P = "\<lambda>k. starts k p", OF so False] and final_or_max [where P = "\<lambda>k. starts k p", OF so False]
  then show ?thesis unfolding w by (intro disjI1) (elim exE conjE, simp, blast)
qed

theorem prefix_extremes_witness: "\<exists>w v. api_FirstPrefix (snd demo) demo_tree [1] = Some (w, v, True)"
  using prefix_extremes [OF demo_holds, of "[1]"] by auto

text \<open>C34: \<open>Len\<close> returns the number of keys that \<open>Get\<close> finds.\<close>

theorem len_counts:
  assumes "holds s t es"
  shows "api_Len s t = Some (card {k. \<exists>v. api_Get s t k = Some (v, True)})"
  by (rule snap.len_found [OF assms])

theorem len_counts_witness: "api_Len (snd demo) demo_tree = Some 3"
  unfolding len_counts [OF demo_holds] using snap.len_found [OF demo_holds] snap.len_law [OF demo_holds] by simp

section \<open>Snapshots among concurrent writers\<close>

text \<open>
  C10: in every reachable state of a system of interleaved transactions, watchers and notifications, a
  tree that was handed out is well-formed: it holds a sorted list of entries.
\<close>

theorem reachable_trees:
  assumes "reachable y" and "rtree_of t \<in> shared y"
  shows "\<exists>es. holds (heap y) t es \<and> sorted_wrt (<) (map fst es)"
proof -
  obtain g :: "unit gtree" where "rtree_of t = Some (ad g)" "tree_ok (heap y) g"
    using sys_invD(2) [OF reachable_inv [OF assms(1)] assms(2)] by (auto simp: shared_ok_def)
  then have "holds (heap y) t (contents (heap y) g)" by (auto simp: holds_def)
  then show ?thesis using snap.sorted_law by blast
qed

theorem reachable_trees_witness: "\<exists>es. holds (heap demo_sys) demo_tree es \<and> sorted_wrt (<) (map fst es)"
  by (rule reachable_trees [OF demo_reachable demo_shared])

text \<open>
  C35: path compression is kept by every write: in every reachable state a tree that was handed out, and
  the tree of every running transaction, has at most twice as many nodes as \<open>Len\<close> counts keys, and the
  empty tree is a single node.
\<close>

theorem compact_tree:
  assumes "reachable y" and "rtree_of t \<in> shared y \<or> (\<exists>i T. live y i = Some T \<and> rtree_of t = TxnTree T)"
  shows "\<exists>n. api_Len (heap y) t = Some n \<and> finite (tree_nodes (heap y) (rtree_of t)) \<and>
    card (tree_nodes (heap y) (rtree_of t)) \<le> (if n = 0 then 1 else 2 * n)"
proof -
  note y = reachable_inv [OF assms(1)]
  obtain g :: "unit gtree" where g: "rtree_of t = Some (ad g)" "tree_ok (heap y) g"
  proof (cases "rtree_of t \<in> shared y")
    case True
    then show ?thesis using sys_invD(2) [OF y] that by (auto simp: shared_ok_def)
  next
    case False
    then obtain i T where "live y i = Some T" "rtree_of t = TxnTree T" using assms(2) by blast
    then show ?thesis using sys_invD(3) [OF y] that by (fastforce simp: live_ok_def TxnTree_def dest: txn_okD)
  qed
  then show ?thesis using tree_nodes_le [OF g(2)] by (auto simp: api_Len_def)
qed

theorem compact_tree_witness: "card (tree_nodes (heap demo_sys) (rtree_of demo_tree)) \<le> 6"
  using compact_tree [OF demo_reachable, of demo_tree] demo_shared snap.len_law [OF demo_at_sys] by simp

text \<open>C3: persistence: whatever happens afterwards, a tree that was handed out holds the same entries.\<close>

theorem snapshot_persists:
  assumes "reachable y" and "steps y z" and "rtree_of t \<in> shared y" and "holds (heap y) t es"
  shows "holds (heap z) t es"
proof -
  obtain g :: "unit gtree" where g: "rtree_of t = Some (ad g)" "tree_ok (heap y) g" "tree_ok (heap z) g"
    "contents (heap z) g = contents (heap y) g"
    using shared_persists [OF reachable_inv [OF assms(1)] assms(2,3)] by metis
  then show ?thesis using holds_contents [OF assms(4) g(1,2)] by (auto simp: holds_def)
qed

theorem snapshot_persists_witness: "holds (heap demo_later) demo_tree demo_es"
  by (rule snapshot_persists [OF demo_reachable demo_later_steps demo_shared]) (use demo_holds in \<open>simp add: demo_sys_def\<close>)

text \<open>C6: in every reachable state each operation of each running transaction returns.\<close>

theorem writers_never_panic:
  assumes "reachable y" and "live y i = Some T" and "tepoch T = 0 \<longrightarrow> epochCounter (heap y) < epochMask"
  shows "\<exists>r T' h. txn_exec p (T, heap y) = Some (r, T', h) \<and> step y (y\<lparr>heap := h, live := (live y)(i \<mapsto> T')\<rparr>)"
proof -
  obtain r T' h where "txn_exec p (T, heap y) = Some (r, T', h)"
    using write_returns [OF reachable_inv [OF assms(1)] assms(2,3), of p] by (cases "txn_exec p (T, heap y)") auto
  then show ?thesis using s_write [OF assms(2,3)] by blast
qed

theorem writers_never_panic_witness:
  "\<exists>y T r T' h. live y 0 = Some T \<and> txn_exec (Cut [1]) (T, heap (y :: nat sys)) = Some (r, T', h) \<and> reachable y"
proof -
  let ?y = "demo_sys\<lparr>live := (live demo_sys)(0 \<mapsto> StartTxn (rtree_of demo_tree) (Some 0))\<rparr>"
  have "step demo_sys ?y" by (rule s_start [OF demo_shared]) (simp add: demo_sys_def)
  then have r: "reachable ?y" using demo_reachable unfolding reachable_def steps_def by (meson rtranclp.rtrancl_into_rtrancl)
  moreover have "live ?y 0 = Some (StartTxn (rtree_of demo_tree) (Some 0))" by simp
  moreover have "epochCounter (heap ?y) < epochMask" by (simp add: demo_sys_def demo_epoch epochMask_def valueBit_def)
  ultimately show ?thesis using writers_never_panic [of ?y 0 "StartTxn (rtree_of demo_tree) (Some 0)" "Cut [1]"] by blast
qed

text \<open>
  C17: transactions are isolated: whatever one running transaction does, every other running transaction
  reads what it read before, and any operations it goes on with return what they would have returned.
\<close>

theorem txn_isolated:
  assumes "reachable y" and "live y i = Some T" and "live y j = Some U" and "i \<noteq> j"
    and "tepoch U = 0 \<longrightarrow> epochCounter (heap y) < epochMask"
    and "run txn_exec ps (U, heap y) = Some (rs, U', h)" and "tepoch T = 0 \<longrightarrow> epochCounter h < epochMask"
  shows "Get h (TxnTree T) k = Get (heap y) (TxnTree T) k \<and>
    (\<exists>out T1 h1 T2 h2. run txn_exec qs (T, h) = Some (out, T1, h1) \<and> run txn_exec qs (T, heap y) = Some (out, T2, h2))"
proof -
  note y = reachable_inv [OF assms(1)]
  obtain g :: "unit gtree" where g: "txn_ok T (heap y) g" "txn_ok T h g" "epochs_ok h"
    "contents h g = contents (heap y) g" "epochCounter (heap y) \<le> epochCounter h"
    by (rule run_other [OF y assms(2-6)])
  have v: "txn_view (T, h) = txn_view (T, heap y)" using txn_view_contents [OF g(1)] txn_view_contents [OF g(2)] g(4) by simp
  have "txn_good (T, h)" "txn_good (T, heap y)" using g sys_invD(1) [OF y] assms(7) by (auto dest: le_less_trans)
  from kv_txn.run_good [OF this(1), of qs] kv_txn.run_good [OF this(2), of qs] have
    "\<exists>out T1 h1 T2 h2. run txn_exec qs (T, h) = Some (out, T1, h1) \<and> run txn_exec qs (T, heap y) = Some (out, T2, h2)"
    unfolding v by (auto simp del: txn_good.simps txn_view.simps)
  moreover have "Get h (TxnTree T) k = Get (heap y) (TxnTree T) k"
    using Get_spec [OF txn_okD(2) [OF g(1)], of k] Get_spec [OF txn_okD(2) [OF g(2)], of k] txn_okD(1) [OF g(1)] g(4)
    by (simp add: TxnTree_def)
  ultimately show ?thesis by blast
qed

theorem txn_isolated_witness:
  "\<exists>U h. run txn_exec [Cut [1]] (StartTxn (rtree_of demo_tree) (Some 0), snd demo) = Some ([Flag True], U, h) \<and>
     Get h (rtree_of demo_tree) [1, 2] = Get (snd demo) (rtree_of demo_tree) [1, 2]"
proof -
  let ?S = "StartTxn (rtree_of demo_tree) (Some 0)" and ?T = "StartTxn (rtree_of demo_tree) None"
  let ?x = "demo_sys\<lparr>live := (live demo_sys)(1 \<mapsto> ?S)\<rparr>"
  let ?y = "?x\<lparr>live := (live ?x)(0 \<mapsto> ?T)\<rparr>"
  have "step demo_sys ?x" "step ?x ?y" by (rule s_start; use demo_shared in \<open>simp add: demo_sys_def\<close>)+
  then have r: "reachable ?y" using demo_reachable reachable_step by blast
  have l: "live ?y 0 = Some ?T" "live ?y 1 = Some ?S" by simp_all
  have hy: "heap ?y = snd demo" by (simp add: demo_sys_def)
  obtain g :: "unit gtree" where g: "txn_ok ?S (heap ?y) g" using sys_invD(3) [OF reachable_inv [OF r] l(2)] by (auto simp: live_ok_def)
  have room: "epochCounter (heap ?y) < epochMask" unfolding hy by (simp add: demo_epoch epochMask_def valueBit_def)
  have "Get (snd demo) (rtree_of demo_tree) k = Some (hit (map_of demo_es k))" for k
    using snap.get_law [OF demo_holds, of k] unfolding api_Get_def .
  then have v: "txn_view (?S, heap ?y) = map_of demo_es"
    unfolding hy fun_eq_iff by (simp add: TxnTree_def StartTxn_def del: map_of.simps)
  have "txn_good (?S, heap ?y)" using g room sys_invD(1) [OF reachable_inv [OF r]] by auto
  from kv_txn.run_good [OF this, of "[Cut [1]]"] obtain U h where
    u: "run txn_exec [Cut [1]] (?S, heap ?y) = Some (fst (run_map [Cut [1]] (map_of demo_es)), U, h)"
    unfolding v by (auto simp del: txn_good.simps txn_view.simps)
  then have "\<exists>x. txn_exec (Cut [1]) (?S, heap ?y) = Some (x, U, h)" by (auto split: Option.bind_splits)
  then have "epochCounter h \<in> {1, 2}"
    using write_world [OF reachable_inv [OF r] l(2)] room unfolding hy demo_epoch by fastforce
  then have "epochCounter h < epochMask" by (auto simp: epochMask_def valueBit_def)
  then have "Get h (TxnTree ?T) [1, 2] = Get (heap ?y) (TxnTree ?T) [1, 2]" using txn_isolated [OF r l _ _ u] room by simp
  moreover have "fst (run_map [Cut [1]] (map_of demo_es)) = [Flag True]" by (auto simp: starts_def)
  ultimately show ?thesis using u unfolding hy by (simp add: TxnTree_def StartTxn_def)
qed

text \<open>
  C5: copy on write: a transaction that was just started or frozen never changes a tree that exists at
  that moment, its own included, whatever it does afterwards.
\<close>

theorem freeze_protects:
  assumes "api_good (api_Freeze t, s)" and "run api_exec ps (api_Freeze t, s) = Some (rs, t', s')" and "holds s r es"
  shows "holds s' r es"
proof -
  obtain T' where "run txn_exec ps (txn_of (api_Freeze t), s) = Some (rs, T', s')"
    using assms(2) unfolding run_api by auto
  moreover have "tepoch (txn_of (api_Freeze t)) = 0" by (simp add: api_Freeze_def Freeze_def)
  ultimately show ?thesis using frozen_keeps [OF assms(1) [unfolded api_good.simps]] assms(3) by blast
qed

theorem freeze_protects_witness:
  "\<exists>rs t' s'. run api_exec [Cut [1]] (api_Freeze (fst demo), snd demo) = Some (rs, t', s') \<and> holds s' demo_tree demo_es"
proof -
  obtain rs t' s' where r: "run api_exec [Cut [1]] (api_Freeze (fst demo), snd demo) = Some (rs, t', s')"
    using kv_api.run_good [OF demo_frozen_good, of "[Cut [1]]"] by (metis prod.collapse)
  from freeze_protects [OF demo_frozen_good r demo_holds] r show ?thesis by blast
qed

text \<open>C29: a write in a transaction without an epoch draws one that no existing node carries.\<close>

theorem fresh_epoch:
  assumes "epochs_ok s" and "tepoch t = 0" and "epochCounter s < epochMask" and "begin_txn t s = (t1, s1)"
  shows "tepoch t1 \<noteq> 0 \<and> epochs_ok s1 \<and> (\<forall>a < next_node s1. \<not> owns t1 (nodes s1 a))"
proof -
  note e = next_epoch [OF assms(3)]
  have b: "tepoch t1 = epochCounter s + 1" "s1 = s\<lparr>epochCounter := epochCounter s + 1\<rparr>"
    using assms(2,4) by (auto simp: begin_txn_def)
  then show ?thesis using assms(1) e by (fastforce simp: epochs_ok_def owns_def)
qed

theorem fresh_epoch_witness:
  "\<not> owns (fst (begin_txn (txn_of demo_txn) (snd demo_new))) (nodes (snd demo_new) 0) \<and>
    tepoch (fst (begin_txn (txn_of demo_txn) (snd demo_new))) \<noteq> 0"
proof -
  obtain t1 s1 where b: "begin_txn (txn_of demo_txn) (snd demo_new) = (t1, s1)" by fastforce
  have e: "tepoch (txn_of demo_txn) = 0" by (simp add: demo_txn_def api_Txn_def StartTxn_def)
  have "next_node (snd demo_new) = 1" by code_simp
  then have "next_node s1 = 1" "nodes s1 = nodes (snd demo_new)" using b e by (auto simp: begin_txn_def)
  moreover have "epochCounter (snd demo_new) < epochMask" by (simp add: demo_new_ok(3) epochMask_def valueBit_def)
  ultimately show ?thesis using fresh_epoch [OF demo_new_ok(2) e _ b] b by simp
qed

text \<open>
  C13: a notification empties its notifier and changes no tree: it only closes channels, so readers of
  older trees are not disturbed.
\<close>

theorem notify_keeps_trees:
  assumes "reachable y" and "api_Notify n (heap y) = Some h" and "holds (heap y) t es"
  shows "holds h t es \<and> pending (n_of n) h = 0"
proof -
  note nf = Notify_same [OF assms(2) [unfolded api_Notify_def] sys_invD(6) [OF reachable_inv [OF assms(1)]]]
  show ?thesis using reads_same_holds [OF nf(1) assms(3)] nf(2) by (simp add: pending_def zero_notifier_def)
qed

theorem notify_keeps_trees_witness:
  "\<exists>h. api_Notify \<lparr>n_of = 0\<rparr> (heap demo_sys) = Some h \<and> holds h demo_tree demo_es"
  using demo_notify notify_keeps_trees [OF demo_reachable _ demo_at_sys] by metis

section \<open>Iterators\<close>

text \<open>
  C8: an iterator positioned by \<open>SeekLowerBound\<close> on a tree that was handed out returns the values of all
  keys from the bound on, in ascending order, and then reports the end, also when writers change and
  publish other trees between the calls.
\<close>

theorem iterate_from:
  assumes "reachable y" and "rtree_of t \<in> shared y" and "holds (heap y) t es" and "iter_ok it"
    and "chain (y # ys)" and "length (all_of (\<lambda>x. k \<le> x) es) \<le> length ys"
  shows "\<exists>it'. api_SeekLowerBound (heap y) it t k = Some it' \<and>
    collect api_Next (map heap (y # ys)) it' = Some (all_of (\<lambda>x. k \<le> x) es)"
proof -
  obtain g :: "unit gtree" where g: "rtree_of t = Some (ad g)" "tree_ok (heap y) g" "contents (heap y) g = es"
    and ag: "\<And>i. Suc i < length (y # ys) \<Longrightarrow> agree (set (addrs g)) (heap ((y # ys) ! i)) (heap ((y # ys) ! Suc i))"
    by (rule shared_chain [OF assms(1-3,5)]) (rule that)
  obtain it' where "api_SeekLowerBound (heap y) it t k = Some it'" "fiter (set (addrs g)) (heap y) it' (all_of (\<lambda>x. k \<le> x) es)"
    using seek_lower [OF g(2,1) assms(4), of k] g(3) by metis
  then show ?thesis using collect_on_chain(1) [OF ag assms(6)] by blast
qed

theorem iterate_from_witness:
  "\<exists>it. api_SeekLowerBound (heap demo_sys) zero_iter demo_tree [1, 1] = Some it \<and>
     collect api_Next [heap demo_sys, heap demo_later, heap demo_later] it = Some [Some 7, Some 8]"
  using iterate_from [OF demo_reachable demo_shared demo_at_sys zero_iter_ok(1), of "[demo_later, demo_later]" "[1, 1]"]
    demo_later_steps by simp

text \<open>C27: an iterator positioned by \<open>SeekPrefixWatch\<close> returns the values of the keys with the prefix, ascending.\<close>

theorem iterate_prefix:
  assumes "reachable y" and "rtree_of t \<in> shared y" and "holds (heap y) t es" and "iter_ok it"
    and "chain (y # ys)" and "length (all_of (\<lambda>x. starts x p) es) \<le> length ys"
  shows "\<exists>w it'. api_SeekPrefixWatch (heap y) it t p = Some (w, it') \<and>
    collect api_Next (map heap (y # ys)) it' = Some (all_of (\<lambda>x. starts x p) es)"
proof -
  obtain g :: "unit gtree" where g: "rtree_of t = Some (ad g)" "tree_ok (heap y) g" "contents (heap y) g = es"
    and ag: "\<And>i. Suc i < length (y # ys) \<Longrightarrow> agree (set (addrs g)) (heap ((y # ys) ! i)) (heap ((y # ys) ! Suc i))"
    by (rule shared_chain [OF assms(1-3,5)]) (rule that)
  obtain w it' where "api_SeekPrefixWatch (heap y) it t p = Some (w, it')"
    "fiter (set (addrs g)) (heap y) it' (all_of (\<lambda>x. starts x p) es)"
    using seek_prefix [OF g(2,1) assms(4), of p] g(3) by metis
  then show ?thesis using collect_on_chain(1) [OF ag assms(6)] by blast
qed

theorem iterate_prefix_witness:
  "\<exists>w it. api_SeekPrefixWatch (heap demo_sys) zero_iter demo_tree [1, 3] = Some (w, it) \<and>
     collect api_Next [heap demo_sys, heap demo_later] it = Some [Some 8]"
  using iterate_prefix [OF demo_reachable demo_shared demo_at_sys zero_iter_ok(1), of "[demo_later]" "[1, 3]"]
    demo_later_steps by (simp add: starts_def)

text \<open>
  C9: a reverse iterator positioned by \<open>SeekReverseLowerBound\<close> returns the values of all keys up to the
  bound in descending order, under the same interference.
\<close>

theorem iterate_back_from:
  assumes "reachable y" and "rtree_of t \<in> shared y" and "holds (heap y) t es" and "riter_ok it"
    and "chain (y # ys)" and "length (all_of (\<lambda>x. x \<le> k) es) \<le> length ys"
  shows "\<exists>it'. api_SeekReverseLowerBound (heap y) it t k = Some it' \<and>
    collect api_Previous (map heap (y # ys)) it' = Some (rev (all_of (\<lambda>x. x \<le> k) es))"
proof -
  obtain g :: "unit gtree" where g: "rtree_of t = Some (ad g)" "tree_ok (heap y) g" "contents (heap y) g = es"
    and ag: "\<And>i. Suc i < length (y # ys) \<Longrightarrow> agree (set (addrs g)) (heap ((y # ys) ! i)) (heap ((y # ys) ! Suc i))"
    by (rule shared_chain [OF assms(1-3,5)]) (rule that)
  obtain it' where "api_SeekReverseLowerBound (heap y) it t k = Some it'"
    "riter (set (addrs g)) (heap y) it' (rev (all_of (\<lambda>x. x \<le> k) es))"
    using rseek_lower [OF g(2,1) assms(4), of k] g(3) by metis
  then show ?thesis using collect_on_chain(2) [OF ag, of "rev (all_of (\<lambda>x. x \<le> k) es)"] assms(6) by auto
qed

theorem iterate_back_from_witness:
  "\<exists>it. api_SeekReverseLowerBound (heap demo_sys) zero_riter demo_tree [1, 2, 9] = Some it \<and>
     collect api_Previous [heap demo_sys, heap demo_later, heap demo_later] it = Some [Some 7, Some 9]"
  using iterate_back_from [OF demo_reachable demo_shared demo_at_sys zero_iter_ok(2), of "[demo_later, demo_later]" "[1, 2, 9]"]
    demo_later_steps by simp

text \<open>C28: the same for the reverse iterator over a prefix.\<close>

theorem iterate_back_prefix:
  assumes "reachable y" and "rtree_of t \<in> shared y" and "holds (heap y) t es" and "riter_ok it"
    and "chain (y # ys)" and "length (all_of (\<lambda>x. starts x p) es) \<le> length ys"
  shows "\<exists>w it'. api_ReverseSeekPrefixWatch (heap y) it t p = Some (w, it') \<and>
    collect api_Previous (map heap (y # ys)) it' = Some (rev (all_of (\<lambda>x. starts x p) es))"
proof -
  obtain g :: "unit gtree" where g: "rtree_of t = Some (ad g)" "tree_ok (heap y) g" "contents (heap y) g = es"
    and ag: "\<And>i. Suc i < length (y # ys) \<Longrightarrow> agree (set (addrs g)) (heap ((y # ys) ! i)) (heap ((y # ys) ! Suc i))"
    by (rule shared_chain [OF assms(1-3,5)]) (rule that)
  obtain w it' where "api_ReverseSeekPrefixWatch (heap y) it t p = Some (w, it')"
    "riter (set (addrs g)) (heap y) it' (rev (all_of (\<lambda>x. starts x p) es))"
    using rseek_prefix [OF g(2,1) assms(4), of p] g(3) by metis
  then show ?thesis using collect_on_chain(2) [OF ag, of "rev (all_of (\<lambda>x. starts x p) es)"] assms(6) by auto
qed

theorem iterate_back_prefix_witness:
  "\<exists>w it. api_ReverseSeekPrefixWatch (heap demo_sys) zero_riter demo_tree [1] = Some (w, it) \<and>
     collect api_Previous [heap demo_sys, heap demo_later, heap demo_later, heap demo_later] it = Some [Some 8, Some 7, Some 9]"
  using iterate_back_prefix [OF demo_reachable demo_shared demo_at_sys zero_iter_ok(2), of "[demo_later, demo_later, demo_later]" "[1]"]
    demo_later_steps by (simp add: starts_def)

text \<open>
  C36: the traversal stack is a stack at any depth, in the inline frames and beyond: what was pushed is
  on top, and popping it restores the frames below; pushing never panics.
\<close>

theorem stack_push_pop:
  assumes "stack_ok st"
  shows "\<exists>st'. push n i st = Some st' \<and> stack_ok st' \<and> top_frame st' = Some (n, word_of_int i) \<and>
    stack_ok (pop st') \<and> frames (pop st') = frames st"
  using stk.pushE [OF assms, of n i] stk.top_push [OF assms] stk.pop_push [OF assms] by metis

theorem stack_push_pop_witness: "\<exists>st'. push 5 3 zero_stack = Some st' \<and> top_frame st' = Some (5, 3) \<and> frames (pop st') = []"
  using stack_push_pop [OF zero_stack_ok(1), of 5 3] zero_stack_ok(2) by auto

text \<open>
  C40: the end of an iteration is final: once \<open>Next\<close> or \<open>Previous\<close> has reported the end, with a nil value,
  every later call on that iterator reports the end again and leaves the iterator as it is, whatever
  happened to the heap in between.  An iterator that was never positioned is at the end.
\<close>

theorem exhausted_iterator:
  fixes s s' :: "'v store"
  shows "(api_Next s it = Some ((v, False), it') \<longrightarrow> v = None \<and> api_Next s' it' = Some ((None, False), it')) \<and>
    (api_Previous s rit = Some ((v, False), rit') \<longrightarrow> v = None \<and> api_Previous s' rit' = Some ((None, False), rit')) \<and>
    api_Next s zero_iter = Some ((None, False), zero_iter) \<and> api_Previous s zero_riter = Some ((None, False), zero_riter)"
  using Next_end [of s "iter_of it"] Previous_end [of s "riter_of rit"]
  by (auto simp: api_Next_def api_Previous_def ended_def zero_iter_def zero_riter_def zero_stack_def Next_empty Previous_empty
      split: Option.bind_splits)

theorem exhausted_iterator_witness:
  "\<exists>it it1 it2. api_SeekLowerBound (snd demo) zero_iter demo_tree [1, 3] = Some it \<and>
     api_Next (snd demo) it = Some ((Some 8, True), it1) \<and> api_Next (snd demo) it1 = Some ((None, False), it2) \<and>
     api_Next (snd demo_new) it2 = Some ((None, False), it2)"
proof -
  obtain it it1 it2 where "api_SeekLowerBound (snd demo) zero_iter demo_tree [1, 3] = Some it"
    "api_Next (snd demo) it = Some ((Some 8, True), it1)" "api_Next (snd demo) it1 = Some ((None, False), it2)"
    by (rule demo_end)
  then show ?thesis using exhausted_iterator [of "snd demo" it1 None it2 "snd demo_new"] by blast
qed

end
